(* ===== verification/Bodos_Prelude.thy ===== *)
theory Bodos_Prelude
  imports "HOL-Library.Word" "HOL-Library.Multiset" "HOL-Library.Signed_Division"
begin

text \<open>
  Shared vocabulary of the bodos development: the machine integer types of the i386 target, the
  faults a piece of kernel code can end in, checked array accesses, and the generic lemmas on
  results, lists and words that the component theories use.
\<close>

section \<open>Machine types\<close>

text \<open>
  The kernel is compiled for \<^verbatim>\<open>i386\<close>: \<^verbatim>\<open>size_t\<close>, \<^verbatim>\<open>unsigned int\<close> and pointers are 32 bits wide. A
  pointer is its address; \<^verbatim>\<open>NULL\<close> is address 0.
\<close>

type_synonym u8 = "8 word"
type_synonym u16 = "16 word"
type_synonym u32 = "32 word"
type_synonym u64 = "64 word"
type_synonym addr = "32 word"

abbreviation NULL :: addr where
  "NULL \<equiv> 0"

section \<open>Results and faults\<close>

text \<open>
  What can happen instead of a normal return: \<open>Hang\<close> is an endless loop (\<^verbatim>\<open>while(1);\<close>, the macro
  \<^verbatim>\<open>HALT\<close>, or a loop that never leaves its guard), \<open>NullAccess\<close> a read or write through \<^verbatim>\<open>NULL\<close>,
  \<open>OutOfBounds\<close> an array access outside the array, \<open>UninitRead\<close> the use of a variable that was never
  assigned, \<open>DivByZero\<close> a division by zero and \<open>MissingArg\<close> a \<^verbatim>\<open>va_arg\<close> with no argument left.
\<close>

datatype fault = Hang | NullAccess | OutOfBounds | UninitRead | DivByZero | MissingArg

type_synonym 'a result = "fault + 'a"

definition rbind :: "'a result \<Rightarrow> ('a \<Rightarrow> 'b result) \<Rightarrow> 'b result" where
  "rbind r f = (case r of Inl e \<Rightarrow> Inl e | Inr x \<Rightarrow> f x)"

named_theorems access_simps \<open>checked array accesses that are in range\<close>
named_theorems word_nat \<open>word operations read as operations on natural numbers\<close>

lemma rbind_simps [simp]:
  "rbind (Inl e) f = Inl e" "rbind (Inr x) f = f x"
  by (simp_all add: rbind_def)

lemma rbind_assoc: "rbind (rbind r f) g = rbind r (\<lambda>x. rbind (f x) g)"
  by (cases r) auto

lemma rbind_Inr_iff: "rbind r f = Inr y \<longleftrightarrow> (\<exists>x. r = Inr x \<and> f x = Inr y)"
  by (cases r) auto

lemma rbind_InrE:
  assumes "rbind r f = Inr y"
  obtains x where "r = Inr x" "f x = Inr y"
  using assms by (auto simp: rbind_Inr_iff)

lemma rbind_cong [fundef_cong]:
  assumes "r = r'" and "\<And>x. r' = Inr x \<Longrightarrow> f x = f' x"
  shows "rbind r f = rbind r' f'"
  using assms by (cases r') auto

text \<open>
  A computation that returns, with a result that satisfies \<open>P\<close>. The rules let a proof follow a straight-line test from
  statement to statement.
\<close>

definition yields :: "'a result \<Rightarrow> ('a \<Rightarrow> bool) \<Rightarrow> bool" where
  "yields r P = (case r of Inl e \<Rightarrow> False | Inr x \<Rightarrow> P x)"

lemma yields_simps [simp]:
  "yields (Inl e) P = False" "yields (Inr x) P = P x"
  "yields (rbind r f) P = yields r (\<lambda>x. yields (f x) P)"
  by (cases r; simp add: yields_def)+

lemma yields_iff: "yields r P \<longleftrightarrow> (\<exists>x. r = Inr x \<and> P x)"
  by (cases r) auto

lemma yields_weaken: "yields r P \<Longrightarrow> (\<And>x. P x \<Longrightarrow> Q x) \<Longrightarrow> yields r Q"
  by (auto simp: yields_iff)

section \<open>Checked arrays\<close>

text \<open>
  A C array with its length: reading or writing at an \<^verbatim>\<open>int\<close> index outside it is a fault of the model
  instead of whatever the machine would do.
\<close>

definition rd :: "'a list \<Rightarrow> int \<Rightarrow> 'a result" where
  "rd xs i = (if 0 \<le> i \<and> i < int (length xs) then Inr (xs ! nat i) else Inl OutOfBounds)"

definition wr :: "'a list \<Rightarrow> int \<Rightarrow> 'a \<Rightarrow> 'a list result" where
  "wr xs i v = (if 0 \<le> i \<and> i < int (length xs) then Inr (xs[nat i := v]) else Inl OutOfBounds)"

lemma rd_nat [access_simps]: "i < length xs \<Longrightarrow> rd xs (int i) = Inr (xs ! i)"
  by (simp add: rd_def)

lemma wr_nat [access_simps]: "i < length xs \<Longrightarrow> wr xs (int i) v = Inr (xs[i := v])"
  by (simp add: wr_def)

lemma rd_wr_0 [access_simps]:
  "n < length xs \<Longrightarrow> rd xs 0 = Inr (xs ! 0)" "n < length xs \<Longrightarrow> wr xs 0 v = Inr (xs[0 := v])"
  by (auto simp: rd_def wr_def)

lemma rd_Inr_iff: "rd xs i = Inr v \<longleftrightarrow> (0 \<le> i \<and> i < int (length xs) \<and> v = xs ! nat i)"
  by (auto simp: rd_def)

lemma wr_Inr_iff: "wr xs i v = Inr ys \<longleftrightarrow> (0 \<le> i \<and> i < int (length xs) \<and> ys = xs[nat i := v])"
  by (auto simp: wr_def)

lemma wr_length: "wr xs i v = Inr ys \<Longrightarrow> length ys = length xs"
  by (auto simp: wr_Inr_iff)

section \<open>Lists and multisets\<close>

text \<open>Exchanging two cells, the step every sift of a binary heap makes.\<close>

lemma mset_swap_take:
  assumes "i < n" "j < n" "n \<le> length xs"
  shows "mset (take n (xs[i := xs ! j, j := xs ! i])) = mset (take n xs)"
proof -
  have "mset ((take n xs)[i := take n xs ! j, j := take n xs ! i]) = mset (take n xs)"
    using assms by (intro mset_swap) auto
  then show ?thesis
    using assms by (simp add: take_update_swap)
qed

lemma mset_take_Suc:
  "n < length xs \<Longrightarrow> mset (take (Suc n) xs) = add_mset (xs ! n) (mset (take n xs))"
  by (simp add: take_Suc_conv_app_nth)

text \<open>Dropping the first cell by moving the last one over it, as a heap's \<^verbatim>\<open>dequeue\<close> does.\<close>

lemma mset_replace_first_by_last:
  assumes "n < length xs"
  shows "mset (take n (xs[0 := xs ! n])) = mset (take (Suc n) xs) - {#xs ! 0#}"
proof (cases n)
  case 0
  with assms show ?thesis by (cases xs) auto
next
  case (Suc m)
  have "xs ! 0 \<in># mset (take n xs)"
    using assms Suc nth_mem [of 0 "take n xs"] by simp
  moreover have "take n (xs[0 := xs ! n]) = (take n xs)[0 := xs ! n]"
    by (simp add: take_update_swap)
  ultimately show ?thesis
    using assms Suc by (simp add: mset_update mset_take_Suc)
qed

text \<open>Lists that are distinct and pairwise disjoint, by position.\<close>

lemma distinct_concat_nth:
  assumes "\<And>i. i < length xss \<Longrightarrow> distinct (xss ! i)"
    and "\<And>i j. i < j \<Longrightarrow> j < length xss \<Longrightarrow> set (xss ! i) \<inter> set (xss ! j) = {}"
  shows "distinct (concat xss)"
  using assms
proof (induction xss)
  case Nil
  then show ?case by simp
next
  case (Cons xs xss)
  have "distinct (xss ! i)" if "i < length xss" for i
    using Cons.prems(1) [of "Suc i"] that by simp
  moreover have "set (xss ! i) \<inter> set (xss ! j) = {}" if "i < j" "j < length xss" for i j
    using Cons.prems(2) [of "Suc i" "Suc j"] that by simp
  moreover have "\<forall>ys \<in> set xss. set xs \<inter> set ys = {}"
  proof
    fix ys assume "ys \<in> set xss"
    then obtain j where "j < length xss" "xss ! j = ys" by (auto simp: in_set_conv_nth)
    with Cons.prems(2) [of 0 "Suc j"] show "set xs \<inter> set ys = {}" by simp
  qed
  then have "set xs \<inter> set (concat xss) = {}" by auto
  ultimately show ?case using Cons.IH Cons.prems(1) [of 0] by simp
qed

section \<open>Words\<close>

lemma unat_u32_less [simp]: "unat (x :: u32) < 4294967296"
  using unsigned_less [of x] by simp

lemma unat_word32_of_nat [word_nat]: "n < 2 ^ 32 \<Longrightarrow> unat (word_of_nat n :: u32) = n"
  by (simp add: unat_of_nat)

lemma word32_of_nat_eq_iff [word_nat]:
  assumes "a < 2 ^ 32" "b < 2 ^ 32"
  shows "(word_of_nat a :: u32) = word_of_nat b \<longleftrightarrow> a = b"
  using assms by (metis unat_word32_of_nat)

lemma word32_of_nat_eq_0_iff [word_nat]:
  "a < 2 ^ 32 \<Longrightarrow> (word_of_nat a :: u32) = 0 \<longleftrightarrow> a = 0"
  using word32_of_nat_eq_iff [of a 0] by simp

lemma word32_of_nat_less_iff [word_nat]:
  assumes "a < 2 ^ 32" "b < 2 ^ 32"
  shows "(word_of_nat a :: u32) < word_of_nat b \<longleftrightarrow> a < b"
  using assms by (simp add: word_less_nat_alt unat_word32_of_nat)

lemma word32_of_nat_diff [word_nat]:
  assumes "b \<le> a" "a < 2 ^ 32"
  shows "(word_of_nat a :: u32) - word_of_nat b = word_of_nat (a - b)"
  using assms by (simp add: of_nat_diff)

lemma word32_eq_of_nat: "unat (x :: u32) = n \<Longrightarrow> x = word_of_nat n"
  by auto

lemma sint_u32_small [word_nat]:
  assumes "unat (n :: u32) < 2 ^ 31"
  shows "sint n = int (unat n)"
proof -
  have "int (unat n) < int (2 ^ 31)" using assms by (rule of_nat_less_iff [THEN iffD2])
  then have "uint n < 2 ^ 31" by simp
  moreover have "- (2 ^ 31) \<le> uint n" by (rule order_trans [of _ 0]) simp_all
  ultimately show ?thesis
    using signed_take_bit_int_eq_self [of 31 "uint n"] by (simp add: sint_uint)
qed

text \<open>Constants used as bit masks, for bitwise reasoning.\<close>

unbundle bit_operations_syntax

named_theorems masks \<open>numerals as masks\<close>

lemma ff_mask [masks]: "(0xff :: 'a::len word) = mask 8"
  by (simp add: mask_eq_exp_minus_1)

lemma ffff_mask [masks]: "(0xffff :: 'a::len word) = mask 16"
  by (simp add: mask_eq_exp_minus_1)

lemma f_mask [masks]: "(0xf :: 'a::len word) = mask 4"
  by (simp add: mask_eq_exp_minus_1)

lemma join_bytes:
  "push_bit 8 (ucast (ucast (drop_bit 8 w AND 0xff) :: u8)) OR ucast (ucast (w AND 0xff) :: u8) = (w :: u16)"
  by (rule bit_word_eqI) (auto simp: masks bit_simps)

end
