(* ===== verification/Allocator.thy ===== *)
theory Allocator
  imports Bodos_Prelude
begin

text \<open>
  The kernel heap: \<^verbatim>\<open>src/src/kernel/kernel/mem/allocator.cpp\<close>, \<^verbatim>\<open>allocator.h\<close> and \<^verbatim>\<open>kmalloc.cpp\<close>. A
  \<open>block\<close> is a range of memory cut into chunks, each preceded by a 16-byte header; headers form a
  doubly linked list in address order. The memory is modelled by the headers it holds
  (\<open>addr \<Rightarrow> header\<close>): the code reads and writes memory of the block as whole headers only.
  \<open>Heap_Spec\<close> proves what these definitions implement.
\<close>

section \<open>Headers and blocks\<close>

record header =
  hsize :: u32
  hprev :: addr
  hnext :: addr
  htaken :: bool

type_synonym hmem = "addr \<Rightarrow> header"

text \<open>\<^verbatim>\<open>sizeof(Header)\<close>: two words for \<^verbatim>\<open>size\<close> and \<^verbatim>\<open>prev\<close>, one for \<^verbatim>\<open>next\<close>, a padded \<^verbatim>\<open>bool\<close>.\<close>

definition sizeof_Header :: u32 where
  "sizeof_Header = 16"

record block =
  b_start :: addr
  b_chunckList :: addr
  b_blockSize :: u32
  b_mem :: hmem

text \<open>
  \<^verbatim>\<open>jump\<close> walks \<open>steps\<close> headers forward by size. (\<^verbatim>\<open>steps\<close> is an \<^verbatim>\<open>int\<close>; the only caller passes 1.)
\<close>

fun jump :: "hmem \<Rightarrow> addr \<Rightarrow> nat \<Rightarrow> addr" where
  "jump m cur 0 = cur"
| "jump m cur (Suc steps) =
     (if cur = NULL then cur else jump m (cur + sizeof_Header + hsize (m cur)) steps)"

definition putHeader :: "hmem \<Rightarrow> addr \<Rightarrow> header \<Rightarrow> hmem" where
  "putHeader m a h = m(a := h)"

definition block_init :: "block \<Rightarrow> addr \<Rightarrow> u32 \<Rightarrow> block" where
  "block_init b a sz = b\<lparr>b_start := a, b_chunckList := a, b_blockSize := sz,
     b_mem := putHeader (b_mem b) a
       \<lparr>hsize = sz - sizeof_Header, hprev = NULL, hnext = NULL, htaken = False\<rparr>\<rparr>"

definition Block_ctor :: "hmem \<Rightarrow> addr \<Rightarrow> u32 \<Rightarrow> block" where
  "Block_ctor m a sz = \<lparr>b_start = a, b_chunckList = a, b_blockSize = sz,
     b_mem = putHeader m a
       \<lparr>hsize = sz - sizeof_Header, hprev = NULL, hnext = NULL, htaken = False\<rparr>\<rparr>"

definition Block_default :: "hmem \<Rightarrow> block" where
  "Block_default m = \<lparr>b_start = NULL, b_chunckList = NULL, b_blockSize = 0, b_mem = m\<rparr>"

section \<open>Allocation\<close>

text \<open>
  The walk of \<^verbatim>\<open>Block::allocate\<close>: skip taken and too small chunks, remembering the previous one. The
  corruption check inside the loop compares a \<^verbatim>\<open>bool\<close> with 0 and 1 and never fires. \<open>None\<close> is a walk
  that never ends (a cyclic list).
\<close>

partial_function (option) find_chunk :: "hmem \<Rightarrow> u32 \<Rightarrow> addr \<Rightarrow> addr \<Rightarrow> (addr \<times> addr) option" where
  "find_chunk m numBytes prv chunk =
     (if (chunk \<noteq> NULL \<and> htaken (m chunk)) \<or> (chunk \<noteq> NULL \<and> hsize (m chunk) < numBytes)
      then find_chunk m numBytes chunk (hnext (m chunk))
      else Some (prv, chunk))"

definition split_chunk :: "hmem \<Rightarrow> addr \<Rightarrow> addr \<Rightarrow> u32 \<Rightarrow> hmem" where
  "split_chunk m prv first numBytes =
     (let second = first + sizeof_Header + numBytes;
          secondSize = hsize (m first) - numBytes - sizeof_Header;
          m1 = m(second := \<lparr>hsize = secondSize, hprev = first, hnext = hnext (m first), htaken = False\<rparr>);
          third = hnext (m1 first);
          m2 = (if third \<noteq> NULL then m1(third := (m1 third)\<lparr>hprev := second\<rparr>) else m1)
      in m2(first := \<lparr>hsize = numBytes, hprev = prv, hnext = second, htaken = True\<rparr>))"

text \<open>
  What \<^verbatim>\<open>allocate\<close> does with the chunk it found: split it when the remainder can hold a header and
  more than \<^verbatim>\<open>minChunkSize\<close> bytes, take it whole otherwise. (\<^verbatim>\<open>first->size < 0\<close> compares an unsigned
  value and never holds.)
\<close>

definition minChunkSize :: u32 where
  "minChunkSize = 8"

definition take_chunk :: "hmem \<Rightarrow> addr \<Rightarrow> addr \<Rightarrow> u32 \<Rightarrow> hmem" where
  "take_chunk m prv first numBytes =
     (if sizeof_Header + minChunkSize < hsize (m first) - numBytes
      then split_chunk m prv first numBytes
      else m(first := \<lparr>hsize = hsize (m first), hprev = prv, hnext = jump m first 1, htaken = True\<rparr>))"

definition block_allocate :: "block \<Rightarrow> u32 \<Rightarrow> (block \<times> addr) result" where
  "block_allocate b numBytes =
     (case find_chunk (b_mem b) numBytes NULL (b_chunckList b) of
        None \<Rightarrow> Inl Hang
      | Some (prv, chunk) \<Rightarrow>
          if chunk = NULL then Inr (b, NULL)
          else Inr (b\<lparr>b_mem := take_chunk (b_mem b) prv chunk numBytes\<rparr>, chunk + sizeof_Header))"

section \<open>Release\<close>

definition isFree :: "hmem \<Rightarrow> addr \<Rightarrow> bool" where
  "isFree m h = (h \<noteq> NULL \<and> \<not> htaken (m h))"

definition merge :: "hmem \<Rightarrow> addr \<Rightarrow> addr \<Rightarrow> hmem \<times> addr" where
  "merge m first second =
     (let m1 = m(first := (m first)\<lparr>hsize := hsize (m first) + (sizeof_Header + hsize (m second))\<rparr>);
          m2 = m1(first := (m1 first)\<lparr>hnext := hnext (m1 second)\<rparr>);
          third = hnext (m2 second);
          m3 = (if third \<noteq> NULL then m2(third := (m2 third)\<lparr>hprev := first\<rparr>) else m2)
      in (m3, first))"

definition block_free :: "block \<Rightarrow> addr \<Rightarrow> block" where
  "block_free b a =
     (let header = a - sizeof_Header;
          m = b_mem b;
          m0 = m(header := (m header)\<lparr>htaken := False\<rparr>);
          nextFree = isFree m0 (hnext (m0 header));
          prevFree = isFree m0 (hprev (m0 header))
      in if nextFree \<or> prevFree then
           (let (m1, h1) = (if nextFree then merge m0 header (hnext (m0 header)) else (m0, header));
                (m2, h2) = (if prevFree then merge m1 (hprev (m1 h1)) h1 else (m1, h1))
            in b\<lparr>b_mem := m2\<rparr>)
         else b\<lparr>b_mem := m0\<rparr>)"

section \<open>The heap object and the allocation functions of the kernel\<close>

definition PAGE_SIZE :: u32 where
  "PAGE_SIZE = 4096"

definition NUM_PAGES_HEAP :: u32 where
  "NUM_PAGES_HEAP = push_bit 16 1"

text \<open>
  \<^verbatim>\<open>Heap::init\<close> takes its memory from the page allocator; \<open>pages\<close> is the address \<^verbatim>\<open>alloc_pages\<close> returned.
\<close>

definition heap_init :: "block \<Rightarrow> addr \<Rightarrow> u32 \<Rightarrow> block" where
  "heap_init b pages numOfPages = block_init b pages (numOfPages * PAGE_SIZE)"

definition memory_init :: "block \<Rightarrow> addr \<Rightarrow> block" where
  "memory_init b pages = heap_init b pages NUM_PAGES_HEAP"

text \<open>A \<^verbatim>\<open>Heap\<close> is its one block.\<close>

definition heap_allocate :: "block \<Rightarrow> u32 \<Rightarrow> (block \<times> addr) result" where
  "heap_allocate heap bytes = block_allocate heap bytes"

definition heap_free :: "block \<Rightarrow> addr \<Rightarrow> block" where
  "heap_free heap a = block_free heap a"

definition kmalloc :: "block \<Rightarrow> u32 \<Rightarrow> (block \<times> addr) result" where
  "kmalloc heap bytes = heap_allocate heap bytes"

definition kfree :: "block \<Rightarrow> addr \<Rightarrow> block" where
  "kfree heap a = heap_free heap a"

lemma kmalloc_eq: "kmalloc heap bytes = block_allocate heap bytes"
  by (simp add: kmalloc_def heap_allocate_def)

lemma kfree_eq: "kfree heap a = block_free heap a"
  by (simp add: kfree_def heap_free_def)

definition operator_new :: "block \<Rightarrow> u32 \<Rightarrow> (block \<times> addr) result" where
  "operator_new heap n = kmalloc heap n"

definition operator_delete :: "block \<Rightarrow> addr \<Rightarrow> block" where
  "operator_delete heap p = kfree heap p"

end
