(* ===== verification/Heap_Spec.thy ===== *)
theory Heap_Spec
  imports Allocator
begin

text \<open>
  What the allocator implements. A block stands for a list of chunks \<open>(size, taken)\<close>, laid out one
  behind the other with a header in front of each; \<^verbatim>\<open>Block::allocate\<close> is first fit on that list and
  \<^verbatim>\<open>Block::free\<close> releases one entry and coalesces it with its free neighbours. The locale
  \<open>kernel_heap\<close> is the interface the clients of \<^verbatim>\<open>kmalloc\<close> and \<^verbatim>\<open>kfree\<close> rely on.
\<close>

section \<open>Chunk lists\<close>

type_synonym chunk = "nat \<times> bool"

text \<open>Bytes covered, header included; addresses of the headers of a layout that starts at \<open>a\<close>.\<close>

fun span :: "chunk list \<Rightarrow> nat" where
  "span [] = 0"
| "span ((s, t) # cs) = 16 + s + span cs"

fun haddrs :: "nat \<Rightarrow> chunk list \<Rightarrow> nat list" where
  "haddrs a [] = []"
| "haddrs a ((s, t) # cs) = a # haddrs (a + 16 + s) cs"

text \<open>The header before the end of a layout; \<open>p\<close> if the layout is empty.\<close>

fun lasthdr :: "nat \<Rightarrow> nat \<Rightarrow> chunk list \<Rightarrow> nat" where
  "lasthdr p a [] = p"
| "lasthdr p a ((s, t) # cs) = lasthdr a (a + 16 + s) cs"

text \<open>
  The memory holds the layout \<open>cs\<close> from address \<open>a\<close> on: the first header points back to \<open>p\<close>, the last
  one forward to \<open>nx\<close>.
\<close>

fun chain :: "hmem \<Rightarrow> nat \<Rightarrow> nat \<Rightarrow> chunk list \<Rightarrow> nat \<Rightarrow> bool" where
  "chain m p a [] nx = True"
| "chain m p a ((s, t) # cs) nx =
     (m (word_of_nat a) = \<lparr>hsize = word_of_nat s, hprev = word_of_nat p,
        hnext = word_of_nat (if cs = [] then nx else a + 16 + s), htaken = t\<rparr> \<and>
      chain m a (a + 16 + s) cs nx)"

text \<open>No two free chunks are neighbours.\<close>

fun coalesced :: "chunk list \<Rightarrow> bool" where
  "coalesced ((s, t) # (s', t') # cs) = ((t \<or> t') \<and> coalesced ((s', t') # cs))"
| "coalesced cs = True"

lemma span_append [simp]: "span (xs @ ys) = span xs + span ys"
  by (induction xs rule: span.induct) auto

lemma haddrs_append [simp]: "haddrs a (xs @ ys) = haddrs a xs @ haddrs (a + span xs) ys"
  by (induction a xs rule: haddrs.induct) (auto simp: ac_simps)

lemma lasthdr_append [simp]: "lasthdr p a (xs @ ys) = lasthdr (lasthdr p a xs) (a + span xs) ys"
  by (induction p a xs rule: lasthdr.induct) (auto simp: ac_simps)

lemma haddrs_bounds: "x \<in> set (haddrs a cs) \<Longrightarrow> a \<le> x \<and> x + 16 \<le> a + span cs"
  by (induction a cs rule: haddrs.induct) force+

lemma chain_append:
  "chain m p a (xs @ ys) nx \<longleftrightarrow>
     chain m p a xs (if ys = [] then nx else a + span xs) \<and>
     chain m (lasthdr p a xs) (a + span xs) ys nx"
  by (induction m p a xs nx rule: chain.induct) (auto simp: ac_simps)

text \<open>A chain only depends on its own headers.\<close>

lemma chain_cong:
  assumes "\<And>x. x \<in> set (haddrs a cs) \<Longrightarrow> m' (word_of_nat x) = m (word_of_nat x)"
  shows "chain m' p a cs nx = chain m p a cs nx"
  using assms by (induction m p a cs nx rule: chain.induct) auto

lemma chain_upd:
  assumes "x + 16 \<le> a \<or> a + span cs \<le> x" "a + span cs < 2 ^ 32" "x < 2 ^ 32"
  shows "chain (m(word_of_nat x := h)) p a cs nx = chain m p a cs nx"
proof (rule chain_cong)
  fix y assume "y \<in> set (haddrs a cs)"
  with haddrs_bounds [of y a cs] assms have "y \<noteq> x" "y < 2 ^ 32" by auto
  with assms(3) show "(m(word_of_nat x := h)) (word_of_nat y) = m (word_of_nat y)"
    by (simp add: word_nat)
qed

text \<open>Redirecting the back pointer of a chain's first header.\<close>

lemma chain_relink:
  assumes "chain m p a cs nx"
    and "cs \<noteq> [] \<Longrightarrow> m' (word_of_nat a) = (m (word_of_nat a))\<lparr>hprev := word_of_nat p'\<rparr>"
    and "\<And>x. x \<in> set (haddrs a cs) \<Longrightarrow> a < x \<Longrightarrow> m' (word_of_nat x) = m (word_of_nat x)"
  shows "chain m' p' a cs nx"
proof (cases cs)
  case (Cons c cs')
  obtain s t where c: "c = (s, t)" by (cases c)
  have "chain m' a (a + 16 + s) cs' nx = chain m a (a + 16 + s) cs' nx"
  proof (rule chain_cong)
    fix x assume "x \<in> set (haddrs (a + 16 + s) cs')"
    with assms(3) [of x] haddrs_bounds [of x "a + 16 + s" cs'] show "m' (word_of_nat x) = m (word_of_nat x)"
      by (auto simp: Cons c)
  qed
  with assms Cons c show ?thesis by simp
qed simp

lemma lasthdr_bounds: "xs \<noteq> [] \<Longrightarrow> a \<le> lasthdr p a xs \<and> lasthdr p a xs + 16 \<le> a + span xs"
  by (induction p a xs rule: lasthdr.induct) (force elim: lasthdr.elims)+

lemma coalesced_Cons:
  "coalesced (c # cs) \<longleftrightarrow> coalesced cs \<and> (cs = [] \<or> snd c \<or> snd (hd cs))"
  by (cases c; cases cs) auto

lemma coalesced_append:
  "coalesced (xs @ ys) \<longleftrightarrow> coalesced xs \<and> coalesced ys \<and>
     (xs = [] \<or> ys = [] \<or> snd (last xs) \<or> snd (hd ys))"
  by (induction xs) (auto simp: coalesced_Cons)

section \<open>First fit\<close>

fun first_fit :: "nat \<Rightarrow> chunk list \<Rightarrow> nat option" where
  "first_fit n [] = None"
| "first_fit n ((s, t) # cs) = (if \<not> t \<and> n \<le> s then Some 0 else map_option Suc (first_fit n cs))"

lemma first_fit_Some_split:
  "first_fit n cs = Some i \<Longrightarrow>
     \<exists>s. i < length cs \<and> cs = take i cs @ (s, False) # drop (Suc i) cs \<and> n \<le> s"
proof (induction n cs arbitrary: i rule: first_fit.induct)
  case (1 n)
  then show ?case by simp
next
  case (2 n s t cs)
  show ?case
  proof (cases "\<not> t \<and> n \<le> s")
    case True
    with 2 show ?thesis by auto
  next
    case False
    with "2.prems" obtain j where j: "first_fit n cs = Some j" "i = Suc j"
      by (auto split: if_splits)
    with "2.IH" [OF False j(1)] show ?thesis by auto
  qed
qed

text \<open>The walk of \<^verbatim>\<open>Block::allocate\<close> ends, at the chunk first fit chooses.\<close>

lemma find_chunk_chain:
  assumes "chain m p a cs 0" "0 < a" "a + span cs < 2 ^ 32" "n < 2 ^ 32"
  shows "find_chunk m (word_of_nat n) (word_of_nat p) (if cs = [] then NULL else word_of_nat a) =
    (case first_fit n cs of
       None \<Rightarrow> Some (word_of_nat (lasthdr p a cs), NULL)
     | Some i \<Rightarrow> Some (word_of_nat (lasthdr p a (take i cs)), word_of_nat (a + span (take i cs))))"
  using assms
proof (induction m p a cs "0::nat" rule: chain.induct)
  case (1 m p a)
  then show ?case by (subst find_chunk.simps) simp
next
  case (2 m p a s t cs)
  have hd: "m (word_of_nat a) = \<lparr>hsize = word_of_nat s, hprev = word_of_nat p,
      hnext = (if cs = [] then NULL else word_of_nat (a + 16 + s)), htaken = t\<rparr>"
    using "2.prems"(1) by auto
  have a: "(word_of_nat a :: u32) \<noteq> NULL" "s < 2 ^ 32"
    using "2.prems" by (auto simp: word_nat)
  have IH: "find_chunk m (word_of_nat n) (word_of_nat a) (if cs = [] then NULL else word_of_nat (a + 16 + s)) =
    (case first_fit n cs of
       None \<Rightarrow> Some (word_of_nat (lasthdr a (a + 16 + s) cs), NULL)
     | Some i \<Rightarrow> Some (word_of_nat (lasthdr a (a + 16 + s) (take i cs)),
                        word_of_nat (a + 16 + s + span (take i cs))))"
    using "2.prems" by (intro "2.hyps") auto
  show ?case
  proof (cases "\<not> t \<and> n \<le> s")
    case True
    with hd a "2.prems"(4) show ?thesis
      by (subst find_chunk.simps) (auto simp: word_nat)
  next
    case False
    with hd a "2.prems"(4) have "find_chunk m (word_of_nat n) (word_of_nat p) (word_of_nat a) =
        find_chunk m (word_of_nat n) (word_of_nat a) (if cs = [] then NULL else word_of_nat (a + 16 + s))"
      by (subst find_chunk.simps) (auto simp: word_nat)
    with False IH show ?thesis
      by (auto split: option.splits simp: ac_simps)
  qed
qed

section \<open>The abstraction relation\<close>

definition heap_rel :: "block \<Rightarrow> chunk list \<Rightarrow> bool" where
  "heap_rel b cs \<longleftrightarrow>
     cs \<noteq> [] \<and> b_chunckList b = b_start b \<and> 0 < unat (b_start b) \<and>
     unat (b_start b) + span cs < 2 ^ 32 \<and> unat (b_blockSize b) = span cs \<and>
     chain (b_mem b) 0 (unat (b_start b)) cs 0 \<and> coalesced cs"

subsection \<open>Taking a chunk\<close>

text \<open>
  A chunk of \<open>s\<close> bytes serves a request of \<open>n\<close>: the rest becomes a chunk of its own when it can hold a
  header and more than 8 bytes.
\<close>

definition cut :: "nat \<Rightarrow> nat \<Rightarrow> chunk list" where
  "cut n s = (if 24 < s - n then [(n, True), (s - n - 16, False)] else [(s, True)])"

definition occupy :: "nat \<Rightarrow> nat \<Rightarrow> chunk list \<Rightarrow> chunk list" where
  "occupy n i cs = take i cs @ cut n (fst (cs ! i)) @ drop (Suc i) cs"

lemma span_cut [simp]: "n \<le> s \<Longrightarrow> span (cut n s) = 16 + s"
  by (simp add: cut_def)

lemma cut_not_Nil [simp]: "cut n s \<noteq> []"
  by (simp add: cut_def)

lemma snd_hd_cut [simp]: "snd (hd (cut n s))"
  by (simp add: cut_def)

lemma split_chunk_eq:
  assumes "A + 16 + N = B" "hsize (m A) - N - 16 = R" "B \<noteq> A"
  shows "split_chunk m P A N =
    (let m1 = m(B := \<lparr>hsize = R, hprev = A, hnext = hnext (m A), htaken = False\<rparr>); C = hnext (m A)
     in (if C \<noteq> NULL then m1(C := (m1 C)\<lparr>hprev := B\<rparr>) else m1)
        (A := \<lparr>hsize = N, hprev = P, hnext = B, htaken = True\<rparr>))"
  using assms by (simp add: split_chunk_def sizeof_Header_def Let_def)

text \<open>Splitting the first chunk of a chain: the three headers it writes, and nothing else.\<close>

lemma split_chunk_chain:
  assumes ch: "chain m p a ((s, False) # ys) 0" and "0 < a" and bnd: "a + 16 + s + span ys < 2 ^ 32"
    and n: "24 < s - n"
  defines "m' \<equiv> split_chunk m (word_of_nat p) (word_of_nat a) (word_of_nat n)"
  shows "chain m' p a ((n, True) # (s - n - 16, False) # ys) 0"
    and "x + 16 \<le> a \<Longrightarrow> m' (word_of_nat x) = m (word_of_nat x)"
proof -
  define A B C :: u32 where "A = word_of_nat a" and "B = word_of_nat (a + 16 + n)"
    and "C = word_of_nat (a + 16 + s)"
  have C': "hnext (m A) = (if ys = [] then NULL else C)"
    and sz: "hsize (m A) = word_of_nat s"
    using ch by (auto simp: A_def C_def)
  have B: "A + 16 + word_of_nat n = B" by (simp add: A_def B_def)
  have rest: "hsize (m A) - word_of_nat n - 16 = word_of_nat (s - n - 16)"
    using n by (simp add: sz of_nat_diff)
  have neq: "B \<noteq> A" "C \<noteq> A" "C \<noteq> B" "C \<noteq> NULL"
    unfolding A_def B_def C_def using bnd n \<open>0 < a\<close> by (subst word_nat; simp)+
  have m': "m' = (let m1 = m(B := \<lparr>hsize = word_of_nat (s - n - 16), hprev = A,
        hnext = (if ys = [] then NULL else C), htaken = False\<rparr>)
      in (if ys \<noteq> [] then m1(C := (m C)\<lparr>hprev := B\<rparr>) else m1)
         (A := \<lparr>hsize = word_of_nat n, hprev = word_of_nat p, hnext = B, htaken = True\<rparr>))"
    unfolding m'_def A_def [symmetric] split_chunk_eq [where m = m, OF B rest neq(1)] C' using neq
    by (auto simp: Let_def)
  have other: "m' (word_of_nat y) = m (word_of_nat y)"
    if "y < 2 ^ 32" "y \<noteq> a" "y \<noteq> a + 16 + n" "y \<noteq> a + 16 + s" for y
  proof -
    have "word_of_nat y \<noteq> A" "word_of_nat y \<noteq> B" "word_of_nat y \<noteq> C"
      unfolding A_def B_def C_def using that bnd n by (subst word_nat; simp)+
    then show ?thesis by (simp add: m' Let_def)
  qed
  show "m' (word_of_nat x) = m (word_of_nat x)" if "x + 16 \<le> a"
    using that bnd by (intro other) auto
  have first: "m' A = \<lparr>hsize = word_of_nat n, hprev = word_of_nat p, hnext = B, htaken = True\<rparr>"
    and second: "m' B = \<lparr>hsize = word_of_nat (s - n - 16), hprev = A,
        hnext = (if ys = [] then NULL else C), htaken = False\<rparr>"
    using neq by (auto simp: m' Let_def)
  have third: "chain m' (a + 16 + n) (a + 16 + s) ys 0"
  proof (rule chain_relink)
    show "chain m a (a + 16 + s) ys 0" using ch by simp
    show "m' (word_of_nat (a + 16 + s)) = (m (word_of_nat (a + 16 + s)))\<lparr>hprev := word_of_nat (a + 16 + n)\<rparr>"
      if "ys \<noteq> []"
      unfolding B_def [symmetric] C_def [symmetric] using that neq by (simp add: m' Let_def)
    fix x assume "x \<in> set (haddrs (a + 16 + s) ys)" "a + 16 + s < x"
    with haddrs_bounds [of x "a + 16 + s" ys] bnd n show "m' (word_of_nat x) = m (word_of_nat x)"
      by (intro other) auto
  qed
  have len: "a + 16 + n + 16 + (s - n - 16) = a + 16 + s" using n by simp
  show "chain m' p a ((n, True) # (s - n - 16, False) # ys) 0"
    using first second third unfolding chain.simps len A_def B_def C_def by simp
qed

subsection \<open>Merging two neighbours\<close>

lemma merge_chain:
  assumes ch: "chain m p a ((s, t) # (s', t') # ys) 0" and "0 < a"
    and bnd: "a + 16 + s + 16 + s' + span ys < 2 ^ 32"
  defines "m' \<equiv> fst (merge m (word_of_nat a) (word_of_nat (a + 16 + s)))"
  shows "chain m' p a ((s + 16 + s', t) # ys) 0"
    and "x + 16 \<le> a \<Longrightarrow> m' (word_of_nat x) = m (word_of_nat x)"
proof -
  define A B C :: u32 where "A = word_of_nat a" and "B = word_of_nat (a + 16 + s)"
    and "C = word_of_nat (a + 16 + s + 16 + s')"
  have mA: "m A = \<lparr>hsize = word_of_nat s, hprev = word_of_nat p, hnext = B, htaken = t\<rparr>"
    and mB: "m B = \<lparr>hsize = word_of_nat s', hprev = A, hnext = (if ys = [] then NULL else C), htaken = t'\<rparr>"
    using ch by (auto simp: A_def B_def C_def simp del: of_nat_add)
  have neq: "B \<noteq> A" "C \<noteq> A" "C \<noteq> B" "C \<noteq> NULL"
    unfolding A_def B_def C_def using bnd \<open>0 < a\<close> by (subst word_nat; simp)+
  have m': "m' = (if ys \<noteq> [] then m(C := (m C)\<lparr>hprev := A\<rparr>) else m)
     (A := \<lparr>hsize = word_of_nat (s + 16 + s'), hprev = word_of_nat p,
            hnext = (if ys = [] then NULL else C), htaken = t\<rparr>)"
    unfolding m'_def A_def [symmetric] B_def [symmetric] merge_def sizeof_Header_def using neq mA mB
    by (auto simp: Let_def ac_simps fun_upd_twist)
  have other: "m' (word_of_nat y) = m (word_of_nat y)"
    if "y < 2 ^ 32" "y \<noteq> a" "y \<noteq> a + 16 + s + 16 + s'" for y
  proof -
    have "word_of_nat y \<noteq> A" "word_of_nat y \<noteq> C"
      unfolding A_def C_def using that bnd by (subst word_nat; simp)+
    then show ?thesis by (simp add: m')
  qed
  show "m' (word_of_nat x) = m (word_of_nat x)" if "x + 16 \<le> a"
    using that bnd by (intro other) auto
  have rest: "chain m' a (a + 16 + s + 16 + s') ys 0"
  proof (rule chain_relink)
    show "chain m (a + 16 + s) (a + 16 + s + 16 + s') ys 0" using ch by simp
    show "m' (word_of_nat (a + 16 + s + 16 + s')) =
        (m (word_of_nat (a + 16 + s + 16 + s')))\<lparr>hprev := word_of_nat a\<rparr>" if "ys \<noteq> []"
      unfolding A_def [symmetric] C_def [symmetric] using that neq by (simp add: m')
    fix x assume "x \<in> set (haddrs (a + 16 + s + 16 + s') ys)" "a + 16 + s + 16 + s' < x"
    with haddrs_bounds [of x "a + 16 + s + 16 + s'" ys] bnd show "m' (word_of_nat x) = m (word_of_nat x)"
      by (intro other) auto
  qed
  have len: "a + 16 + (s + 16 + s') = a + 16 + s + 16 + s'" by simp
  have "m' A = \<lparr>hsize = word_of_nat (s + 16 + s'), hprev = word_of_nat p,
            hnext = (if ys = [] then NULL else C), htaken = t\<rparr>"
    by (simp add: m')
  with rest show "chain m' p a ((s + 16 + s', t) # ys) 0"
    unfolding chain.simps len A_def C_def by simp
qed

section \<open>Allocation refines first fit\<close>

text \<open>
  A request of \<open>n\<close> bytes is safe if first fit does not consume the last chunk of the block whole: only
  then does the forward pointer \<^verbatim>\<open>jump\<close> computes stay inside the block.
\<close>

definition fits_safely :: "nat \<Rightarrow> chunk list \<Rightarrow> bool" where
  "fits_safely n cs = (case first_fit n cs of None \<Rightarrow> True
     | Some i \<Rightarrow> Suc i < length cs \<or> 24 < fst (cs ! i) - n)"

text \<open>Serving a request from the first chunk of a chain that is free and large enough.\<close>

lemma take_chunk_chain:
  assumes "chain m p a ((s, False) # ys) 0" "0 < a" "a + 16 + s + span ys < 2 ^ 32" "n \<le> s"
    and "ys \<noteq> [] \<or> 24 < s - n"
  defines "m' \<equiv> take_chunk m (word_of_nat p) (word_of_nat a) (word_of_nat n)"
  shows "chain m' p a (cut n s @ ys) 0"
    and "x + 16 \<le> a \<Longrightarrow> m' (word_of_nat x) = m (word_of_nat x)"
proof -
  have "hsize (m (word_of_nat a)) = word_of_nat s" using assms(1) by simp
  moreover have "word_of_nat s - word_of_nat n = (word_of_nat (s - n) :: u32)"
    using assms(3,4) by (simp add: of_nat_diff)
  moreover have "(24::u32) < word_of_nat (s - n) \<longleftrightarrow> 24 < s - n"
    using assms(3) word32_of_nat_less_iff [of 24 "s - n"] by simp
  ultimately have m': "m' = (if 24 < s - n then split_chunk m (word_of_nat p) (word_of_nat a) (word_of_nat n)
      else m(word_of_nat a := \<lparr>hsize = word_of_nat s, hprev = word_of_nat p,
             hnext = jump m (word_of_nat a) 1, htaken = True\<rparr>))"
    by (simp add: m'_def take_chunk_def sizeof_Header_def minChunkSize_def)
  have j: "jump m (word_of_nat a) 1 = word_of_nat (a + 16 + s)"
    using assms(1,2,3) by (simp add: sizeof_Header_def word_nat)
  show "chain m' p a (cut n s @ ys) 0"
  proof (cases "24 < s - n")
    case True
    with split_chunk_chain(1) [OF assms(1-3) True] show ?thesis by (simp add: m' cut_def)
  next
    case False
    with assms(5) have "ys \<noteq> []" by simp
    with False assms(1-4) show ?thesis
      unfolding m' j cut_def by (simp add: chain_upd)
  qed
  show "m' (word_of_nat x) = m (word_of_nat x)" if "x + 16 \<le> a"
  proof (cases "24 < s - n")
    case True
    with split_chunk_chain(2) [OF assms(1-3) True that] show ?thesis by (simp add: m')
  next
    case False
    with that assms(3) show ?thesis by (simp add: m' word_nat)
  qed
qed

lemma first_fit_nth:
  "first_fit n cs = Some i \<Longrightarrow> i < length cs \<and> \<not> snd (cs ! i) \<and> n \<le> fst (cs ! i)"
  by (induction n cs arbitrary: i rule: first_fit.induct) (auto split: if_splits)

lemma split_at:
  assumes "i < length cs" "cs ! i = (s, t)"
  obtains xs ys where "cs = xs @ (s, t) # ys" "length xs = i" "take i cs = xs" "drop (Suc i) cs = ys"
  using assms id_take_nth_drop [of i cs] that [of "take i cs" "drop (Suc i) cs"] by simp

lemma coalesced_occupy:
  assumes "coalesced cs" "first_fit n cs = Some i"
  shows "coalesced (occupy n i cs)"
proof -
  from first_fit_nth [OF assms(2)] obtain s where i: "i < length cs" "cs ! i = (s, False)"
    by (cases "cs ! i") auto
  then obtain xs ys where cs: "cs = xs @ (s, False) # ys" "take i cs = xs" "drop (Suc i) cs = ys"
    by (rule split_at)
  with i assms(1) show ?thesis
    by (auto simp: occupy_def cut_def coalesced_append coalesced_Cons)
qed

text \<open>Allocation that finds a chunk, on the abstract list.\<close>

lemma block_allocate_Some:
  assumes rel: "heap_rel b cs" and ff: "first_fit (unat n) cs = Some i" and safe: "fits_safely (unat n) cs"
  shows "\<exists>b'. block_allocate b n =
            Inr (b', word_of_nat (unat (b_start b) + span (take i cs) + 16)) \<and>
          b_start b' = b_start b \<and> heap_rel b' (occupy (unat n) i cs)"
proof -
  let ?a = "unat (b_start b)" and ?m = "b_mem b"
  from first_fit_nth [OF ff] obtain s where i: "i < length cs" "cs ! i = (s, False)" and n: "unat n \<le> s"
    by (cases "cs ! i") auto
  then obtain xs ys where cs: "cs = xs @ (s, False) # ys" and len: "length xs = i" "take i cs = xs"
    "drop (Suc i) cs = ys"
    by (rule_tac split_at)
  let ?c = "?a + span xs" and ?p = "lasthdr 0 ?a xs"
  have ch: "chain ?m 0 ?a xs ?c" "chain ?m ?p ?c ((s, False) # ys) 0"
    and bnd: "?a + span cs < 2 ^ 32" "0 < ?a" "b_chunckList b = b_start b"
    using rel by (auto simp: heap_rel_def cs chain_append)
  have "find_chunk ?m n NULL (b_start b) = Some (word_of_nat ?p, word_of_nat ?c)"
    using find_chunk_chain [of ?m 0 ?a cs "unat n"] rel ff unfolding heap_rel_def
    by (simp add: len)
  moreover have "word_of_nat ?c \<noteq> (NULL :: addr)"
    using bnd cs by (subst word32_of_nat_eq_0_iff) auto
  moreover define m' where "m' = take_chunk ?m (word_of_nat ?p) (word_of_nat ?c) n"
  ultimately have alloc: "block_allocate b n = Inr (b\<lparr>b_mem := m'\<rparr>, word_of_nat (?c + 16))"
    using bnd by (simp add: block_allocate_def sizeof_Header_def)
  have safe': "ys \<noteq> [] \<or> 24 < s - unat n"
    using safe ff i cs len by (auto simp: fits_safely_def)
  have bnd': "0 < ?c" "?c + 16 + s + span ys < 2 ^ 32" using bnd cs by auto
  have wn: "word_of_nat (unat n) = n" by simp
  note tc = take_chunk_chain [OF ch(2) bnd' n safe', unfolded wn]
  have "chain m' 0 ?a xs ?c"
    using ch(1) chain_cong [of ?a xs m' ?m 0 ?c] tc(2) haddrs_bounds [of _ ?a xs]
    by (auto simp: m'_def)
  with tc(1) have "chain m' 0 ?a (occupy (unat n) i cs) 0"
    by (simp add: m'_def occupy_def len i chain_append)
  moreover have "span (occupy (unat n) i cs) = span cs"
    using n i by (simp add: occupy_def len) (simp add: cs)
  ultimately have "heap_rel (b\<lparr>b_mem := m'\<rparr>) (occupy (unat n) i cs)"
    using rel coalesced_occupy [OF _ ff] by (auto simp: heap_rel_def occupy_def)
  with alloc len show ?thesis by auto
qed

lemma block_allocate_None:
  assumes "heap_rel b cs" "first_fit (unat n) cs = None"
  shows "block_allocate b n = Inr (b, NULL)"
  using find_chunk_chain [of "b_mem b" 0 "unat (b_start b)" cs "unat n"] assms
  by (auto simp: heap_rel_def block_allocate_def)

section \<open>Release refines coalescing\<close>

text \<open>Join the first two chunks of a list if both are free.\<close>

fun glue :: "chunk list \<Rightarrow> chunk list" where
  "glue ((s, False) # (s', False) # cs) = (s + 16 + s', False) # cs"
| "glue cs = cs"

text \<open>Release chunk \<open>i\<close>: mark it free, join it with a free successor and a free predecessor.\<close>

definition release :: "nat \<Rightarrow> chunk list \<Rightarrow> chunk list" where
  "release i cs =
     (let xs = take i cs; ys = glue ((fst (cs ! i), False) # drop (Suc i) cs)
      in if xs = [] then ys else butlast xs @ glue (last xs # ys))"

lemma span_glue [simp]: "span (glue cs) = span cs"
  by (induction cs rule: glue.induct) auto

lemma glue_not_Nil [simp]: "glue cs = [] \<longleftrightarrow> cs = []"
  by (induction cs rule: glue.induct) auto

lemma snd_hd_glue [simp]: "cs \<noteq> [] \<Longrightarrow> snd (hd (glue cs)) = snd (hd cs)"
  by (induction cs rule: glue.induct) auto

lemma coalesced_glue: "coalesced (tl cs) \<Longrightarrow> coalesced (glue cs)"
  by (induction cs rule: glue.induct) (auto simp: coalesced_Cons)

lemma glue_taken [simp]: "glue ((s, True) # cs) = (s, True) # cs"
  by (cases cs) auto

lemma glue_next_taken: "cs = [] \<or> snd (hd cs) \<Longrightarrow> glue ((s, t) # cs) = (s, t) # cs"
  by (cases cs; cases t) auto

lemma glue_free_Cons: "\<exists>s' cs'. glue ((s, False) # cs) = (s', False) # cs'"
  by (cases "(s, False) # cs" rule: glue.cases) auto

lemma release_split:
  "length xs = i \<Longrightarrow> release i (xs @ (s, t) # ys) =
     (let g = glue ((s, False) # ys) in if xs = [] then g else butlast xs @ glue (last xs # g))"
  by (auto simp: release_def Let_def nth_append)

lemma coalesced_release:
  assumes "coalesced cs" "i < length cs"
  shows "coalesced (release i cs)"
proof -
  obtain s t where "cs ! i = (s, t)" by (cases "cs ! i")
  with assms(2) obtain xs ys where cs: "cs = xs @ (s, t) # ys" "length xs = i"
    by (rule split_at)
  have gl: "coalesced (glue ((s, False) # ys))"
    using assms(1) cs(1) by (intro coalesced_glue) (auto simp: coalesced_append coalesced_Cons)
  show ?thesis
  proof (cases xs rule: rev_cases)
    case Nil
    with gl cs release_split [of xs i s t ys] show ?thesis by simp
  next
    case (snoc xs' x)
    have "coalesced (glue (x # glue ((s, False) # ys)))"
      using gl by (intro coalesced_glue) simp
    with assms(1) cs(1) snoc release_split [OF cs(2), of s t ys] show ?thesis
      by (auto simp: coalesced_append)
  qed
qed

lemma span_release:
  assumes "i < length cs"
  shows "span (release i cs) = span cs"
proof -
  obtain s t where "cs ! i = (s, t)" by (cases "cs ! i")
  with assms obtain xs ys where cs: "cs = xs @ (s, t) # ys" "length xs = i"
    by (rule split_at)
  then show ?thesis
    using release_split [OF cs(2), of s t ys] by (cases xs rule: rev_cases) (auto simp: Let_def)
qed

subsection \<open>The two merges of \<^verbatim>\<open>Block::free\<close>\<close>

text \<open>Merging with the successor, if it is free.\<close>

definition merge_next :: "hmem \<Rightarrow> addr \<Rightarrow> hmem" where
  "merge_next m h = (if isFree m (hnext (m h)) then fst (merge m h (hnext (m h))) else m)"

lemma merge_next_chain:
  assumes ch: "chain m p a ((s, False) # ys) 0" and "0 < a" and bnd: "a + 16 + s + span ys < 2 ^ 32"
  shows "chain (merge_next m (word_of_nat a)) p a (glue ((s, False) # ys)) 0"
    and "x + 16 \<le> a \<Longrightarrow> merge_next m (word_of_nat a) (word_of_nat x) = m (word_of_nat x)"
proof -
  have nx: "hnext (m (word_of_nat a)) = word_of_nat (if ys = [] then 0 else a + 16 + s)"
    using ch by simp
  have free: "isFree m (hnext (m (word_of_nat a))) \<longleftrightarrow> ys \<noteq> [] \<and> \<not> snd (hd ys)"
  proof (cases ys)
    case Nil
    with nx show ?thesis by (simp add: isFree_def)
  next
    case (Cons y ys')
    then have "(word_of_nat (a + 16 + s) :: addr) \<noteq> NULL"
      using bnd \<open>0 < a\<close> by (subst word32_of_nat_eq_0_iff) auto
    with Cons ch nx show ?thesis by (cases y) (simp add: isFree_def)
  qed
  show "chain (merge_next m (word_of_nat a)) p a (glue ((s, False) # ys)) 0"
  proof (cases "ys \<noteq> [] \<and> \<not> snd (hd ys)")
    case True
    then obtain s' ys' where ys: "ys = (s', False) # ys'" by (cases ys) auto
    with merge_chain(1) [of m p a s False s' False ys'] assms True nx free show ?thesis
      by (simp add: merge_next_def)
  next
    case False
    with ch free show ?thesis by (simp add: merge_next_def glue_next_taken)
  qed
  show "merge_next m (word_of_nat a) (word_of_nat x) = m (word_of_nat x)" if "x + 16 \<le> a"
  proof (cases "ys \<noteq> [] \<and> \<not> snd (hd ys)")
    case True
    then obtain s' ys' where ys: "ys = (s', False) # ys'" by (cases ys) auto
    with merge_chain(2) [of m p a s False s' False ys'] assms True nx free that show ?thesis
      by (simp add: merge_next_def)
  next
    case False
    with free show ?thesis by (simp add: merge_next_def)
  qed
qed

lemma snd_merge [simp]: "snd (merge m first second) = first"
  by (simp add: merge_def Let_def)

lemma chain_first_prev:
  "chain m p a cs nx \<Longrightarrow> cs \<noteq> [] \<Longrightarrow> hprev (m (word_of_nat a)) = word_of_nat p"
  by (cases cs) auto

text \<open>Clearing the \<^verbatim>\<open>taken\<close> flag of a chain's first chunk.\<close>

lemma mark_free_chain:
  assumes "chain m p c ((s, t) # ys) 0" "c + 16 + s + span ys < 2 ^ 32"
  defines "m0 \<equiv> m(word_of_nat c := (m (word_of_nat c))\<lparr>htaken := False\<rparr>)"
  shows "chain m0 p c ((s, False) # ys) 0"
    and "x + 16 \<le> c \<Longrightarrow> m0 (word_of_nat x) = m (word_of_nat x)"
  using assms by (auto simp: m0_def chain_upd word_nat)

text \<open>The memory after \<^verbatim>\<open>Block::free\<close>, as at most two merges with a successor.\<close>

definition free_mem :: "hmem \<Rightarrow> addr \<Rightarrow> hmem" where
  "free_mem m h =
     (let m0 = m(h := (m h)\<lparr>htaken := False\<rparr>); m1 = merge_next m0 h; prv = hprev (m1 h)
      in if isFree m0 (hprev (m0 h)) then fst (merge m1 prv h) else m1)"

lemma block_free_mem: "block_free b a = b\<lparr>b_mem := free_mem (b_mem b) (a - sizeof_Header)\<rparr>"
  by (simp add: block_free_def free_mem_def merge_next_def Let_def case_prod_beta)

text \<open>Merging backward is merging the free predecessor forward.\<close>

lemma merge_prev_chain:
  assumes xs: "chain m 0 a xs p" "p = a + span xs" and ys: "chain m (lasthdr 0 a xs) p ((s, False) # (s1, False) # r) 0"
    and a: "0 < a" and bnd: "p + 16 + s + span ((s1, False) # r) < 2 ^ 32"
  shows "chain (fst (merge m (word_of_nat p) (word_of_nat (p + 16 + s)))) 0 a (xs @ glue ((s, False) # (s1, False) # r)) 0"
proof -
  have "(word_of_nat (p + 16 + s) :: addr) \<noteq> NULL" using bnd by (subst word32_of_nat_eq_0_iff) auto
  moreover have "hnext (m (word_of_nat p)) = word_of_nat (p + 16 + s)" "\<not> htaken (m (word_of_nat (p + 16 + s)))"
    using ys by (auto simp del: of_nat_add)
  ultimately have e: "fst (merge m (word_of_nat p) (word_of_nat (p + 16 + s))) = merge_next m (word_of_nat p)"
    by (simp add: merge_next_def isFree_def)
  have "0 < p" using xs(2) a by simp
  note mn = merge_next_chain [OF ys this bnd]
  have "chain (merge_next m (word_of_nat p)) 0 a xs p"
    using xs(1) chain_cong [of a xs "merge_next m (word_of_nat p)" m 0 p] mn(2) haddrs_bounds [of _ a xs] xs(2) by auto
  with mn(1) xs(2) show ?thesis unfolding e by (simp add: chain_append)
qed

lemma free_mem_chain:
  assumes xs: "chain m 0 a xs c" and ys: "chain m (lasthdr 0 a xs) c ((s, t) # ys) 0"
    and c: "c = a + span xs" and a: "0 < a" and bnd: "c + 16 + s + span ys < 2 ^ 32"
  shows "chain (free_mem m (word_of_nat c)) 0 a
    (if xs = [] then glue ((s, False) # ys) else butlast xs @ glue (last xs # glue ((s, False) # ys))) 0"
proof -
  define p where "p = lasthdr 0 a xs"
  define m0 where "m0 = m(word_of_nat c := (m (word_of_nat c))\<lparr>htaken := False\<rparr>)"
  define m1 where "m1 = merge_next m0 (word_of_nat c)"
  let ?ys = "glue ((s, False) # ys)"
  have "0 < c" using a c by simp
  note m0 = mark_free_chain [OF ys bnd, folded m0_def p_def]
  note m1 = merge_next_chain [OF m0(1) \<open>0 < c\<close> bnd, folded m1_def]
  have same: "m1 (word_of_nat x) = m (word_of_nat x)" if "x + 16 \<le> c" for x
    using that m0(2) m1(2) by simp
  have xs1: "chain m1 0 a xs c"
    using xs chain_cong [of a xs m1 m 0 c] same haddrs_bounds [of _ a xs] c by auto
  have prv: "hprev (m0 (word_of_nat c)) = word_of_nat p" "hprev (m1 (word_of_nat c)) = word_of_nat p"
    using chain_first_prev [OF m0(1)] chain_first_prev [OF m1(1)] by simp_all
  have free: "free_mem m (word_of_nat c) =
      (if isFree m0 (word_of_nat p) then fst (merge m1 (word_of_nat p) (word_of_nat c)) else m1)"
    using prv by (simp add: free_mem_def Let_def m0_def [symmetric] m1_def [symmetric])
  show ?thesis
  proof (cases xs rule: rev_cases)
    case Nil
    with free m1(1) c show ?thesis by (simp add: isFree_def p_def)
  next
    case (snoc xs' x)
    obtain s0 t0 where x: "x = (s0, t0)" by (cases x)
    have p: "p = a + span xs'" "p + 16 + s0 = c" using c snoc x by (auto simp: p_def)
    define q where "q = lasthdr 0 a xs'"
    have xs': "chain m1 0 a xs' p" "chain m1 q p ((s0, t0) # ?ys) 0"
      using xs1 m1(1) snoc x p by (auto simp: chain_append q_def p_def)
    have "m0 (word_of_nat p) = m (word_of_nat p)" using m0(2) [of p] p(2) by simp
    moreover have "(word_of_nat p :: addr) \<noteq> NULL" using p a bnd by (subst word32_of_nat_eq_0_iff) auto
    moreover have "htaken (m (word_of_nat p)) = t0" using xs snoc x p by (auto simp: chain_append)
    ultimately have pf: "isFree m0 (word_of_nat p) \<longleftrightarrow> \<not> t0" by (simp add: isFree_def)
    show ?thesis
    proof (cases t0)
      case True
      with free pf xs' snoc x p show ?thesis by (auto simp: chain_append q_def)
    next
      case False
      obtain s1 r where y: "?ys = (s1, False) # r" using glue_free_Cons by blast
      have "span ?ys = 16 + s + span ys" by simp
      then have "p + 16 + s0 + span ((s1, False) # r) < 2 ^ 32" using p bnd unfolding y by simp
      from merge_prev_chain [OF xs'(1) p(1) _ a this] xs'(2) False y free pf p(2) snoc x show ?thesis by (simp add: q_def)
    qed
  qed
qed

lemma block_free_release:
  assumes rel: "heap_rel b cs" and i: "i < length cs"
  shows "heap_rel (block_free b (word_of_nat (unat (b_start b) + span (take i cs) + 16))) (release i cs)"
proof -
  define a c where "a = unat (b_start b)" and "c = a + span (take i cs)"
  obtain s t where "cs ! i = (s, t)" by (cases "cs ! i")
  with i obtain xs ys where cs: "cs = xs @ (s, t) # ys" and len: "length xs = i" "take i cs = xs"
    by (rule split_at)
  have "chain (free_mem (b_mem b) (word_of_nat c)) 0 a (release i cs) 0"
    unfolding cs release_split [OF len(1)] Let_def
    using rel by (intro free_mem_chain) (auto simp: heap_rel_def cs chain_append a_def c_def len)
  moreover have "word_of_nat (c + 16) - sizeof_Header = word_of_nat c" by (simp add: sizeof_Header_def)
  moreover have "release i cs \<noteq> []" using release_split [OF len(1), of s t ys] by (simp add: cs Let_def)
  ultimately show ?thesis
    using rel coalesced_release [OF _ i] span_release [OF i]
    unfolding block_free_mem heap_rel_def a_def [symmetric] c_def [symmetric] by (simp add: a_def)
qed

section \<open>Reading the chunk list back\<close>

function walk :: "hmem \<Rightarrow> nat \<Rightarrow> nat \<Rightarrow> chunk list" where
  "walk m a r =
     (if r < 16 then []
      else let h = m (word_of_nat a); s = unat (hsize h)
           in if r < 16 + s then [] else (s, htaken h) # walk m (a + 16 + s) (r - (16 + s)))"
  by pat_completeness auto
termination
  by (relation "measure (\<lambda>(m, a, r). r)") auto

declare walk.simps [simp del]

definition chunks :: "block \<Rightarrow> chunk list" where
  "chunks b = walk (b_mem b) (unat (b_start b)) (unat (b_blockSize b))"

lemma walk_chain: "chain m p a cs nx \<Longrightarrow> a + span cs < 2 ^ 32 \<Longrightarrow> walk m a (span cs) = cs"
proof (induction m p a cs nx rule: chain.induct)
  case (1 m p a nx)
  then show ?case by (simp add: walk.simps)
next
  case (2 m p a s t cs nx)
  then show ?case by (subst walk.simps) (auto simp: Let_def word_nat)
qed

lemma heap_rel_chunks: "heap_rel b cs \<Longrightarrow> chunks b = cs"
  using walk_chain by (auto simp: heap_rel_def chunks_def)

definition heap_inv :: "block \<Rightarrow> bool" where
  "heap_inv b = heap_rel b (chunks b)"

lemma heap_inv_iff: "heap_inv b \<longleftrightarrow> (\<exists>cs. heap_rel b cs)"
  by (auto simp: heap_inv_def heap_rel_chunks)

section \<open>What clients see: live blocks and slack\<close>

fun payloads :: "nat \<Rightarrow> chunk list \<Rightarrow> (nat \<times> nat) list" where
  "payloads a [] = []"
| "payloads a ((s, t) # cs) = (if t then [(a + 16, s)] else []) @ payloads (a + 16 + s) cs"

text \<open>The blocks handed out and not released: payload address to payload size.\<close>

definition live :: "block \<Rightarrow> addr \<rightharpoonup> nat" where
  "live b = map_of (map (\<lambda>(x, s). (word_of_nat x, s)) (payloads (unat (b_start b)) (chunks b)))"

text \<open>The free bytes at the end of the block.\<close>

definition slack :: "block \<Rightarrow> nat" where
  "slack b = (case last (chunks b) of (s, t) \<Rightarrow> if t then 0 else s)"

lemma payloads_append [simp]: "payloads a (xs @ ys) = payloads a xs @ payloads (a + span xs) ys"
  by (induction a xs rule: payloads.induct) (auto simp: ac_simps)

lemma payloads_glue [simp]: "payloads a (glue cs) = payloads a cs"
  by (induction cs rule: glue.induct) (auto simp: ac_simps)

lemma payloads_bounds: "(x, s) \<in> set (payloads a cs) \<Longrightarrow> a + 16 \<le> x \<and> x + s \<le> a + span cs"
  by (induction a cs rule: payloads.induct) (force split: if_splits)+

lemma payloads_sorted: "sorted_wrt (\<lambda>(x, s) (y, s'). x + s + 16 \<le> y) (payloads a cs)"
proof (induction a cs rule: payloads.induct)
  case (2 a s t cs)
  then show ?case using payloads_bounds [of _ _ "a + 16 + s" cs] by auto
qed simp

lemma payloads_cut:
  "n \<le> s \<Longrightarrow> \<exists>s' \<ge> n. payloads a (cut n s) = [(a + 16, s')]"
  by (auto simp: cut_def)

lemma payloads_occupy:
  assumes "first_fit n cs = Some i"
  shows "\<exists>P Q s'. payloads a cs = P @ Q \<and> n \<le> s' \<and>
    payloads a (occupy n i cs) = P @ (a + span (take i cs) + 16, s') # Q"
proof -
  from first_fit_nth [OF assms] obtain s where "i < length cs" "cs ! i = (s, False)" and n: "n \<le> s"
    by (cases "cs ! i") auto
  then obtain xs ys where cs: "cs = xs @ (s, False) # ys" "take i cs = xs" "drop (Suc i) cs = ys"
    and i: "cs ! i = (s, False)"
    by (rule_tac split_at) auto
  obtain s' where s': "n \<le> s'" "payloads (a + span xs) (cut n s) = [(a + span xs + 16, s')]"
    using payloads_cut [OF n] by blast
  have "payloads a cs = payloads a xs @ payloads (a + span xs + 16 + s) ys"
    by (simp add: cs(1))
  moreover have "payloads a (occupy n i cs) =
      payloads a xs @ (a + span xs + 16, s') # payloads (a + span xs + 16 + s) ys"
    using s' n unfolding occupy_def cs(2,3) i by (simp add: add.assoc)
  ultimately show ?thesis using s' cs by metis
qed

lemma payloads_release:
  assumes "i < length cs" "snd (cs ! i)"
  shows "\<exists>P Q. payloads a cs = P @ (a + span (take i cs) + 16, fst (cs ! i)) # Q \<and>
    payloads a (release i cs) = P @ Q"
proof -
  obtain s where "cs ! i = (s, True)" using assms(2) by (cases "cs ! i") auto
  with assms(1) obtain xs ys where cs: "cs = xs @ (s, True) # ys" "length xs = i" "take i cs = xs"
    and i: "cs ! i = (s, True)"
    by (rule_tac split_at) auto
  have "payloads a (release i cs) = payloads a xs @ payloads (a + span xs + 16 + s) ys"
    unfolding cs(1) release_split [OF cs(2)] Let_def
    by (cases xs rule: rev_cases) (auto simp: ac_simps)
  then show ?thesis using cs i by auto
qed

lemma map_of_middle:
  "k \<notin> fst ` set P \<Longrightarrow> map_of (P @ (k, v) # Q) = (map_of (P @ Q))(k \<mapsto> v)"
  by (auto simp: fun_eq_iff map_add_def map_of_eq_None_iff [symmetric] split: option.splits)

text \<open>Adding an entry to a list of payloads that stays sorted adds one binding to the map it stands for.\<close>

lemma payload_map_middle:
  assumes "sorted_wrt (\<lambda>(x, s) (y, s'). x + s + 16 \<le> y) (P @ (x, s) # Q)"
    and "\<And>y t. (y, t) \<in> set (P @ (x, s) # Q) \<Longrightarrow> y < 2 ^ 32"
  defines "f \<equiv> \<lambda>(y, t). (word_of_nat y :: addr, t :: nat)"
  shows "map_of (map f (P @ (x, s) # Q)) = (map_of (map f (P @ Q)))(word_of_nat x \<mapsto> s)"
    and "map_of (map f (P @ Q)) (word_of_nat x) = None"
proof -
  have x: "x < 2 ^ 32" using assms(2) [of x s] by simp
  have neq: "(word_of_nat y :: addr) \<noteq> word_of_nat x" if "(y, t) \<in> set P \<union> set Q" for y t
  proof -
    have "y \<noteq> x" using that assms(1) by (auto simp: sorted_wrt_append)
    moreover have "y < 2 ^ 32" using that assms(2) [of y t] by auto
    ultimately show ?thesis using x by (simp add: word_nat)
  qed
  have P: "word_of_nat x \<notin> fst ` set (map f P)" and Q: "word_of_nat x \<notin> fst ` set (map f Q)"
    using neq by (fastforce simp: f_def)+
  have fx: "f (x, s) = (word_of_nat x, s)" by (simp add: f_def)
  show "map_of (map f (P @ (x, s) # Q)) = (map_of (map f (P @ Q)))(word_of_nat x \<mapsto> s)"
    using map_of_middle [OF P] by (simp only: map_append list.map fx)
  show "map_of (map f (P @ Q)) (word_of_nat x) = None"
    using P Q by (simp only: map_append map_of_eq_None_iff set_append image_Un) blast
qed

lemma live_rel: "heap_rel b cs \<Longrightarrow>
    live b = map_of (map (\<lambda>(x, s). (word_of_nat x, s)) (payloads (unat (b_start b)) cs))"
  by (simp add: live_def heap_rel_chunks)

lemma payload_small: "heap_rel b cs \<Longrightarrow> (y, t) \<in> set (payloads (unat (b_start b)) cs) \<Longrightarrow> y < 2 ^ 32"
  using payloads_bounds [of y t "unat (b_start b)" cs] by (auto simp: heap_rel_def)

lemma live_occupy:
  assumes rel: "heap_rel b cs" "heap_rel b' (occupy n i cs)" and "b_start b' = b_start b"
    and ff: "first_fit n cs = Some i"
  defines "x \<equiv> word_of_nat (unat (b_start b) + span (take i cs) + 16)"
  shows "\<exists>s \<ge> n. live b' = (live b)(x \<mapsto> s)" "live b x = None"
proof -
  let ?a = "unat (b_start b)"
  obtain P Q s where PQ: "payloads ?a cs = P @ Q" "n \<le> s"
    "payloads ?a (occupy n i cs) = P @ (?a + span (take i cs) + 16, s) # Q"
    using payloads_occupy [OF ff] by metis
  have b: "\<And>y t. (y, t) \<in> set (P @ (?a + span (take i cs) + 16, s) # Q) \<Longrightarrow> y < 2 ^ 32"
    using payload_small [OF rel(2)] assms(3) PQ by metis
  note pm = payload_map_middle [OF payloads_sorted [of ?a "occupy n i cs", unfolded PQ(3)] b]
  show "\<exists>s \<ge> n. live b' = (live b)(x \<mapsto> s)" "live b x = None"
    using PQ pm assms(3) by (auto simp: live_rel [OF rel(1)] live_rel [OF rel(2)] x_def simp del: of_nat_add)
qed

lemma live_release:
  assumes rel: "heap_rel b cs" "heap_rel b' (release i cs)" and "b_start b' = b_start b"
    and i: "i < length cs" "snd (cs ! i)"
  shows "live b' = (live b)(word_of_nat (unat (b_start b) + span (take i cs) + 16) := None)"
proof -
  let ?a = "unat (b_start b)"
  obtain P Q where PQ: "payloads ?a cs = P @ (?a + span (take i cs) + 16, fst (cs ! i)) # Q"
    "payloads ?a (release i cs) = P @ Q"
    using payloads_release [OF i] by metis
  have b: "\<And>y t. (y, t) \<in> set (P @ (?a + span (take i cs) + 16, fst (cs ! i)) # Q) \<Longrightarrow> y < 2 ^ 32"
    using payload_small [OF rel(1)] PQ by metis
  note pm = payload_map_middle [OF payloads_sorted [of ?a cs, unfolded PQ(1)] b]
  then show ?thesis
    using PQ assms(3) by (auto simp: live_rel [OF rel(1)] live_rel [OF rel(2)] fun_eq_iff simp del: of_nat_add)
qed

text \<open>A live address is the payload of a taken chunk.\<close>

lemma payloads_index:
  "(x, s) \<in> set (payloads a cs) \<Longrightarrow> \<exists>i < length cs. cs ! i = (s, True) \<and> x = a + span (take i cs) + 16"
proof (induction a cs rule: payloads.induct)
  case (2 a s' t cs)
  show ?case
  proof (cases "t \<and> x = a + 16 \<and> s = s'")
    case True
    then show ?thesis by (intro exI [of _ 0]) auto
  next
    case False
    with "2.prems" have "(x, s) \<in> set (payloads (a + 16 + s') cs)" by (auto split: if_splits)
    from "2.IH" [OF this] obtain i where "i < length cs" "cs ! i = (s, True)"
      "x = a + 16 + s' + span (take i cs) + 16" by blast
    then show ?thesis by (intro exI [of _ "Suc i"]) auto
  qed
qed simp

lemma live_index:
  assumes "heap_rel b cs" "live b x = Some s"
  obtains i where "i < length cs" "cs ! i = (s, True)"
    "x = word_of_nat (unat (b_start b) + span (take i cs) + 16)"
proof -
  from assms obtain y where "(y, s) \<in> set (payloads (unat (b_start b)) cs)" "x = word_of_nat y"
    by (auto simp: live_rel dest!: map_of_SomeD)
  with payloads_index that show ?thesis by metis
qed

subsection \<open>Slack\<close>

definition slack_of :: "chunk list \<Rightarrow> nat" where
  "slack_of cs = (case last cs of (s, t) \<Rightarrow> if t then 0 else s)"

lemma slack_rel: "heap_rel b cs \<Longrightarrow> slack b = slack_of cs"
  by (simp add: slack_def slack_of_def heap_rel_chunks)

lemma slack_of_append [simp]: "ys \<noteq> [] \<Longrightarrow> slack_of (xs @ ys) = slack_of ys"
  by (simp add: slack_of_def)

lemma slack_of_glue: "cs \<noteq> [] \<Longrightarrow> slack_of cs \<le> slack_of (glue cs)"
  by (induction cs rule: glue.induct) (auto simp: slack_of_def split: prod.splits)

lemma first_fit_Cons_last:
  "cs \<noteq> [] \<Longrightarrow> last cs = (s, False) \<Longrightarrow> n \<le> s \<Longrightarrow> first_fit n cs \<noteq> None"
  by (induction n cs rule: first_fit.induct) (auto split: if_splits)

text \<open>With enough slack a request is served, safely, and the slack shrinks by what was asked at most.\<close>

lemma slack_serves:
  assumes "cs \<noteq> []" "n + 24 < slack_of cs"
  shows "\<exists>i. first_fit n cs = Some i \<and> fits_safely n cs \<and> slack_of cs \<le> slack_of (occupy n i cs) + n + 16"
proof -
  obtain s where l: "last cs = (s, False)" "slack_of cs = s"
    using assms(2) by (cases "last cs") (auto simp: slack_of_def split: if_splits)
  with assms first_fit_Cons_last [of cs s n] obtain i where i: "first_fit n cs = Some i" by auto
  note nth = first_fit_nth [OF i]
  have at_last: "cs ! i = (s, False)" if "Suc i = length cs"
    using l that assms(1) by (metis diff_Suc_1 last_conv_nth)
  have "fits_safely n cs"
    using i nth at_last assms l by (cases "Suc i = length cs") (auto simp: fits_safely_def)
  moreover have "slack_of cs \<le> slack_of (occupy n i cs) + n + 16"
  proof (cases "Suc i = length cs")
    case True
    with at_last assms l show ?thesis by (simp add: occupy_def cut_def) (simp add: slack_of_def)
  next
    case False
    with nth have "drop (Suc i) cs \<noteq> []" "last (drop (Suc i) cs) = last cs" by auto
    then show ?thesis by (simp add: occupy_def) (simp add: slack_of_def)
  qed
  ultimately show ?thesis using i by blast
qed

lemma slack_release:
  assumes "i < length cs" "snd (cs ! i)"
  shows "slack_of cs \<le> slack_of (release i cs)"
proof -
  obtain s where "cs ! i = (s, True)" using assms(2) by (cases "cs ! i") auto
  with assms(1) obtain xs ys where cs: "cs = xs @ (s, True) # ys" "length xs = i"
    by (rule_tac split_at)
  let ?g = "glue ((s, False) # ys)"
  have "slack_of cs \<le> slack_of ((s, False) # ys)" by (simp add: cs slack_of_def)
  also have "\<dots> \<le> slack_of ?g" by (rule slack_of_glue) simp
  finally have g: "slack_of cs \<le> slack_of ?g" .
  show ?thesis
  proof (cases "xs = []")
    case True
    with g cs release_split [OF cs(2), of s True ys] show ?thesis by simp
  next
    case False
    have "slack_of ?g = slack_of (last xs # ?g)" by (simp add: slack_of_def)
    also have "\<dots> \<le> slack_of (glue (last xs # ?g))" by (rule slack_of_glue) simp
    finally show ?thesis using g cs(1) False release_split [OF cs(2), of s True ys] by simp
  qed
qed

section \<open>The interface of the kernel heap\<close>

text \<open>
  What a client of \<^verbatim>\<open>kmalloc\<close> and \<^verbatim>\<open>kfree\<close> may rely on. \<open>lives\<close> maps the address of every block handed out
  to its size; \<open>room\<close> bounds from below what can still be served.
\<close>

locale kernel_heap =
  fixes alloc :: "'h \<Rightarrow> u32 \<Rightarrow> ('h \<times> addr) result"
    and free :: "'h \<Rightarrow> addr \<Rightarrow> 'h"
    and inv :: "'h \<Rightarrow> bool"
    and lives :: "'h \<Rightarrow> addr \<rightharpoonup> nat"
    and room :: "'h \<Rightarrow> nat"
  assumes alloc_ok: "inv h \<Longrightarrow> unat n + 24 < room h \<Longrightarrow>
      \<exists>h' a s. alloc h n = Inr (h', a) \<and> inv h' \<and> a \<noteq> NULL \<and> lives h a = None \<and>
        lives h' = (lives h)(a \<mapsto> s) \<and> unat n \<le> s \<and> room h \<le> room h' + unat n + 16"
    and free_ok: "inv h \<Longrightarrow> lives h a = Some s \<Longrightarrow>
      inv (free h a) \<and> lives (free h a) = (lives h)(a := None) \<and> room h \<le> room (free h a)"
    and lives_disjoint: "inv h \<Longrightarrow> lives h a = Some s \<Longrightarrow> lives h a' = Some s' \<Longrightarrow> a \<noteq> a' \<Longrightarrow>
      unat a + s \<le> unat a' \<or> unat a' + s' \<le> unat a"
begin

lemma alloc_free:
  assumes "inv h" "unat n + 24 < room h"
  obtains h' a where "alloc h n = Inr (h', a)" "inv (free h' a)" "lives (free h' a) = lives h"
proof -
  from alloc_ok [OF assms] obtain h' a s where a: "alloc h n = Inr (h', a)" "inv h'"
    "lives h a = None" "lives h' = (lives h)(a \<mapsto> s)" by blast
  then have "inv (free h' a)" "lives (free h' a) = (lives h')(a := None)"
    using free_ok [of h' a s] by auto
  with a that show ?thesis by (metis fun_upd_idem fun_upd_upd)
qed

text \<open>Two requests in a row give two different blocks.\<close>

lemma alloc_alloc:
  assumes "inv h" "unat n + 24 + (unat n' + 16) < room h" "unat n' + 24 + (unat n + 16) < room h"
  obtains h1 a1 h2 a2 where "alloc h n = Inr (h1, a1)" "alloc h1 n' = Inr (h2, a2)" "a1 \<noteq> a2" "inv h2"
proof -
  from alloc_ok [of h n] assms obtain h1 a1 s where 1: "alloc h n = Inr (h1, a1)" "inv h1"
    "lives h1 = (lives h)(a1 \<mapsto> s)" "room h \<le> room h1 + unat n + 16" by auto
  with assms have "unat n' + 24 < room h1" by linarith
  from alloc_ok [OF 1(2) this] 1 that show ?thesis by (metis fun_upd_same option.distinct(1))
qed

end

lemma kmalloc_slack:
  assumes inv: "heap_inv h" and n: "unat n + 24 < slack h"
  shows "\<exists>h' a s. kmalloc h n = Inr (h', a) \<and> heap_inv h' \<and> a \<noteq> NULL \<and> live h a = None \<and>
    live h' = (live h)(a \<mapsto> s) \<and> unat n \<le> s \<and> slack h \<le> slack h' + unat n + 16"
proof -
  define cs where "cs = chunks h"
  have rel: "heap_rel h cs" using inv by (simp add: cs_def heap_inv_def)
  then have "cs \<noteq> []" by (simp add: heap_rel_def)
  from slack_serves [OF this] n rel obtain i where i: "first_fit (unat n) cs = Some i"
    "fits_safely (unat n) cs" "slack_of cs \<le> slack_of (occupy (unat n) i cs) + unat n + 16"
    by (auto simp: slack_rel)
  define a where "a = unat (b_start h) + span (take i cs) + 16"
  from block_allocate_Some [OF rel i(1,2)] obtain h' where h': "kmalloc h n = Inr (h', word_of_nat a)"
    "b_start h' = b_start h" "heap_rel h' (occupy (unat n) i cs)"
    unfolding a_def kmalloc_eq by blast
  have "span (take i cs) + 16 \<le> span cs"
    using first_fit_nth [OF i(1)] id_take_nth_drop [of i cs] span_append [of "take i cs" "cs ! i # drop (Suc i) cs"]
    by (cases "cs ! i") auto
  with rel have "(word_of_nat a :: addr) \<noteq> NULL"
    by (subst word32_of_nat_eq_0_iff) (auto simp: a_def heap_rel_def)
  with live_occupy [OF rel h'(3,2) i(1)] h' rel i(3) show ?thesis
    unfolding a_def [symmetric] by (auto simp: slack_rel heap_inv_iff)
qed

lemma kmalloc_frame:
  "kmalloc h n = Inr (h', a) \<Longrightarrow> b_start h' = b_start h \<and> b_blockSize h' = b_blockSize h"
  by (auto simp: kmalloc_eq block_allocate_def split: option.splits if_splits prod.splits)

lemma kfree_live:
  assumes "heap_inv h" "live h a = Some s"
  shows "heap_inv (kfree h a) \<and> live (kfree h a) = (live h)(a := None) \<and> slack h \<le> slack (kfree h a)"
proof -
  define cs where "cs = chunks h"
  have rel: "heap_rel h cs" using assms(1) by (simp add: cs_def heap_inv_def)
  from live_index [OF rel assms(2)] obtain i where i: "i < length cs" "cs ! i = (s, True)"
    and a: "a = word_of_nat (unat (b_start h) + span (take i cs) + 16)" by metis
  have rel': "heap_rel (kfree h a) (release i cs)"
    using block_free_release [OF rel i(1)] by (simp add: kfree_eq a del: of_nat_add)
  have "b_start (kfree h a) = b_start h" by (simp add: kfree_eq block_free_mem)
  with live_release [OF rel rel' _ i(1)] slack_release [OF i(1)] rel rel' i a show ?thesis
    by (auto simp: slack_rel heap_inv_iff)
qed

lemma live_bounds:
  assumes "heap_inv h" "live h a = Some s"
  shows "unat (b_start h) + 16 \<le> unat a \<and> unat a + s \<le> unat (b_start h) + unat (b_blockSize h)"
    and "(unat a, s) \<in> set (payloads (unat (b_start h)) (chunks h))"
proof -
  have rel: "heap_rel h (chunks h)" using assms(1) by (simp add: heap_inv_def)
  with assms obtain y where y: "(y, s) \<in> set (payloads (unat (b_start h)) (chunks h))" "a = word_of_nat y"
    by (auto simp: live_rel dest!: map_of_SomeD)
  with payload_small [OF rel] have "unat a = y" by (metis unat_word32_of_nat)
  with y rel payloads_bounds [OF y(1)]
  show "unat (b_start h) + 16 \<le> unat a \<and> unat a + s \<le> unat (b_start h) + unat (b_blockSize h)"
    "(unat a, s) \<in> set (payloads (unat (b_start h)) (chunks h))"
    by (auto simp: heap_rel_def)
qed

lemma sorted_wrt_pair:
  assumes "sorted_wrt R xs" "x \<in> set xs" "y \<in> set xs" "x \<noteq> y"
  shows "R x y \<or> R y x"
  using assms by (induction xs) auto

lemma live_disjoint:
  assumes "heap_inv h" "live h a = Some s" "live h a' = Some s'" "a \<noteq> a'"
  shows "unat a + s + 16 \<le> unat a' \<or> unat a' + s' + 16 \<le> unat a"
proof -
  have "(unat a, s) \<noteq> (unat a', s')" using assms(4) by (auto simp: word_unat_eq_iff)
  from sorted_wrt_pair [OF payloads_sorted live_bounds(2) [OF assms(1,2)] live_bounds(2) [OF assms(1,3)] this]
  show ?thesis by auto
qed

lemma live_end: "heap_inv h \<Longrightarrow> live h a = Some s \<Longrightarrow> unat a + s < 2 ^ 32"
  using live_bounds(1) [of h a s] by (auto simp: heap_inv_def heap_rel_def)

text \<open>A field of a live block is not at address 0.\<close>

lemma live_field:
  assumes "heap_inv h" "live h a = Some s" "unat d \<le> s"
  shows "unat (a + d) = unat a + unat d"
  using live_end [OF assms(1,2)] assms(3) by (subst unat_add_lem [THEN iffD1]) auto

interpretation kh: kernel_heap kmalloc kfree heap_inv live slack
proof unfold_locales
  fix h and n :: u32 assume "heap_inv h" "unat n + 24 < slack h"
  then show "\<exists>h' a s. kmalloc h n = Inr (h', a) \<and> heap_inv h' \<and> a \<noteq> NULL \<and> live h a = None \<and>
        live h' = (live h)(a \<mapsto> s) \<and> unat n \<le> s \<and> slack h \<le> slack h' + unat n + 16"
    by (rule kmalloc_slack)
next
  fix h a s assume "heap_inv h" "live h a = Some s"
  then show "heap_inv (kfree h a) \<and> live (kfree h a) = (live h)(a := None) \<and> slack h \<le> slack (kfree h a)"
    by (rule kfree_live)
next
  fix h a s and a' :: addr and s' assume "heap_inv h" "live h a = Some s" "live h a' = Some s'" "a \<noteq> a'"
  from live_disjoint [OF this] show "unat a + s \<le> unat a' \<or> unat a' + s' \<le> unat a" by linarith
qed

section \<open>Properties\<close>

lemma block_init_rel:
  assumes "0 < unat a" "16 \<le> unat sz" "unat a + unat sz < 2 ^ 32"
  shows "heap_rel (block_init b a sz) [(unat sz - 16, False)]"
proof -
  have "sz - 16 = word_of_nat (unat sz - 16)" using assms(2) by (simp add: of_nat_diff)
  with assms show ?thesis
    by (auto simp: heap_rel_def block_init_def putHeader_def sizeof_Header_def)
qed

text \<open>A heap of 216 bytes for concrete instances: one free chunk, then one taken and one free.\<close>

definition demo_heap :: block where
  "demo_heap = block_init (Block_default (\<lambda>_. \<lparr>hsize = 0, hprev = 0, hnext = 0, htaken = False\<rparr>)) 4096 216"

lemma demo_heap_rel: "heap_rel demo_heap [(200, False)]"
  using block_init_rel [of 4096 216] by (simp add: demo_heap_def)

lemma demo_heap_start [simp]: "b_start demo_heap = 4096" "b_blockSize demo_heap = 216"
  by (simp_all add: demo_heap_def block_init_def)

lemma demo_heap_inv: "heap_inv demo_heap" "chunks demo_heap = [(200, False)]" "slack demo_heap = 200"
  using demo_heap_rel heap_rel_chunks [OF demo_heap_rel] slack_rel [OF demo_heap_rel]
  by (auto simp: heap_inv_iff slack_of_def)

text \<open>A fresh heap of 64 KiB, for concrete instances.\<close>

definition wide_heap :: block where
  "wide_heap = block_init demo_heap 4096 65536"

lemma wide_heap_inv: "heap_inv wide_heap" "slack wide_heap = 65520"
  using block_init_rel [of 4096 65536 demo_heap] slack_rel [of wide_heap "[(65520, False)]"]
  by (auto simp: wide_heap_def heap_inv_iff slack_of_def)

definition roomy_heap :: block where
  "roomy_heap = block_init demo_heap 4096 4194304"

lemma roomy_heap_inv: "heap_inv roomy_heap" "slack roomy_heap = 4194288"
  using block_init_rel [of 4096 4194304 demo_heap] slack_rel [of roomy_heap "[(4194288, False)]"]
  by (auto simp: roomy_heap_def heap_inv_iff slack_of_def)

text \<open>
  C4. \<^verbatim>\<open>kmalloc\<close> is first fit: on a block that holds the chunk list \<open>cs\<close> it returns \<^verbatim>\<open>NULL\<close> and changes nothing
  if no free chunk is large enough, and otherwise the payload of the first free chunk that is, which it
  takes whole or splits; the chunk list afterwards is \<open>occupy\<close>. (The walk ends: the result is never
  \<open>Inl Hang\<close>.) The second hypothesis excludes the exhaustion case of \<open>kmalloc_last_chunk_escapes\<close>.
\<close>

theorem kmalloc_refines_first_fit:
  assumes "heap_rel b cs" "fits_safely (unat n) cs"
  shows "case first_fit (unat n) cs of
      None \<Rightarrow> kmalloc b n = Inr (b, NULL)
    | Some i \<Rightarrow> \<exists>b'. kmalloc b n = Inr (b', word_of_nat (unat (b_start b) + span (take i cs) + 16)) \<and>
        heap_rel b' (occupy (unat n) i cs)"
  using block_allocate_None [OF assms(1)] block_allocate_Some [OF assms(1) _ assms(2)]
  by (auto simp: kmalloc_eq split: option.splits simp del: of_nat_add)

theorem kmalloc_refines_first_fit_witness:
  "heap_rel demo_heap [(200, False)] \<and> fits_safely (unat (40::u32)) [(200, False)] \<and>
   (\<exists>b'. kmalloc demo_heap 40 = Inr (b', 4112) \<and> heap_rel b' [(40, True), (144, False)])"
proof -
  have f: "fits_safely (unat (40::u32)) [(200, False)]" by (simp add: fits_safely_def)
  from kmalloc_refines_first_fit [OF demo_heap_rel f] f demo_heap_rel show ?thesis
    by (simp add: occupy_def cut_def)
qed

text \<open>
  C5. \<^verbatim>\<open>kfree\<close> of the payload of chunk \<open>i\<close> releases exactly that chunk: the new chunk list is the old one with
  the chunk free and joined with its free neighbours, so no two free chunks are adjacent (\<open>coalesced\<close> is
  part of \<open>heap_rel\<close>).
\<close>

theorem kfree_refines_release:
  assumes "heap_rel b cs" "i < length cs"
  shows "heap_rel (kfree b (word_of_nat (unat (b_start b) + span (take i cs) + 16))) (release i cs)"
  using block_free_release [OF assms] by (simp only: kfree_eq)

theorem kfree_refines_release_witness:
  "\<exists>b'. kmalloc demo_heap 40 = Inr (b', 4112) \<and> heap_rel (kfree b' 4112) [(200, False)]"
proof -
  have "fits_safely (unat (40::u32)) [(200, False)]" by (simp add: fits_safely_def)
  from block_allocate_Some [OF demo_heap_rel _ this] obtain b' where
    b': "kmalloc demo_heap 40 = Inr (b', 4112)" "b_start b' = 4096" "heap_rel b' [(40, True), (144, False)]"
    by (auto simp: kmalloc_eq occupy_def cut_def)
  from kfree_refines_release [OF b'(3), of 0] b' show ?thesis by (simp add: release_def)
qed

lemma release_occupy:
  assumes "coalesced cs" "first_fit n cs = Some i"
  shows "release i (occupy n i cs) = cs"
proof -
  from first_fit_nth [OF assms(2)] obtain s where n: "n \<le> s" and "i < length cs" "cs ! i = (s, False)"
    by (cases "cs ! i") auto
  then obtain xs ys where cs: "cs = xs @ (s, False) # ys" and xs: "length xs = i" "take i cs = xs"
    "drop (Suc i) cs = ys" "cs ! i = (s, False)"
    by (rule_tac split_at) auto
  have ys: "ys = [] \<or> snd (hd ys)" and l: "xs = [] \<or> snd (last xs)"
    using assms(1) cs by (auto simp: coalesced_append coalesced_Cons)
  have "\<exists>s0 t0 rest. cut n s @ ys = (s0, t0) # rest \<and> glue ((s0, False) # rest) = (s, False) # ys"
    using n by (cases "24 < s - n") (auto simp: cut_def glue_next_taken [OF ys])
  then obtain s0 t0 rest where ct: "cut n s @ ys = (s0, t0) # rest" "glue ((s0, False) # rest) = (s, False) # ys"
    by blast
  have "occupy n i cs = xs @ (s0, t0) # rest" using ct(1) xs by (simp add: occupy_def)
  moreover have "xs \<noteq> [] \<Longrightarrow> glue (last xs # (s, False) # ys) = last xs # (s, False) # ys"
    using l by (cases "last xs") auto
  ultimately show ?thesis
    using release_split [OF xs(1), of s0 t0 rest] ct(2) cs by (auto simp: Let_def)
qed

text \<open>
  Round trip: releasing what \<^verbatim>\<open>kmalloc\<close> just returned gives back the chunk list there was before, splits
  undone.
\<close>

theorem kmalloc_kfree_roundtrip:
  assumes "heap_rel b cs" "fits_safely (unat n) cs" "kmalloc b n = Inr (b', a)" "a \<noteq> NULL"
  shows "heap_rel (kfree b' a) cs"
proof (cases "first_fit (unat n) cs")
  case None
  with block_allocate_None [OF assms(1) None] assms show ?thesis by (simp add: kmalloc_eq)
next
  case (Some i)
  note nth = first_fit_nth [OF Some]
  have b': "a = word_of_nat (unat (b_start b) + span (take i cs) + 16)" "b_start b' = b_start b"
    and rel: "heap_rel b' (occupy (unat n) i cs)"
    using block_allocate_Some [OF assms(1) Some assms(2)] assms(3) by (auto simp: kmalloc_eq)
  have "i < length (occupy (unat n) i cs)" "take i (occupy (unat n) i cs) = take i cs"
    using nth by (auto simp: occupy_def cut_def)
  with block_free_release [OF rel] b' have "heap_rel (kfree b' a) (release i (occupy (unat n) i cs))"
    by (metis kfree_eq)
  with release_occupy [OF _ Some] assms(1) show ?thesis by (simp add: heap_rel_def)
qed

theorem kmalloc_kfree_roundtrip_witness:
  "\<exists>b'. kmalloc demo_heap 40 = Inr (b', 4112) \<and> heap_rel (kfree b' 4112) [(200, False)]"
proof -
  have f: "fits_safely (unat (40::u32)) [(200, False)]" by (simp add: fits_safely_def)
  from block_allocate_Some [OF demo_heap_rel _ this] obtain b' where
    b': "kmalloc demo_heap 40 = Inr (b', 4112)" by (auto simp: kmalloc_eq)
  with kmalloc_kfree_roundtrip [OF demo_heap_rel f b'] show ?thesis by simp
qed

text \<open>
  C8. Memory safety of allocation: with enough slack \<^verbatim>\<open>kmalloc\<close> returns a block of at least the requested size
  that lies inside the heap's memory, at least a header away from every block that was live before; those
  stay live, with their sizes.
\<close>

theorem kmalloc_fresh_disjoint:
  assumes "heap_inv h" "unat n + 24 < slack h"
  shows "\<exists>h' a s. kmalloc h n = Inr (h', a) \<and> heap_inv h' \<and> unat n \<le> s \<and> live h' = (live h)(a \<mapsto> s) \<and>
    unat (b_start h) + 16 \<le> unat a \<and> unat a + s \<le> unat (b_start h) + unat (b_blockSize h) \<and>
    (\<forall>a' s'. live h a' = Some s' \<longrightarrow> unat a' + s' + 16 \<le> unat a \<or> unat a + s + 16 \<le> unat a')"
proof -
  from kh.alloc_ok [OF assms] obtain h' a s where a: "kmalloc h n = Inr (h', a)" "heap_inv h'"
    "live h a = None" "live h' = (live h)(a \<mapsto> s)" "unat n \<le> s" by blast
  have "b_start h' = b_start h" "b_blockSize h' = b_blockSize h" using kmalloc_frame [OF a(1)] by auto
  with live_bounds(1) [OF a(2), of a s] a(4)
  have bnd: "unat (b_start h) + 16 \<le> unat a \<and> unat a + s \<le> unat (b_start h) + unat (b_blockSize h)" by simp
  have "unat a' + s' + 16 \<le> unat a \<or> unat a + s + 16 \<le> unat a'" if "live h a' = Some s'" for a' s'
  proof -
    have "a \<noteq> a'" using that a(3) by auto
    with that a live_disjoint [OF a(2), of a s a' s'] show ?thesis by auto
  qed
  with a bnd show ?thesis by blast
qed

theorem kmalloc_fresh_disjoint_witness:
  "heap_inv demo_heap \<and> unat (40::u32) + 24 < slack demo_heap \<and>
   (\<exists>h' a s. kmalloc demo_heap 40 = Inr (h', a) \<and> heap_inv h' \<and> 40 \<le> s \<and>
      unat a + s \<le> 4096 + 216)"
proof -
  have s: "unat (40::u32) + 24 < slack demo_heap" by (simp add: demo_heap_inv)
  from kmalloc_fresh_disjoint [OF demo_heap_inv(1) s] obtain h' a t where
    "kmalloc demo_heap 40 = Inr (h', a)" "heap_inv h'" "unat (40::u32) \<le> t"
    "unat a + t \<le> unat (b_start demo_heap) + unat (b_blockSize demo_heap)" by blast
  with s demo_heap_inv(1) show ?thesis by auto
qed

text \<open>
  Every heap a client can produce from \<^verbatim>\<open>memory::init\<close> on by allocating (unless a request consumes the last
  chunk of the block whole) and by releasing live blocks.
\<close>

inductive heap_reach :: "block \<Rightarrow> bool" where
  boot: "0 < unat pages \<Longrightarrow> unat pages + 2 ^ 28 < 2 ^ 32 \<Longrightarrow> heap_reach (memory_init b pages)"
| malloc: "heap_reach h \<Longrightarrow> fits_safely (unat n) (chunks h) \<Longrightarrow> kmalloc h n = Inr (h', a) \<Longrightarrow> heap_reach h'"
| free: "heap_reach h \<Longrightarrow> live h a = Some s \<Longrightarrow> heap_reach (kfree h a)"

lemma heap_size: "NUM_PAGES_HEAP * PAGE_SIZE = 2 ^ 28"
  by (simp add: NUM_PAGES_HEAP_def PAGE_SIZE_def)

text \<open>
  C9. The heap invariant holds in every reachable heap: from boot on, whatever the clients allocate and
  release, the headers form a doubly linked list in address order that covers the whole block without gaps,
  overlaps or neighbouring free chunks.
\<close>

theorem heap_reach_inv: "heap_reach h \<Longrightarrow> heap_inv h"
proof (induction rule: heap_reach.induct)
  case (boot pages b)
  then show ?case
    using block_init_rel [of pages "2 ^ 28" b] by (auto simp: memory_init_def heap_init_def heap_size heap_inv_iff)
next
  case (malloc h n h' a)
  then have "heap_rel h (chunks h)" by (simp add: heap_inv_def)
  from block_allocate_None [OF this] block_allocate_Some [OF this _ malloc.hyps(2)] malloc.hyps(3) malloc.IH
  show ?case by (cases "first_fit (unat n) (chunks h)") (auto simp: kmalloc_eq heap_inv_iff)
next
  case (free h a s)
  then show ?case using kh.free_ok by blast
qed

theorem heap_reach_inv_witness:
  "heap_reach (memory_init demo_heap 0xC2000000) \<and> heap_inv (memory_init demo_heap 0xC2000000)"
proof -
  have "heap_reach (memory_init demo_heap 0xC2000000)" by (rule heap_reach.boot) simp_all
  with heap_reach_inv [OF this] show ?thesis by blast
qed

text \<open>
  The exhaustion case: when first fit lands on the last chunk of the block and takes it whole, the
  chunk's forward pointer becomes the address one past the block instead of \<^verbatim>\<open>NULL\<close> (\<^verbatim>\<open>jump(first, 1)\<close> in the
  \<^verbatim>\<open>else\<close> branch of \<^verbatim>\<open>Block::allocate\<close>): the next walk that gets there reads a header outside the heap.
\<close>

theorem kmalloc_last_chunk_escapes:
  assumes rel: "heap_rel b cs" and ff: "first_fit (unat n) cs = Some i"
    and l: "Suc i = length cs" and whole: "fst (cs ! i) - unat n \<le> 24"
  shows "\<exists>b' a. kmalloc b n = Inr (b', a) \<and>
    hnext (b_mem b' (a - sizeof_Header)) = b_start b + b_blockSize b \<and>
    b_start b + b_blockSize b \<noteq> NULL"
proof -
  let ?a = "unat (b_start b)" and ?m = "b_mem b"
  from first_fit_nth [OF ff] obtain s where i: "i < length cs" "cs ! i = (s, False)" and n: "unat n \<le> s"
    by (cases "cs ! i") auto
  then obtain xs ys where cs: "cs = xs @ (s, False) # ys" and len: "length xs = i" "take i cs = xs"
    by (rule_tac split_at)
  have ys: "ys = []" using l cs len by simp
  define c where "c = ?a + span xs"
  have ch: "hsize (?m (word_of_nat c)) = word_of_nat s"
    and bnd: "c + 16 + s < 2 ^ 32" "0 < ?a" "b_chunckList b = b_start b" "unat (b_blockSize b) = span xs + 16 + s"
    using rel ys by (auto simp: heap_rel_def cs chain_append c_def)
  have fc: "\<exists>p. find_chunk ?m n NULL (b_start b) = Some (p, word_of_nat c)"
    using find_chunk_chain [of ?m 0 ?a cs "unat n"] rel ff len unfolding heap_rel_def c_def by simp
  have c0: "(word_of_nat c :: addr) \<noteq> NULL"
    using bnd by (subst word32_of_nat_eq_0_iff) (auto simp: c_def)
  have "word_of_nat s - n = (word_of_nat (s - unat n) :: u32)" using n by (simp add: of_nat_diff)
  moreover have "\<not> (24::u32) < word_of_nat (s - unat n)"
    using whole i bnd word32_of_nat_less_iff [of 24 "s - unat n"] by simp
  ultimately have tc: "take_chunk ?m p (word_of_nat c) n (word_of_nat c) =
      \<lparr>hsize = word_of_nat s, hprev = p, hnext = word_of_nat c + 16 + word_of_nat s, htaken = True\<rparr>" for p
    using ch c0 by (simp add: take_chunk_def sizeof_Header_def minChunkSize_def)
  have "b_start b + b_blockSize b = word_of_nat ?a + word_of_nat (span xs + 16 + s)"
    using bnd(4) by (metis of_nat_unat ucast_id)
  then have e: "b_start b + b_blockSize b = word_of_nat (c + 16 + s)" by (simp add: c_def)
  have "(word_of_nat (c + 16 + s) :: addr) \<noteq> NULL"
    using bnd by (subst word32_of_nat_eq_0_iff) auto
  with fc c0 bnd tc e show ?thesis
    by (auto simp: kmalloc_eq block_allocate_def)
qed

theorem kmalloc_last_chunk_escapes_witness:
  "\<exists>b' a. kmalloc demo_heap 190 = Inr (b', a) \<and> hnext (b_mem b' (a - sizeof_Header)) = 4096 + 216"
proof -
  have "first_fit (unat (190::u32)) [(200, False)] = Some 0" by simp
  from kmalloc_last_chunk_escapes [OF demo_heap_rel this] show ?thesis by auto
qed

lemma htaken_merge [simp]: "htaken (fst (merge m f s) x) = htaken (m x)"
  by (simp add: merge_def Let_def)

text \<open>
  \<^verbatim>\<open>kfree(NULL)\<close> is not a no-op: it clears the \<^verbatim>\<open>taken\<close> field of the "header" 16 bytes below address 0, at
  \<^verbatim>\<open>0xFFFFFFF0\<close>, so it changes memory whenever that field was set. (\<^verbatim>\<open>operator delete\<close> and
  \<^verbatim>\<open>ProcEntry::release\<close> call \<^verbatim>\<open>kfree\<close> without a check.)
\<close>

theorem kfree_NULL_writes:
  "\<not> htaken (b_mem (kfree b NULL) 0xFFFFFFF0)"
  by (simp add: kfree_eq block_free_mem free_mem_def merge_next_def sizeof_Header_def Let_def)

end
