(* ===== verification/Prio_Queue.thy ===== *)
theory Prio_Queue
  imports Heap_Spec
begin

text \<open>
  The class template \<^verbatim>\<open>priority_queue\<close> of \<^verbatim>\<open>src/src/kernel/include/kernel/containers/queue.h\<close>: a binary
  max-heap in a growable array. The array lives on the kernel heap, so every operation that allocates or
  releases it threads the heap (\<open>block\<close>); the contents of the array are kept with its address. Array
  accesses are checked, so a result \<open>Inr\<close> also says that no access was out of range.
\<close>

section \<open>State\<close>

record ('k, 'v) key_val =
  key :: 'k
  val :: 'v

text \<open>
  \<open>pq_ptr\<close> is the pointer \<^verbatim>\<open>_mem\<close>, \<open>pq_mem\<close> the array it points to (no cells if \<^verbatim>\<open>new\<close> returned \<^verbatim>\<open>NULL\<close>, so that
  any access faults).
\<close>

record ('k, 'v) priority_queue =
  pq_ptr :: addr
  pq_mem :: "('k, 'v) key_val list"
  pq_size :: int
  pq_count :: int

text \<open>The kernel only uses 4-byte keys and values: \<^verbatim>\<open>sizeof(keyval)\<close> is 8, the object itself 12 bytes.\<close>

definition sizeof_keyval :: u32 where
  "sizeof_keyval = 8"

definition sizeof_pq :: u32 where
  "sizeof_pq = 12"

text \<open>
  \<^verbatim>\<open>new keyval[n]\<close> leaves the elements as the memory happens to be (\<^verbatim>\<open>key_val() {}\<close>); \<open>junk\<close> is what it holds.
\<close>

definition new_keyvals ::
    "(nat \<Rightarrow> ('k, 'v) key_val) \<Rightarrow> block \<Rightarrow> int \<Rightarrow> (block \<times> addr \<times> ('k, 'v) key_val list) result" where
  "new_keyvals junk h n = rbind (operator_new h (sizeof_keyval * word_of_int n))
     (\<lambda>(h', p). Inr (h', p, if p = NULL then [] else map junk [0..<nat n]))"

definition pq_new ::
    "(nat \<Rightarrow> ('k, 'v) key_val) \<Rightarrow> block \<Rightarrow> int \<Rightarrow> (block \<times> ('k, 'v) priority_queue) result" where
  "pq_new junk h start_size = rbind (new_keyvals junk h start_size)
     (\<lambda>(h', p, m). Inr (h', \<lparr>pq_ptr = p, pq_mem = m, pq_size = start_size, pq_count = 0\<rparr>))"

definition pq_new_default ::
    "(nat \<Rightarrow> ('k, 'v) key_val) \<Rightarrow> block \<Rightarrow> (block \<times> ('k, 'v) priority_queue) result" where
  "pq_new_default junk h = pq_new junk h 5"

definition pq_destroy :: "block \<Rightarrow> ('k, 'v) priority_queue \<Rightarrow> block \<times> ('k, 'v) priority_queue" where
  "pq_destroy h q = (kfree h (pq_ptr q), q\<lparr>pq_ptr := NULL, pq_mem := []\<rparr>)"

section \<open>Sifting\<close>

definition pq_odd :: "int \<Rightarrow> bool" where
  "pq_odd c = (c smod 2 \<noteq> 0)"

definition parent :: "int \<Rightarrow> int" where
  "parent pos = (if pq_odd pos then (pos - 1) sdiv 2 else (pos - 2) sdiv 2)"

definition children :: "int \<Rightarrow> int \<Rightarrow> int \<times> int" where
  "children cnt pos =
     (let left = 2 * pos + 1; right = 2 * pos + 2
      in if left \<ge> cnt then (-1, -1)
         else if right \<ge> cnt then (left, -1)
         else (left, right))"

lemma parent_less: "0 < pos \<Longrightarrow> 0 \<le> parent pos \<and> parent pos < pos"
  by (auto simp: parent_def pq_odd_def signed_divide_int_def signed_modulo_int_def sgn_if split: if_splits)

function swim :: "('k::linorder, 'v) key_val list \<Rightarrow> int \<Rightarrow> ('k, 'v) key_val list result" where
  "swim m pos = rbind (rd m pos) (\<lambda>kv.
     let parpos = parent pos
     in if pos = 0 then Inr m
        else rbind (rd m parpos) (\<lambda>par.
          if key par \<ge> key kv then Inr m
          else rbind (wr m pos par) (\<lambda>m1. rbind (wr m1 parpos kv) (\<lambda>m2. swim m2 parpos))))"
  by pat_completeness auto
termination
  by (relation "measure (\<lambda>(m, pos). nat pos)") (auto simp: rd_Inr_iff intro!: parent_less [THEN conjunct2])

function sink :: "('k::linorder, 'v) key_val list \<Rightarrow> int \<Rightarrow> int \<Rightarrow> ('k, 'v) key_val list result" where
  "sink m cnt pos = rbind (rd m pos) (\<lambda>kv.
     let (l, r) = children cnt pos
     in if l = -1 \<and> r = -1 then Inr m
        else rbind (if r = -1 then Inr l
                    else rbind (rd m l) (\<lambda>lv. rbind (rd m r) (\<lambda>rv. Inr (if key lv \<ge> key rv then l else r))))
          (\<lambda>newpos. rbind (rd m newpos) (\<lambda>child.
             if key kv \<ge> key child then Inr m
             else rbind (wr m pos child) (\<lambda>m1. rbind (wr m1 newpos kv) (\<lambda>m2. sink m2 cnt newpos)))))"
  by pat_completeness auto
termination
  by (relation "measure (\<lambda>(m, cnt, pos). nat (int (length m) - pos))")
     (auto simp: rd_Inr_iff wr_Inr_iff rbind_Inr_iff children_def Let_def split: if_splits)

declare swim.simps [simp del] sink.simps [simp del]

section \<open>Operations\<close>

text \<open>The copying loop of \<^verbatim>\<open>increase_mem\<close>.\<close>

function copy_elems :: "'a list \<Rightarrow> 'a list \<Rightarrow> int \<Rightarrow> int \<Rightarrow> 'a list result" where
  "copy_elems t m i n =
     (if i < n then rbind (rd m i) (\<lambda>x. rbind (wr t i x) (\<lambda>t'. copy_elems t' m (i + 1) n)) else Inr t)"
  by pat_completeness auto
termination
  by (relation "measure (\<lambda>(t, m, i, n). nat (n - i))") auto

declare copy_elems.simps [simp del]

definition increase_mem :: "(nat \<Rightarrow> ('k, 'v) key_val) \<Rightarrow> block \<Rightarrow> ('k, 'v) priority_queue \<Rightarrow> int
    \<Rightarrow> (block \<times> ('k, 'v) priority_queue) result" where
  "increase_mem junk h q sz =
     rbind (new_keyvals junk h sz) (\<lambda>(h1, p, t).
     rbind (copy_elems t (pq_mem q) 0 (pq_count q)) (\<lambda>t'.
     Inr (kfree h1 (pq_ptr q), q\<lparr>pq_ptr := p, pq_mem := t', pq_size := sz\<rparr>)))"

text \<open>
  Both functions \<^verbatim>\<open>insert\<close> are declared to return \<^verbatim>\<open>bool\<close> and return nothing, which is undefined when the call ends; the models have
  no such result, and no caller in the kernel reads one.
\<close>

definition pq_insert :: "(nat \<Rightarrow> ('k::linorder, 'v) key_val) \<Rightarrow> block \<Rightarrow> ('k, 'v) priority_queue
    \<Rightarrow> ('k, 'v) key_val \<Rightarrow> (block \<times> ('k, 'v) priority_queue) result" where
  "pq_insert junk h q elem =
     rbind (if pq_count q = pq_size q then increase_mem junk h q (pq_size q * 2) else Inr (h, q))
       (\<lambda>(h1, q1).
          let currpos = pq_count q1
          in rbind (wr (pq_mem q1) currpos elem) (\<lambda>m1.
             rbind (swim m1 currpos) (\<lambda>m2.
             Inr (h1, q1\<lparr>pq_mem := m2, pq_count := pq_count q1 + 1\<rparr>))))"

definition pq_insert_kv :: "(nat \<Rightarrow> ('k::linorder, 'v) key_val) \<Rightarrow> block \<Rightarrow> ('k, 'v) priority_queue
    \<Rightarrow> 'k \<Rightarrow> 'v \<Rightarrow> (block \<times> ('k, 'v) priority_queue) result" where
  "pq_insert_kv junk h q k v = pq_insert junk h q \<lparr>key = k, val = v\<rparr>"

text \<open>
  \<^verbatim>\<open>erase\<close>: insert every element with another value into a fresh queue and take over its array. \<open>mem\<close> is
  the array of the queue being filtered, \<open>nc\<close> the number of elements kept.
\<close>

function erase_loop :: "(nat \<Rightarrow> ('k::linorder, 'v) key_val) \<Rightarrow> ('k, 'v) key_val list \<Rightarrow> 'v \<Rightarrow> int \<Rightarrow> int \<Rightarrow> int
    \<Rightarrow> block \<Rightarrow> ('k, 'v) priority_queue \<Rightarrow> (block \<times> ('k, 'v) priority_queue \<times> int) result" where
  "erase_loop junk mem v c i nc h pq =
     (if i < c then
        rbind (rd mem i) (\<lambda>e.
          if val e \<noteq> v
          then rbind (pq_insert junk h pq e) (\<lambda>(h', pq'). erase_loop junk mem v c (i + 1) (nc + 1) h' pq')
          else erase_loop junk mem v c (i + 1) nc h pq)
      else Inr (h, pq, nc))"
  by pat_completeness auto
termination
  by (relation "measure (\<lambda>(junk, mem, v, c, i, nc, h, pq). nat (c - i))") auto

declare erase_loop.simps [simp del]

definition pq_erase :: "(nat \<Rightarrow> ('k::linorder, 'v) key_val) \<Rightarrow> block \<Rightarrow> ('k, 'v) priority_queue \<Rightarrow> 'v
    \<Rightarrow> (block \<times> ('k, 'v) priority_queue \<times> int) result" where
  "pq_erase junk h q v =
     rbind (operator_new h sizeof_pq) (\<lambda>(h1, pqp).
     if pqp = NULL then Inl NullAccess
     else rbind (pq_new_default junk h1) (\<lambda>(h2, pq).
       let c = pq_count q
       in rbind (erase_loop junk (pq_mem q) v c 0 0 h2 pq) (\<lambda>(h3, pq', nc).
          let h4 = kfree h3 (pq_ptr q)
          in Inr (kfree h4 pqp,
                  q\<lparr>pq_ptr := pq_ptr pq', pq_mem := pq_mem pq', pq_size := pq_size pq', pq_count := pq_count pq'\<rparr>,
                  c - nc))))"

definition pq_dequeue :: "('k::linorder, 'v) priority_queue
    \<Rightarrow> (('k, 'v) key_val \<times> ('k, 'v) priority_queue) result" where
  "pq_dequeue q =
     (let count' = pq_count q - 1
      in rbind (rd (pq_mem q) 0) (\<lambda>kv.
         rbind (rd (pq_mem q) count') (\<lambda>l.
         rbind (wr (pq_mem q) 0 l) (\<lambda>m1.
         rbind (sink m1 count' 0) (\<lambda>m2.
         Inr (kv, q\<lparr>pq_mem := m2, pq_count := count'\<rparr>))))))"

definition pq_top :: "('k, 'v) priority_queue \<Rightarrow> ('k, 'v) key_val result" where
  "pq_top q = rd (pq_mem q) 0"

definition pq_length :: "('k, 'v) priority_queue \<Rightarrow> int" where
  "pq_length q = pq_count q"

text \<open>The self-check \<^verbatim>\<open>is_correct\<close> hangs when it finds a violation.\<close>

function is_correct_loop :: "('k::linorder, 'v) key_val list \<Rightarrow> int \<Rightarrow> int \<Rightarrow> int \<Rightarrow> unit result" where
  "is_correct_loop m cnt limit i =
     (if i \<le> limit then
        rbind (rd m i) (\<lambda>p. rbind (rd m (i * 2 + 1)) (\<lambda>l.
          rbind (if key p < key l then Inr True
                 else if i * 2 + 2 < cnt then rbind (rd m (i * 2 + 2)) (\<lambda>r. Inr (key p < key r))
                 else Inr False)
            (\<lambda>bad. if bad then Inl Hang else is_correct_loop m cnt limit (i + 1))))
      else Inr ())"
  by pat_completeness auto
termination
  by (relation "measure (\<lambda>(m, cnt, limit, i). nat (limit + 1 - i))") auto

declare is_correct_loop.simps [simp del]

definition is_correct :: "('k::linorder, 'v) priority_queue \<Rightarrow> unit result" where
  "is_correct q =
     (let limit = ((pq_count q - 1) - 1) sdiv 2
      in is_correct_loop (pq_mem q) (pq_count q) limit 0)"

end
