(* ===== verification/Prio_Queue_Spec.thy ===== *)
theory Prio_Queue_Spec
  imports Prio_Queue
begin

text \<open>
  Correctness of the priority queue: the sifts restore the heap order and permute the array, so that
  \<^verbatim>\<open>insert\<close>, \<^verbatim>\<open>dequeue\<close>, \<^verbatim>\<open>top\<close> and \<^verbatim>\<open>erase\<close> implement a multiset with access to a maximal key; the locale
  \<open>max_queue\<close> states that interface and is interpreted on the model.
\<close>

section \<open>The sifts on natural-number positions\<close>

definition par :: "nat \<Rightarrow> nat" where
  "par i = (i - 1) div 2"

abbreviation keyat :: "('k, 'v) key_val list \<Rightarrow> nat \<Rightarrow> 'k" where
  "keyat m i \<equiv> key (m ! i)"

abbreviation swap_cells :: "'a list \<Rightarrow> nat \<Rightarrow> nat \<Rightarrow> 'a list" where
  "swap_cells m i j \<equiv> m[i := m ! j, j := m ! i]"

lemma parent_par: "0 < p \<Longrightarrow> parent (int p) = int (par p)"
  by (auto simp: parent_def pq_odd_def par_def signed_divide_int_def signed_modulo_int_def sgn_if)

lemma par_less: "0 < p \<Longrightarrow> par p < p"
  by (auto simp: par_def)

lemma par_children: "par i = p \<and> 0 < i \<longleftrightarrow> i = 2 * p + 1 \<or> i = 2 * p + 2"
  by (auto simp: par_def)

function swimN :: "('k::linorder, 'v) key_val list \<Rightarrow> nat \<Rightarrow> ('k, 'v) key_val list" where
  "swimN m p =
     (if p = 0 \<or> keyat m (par p) \<ge> keyat m p then m else swimN (swap_cells m p (par p)) (par p))"
  by pat_completeness auto
termination
  by (relation "measure (\<lambda>(m, p). p)") (auto simp: par_less)

definition larger_child :: "('k::linorder, 'v) key_val list \<Rightarrow> nat \<Rightarrow> nat \<Rightarrow> nat" where
  "larger_child m n p =
     (if 2 * p + 2 \<ge> n \<or> keyat m (2 * p + 1) \<ge> keyat m (2 * p + 2) then 2 * p + 1 else 2 * p + 2)"

function sinkN :: "('k::linorder, 'v) key_val list \<Rightarrow> nat \<Rightarrow> nat \<Rightarrow> ('k, 'v) key_val list" where
  "sinkN m n p =
     (if 2 * p + 1 \<ge> n then m
      else let c = larger_child m n p
           in if keyat m p \<ge> keyat m c then m else sinkN (swap_cells m p c) n c)"
  by pat_completeness auto
termination
  by (relation "measure (\<lambda>(m, n, p). n - p)") (auto simp: larger_child_def)

declare swimN.simps [simp del] sinkN.simps [simp del]

lemma swim_swimN: "p < length m \<Longrightarrow> swim m (int p) = Inr (swimN m p)"
proof (induction m p rule: swimN.induct)
  case (1 m p)
  show ?case
  proof (cases "p = 0")
    case True
    with "1.prems" show ?thesis
      using rd_nat [of 0 m] by (subst swim.simps, subst swimN.simps) simp
  next
    case False
    with "1.prems" par_less [of p] have par: "par p < length m" by simp
    show ?thesis
    proof (cases "keyat m p \<le> keyat m (par p)")
      case True
      with False "1.prems" par show ?thesis
        by (subst swim.simps, subst swimN.simps) (simp add: access_simps parent_par)
    next
      case ne: False
      with False "1.IH" "1.prems" par
      have "swim (swap_cells m p (par p)) (int (par p)) = Inr (swimN (swap_cells m p (par p)) (par p))"
        by simp
      with ne False "1.prems" par show ?thesis
        by (subst swim.simps, subst swimN.simps) (simp add: access_simps parent_par)
    qed
  qed
qed

lemma sink_sinkN: "p < length m \<Longrightarrow> n \<le> length m \<Longrightarrow> sink m (int n) (int p) = Inr (sinkN m n p)"
proof (induction m n p rule: sinkN.induct)
  case (1 m n p)
  show ?case
  proof (cases "2 * p + 1 \<ge> n")
    case True
    with "1.prems" show ?thesis
      by (subst sink.simps, subst sinkN.simps) (simp add: access_simps children_def)
  next
    case False
    define c where "c = larger_child m n p"
    have c: "c < n" using False by (auto simp: c_def larger_child_def)
    have l: "rd m (2 * int p + 1) = Inr (m ! (2 * p + 1))"
      using False "1.prems" rd_nat [of "2 * p + 1" m] by (simp add: algebra_simps)
    have r: "rd m (2 * int p + 2) = Inr (m ! (2 * p + 2))" if "2 * p + 2 < n"
      using that "1.prems" rd_nat [of "2 * p + 2" m] by (simp add: algebra_simps)
    have step: "sink m (int n) (int p) =
        (if keyat m p \<ge> keyat m c then Inr m else sink (swap_cells m p c) (int n) (int c))"
    proof (cases "2 * p + 2 < n")
      case True
      with False l r "1.prems" c show ?thesis
        using rd_nat [of p m] rd_nat [of c m] wr_nat [of p m] wr_nat [of c "m[p := m ! c]"]
        by (subst sink.simps)
           (auto simp: children_def Let_def c_def larger_child_def algebra_simps)
    next
      case right: False
      with False l "1.prems" c show ?thesis
        using rd_nat [of p m] rd_nat [of c m] wr_nat [of p m] wr_nat [of c "m[p := m ! c]"]
        by (subst sink.simps)
           (auto simp: children_def Let_def c_def larger_child_def algebra_simps)
    qed
    show ?thesis
    proof (cases "keyat m p \<ge> keyat m c")
      case True
      with step False show ?thesis by (subst sinkN.simps) (simp add: c_def [symmetric])
    next
      case ne: False
      with "1.IH" [OF False c_def] "1.prems" c
      have "sink (swap_cells m p c) (int n) (int c) = Inr (sinkN (swap_cells m p c) n c)" by simp
      with step ne False show ?thesis by (subst sinkN.simps) (simp add: c_def [symmetric])
    qed
  qed
qed

section \<open>The heap order\<close>

definition is_heap :: "('k::linorder, 'v) key_val list \<Rightarrow> nat \<Rightarrow> bool" where
  "is_heap m n \<longleftrightarrow> (\<forall>i. 0 < i \<and> i < n \<longrightarrow> keyat m i \<le> keyat m (par i))"

text \<open>Heap order except that the element at \<open>p\<close> may be too large for its place.\<close>

definition up_hole :: "('k::linorder, 'v) key_val list \<Rightarrow> nat \<Rightarrow> nat \<Rightarrow> bool" where
  "up_hole m n p \<longleftrightarrow>
     (\<forall>i. 0 < i \<and> i < n \<and> i \<noteq> p \<longrightarrow> keyat m i \<le> keyat m (par i)) \<and>
     (\<forall>i. 0 < i \<and> i < n \<and> par i = p \<and> 0 < p \<longrightarrow> keyat m i \<le> keyat m (par p))"

text \<open>Heap order except that the element at \<open>p\<close> may be too small for its place.\<close>

definition down_hole :: "('k::linorder, 'v) key_val list \<Rightarrow> nat \<Rightarrow> nat \<Rightarrow> bool" where
  "down_hole m n p \<longleftrightarrow>
     (\<forall>i. 0 < i \<and> i < n \<and> par i \<noteq> p \<longrightarrow> keyat m i \<le> keyat m (par i)) \<and>
     (\<forall>i. 0 < i \<and> i < n \<and> par i = p \<and> 0 < p \<longrightarrow> keyat m i \<le> keyat m (par p))"

lemma up_hole_step:
  assumes "up_hole m n p" "p < n" "n \<le> length m" "0 < p" "keyat m (par p) < keyat m p"
  shows "up_hole (swap_cells m p (par p)) n (par p)"
proof -
  define q where "q = par p"
  have q: "q < p" "q < length m" "p < length m" using assms par_less [of p] by (auto simp: q_def)
  let ?m = "swap_cells m p q"
  have at: "keyat ?m i = (if i = q then keyat m p else if i = p then keyat m q else keyat m i)"
    if "i < n" for i
    using that q assms(3) by (auto simp: nth_list_update)
  have pl: "0 < i \<and> i < n \<Longrightarrow> par i < n" for i using par_less [of i] by auto
  have 1: "0 < i \<and> i < n \<and> i \<noteq> p \<Longrightarrow> keyat m i \<le> keyat m (par i)"
    and 2: "0 < i \<and> i < n \<and> par i = p \<Longrightarrow> keyat m i \<le> keyat m q" for i
    using assms(1,4) by (auto simp: up_hole_def q_def)
  have lt: "keyat m q < keyat m p" using assms(5) by (simp add: q_def)
  have "keyat ?m i \<le> keyat ?m (par i)" if i: "0 < i \<and> i < n \<and> i \<noteq> q" for i
    using at [of i] at [OF pl [of i]] i 1 [of i] 2 [of i] lt q_def par_less [of i] by (auto split: if_splits)
  moreover have "keyat ?m i \<le> keyat ?m (par q)" if i: "0 < i \<and> i < n \<and> par i = q \<and> 0 < q" for i
    using at [of i] at [of "par q"] i 1 [of i] 1 [of q] q assms(2) par_less [of q] par_less [of i]
    by (auto split: if_splits)
  ultimately show ?thesis by (auto simp: up_hole_def q_def [symmetric])
qed

lemma swimN_correct:
  "up_hole m n p \<Longrightarrow> p < n \<Longrightarrow> n \<le> length m \<Longrightarrow>
    is_heap (swimN m p) n \<and> mset (take n (swimN m p)) = mset (take n m) \<and> length (swimN m p) = length m"
proof (induction m p rule: swimN.induct)
  case (1 m p)
  show ?case
  proof (cases "p = 0 \<or> keyat m p \<le> keyat m (par p)")
    case True
    with "1.prems" show ?thesis by (subst (1 2 3) swimN.simps) (auto simp: is_heap_def up_hole_def)
  next
    case False
    let ?m = "swap_cells m p (par p)"
    have "is_heap (swimN ?m (par p)) n \<and> mset (take n (swimN ?m (par p))) = mset (take n ?m) \<and>
        length (swimN ?m (par p)) = length ?m"
      using False "1.prems" up_hole_step [of m n p] par_less [of p] by (intro "1.IH") auto
    moreover have "mset (take n ?m) = mset (take n m)"
      using "1.prems" False par_less [of p] by (intro mset_swap_take) auto
    ultimately show ?thesis using False by (simp add: swimN.simps [of m p])
  qed
qed

lemma down_hole_step:
  assumes "down_hole m n p" "n \<le> length m" "2 * p + 1 < n"
  defines "c \<equiv> larger_child m n p"
  assumes "keyat m p < keyat m c"
  shows "down_hole (swap_cells m p c) n c"
proof -
  have c: "c < n" "par c = p" "0 < c" "p < c" using assms(3) by (auto simp: c_def larger_child_def par_def)
  let ?m = "swap_cells m p c"
  have at: "keyat ?m i = (if i = c then keyat m p else if i = p then keyat m c else keyat m i)" if "i < n" for i
    using that c assms(2) by (auto simp: nth_list_update)
  have pl: "0 < i \<and> i < n \<Longrightarrow> par i < n" for i using par_less [of i] by auto
  have big: "keyat m i \<le> keyat m c" if "0 < i" "i < n" "par i = p" for i
    using that par_children [of i p] by (auto simp: c_def larger_child_def)
  have ok: "0 < i \<and> i < n \<and> par i \<noteq> p \<Longrightarrow> keyat m i \<le> keyat m (par i)"
    and gap: "0 < i \<and> i < n \<and> par i = p \<and> 0 < p \<Longrightarrow> keyat m i \<le> keyat m (par p)" for i
    using assms(1) by (auto simp: down_hole_def)
  have "keyat ?m i \<le> keyat ?m (par i)" if i: "0 < i \<and> i < n \<and> par i \<noteq> c" for i
  proof -
    note m = at [of i] at [OF pl [of i]] par_less [of i]
    consider "i = c" | "i \<noteq> c" "par i = p" | "i = p" "par i \<noteq> p" | "i \<noteq> c" "i \<noteq> p" "par i \<noteq> p" by blast
    then show ?thesis
    proof cases
      case 1 with m i c assms(5) show ?thesis by simp
    next
      case 2 with m i c big [of i] show ?thesis by auto
    next
      case 3 with m i c gap [of c] show ?thesis by auto
    next
      case 4 with m i c ok [of i] show ?thesis by auto
    qed
  qed
  moreover have "keyat ?m i \<le> keyat ?m (par c)" if i: "0 < i \<and> i < n \<and> par i = c" for i
    using at [of i] at [of p] i ok [of i] c par_less [of i] by auto
  ultimately show ?thesis by (auto simp: down_hole_def)
qed

lemma sinkN_correct:
  "down_hole m n p \<Longrightarrow> p < n \<Longrightarrow> n \<le> length m \<Longrightarrow>
    is_heap (sinkN m n p) n \<and> mset (take n (sinkN m n p)) = mset (take n m) \<and> length (sinkN m n p) = length m"
proof (induction m n p rule: sinkN.induct)
  case (1 m n p)
  define c where "c = larger_child m n p"
  have ch: "i = 2 * p + 1 \<or> i = 2 * p + 2" if "par i = p" "0 < i" for i
    using that par_children by blast
  show ?case
  proof (cases "2 * p + 1 \<ge> n \<or> keyat m c \<le> keyat m p")
    case True
    have "keyat m i \<le> keyat m (par i)" if "0 < i" "i < n" for i
    proof (cases "par i = p")
      case par: True
      with ch [of i] that True show ?thesis by (auto simp: c_def larger_child_def split: if_splits)
    next
      case par: False
      with that "1.prems"(1) show ?thesis by (simp add: down_hole_def)
    qed
    then have "is_heap m n" by (simp add: is_heap_def)
    with True show ?thesis by (auto simp: sinkN.simps [of m n p] c_def [symmetric])
  next
    case False
    let ?m = "swap_cells m p c"
    have c: "c < n" "p < c" using False by (auto simp: c_def larger_child_def)
    have "is_heap (sinkN ?m n c) n \<and> mset (take n (sinkN ?m n c)) = mset (take n ?m) \<and>
        length (sinkN ?m n c) = length ?m"
      using False "1.prems" down_hole_step [of m n p] c unfolding c_def by (intro "1.IH") auto
    moreover have "mset (take n ?m) = mset (take n m)"
      using "1.prems" c by (intro mset_swap_take) auto
    ultimately show ?thesis using False by (simp add: sinkN.simps [of m n p] c_def [symmetric])
  qed
qed

lemma is_heap_append: "n \<le> length m \<Longrightarrow> is_heap (m @ t) n = is_heap m n"
proof -
  assume n: "n \<le> length m"
  have "keyat (m @ t) i = keyat m i \<and> keyat (m @ t) (par i) = keyat m (par i)" if "0 < i" "i < n" for i
    using that n par_less [of i] by (simp add: nth_append)
  then show ?thesis by (auto simp: is_heap_def)
qed

lemma is_heap_top: "is_heap m n \<Longrightarrow> i < n \<Longrightarrow> keyat m i \<le> keyat m 0"
proof (induction i rule: less_induct)
  case (less i)
  show ?case
  proof (cases "i = 0")
    case False
    with less.prems have "keyat m i \<le> keyat m (par i)" by (simp add: is_heap_def)
    also have "\<dots> \<le> keyat m 0" using less False par_less [of i] by auto
    finally show ?thesis .
  qed simp
qed

section \<open>The representation invariant\<close>

definition pq_inv :: "('k::linorder, 'v) priority_queue \<Rightarrow> bool" where
  "pq_inv q \<longleftrightarrow> 0 < pq_size q \<and> pq_size q = int (length (pq_mem q)) \<and>
     0 \<le> pq_count q \<and> pq_count q \<le> pq_size q \<and> is_heap (pq_mem q) (nat (pq_count q))"

definition pq_mset :: "('k, 'v) priority_queue \<Rightarrow> ('k, 'v) key_val multiset" where
  "pq_mset q = mset (take (nat (pq_count q)) (pq_mem q))"

lemma pq_mset_size: "pq_inv q \<Longrightarrow> int (size (pq_mset q)) = pq_count q"
  by (auto simp: pq_mset_def pq_inv_def min_def)

subsection \<open>Removing the top\<close>

lemma pq_dequeue_correct:
  assumes inv: "pq_inv q" and ne: "0 < pq_count q"
  shows "\<exists>q'. pq_dequeue q = Inr (pq_mem q ! 0, q') \<and> pq_inv q' \<and> pq_ptr q' = pq_ptr q \<and>
    pq_size q' = pq_size q \<and> pq_count q' = pq_count q - 1 \<and>
    pq_mset q' = pq_mset q - {#pq_mem q ! 0#}"
proof -
  let ?m = "pq_mem q"
  obtain n where n: "pq_count q = int (Suc n)"
    using ne by (metis zero_less_imp_eq_int gr0_implies_Suc of_nat_0_less_iff)
  have len: "n < length ?m" "is_heap ?m (Suc n)" using inv n by (auto simp: pq_inv_def nat_add_distrib)
  let ?m1 = "?m[0 := ?m ! n]"
  have r: "rd ?m 0 = Inr (?m ! 0)" "rd ?m (int n) = Inr (?m ! n)" "wr ?m 0 (?m ! n) = Inr ?m1"
    using rd_wr_0 [OF len(1)] rd_nat [OF len(1)] by auto
  have sk: "sink ?m1 (int n) 0 = Inr (sinkN ?m1 n 0)"
    using sink_sinkN [of 0 ?m1 n] len by (cases ?m) auto
  have hole: "down_hole ?m1 n 0"
    unfolding down_hole_def
  proof (intro conjI allI impI)
    fix i assume i: "0 < i \<and> i < n \<and> par i \<noteq> 0"
    then have "keyat ?m i \<le> keyat ?m (par i)" using len(2) by (auto simp: is_heap_def)
    with i show "keyat ?m1 i \<le> keyat ?m1 (par i)" by simp
  qed simp
  have res: "is_heap (sinkN ?m1 n 0) n \<and> mset (take n (sinkN ?m1 n 0)) = mset (take n ?m1) \<and>
      length (sinkN ?m1 n 0) = length ?m1"
  proof (cases "n = 0")
    case True
    then show ?thesis by (simp add: sinkN.simps is_heap_def)
  next
    case False
    with sinkN_correct [OF hole] len show ?thesis by simp
  qed
  have "pq_dequeue q = Inr (?m ! 0, q\<lparr>pq_mem := sinkN ?m1 n 0, pq_count := int n\<rparr>)"
    using r sk n by (simp add: pq_dequeue_def)
  moreover have "mset (take n ?m1) = pq_mset q - {#?m ! 0#}"
    using mset_replace_first_by_last [OF len(1)] n by (simp add: pq_mset_def nat_add_distrib)
  ultimately show ?thesis
    using res inv n len by (auto simp: pq_inv_def pq_mset_def)
qed

lemma pq_top_max:
  assumes "pq_inv q" "0 < pq_count q"
  shows "pq_top q = Inr (pq_mem q ! 0)" "pq_mem q ! 0 \<in># pq_mset q"
    "e \<in># pq_mset q \<Longrightarrow> key e \<le> key (pq_mem q ! 0)"
proof -
  let ?m = "pq_mem q" and ?n = "nat (pq_count q)"
  have n: "0 < ?n" "?n \<le> length ?m" "is_heap ?m ?n" using assms by (auto simp: pq_inv_def)
  then show "pq_top q = Inr (?m ! 0)" using rd_nat [of 0 ?m] by (cases ?m) (auto simp: pq_top_def)
  show "?m ! 0 \<in># pq_mset q" using n nth_mem [of 0 "take ?n ?m"] by (simp add: pq_mset_def)
  show "key e \<le> key (?m ! 0)" if "e \<in># pq_mset q"
    using that n is_heap_top [OF n(3)] by (auto simp: pq_mset_def in_set_conv_nth)
qed

text \<open>Dequeuing from an empty queue reads \<^verbatim>\<open>_mem[-1]\<close>.\<close>

lemma pq_dequeue_empty: "pq_inv q \<Longrightarrow> pq_count q = 0 \<Longrightarrow> pq_dequeue q = Inl OutOfBounds"
  by (auto simp: pq_dequeue_def rd_def pq_inv_def)

subsection \<open>Inserting\<close>

lemma up_hole_snoc:
  assumes "is_heap m n" "n < length m"
  shows "up_hole (m[n := e]) (Suc n) n"
  unfolding up_hole_def
proof (intro conjI allI impI)
  fix i assume i: "0 < i \<and> i < Suc n \<and> i \<noteq> n"
  then show "keyat (m[n := e]) i \<le> keyat (m[n := e]) (par i)"
    using assms par_less [of i] by (auto simp: is_heap_def nth_list_update)
next
  fix i assume "0 < i \<and> i < Suc n \<and> par i = n \<and> 0 < n"
  then show "keyat (m[n := e]) i \<le> keyat (m[n := e]) (par n)" using par_less [of i] by auto
qed

text \<open>The part of \<^verbatim>\<open>insert\<close> after the array has been made large enough.\<close>

lemma insert_in_place:
  assumes inv: "pq_inv q" and sp: "pq_count q < pq_size q"
  shows "\<exists>q'. rbind (wr (pq_mem q) (pq_count q) e) (\<lambda>m1. rbind (swim m1 (pq_count q)) (\<lambda>m2.
      Inr (h, q\<lparr>pq_mem := m2, pq_count := pq_count q + 1\<rparr>))) = Inr (h, q') \<and>
    pq_inv q' \<and> pq_ptr q' = pq_ptr q \<and> pq_size q' = pq_size q \<and> pq_count q' = pq_count q + 1 \<and>
    pq_mset q' = add_mset e (pq_mset q)"
proof -
  let ?m = "pq_mem q"
  obtain n where n: "pq_count q = int n" using inv by (metis pq_inv_def zero_le_imp_eq_int)
  have len: "n < length ?m" "is_heap ?m n" using inv sp n by (auto simp: pq_inv_def)
  let ?m1 = "?m[n := e]"
  note sw = swimN_correct [OF up_hole_snoc [OF len(2,1), of e]]
  have "mset (take (Suc n) (swimN ?m1 n)) = add_mset e (mset (take n ?m))"
    using sw len by (simp add: mset_take_Suc)
  moreover have "swim ?m1 (int n) = Inr (swimN ?m1 n)" using swim_swimN [of n ?m1] len by simp
  moreover have "nat (int n + 1) = Suc n" by simp
  ultimately show ?thesis
    using sw len inv n by (auto simp: access_simps pq_inv_def pq_mset_def)
qed

text \<open>A queue whose array is a live block of a sound kernel heap.\<close>

definition pq_state :: "block \<Rightarrow> ('k::linorder, 'v) priority_queue \<Rightarrow> bool" where
  "pq_state h q \<longleftrightarrow> heap_inv h \<and> pq_inv q \<and> live h (pq_ptr q) \<noteq> None"

text \<open>The blocks of everybody else.\<close>

definition others :: "block \<Rightarrow> ('k, 'v) priority_queue \<Rightarrow> addr \<rightharpoonup> nat" where
  "others h q = (live h)(pq_ptr q := None)"

lemma copy_elems_eq:
  "i + k \<le> length m \<Longrightarrow> i + k \<le> length t \<Longrightarrow> take i t = take i m \<Longrightarrow>
   copy_elems t m (int i) (int (i + k)) = Inr (take (i + k) m @ drop (i + k) t)"
proof (induction k arbitrary: i t)
  case 0
  then show ?case by (subst copy_elems.simps) (metis append_take_drop_id add_0_right less_irrefl)
next
  case (Suc k)
  have "take (Suc i) (t[i := m ! i]) = take (Suc i) m"
    using Suc.prems by (simp add: take_Suc_conv_app_nth)
  with Suc.IH [of "Suc i" "t[i := m ! i]"] Suc.prems
  have "copy_elems (t[i := m ! i]) m (int i + 1) (int (i + Suc k)) = Inr (take (i + Suc k) m @ drop (i + Suc k) t)"
    by (simp add: add.commute)
  with Suc.prems show ?case by (subst copy_elems.simps) (simp add: access_simps)
qed

lemma slack_bound: "heap_inv h \<Longrightarrow> slack h < 2 ^ 32"
proof -
  assume "heap_inv h"
  then have rel: "heap_rel h (chunks h)" by (simp add: heap_inv_def)
  then obtain cs c where cs: "chunks h = cs @ [c]" by (cases "chunks h" rule: rev_cases) (auto simp: heap_rel_def)
  with rel show ?thesis by (cases c) (auto simp: slack_def heap_rel_def)
qed

lemma new_keyvals_ok:
  assumes "heap_inv h" "0 < n" "8 * n + 24 < slack h"
  shows "\<exists>h' p s. new_keyvals junk h (int n) = Inr (h', p, map junk [0..<n]) \<and> heap_inv h' \<and>
    live h p = None \<and> live h' = (live h)(p \<mapsto> s) \<and> slack h \<le> slack h' + 8 * n + 16"
proof -
  have "8 * n < 2 ^ 32" using assms(3) slack_bound [OF assms(1)] by simp
  then have "unat (sizeof_keyval * word_of_int (int n)) = 8 * n"
    using unat_word32_of_nat [of "8 * n"] by (simp add: sizeof_keyval_def)
  with kh.alloc_ok [OF assms(1), of "sizeof_keyval * word_of_int (int n)"] assms(3) obtain h' p s where
    "kmalloc h (sizeof_keyval * word_of_int (int n)) = Inr (h', p)" "heap_inv h'" "p \<noteq> NULL"
    "live h p = None" "live h' = (live h)(p \<mapsto> s)" "slack h \<le> slack h' + 8 * n + 16" by auto
  then show ?thesis by (auto simp: new_keyvals_def operator_new_def)
qed

lemma pq_new_ok:
  assumes "heap_inv h" "0 < n" "8 * n + 24 < slack h"
  shows "\<exists>h' q. pq_new junk h (int n) = Inr (h', q) \<and> pq_state h' q \<and> pq_count q = 0 \<and> pq_size q = int n \<and>
    pq_mset q = {#} \<and> others h' q = live h \<and> slack h \<le> slack h' + 8 * n + 16"
  using new_keyvals_ok [OF assms, of junk] assms(2)
  by (fastforce simp: pq_new_def pq_state_def pq_inv_def is_heap_def pq_mset_def others_def)

lemma increase_mem_ok:
  assumes st: "pq_state h q" and n: "pq_count q = int n" "pq_size q = int n" and sp: "16 * n + 24 < slack h"
  shows "\<exists>h' q'. increase_mem junk h q (pq_size q * 2) = Inr (h', q') \<and> pq_state h' q' \<and>
    pq_size q' = 2 * pq_size q \<and> pq_count q' = pq_count q \<and> pq_mset q' = pq_mset q \<and>
    others h' q' = others h q \<and> slack h \<le> slack h' + 16 * n + 16"
proof -
  let ?m = "pq_mem q"
  have inv: "heap_inv h" "pq_inv q" and len: "length ?m = n" "0 < n"
    using st n by (auto simp: pq_state_def pq_inv_def)
  obtain h1 p s where a: "new_keyvals junk h (int (2 * n)) = Inr (h1, p, map junk [0..<2 * n])" "heap_inv h1"
    "live h p = None" "live h1 = (live h)(p \<mapsto> s)" "slack h \<le> slack h1 + 16 * n + 16"
    using new_keyvals_ok [of h "2 * n" junk] inv len sp by auto
  have "p \<noteq> pq_ptr q" using a(3) st by (auto simp: pq_state_def)
  moreover obtain s' where s': "live h (pq_ptr q) = Some s'" using st by (auto simp: pq_state_def)
  ultimately have own: "live h1 (pq_ptr q) = Some s'" using a by simp
  let ?t = "?m @ drop n (map junk [0..<2 * n])"
  have cp: "copy_elems (map junk [0..<2 * n]) ?m 0 (int n) = Inr ?t"
    using copy_elems_eq [of 0 n ?m "map junk [0..<2 * n]"] len by simp
  let ?q = "q\<lparr>pq_ptr := p, pq_mem := ?t, pq_size := int (2 * n)\<rparr>"
  have "increase_mem junk h q (pq_size q * 2) = Inr (kfree h1 (pq_ptr q), ?q)"
    using a(1) cp n by (simp add: increase_mem_def mult.commute)
  moreover have "is_heap ?t n" using inv(2) n len by (simp add: pq_inv_def is_heap_append)
  then have "pq_inv ?q" using n len by (simp add: pq_inv_def)
  moreover have "live (kfree h1 (pq_ptr q)) = (live h1)(pq_ptr q := None)" "heap_inv (kfree h1 (pq_ptr q))"
    "slack h1 \<le> slack (kfree h1 (pq_ptr q))" using kh.free_ok [OF a(2) own] by auto
  ultimately show ?thesis
    using a \<open>p \<noteq> pq_ptr q\<close> n len by (auto simp: pq_state_def others_def pq_mset_def fun_eq_iff)
qed

lemma pq_insert_ok:
  assumes st: "pq_state h q" and sp: "16 * nat (pq_size q) + 24 < slack h"
  shows "\<exists>h' q'. pq_insert junk h q e = Inr (h', q') \<and> pq_state h' q' \<and>
    pq_count q' = pq_count q + 1 \<and> pq_size q' \<le> max (pq_size q) (2 * pq_count q) \<and>
    pq_mset q' = add_mset e (pq_mset q) \<and> others h' q' = others h q \<and>
    slack h \<le> slack h' + 16 * nat (pq_size q) + 16 \<and> slack h + 32 * nat (pq_size q) \<le> slack h' + 32 * nat (pq_size q')"
proof -
  have "\<exists>h1 q1. (if pq_count q = pq_size q then increase_mem junk h q (pq_size q * 2) else Inr (h, q)) = Inr (h1, q1) \<and>
    pq_state h1 q1 \<and> pq_count q1 = pq_count q \<and> pq_count q1 < pq_size q1 \<and>
    pq_size q1 \<le> max (pq_size q) (2 * pq_count q) \<and> pq_mset q1 = pq_mset q \<and> others h1 q1 = others h q \<and>
    slack h \<le> slack h1 + 16 * nat (pq_size q) + 16 \<and> slack h + 32 * nat (pq_size q) \<le> slack h1 + 32 * nat (pq_size q1)"
  proof (cases "pq_count q = pq_size q")
    case True
    obtain n where n: "pq_count q = int n" using st by (metis pq_state_def pq_inv_def zero_le_imp_eq_int)
    with True st have "0 < n" by (auto simp: pq_state_def pq_inv_def)
    have sz: "pq_size q = int n" "16 * n + 24 < slack h" using True n sp by (simp_all add: True [symmetric])
    from increase_mem_ok [OF st n sz, of junk] obtain h1 q1 where 1:
      "increase_mem junk h q (pq_size q * 2) = Inr (h1, q1)" "pq_state h1 q1" "pq_size q1 = 2 * pq_size q"
      "pq_count q1 = pq_count q" "pq_mset q1 = pq_mset q" "others h1 q1 = others h q" "slack h \<le> slack h1 + 16 * n + 16" by blast
    have "nat (pq_size q) = n" "nat (pq_size q1) = 2 * n" using 1(3) True n by auto
    with 1 True n \<open>0 < n\<close> show ?thesis by (intro exI [of _ h1] exI [of _ q1]) auto
  next
    case False
    with st show ?thesis by (auto simp: pq_state_def pq_inv_def)
  qed
  then obtain h1 q1 where 1:
    "(if pq_count q = pq_size q then increase_mem junk h q (pq_size q * 2) else Inr (h, q)) = Inr (h1, q1)"
    "pq_state h1 q1" "pq_count q1 = pq_count q" "pq_count q1 < pq_size q1"
    "pq_size q1 \<le> max (pq_size q) (2 * pq_count q)" "pq_mset q1 = pq_mset q" "others h1 q1 = others h q"
    "slack h \<le> slack h1 + 16 * nat (pq_size q) + 16" "slack h + 32 * nat (pq_size q) \<le> slack h1 + 32 * nat (pq_size q1)" by blast
  from insert_in_place [OF _ 1(4), of e h1] 1(2) obtain q' where
    "rbind (wr (pq_mem q1) (pq_count q1) e) (\<lambda>m1. rbind (swim m1 (pq_count q1)) (\<lambda>m2.
      Inr (h1, q1\<lparr>pq_mem := m2, pq_count := pq_count q1 + 1\<rparr>))) = Inr (h1, q')"
    "pq_inv q'" "pq_ptr q' = pq_ptr q1" "pq_size q' = pq_size q1" "pq_count q' = pq_count q1 + 1"
    "pq_mset q' = add_mset e (pq_mset q1)"
    by (auto simp: pq_state_def)
  with 1 show ?thesis by (auto simp: pq_insert_def Let_def pq_state_def others_def)
qed

lemma pq_grows: "pq_insert junk h q e = Inr (h', q') \<Longrightarrow> 0 \<le> pq_size q \<Longrightarrow> pq_size q \<le> pq_size q'"
  by (auto simp: pq_insert_def increase_mem_def rbind_Inr_iff Let_def split: if_splits prod.splits)

subsection \<open>Erasing a value\<close>

lemma erase_loop_ok:
  assumes "i + r = c" "c \<le> length mem" "pq_state h pq" "pq_count pq = nc" "nc \<le> int i"
    "pq_size pq \<le> 10 + 2 * int c" "r * (176 + 32 * c) + (184 + 32 * c) < slack h"
  shows "\<exists>h' pq'. erase_loop junk mem v (int c) (int i) nc h pq = Inr (h', pq', pq_count pq') \<and>
    pq_state h' pq' \<and> others h' pq' = others h pq \<and>
    pq_mset pq' = pq_mset pq + mset (filter (\<lambda>e. val e \<noteq> v) (take r (drop i mem))) \<and>
    pq_size pq' \<le> 10 + 2 * int c \<and> slack h \<le> slack h' + r * (176 + 32 * c)"
  using assms
proof (induction r arbitrary: i h pq nc)
  case 0
  then show ?case by (subst erase_loop.simps) auto
next
  case (Suc r)
  let ?e = "mem ! i"
  have i: "i < length mem" "take (Suc r) (drop i mem) = ?e # take r (drop (Suc i) mem)"
    using Suc.prems by (auto simp: Cons_nth_drop_Suc [symmetric])
  show ?case
  proof (cases "val ?e = v")
    case True
    with Suc.IH [of "Suc i" h pq nc] Suc.prems obtain h' pq' where
      "erase_loop junk mem v (int c) (int i + 1) nc h pq = Inr (h', pq', pq_count pq')"
      "pq_state h' pq'" "others h' pq' = others h pq"
      "pq_mset pq' = pq_mset pq + mset (filter (\<lambda>e. val e \<noteq> v) (take r (drop (Suc i) mem)))"
      "pq_size pq' \<le> 10 + 2 * int c" "slack h \<le> slack h' + r * (176 + 32 * c)"
      by (auto simp: add.commute)
    with True i Suc.prems show ?thesis by (subst erase_loop.simps) (auto simp: access_simps)
  next
    case False
    have "16 * nat (pq_size pq) \<le> 160 + 32 * c" using Suc.prems(6) by linarith
    with Suc.prems pq_insert_ok [of h pq junk ?e] obtain h1 pq1 where 1:
      "pq_insert junk h pq ?e = Inr (h1, pq1)" "pq_state h1 pq1" "pq_count pq1 = nc + 1"
      "pq_size pq1 \<le> max (pq_size pq) (2 * nc)" "pq_mset pq1 = add_mset ?e (pq_mset pq)"
      "others h1 pq1 = others h pq" "slack h \<le> slack h1 + (176 + 32 * c)"
      by fastforce
    moreover have "pq_size pq1 \<le> 10 + 2 * int c" using 1(4) Suc.prems by auto
    moreover have "r * (176 + 32 * c) + (184 + 32 * c) < slack h1" using 1(7) Suc.prems(7) by simp
    ultimately obtain h' pq' where
      "erase_loop junk mem v (int c) (int i + 1) (nc + 1) h1 pq1 = Inr (h', pq', pq_count pq')"
      "pq_state h' pq'" "others h' pq' = others h pq"
      "pq_mset pq' = add_mset ?e (pq_mset pq) + mset (filter (\<lambda>e. val e \<noteq> v) (take r (drop (Suc i) mem)))"
      "pq_size pq' \<le> 10 + 2 * int c" "slack h1 \<le> slack h' + r * (176 + 32 * c)"
      using Suc.IH [of "Suc i" h1 pq1 "nc + 1"] Suc.prems by (auto simp: add.commute)
    with False i 1 Suc.prems show ?thesis by (subst erase_loop.simps) (auto simp: access_simps)
  qed
qed

definition erase_room :: "nat \<Rightarrow> nat" where
  "erase_room c = (c + 1) * (176 + 32 * c) + 100"

lemma pq_erase_ok:
  assumes st: "pq_state h q" and sp: "erase_room (nat (pq_count q)) < slack h"
  shows "\<exists>h' q'. pq_erase junk h q v = Inr (h', q', pq_count q - pq_count q') \<and> pq_state h' q' \<and>
    others h' q' = others h q \<and> pq_mset q' = filter_mset (\<lambda>e. val e \<noteq> v) (pq_mset q) \<and>
    pq_size q' \<le> 10 + 2 * pq_count q \<and> slack h \<le> slack h' + erase_room (nat (pq_count q))"
proof -
  obtain c where c: "pq_count q = int c" using st by (metis pq_state_def pq_inv_def zero_le_imp_eq_int)
  have inv: "heap_inv h" and len: "c \<le> length (pq_mem q)" using st c by (auto simp: pq_state_def pq_inv_def)
  have room: "(c + 1) * (176 + 32 * c) + 100 < slack h" using sp c by (simp add: erase_room_def)
  have u: "unat sizeof_pq = 12" by (simp add: sizeof_pq_def)
  from kh.alloc_ok [OF inv, of sizeof_pq] room u obtain h1 pqp s1 where 1: "kmalloc h sizeof_pq = Inr (h1, pqp)"
    "heap_inv h1" "pqp \<noteq> NULL" "live h pqp = None" "live h1 = (live h)(pqp \<mapsto> s1)" "slack h \<le> slack h1 + 28" by auto
  from pq_new_ok [OF 1(2), of 5 junk] room 1(6) obtain h2 pq where pq:
    "pq_new_default junk h1 = Inr (h2, pq)" "pq_state h2 pq" "pq_count pq = 0" "pq_size pq = 5"
    "pq_mset pq = {#}" "others h2 pq = live h1" "slack h1 \<le> slack h2 + 56"
    by (auto simp: pq_new_default_def)
  from erase_loop_ok [of 0 c c "pq_mem q" h2 pq 0 junk v] len pq 1 room obtain h3 pq' where 3:
    "erase_loop junk (pq_mem q) v (int c) 0 0 h2 pq = Inr (h3, pq', pq_count pq')" "pq_state h3 pq'"
    "others h3 pq' = live h1" "pq_mset pq' = mset (filter (\<lambda>e. val e \<noteq> v) (take c (pq_mem q)))"
    "pq_size pq' \<le> 10 + 2 * int c" "slack h2 \<le> slack h3 + c * (176 + 32 * c)"
    by (auto simp: algebra_simps)
  obtain s where s: "live h (pq_ptr q) = Some s" using st by (auto simp: pq_state_def)
  have neq: "pqp \<noteq> pq_ptr q" "live h1 (pq_ptr q) = Some s" using s 1 by auto
  have p': "live h1 (pq_ptr pq') = None" using 3(3) by (metis fun_upd_same others_def)
  have same: "live h3 x = live h1 x" if "x \<noteq> pq_ptr pq'" for x
    using fun_cong [OF 3(3), of x] that by (simp add: others_def)
  have l3: "pq_ptr pq' \<noteq> pq_ptr q" "pq_ptr pq' \<noteq> pqp" using p' neq 1(5) by auto
  then have l3': "live h3 (pq_ptr q) = Some s" "live h3 pqp = Some s1"
    using same [of "pq_ptr q"] same [of pqp] neq 1(5) by auto
  have "heap_inv h3" using 3(2) by (simp add: pq_state_def)
  note f1 = kh.free_ok [OF this l3'(1)]
  then have "live (kfree h3 (pq_ptr q)) pqp = Some s1" using neq l3'(2) by simp
  with kh.free_ok [of "kfree h3 (pq_ptr q)" pqp s1] f1 have f: "heap_inv (kfree (kfree h3 (pq_ptr q)) pqp)"
    "live (kfree (kfree h3 (pq_ptr q)) pqp) = (live h3)(pq_ptr q := None, pqp := None)" by auto
  define q' where "q' = q\<lparr>pq_ptr := pq_ptr pq', pq_mem := pq_mem pq', pq_size := pq_size pq', pq_count := pq_count pq'\<rparr>"
  have "pq_erase junk h q v = Inr (kfree (kfree h3 (pq_ptr q)) pqp, q', pq_count q - pq_count q')"
    using 1 pq(1) 3(1) c by (simp add: pq_erase_def operator_new_def q'_def)
  moreover have "pq_state (kfree (kfree h3 (pq_ptr q)) pqp) q'"
    using f l3 3(2) by (auto simp: pq_state_def pq_inv_def q'_def)
  moreover have "others (kfree (kfree h3 (pq_ptr q)) pqp) q' = others h q"
  proof
    fix x
    show "others (kfree (kfree h3 (pq_ptr q)) pqp) q' x = others h q x"
      using f(2) 1(4,5) p' same [of x] by (auto simp: others_def q'_def)
  qed
  moreover have "pq_mset q' = filter_mset (\<lambda>e. val e \<noteq> v) (pq_mset q)"
    using 3(4) c by (simp add: pq_mset_def q'_def)
  moreover have "slack h3 \<le> slack (kfree (kfree h3 (pq_ptr q)) pqp)"
    using f1 kh.free_ok [of "kfree h3 (pq_ptr q)" pqp s1] \<open>live (kfree h3 (pq_ptr q)) pqp = Some s1\<close> by auto
  then have "slack h \<le> slack (kfree (kfree h3 (pq_ptr q)) pqp) + erase_room (nat (pq_count q))"
    using 1(6) pq(7) 3(6) c by (simp add: erase_room_def)
  moreover have "pq_size q' \<le> 10 + 2 * pq_count q" using 3(5) c by (simp add: q'_def)
  ultimately show ?thesis by blast
qed

section \<open>The interface: a multiset with access to a maximum\<close>

text \<open>Removing \<open>n\<close> elements one after the other.\<close>

fun drain :: "('s \<Rightarrow> ('e \<times> 's) result) \<Rightarrow> nat \<Rightarrow> 's \<Rightarrow> 'e list result" where
  "drain deq 0 s = Inr []"
| "drain deq (Suc n) s = rbind (deq s) (\<lambda>(e, s'). rbind (drain deq n s') (\<lambda>es. Inr (e # es)))"

locale max_queue =
  fixes ins :: "'s \<Rightarrow> 'e \<Rightarrow> 's result"
    and deq :: "'s \<Rightarrow> ('e \<times> 's) result"
    and top :: "'s \<Rightarrow> 'e result"
    and inv :: "'s \<Rightarrow> bool"
    and room :: "'s \<Rightarrow> bool"
    and content :: "'s \<Rightarrow> 'e multiset"
    and prio :: "'e \<Rightarrow> 'p::linorder"
  assumes ins_ok: "inv s \<Longrightarrow> room s \<Longrightarrow> \<exists>s'. ins s e = Inr s' \<and> inv s' \<and> content s' = add_mset e (content s)"
    and deq_ok: "inv s \<Longrightarrow> content s \<noteq> {#} \<Longrightarrow> \<exists>e s'. deq s = Inr (e, s') \<and> top s = Inr e \<and> inv s' \<and>
      e \<in># content s \<and> content s' = content s - {#e#} \<and> (\<forall>x. x \<in># content s \<longrightarrow> prio x \<le> prio e)"
begin

text \<open>Draining a queue sorts its content.\<close>

lemma drain_sorts:
  "inv s \<Longrightarrow> size (content s) = n \<Longrightarrow>
   \<exists>es. drain deq n s = Inr es \<and> mset es = content s \<and> sorted_wrt (\<lambda>x y. prio y \<le> prio x) es"
proof (induction n arbitrary: s)
  case 0
  then show ?case by simp
next
  case (Suc n)
  then have "content s \<noteq> {#}" by auto
  with deq_ok [OF Suc.prems(1)] obtain e s' where e: "deq s = Inr (e, s')" "inv s'" "e \<in># content s"
    "content s' = content s - {#e#}" "\<forall>x. x \<in># content s \<longrightarrow> prio x \<le> prio e" by blast
  with Suc.prems have "size (content s') = n" by (simp add: size_Diff_singleton)
  from Suc.IH [OF e(2) this] obtain es where es: "drain deq n s' = Inr es" "mset es = content s'"
    "sorted_wrt (\<lambda>x y. prio y \<le> prio x) es" by blast
  have "prio x \<le> prio e" if "x \<in> set es" for x
    using that es(2) e(4,5) by (metis in_diffD set_mset_mset)
  with e es show ?case by (intro exI [of _ "e # es"]) auto
qed

text \<open>The first element out is at least as large as what was put in.\<close>

lemma ins_top:
  assumes "inv s" "room s"
  shows "\<exists>s' t. ins s e = Inr s' \<and> top s' = Inr t \<and> prio e \<le> prio t"
proof -
  from ins_ok [OF assms] obtain s' where s': "ins s e = Inr s'" "inv s'" "content s' = add_mset e (content s)" by blast
  then have "content s' \<noteq> {#}" by simp
  from deq_ok [OF s'(2) this] s' show ?thesis by auto
qed

end

definition pq_room :: "block \<times> ('k, 'v) priority_queue \<Rightarrow> bool" where
  "pq_room = (\<lambda>(h, q). 16 * nat (pq_size q) + 24 < slack h)"

definition pq_deq_h :: "block \<times> ('k::linorder, 'v) priority_queue
    \<Rightarrow> (('k, 'v) key_val \<times> block \<times> ('k, 'v) priority_queue) result" where
  "pq_deq_h = (\<lambda>(h, q). rbind (pq_dequeue q) (\<lambda>(kv, q'). Inr (kv, h, q')))"

interpretation pqi: max_queue "\<lambda>(h, q). pq_insert junk h q" pq_deq_h "\<lambda>(h, q). pq_top q"
  "\<lambda>(h, q). pq_state h q" pq_room "\<lambda>(h, q). pq_mset q" key for junk :: "nat \<Rightarrow> ('k::linorder, 'v) key_val"
proof (unfold_locales, goal_cases)
  case (1 s e)
  then show ?case using pq_insert_ok [of "fst s" "snd s" junk e] by (cases s) (auto simp: pq_room_def)
next
  case (2 s)
  obtain h q where s: "s = (h, q)" by (cases s)
  with 2 have st: "pq_state h q" "pq_inv q" "pq_mset q \<noteq> {#}" by (auto simp: pq_state_def)
  then have "0 < pq_count q" using pq_mset_size [of q] by (metis nonempty_has_size of_nat_0_less_iff)
  from pq_dequeue_correct [OF st(2) this] pq_top_max [OF st(2) this] st s show ?case
    by (auto simp: pq_deq_h_def pq_state_def)
qed

section \<open>Properties\<close>

text \<open>A queue of integers on a heap of 64 KiB, for concrete instances.\<close>

definition zeros :: "nat \<Rightarrow> (int, int) key_val" where
  "zeros _ = \<lparr>key = 0, val = 0\<rparr>"

lemma demo_queue:
  obtains h q where "pq_new_default zeros wide_heap = Inr (h, q)" "pq_state h q" "pq_count q = 0"
    "pq_size q = 5" "pq_mset q = {#}" "60000 < slack h"
  using pq_new_ok [of wide_heap 5 zeros] wide_heap_inv by (auto simp: pq_new_default_def)

text \<open>A queue with one element in it.\<close>

lemma demo_queue1:
  obtains h q where "pq_state h q" "pq_count q = 1" "pq_mset q = {#\<lparr>key = 7, val = 3\<rparr>#}" "50000 < slack h"
    "pq_size q \<le> 5" "(\<exists>h0 q0. pq_new_default zeros wide_heap = Inr (h0, q0) \<and>
        pq_insert zeros h0 q0 \<lparr>key = 7, val = 3\<rparr> = Inr (h, q))"
proof -
  obtain h q where q: "pq_new_default zeros wide_heap = Inr (h, q)" "pq_state h q" "pq_count q = 0"
    "pq_size q = 5" "pq_mset q = {#}" "60000 < slack h"
    by (rule demo_queue)
  with pq_insert_ok [of h q zeros "\<lparr>key = 7, val = 3\<rparr>"] that show ?thesis by fastforce
qed

text \<open>
  C12. \<^verbatim>\<open>priority_queue::insert\<close> adds exactly the given pair: it keeps the heap order and the array bounds (no
  access faults), grows the array when it is full, and touches no other block of the kernel heap.
\<close>

theorem pq_insert_correct:
  assumes "pq_state h q" "16 * nat (pq_size q) + 24 < slack h"
  shows "\<exists>h' q'. pq_insert junk h q e = Inr (h', q') \<and> pq_state h' q' \<and> pq_count q' = pq_count q + 1 \<and>
    pq_mset q' = add_mset e (pq_mset q) \<and> others h' q' = others h q"
  using pq_insert_ok [OF assms, of junk e] by blast

theorem pq_insert_correct_witness:
  "\<exists>h q h' q'. pq_new_default zeros wide_heap = Inr (h, q) \<and>
     pq_insert zeros h q \<lparr>key = 7, val = 3\<rparr> = Inr (h', q') \<and> pq_mset q' = {#\<lparr>key = 7, val = 3\<rparr>#}"
proof -
  obtain h q where q: "pq_new_default zeros wide_heap = Inr (h, q)" "pq_state h q" "pq_size q = 5"
    "pq_mset q = {#}" "60000 < slack h"
    by (rule demo_queue)
  from pq_insert_correct [OF q(2), of zeros "\<lparr>key = 7, val = 3\<rparr>"] q show ?thesis by auto
qed

text \<open>
  C11. \<^verbatim>\<open>dequeue\<close> on a non-empty queue returns the element \<^verbatim>\<open>top\<close> shows, which has a maximal key, and removes
  exactly that element; heap order and bounds are kept.
\<close>

theorem pq_dequeue_max:
  assumes "pq_inv q" "0 < pq_count q"
  shows "\<exists>kv q'. pq_dequeue q = Inr (kv, q') \<and> pq_top q = Inr kv \<and> kv \<in># pq_mset q \<and>
    (\<forall>e. e \<in># pq_mset q \<longrightarrow> key e \<le> key kv) \<and> pq_inv q' \<and> pq_mset q' = pq_mset q - {#kv#}"
  using pq_dequeue_correct [OF assms] pq_top_max [OF assms] by blast

theorem pq_dequeue_max_witness:
  "\<exists>h q kv q'. pq_state h q \<and> pq_mset q = {#\<lparr>key = 7::int, val = 3::int\<rparr>#} \<and>
     pq_dequeue q = Inr (kv, q') \<and> kv = \<lparr>key = 7, val = 3\<rparr> \<and> pq_mset q' = {#}"
proof -
  obtain h q where q: "pq_state h q" "pq_count q = 1" "pq_mset q = {#\<lparr>key = 7::int, val = 3::int\<rparr>#}"
    by (rule demo_queue1)
  then have "pq_inv q" by (simp add: pq_state_def)
  from pq_dequeue_max [OF this] q show ?thesis by fastforce
qed

text \<open>
  \<^verbatim>\<open>erase(val)\<close> removes every pair with that value and no other, returns how many it removed, and leaks
  nothing: of the blocks it allocates on the way only the new array stays, in place of the old one.
\<close>

theorem pq_erase_correct:
  assumes "pq_state h q" "erase_room (nat (pq_count q)) < slack h"
  shows "\<exists>h' q' n. pq_erase junk h q v = Inr (h', q', n) \<and> pq_state h' q' \<and> others h' q' = others h q \<and>
    pq_mset q' = filter_mset (\<lambda>e. val e \<noteq> v) (pq_mset q) \<and>
    n = int (size (filter_mset (\<lambda>e. val e = v) (pq_mset q)))"
proof -
  from pq_erase_ok [OF assms] obtain h' q' where e: "pq_erase junk h q v = Inr (h', q', pq_count q - pq_count q')"
    "pq_state h' q'" "others h' q' = others h q" "pq_mset q' = filter_mset (\<lambda>e. val e \<noteq> v) (pq_mset q)" by blast
  have "pq_mset q = filter_mset (\<lambda>e. val e = v) (pq_mset q) + pq_mset q'"
    using multiset_partition [of "pq_mset q" "\<lambda>e. val e = v"] e(4) by simp
  then have "size (pq_mset q) = size (filter_mset (\<lambda>e. val e = v) (pq_mset q)) + size (pq_mset q')"
    by (metis size_union)
  moreover have "int (size (pq_mset q)) = pq_count q" "int (size (pq_mset q')) = pq_count q'"
    using assms(1) e(2) by (auto simp: pq_state_def pq_mset_size)
  ultimately show ?thesis using e by force
qed

theorem pq_erase_correct_witness:
  "\<exists>h q h' q' n. pq_mset q = {#\<lparr>key = 7::int, val = 3::int\<rparr>#} \<and> pq_erase zeros h q 3 = Inr (h', q', n) \<and>
     n = 1 \<and> pq_mset q' = {#}"
proof -
  obtain h q where q: "pq_state h q" "pq_count q = 1" "pq_mset q = {#\<lparr>key = 7::int, val = 3::int\<rparr>#}" "50000 < slack h"
    by (rule demo_queue1)
  then have "erase_room (nat (pq_count q)) < slack h" by (simp add: erase_room_def)
  from pq_erase_correct [OF q(1) this, of zeros 3] q show ?thesis by auto
qed

text \<open>
  Draining a queue returns its content sorted by non-increasing key: what the kernel's own heap test
  checks by sampling.
\<close>

theorem pq_drain_sorted:
  assumes "pq_state h q"
  shows "\<exists>es. drain pq_deq_h (nat (pq_count q)) (h, q) = Inr es \<and> mset es = pq_mset q \<and>
    sorted_wrt (\<lambda>x y. key y \<le> key x) es"
proof -
  have "pq_inv q" using assms by (simp add: pq_state_def)
  then have "size (pq_mset q) = nat (pq_count q)" using pq_mset_size by (metis nat_int)
  with pqi.drain_sorts [of "(h, q)"] assms show ?thesis by simp
qed

theorem pq_drain_sorted_witness:
  "\<exists>h q. pq_mset q = {#\<lparr>key = 7::int, val = 3::int\<rparr>#} \<and> pq_count q = 1 \<and>
     drain pq_deq_h 1 (h, q) = Inr [\<lparr>key = 7, val = 3\<rparr>]"
proof -
  obtain h q where q: "pq_state h q" "pq_count q = 1" "pq_mset q = {#\<lparr>key = 7::int, val = 3::int\<rparr>#}"
    by (rule demo_queue1)
  from pq_drain_sorted [OF q(1)] q obtain es where "drain pq_deq_h 1 (h, q) = Inr es" "mset es = pq_mset q"
    by (auto simp del: drain.simps)
  with q show ?thesis by (metis mset_single_iff_right)
qed

section \<open>The self-check\<close>

text \<open>Position \<open>j\<close> of the array is not smaller than its children.\<close>

definition parent_ok :: "('k::linorder, 'v) key_val list \<Rightarrow> nat \<Rightarrow> nat \<Rightarrow> bool" where
  "parent_ok m n j \<longleftrightarrow> keyat m (2 * j + 1) \<le> keyat m j \<and> (2 * j + 2 < n \<longrightarrow> keyat m (2 * j + 2) \<le> keyat m j)"

lemma is_heap_parents: "is_heap m n \<longleftrightarrow> (\<forall>j. 2 * j + 1 < n \<longrightarrow> parent_ok m n j)"
proof
  assume h: "is_heap m n"
  have "keyat m (2 * j + 1) \<le> keyat m j" "2 * j + 2 < n \<Longrightarrow> keyat m (2 * j + 2) \<le> keyat m j" if "2 * j + 1 < n" for j
    using h that par_children [of "2 * j + 1" j] par_children [of "2 * j + 2" j] by (fastforce simp: is_heap_def)+
  then show "\<forall>j. 2 * j + 1 < n \<longrightarrow> parent_ok m n j" by (simp add: parent_ok_def)
next
  assume p: "\<forall>j. 2 * j + 1 < n \<longrightarrow> parent_ok m n j"
  have "keyat m i \<le> keyat m (par i)" if "0 < i" "i < n" for i
    using p [rule_format, of "par i"] par_children [of i "par i"] that by (auto simp: parent_ok_def)
  then show "is_heap m n" by (simp add: is_heap_def)
qed

lemma is_correct_loop_eq:
  assumes "2 * lim + 1 < length m" "n \<le> length m" "i \<le> lim + 1"
  shows "is_correct_loop m (int n) (int lim) (int i) = (if \<forall>j. i \<le> j \<and> j \<le> lim \<longrightarrow> parent_ok m n j then Inr () else Inl Hang)"
  using assms(3)
proof (induction "lim + 1 - i" arbitrary: i)
  case 0
  then show ?case by (subst is_correct_loop.simps) auto
next
  case (Suc d)
  then have i: "i \<le> lim" by simp
  have r: "rd m (int i) = Inr (m ! i)" "rd m (int i * 2 + 1) = Inr (m ! (2 * i + 1))"
    using rd_nat [of i m] rd_nat [of "2 * i + 1" m] i assms(1) by (simp_all add: algebra_simps)
  have r2: "rd m (int i * 2 + 2) = Inr (m ! (2 * i + 2))" if "2 * i + 2 < n"
    using rd_nat [of "2 * i + 2" m] that assms(2) by (simp add: algebra_simps)
  have IH: "is_correct_loop m (int n) (int lim) (int i + 1) = (if \<forall>j. Suc i \<le> j \<and> j \<le> lim \<longrightarrow> parent_ok m n j then Inr () else Inl Hang)"
    using Suc.hyps(1) [of "Suc i"] Suc.hyps(2) i by (simp add: add.commute)
  have step: "is_correct_loop m (int n) (int lim) (int i) = (if parent_ok m n i then is_correct_loop m (int n) (int lim) (int i + 1) else Inl Hang)"
    using i r r2 by (subst is_correct_loop.simps) (auto simp: parent_ok_def not_le)
  have "(\<forall>j. i \<le> j \<and> j \<le> lim \<longrightarrow> parent_ok m n j) \<longleftrightarrow> parent_ok m n i \<and> (\<forall>j. Suc i \<le> j \<and> j \<le> lim \<longrightarrow> parent_ok m n j)"
    using i by (metis Suc_le_eq le_neq_implies_less order.strict_implies_order order_refl)
  then show ?case unfolding step IH by simp
qed

lemma is_correct_eq:
  assumes "pq_count q = int n" "n \<le> length (pq_mem q)"
  shows "is_correct q =
    (if n = 1 then (if 1 < length (pq_mem q) then (if keyat (pq_mem q) 1 \<le> keyat (pq_mem q) 0 then Inr () else Inl Hang) else Inl OutOfBounds)
     else if is_heap (pq_mem q) n then Inr () else Inl Hang)"
proof -
  have q: "pq_count q - 1 - 1 = int n - 2" using assms(1) by simp
  consider "n = 0" | "n = 1" "1 < length (pq_mem q)" | "n = 1" "length (pq_mem q) = 1" | "2 \<le> n" using assms(2) by linarith
  then show ?thesis
  proof cases
    case 1
    then show ?thesis unfolding is_correct_def q Let_def
      by (subst is_correct_loop.simps) (simp add: signed_divide_int_def is_heap_def)
  next
    case 2
    have "is_correct q = is_correct_loop (pq_mem q) (int n) (int 0) (int 0)"
      using 2 assms(1) by (simp add: is_correct_def Let_def signed_divide_int_def)
    with is_correct_loop_eq [of 0 "pq_mem q" n 0] 2 show ?thesis by (simp add: parent_ok_def)
  next
    case 3
    then show ?thesis using assms(1) unfolding is_correct_def Let_def
      by (subst is_correct_loop.simps) (simp add: signed_divide_int_def rd_def)
  next
    case 4
    define lim where "lim = (n - 2) div 2"
    have "(int n - 2) sdiv 2 = int lim" using 4 by (simp add: lim_def signed_divide_int_def sgn_if of_nat_diff zdiv_int)
    then have "is_correct q = is_correct_loop (pq_mem q) (int n) (int lim) (int 0)"
      unfolding is_correct_def q Let_def assms(1) by simp
    moreover have j: "j \<le> lim \<longleftrightarrow> 2 * j + 1 < n" for j using 4 unfolding lim_def by linarith
    moreover have "2 * lim + 1 < length (pq_mem q)" using j [of lim] assms(2) by simp
    ultimately show ?thesis using is_correct_loop_eq [of lim "pq_mem q" n 0] 4 assms(2) by (simp add: is_heap_parents)
  qed
qed

text \<open>
  The queue that \<^verbatim>\<open>dequeue\<close> leaves always passes the check: with one element left, the unused cell behind it still holds
  that element.
\<close>

lemma dequeue_is_correct:
  assumes inv: "pq_inv q" and n: "2 \<le> pq_size q" and d: "pq_dequeue q = Inr (e, q')"
  shows "is_correct q' = Inr ()"
proof -
  have cnt: "1 \<le> pq_count q" "pq_count q \<le> pq_size q" "pq_size q = int (length (pq_mem q))"
    using inv d by (auto simp: pq_inv_def pq_dequeue_def rd_def Let_def split: if_splits)
  from pq_dequeue_correct [OF inv] cnt d have q': "pq_inv q'" "pq_count q' = pq_count q - 1" "pq_size q' = pq_size q" by auto
  then obtain k where k: "pq_count q' = int k" by (metis pq_inv_def zero_le_imp_eq_int)
  have len: "length (pq_mem q') = length (pq_mem q)" using q' cnt by (simp add: pq_inv_def)
  have heap: "is_heap (pq_mem q') k" "k \<le> length (pq_mem q')" using q'(1) k by (auto simp: pq_inv_def)
  show ?thesis
  proof (cases "k = 1")
    case False
    with is_correct_eq [OF k heap(2)] heap show ?thesis by simp
  next
    case True
    with k q' have c2: "pq_count q = 2" by simp
    have l2: "1 < length (pq_mem q)" using n cnt by simp
    let ?m1 = "(pq_mem q)[0 := pq_mem q ! 1]"
    have r: "rd (pq_mem q) 0 = Inr (pq_mem q ! 0)" "rd (pq_mem q) 1 = Inr (pq_mem q ! 1)" "wr (pq_mem q) 0 (pq_mem q ! 1) = Inr ?m1"
      using l2 by (auto simp: rd_def wr_def)
    have "sink ?m1 1 0 = Inr ?m1" using l2 by (subst sink.simps) (auto simp: rd_def children_def)
    with d c2 r have "pq_mem q' = ?m1" by (auto simp: pq_dequeue_def Let_def)
    moreover have "pq_mem q \<noteq> []" using l2 by auto
    ultimately have "keyat (pq_mem q') 1 = keyat (pq_mem q') 0" by simp
    with is_correct_eq [OF k heap(2)] True len l2 show ?thesis by simp
  qed
qed

lemma pq_destroy_ok:
  assumes "pq_state h q"
  shows "heap_inv (fst (pq_destroy h q)) \<and> live (fst (pq_destroy h q)) = others h q \<and> slack h \<le> slack (fst (pq_destroy h q))"
proof -
  obtain n where "live h (pq_ptr q) = Some n" using assms by (auto simp: pq_state_def)
  with kh.free_ok [of h "pq_ptr q" n] assms show ?thesis by (auto simp: pq_destroy_def pq_state_def others_def)
qed

text \<open>
  The self-check \<^verbatim>\<open>is_correct\<close> decides the heap order of every queue that does not hold exactly one element: it returns
  exactly if the array is a heap and hangs otherwise. For one element its limit is off: \<^verbatim>\<open>-1 / 2\<close> is 0 in C, and it
  compares the element with the unused cell behind it.
\<close>

theorem is_correct_decides:
  assumes "pq_count q = int n" "n \<le> length (pq_mem q)"
  shows "is_correct q =
    (if n = 1 then (if 1 < length (pq_mem q) then (if keyat (pq_mem q) 1 \<le> keyat (pq_mem q) 0 then Inr () else Inl Hang) else Inl OutOfBounds)
     else if is_heap (pq_mem q) n then Inr () else Inl Hang)"
  by (rule is_correct_eq [OF assms])

theorem is_correct_decides_witness:
  "\<exists>q :: (int, int) priority_queue. pq_count q = 3 \<and> is_correct q = Inl Hang"
proof -
  define q :: "(int, int) priority_queue" where "q = \<lparr>pq_ptr = 0, pq_mem = map (\<lambda>k. \<lparr>key = k, val = 0\<rparr>) [5, 2, 7, 1], pq_size = 4, pq_count = 3\<rparr>"
  have "pq_count q = int 3" "3 \<le> length (pq_mem q)" by (simp_all add: q_def)
  from is_correct_decides [OF this] have "is_correct q = (if is_heap (pq_mem q) 3 then Inr () else Inl Hang)" by simp
  moreover have "\<not> is_heap (pq_mem q) 3" by (auto simp: is_heap_def q_def par_def intro!: exI [of _ 2])
  ultimately show ?thesis using \<open>pq_count q = int 3\<close> by (intro exI [of _ q]) simp
qed

end
