(* ===== verification/Linked_Queue.thy ===== *)
theory Linked_Queue
  imports Heap_Spec
begin

text \<open>
  The class template \<^verbatim>\<open>queue\<close> of \<^verbatim>\<open>src/src/kernel/include/kernel/containers/queue.h\<close>: a singly linked list
  of nodes on the kernel heap. All nodes of one type live in one store (\<open>addr \<Rightarrow> node\<close>) shared by every
  queue of that type, so that what an operation on one queue leaves of another is a theorem and not a
  consequence of the model. Walks along the list are \<open>partial_function\<close>s: \<open>None\<close> is a walk round a cycle.
\<close>

section \<open>State and operations\<close>

record 'v node =
  nvalue :: 'v
  nnext :: addr

type_synonym 'v nodes = "addr \<Rightarrow> 'v node"

record lqueue =
  q_head :: addr
  q_size :: int

definition queue_new :: lqueue where
  "queue_new = \<lparr>q_head = NULL, q_size = 0\<rparr>"

text \<open>The destructor.\<close>

partial_function (option) destroy_loop :: "'v nodes \<Rightarrow> block \<Rightarrow> addr \<Rightarrow> block option" where
  "destroy_loop s h nd =
     (if nd \<noteq> NULL then let nxt = nnext (s nd) in destroy_loop s (kfree h nd) nxt else Some h)"

definition queue_destroy :: "block \<Rightarrow> 'v nodes \<Rightarrow> lqueue \<Rightarrow> block result" where
  "queue_destroy h s q = (case destroy_loop s h (q_head q) of None \<Rightarrow> Inl Hang | Some h' \<Rightarrow> Inr h')"

text \<open>\<^verbatim>\<open>if(prev) prev->next = p; else _head = p;\<close>\<close>

definition set_link :: "'v nodes \<Rightarrow> addr \<Rightarrow> addr \<Rightarrow> addr \<Rightarrow> 'v nodes \<times> addr" where
  "set_link s hp prv p =
     (if prv \<noteq> NULL then (s(prv := (s prv)\<lparr>nnext := p\<rparr>), hp) else (s, p))"

partial_function (option) find_tail :: "'v nodes \<Rightarrow> addr \<Rightarrow> addr \<Rightarrow> addr option" where
  "find_tail s prv cur = (if cur \<noteq> NULL then find_tail s cur (nnext (s cur)) else Some prv)"

text \<open>
  \<^verbatim>\<open>insert\<close>. \<open>sz\<close> is \<^verbatim>\<open>sizeof(Node)\<close>. The \<^verbatim>\<open>new\<close> expression runs the constructor on whatever \<^verbatim>\<open>operator new\<close>
  returned: an exhausted heap makes it write through \<^verbatim>\<open>NULL\<close> before the code looks at the pointer, so that
  the result \<open>False\<close> of the last branch is never delivered.
\<close>

definition queue_insert :: "u32 \<Rightarrow> block \<Rightarrow> 'v nodes \<Rightarrow> lqueue \<Rightarrow> 'v
    \<Rightarrow> (block \<times> 'v nodes \<times> lqueue \<times> bool) result" where
  "queue_insert sz h s q elem =
     (case find_tail s NULL (q_head q) of
        None \<Rightarrow> Inl Hang
      | Some prv \<Rightarrow> rbind (operator_new h sz) (\<lambda>(h1, cur).
          if cur = NULL then Inl NullAccess
          else
            let s1 = s(cur := \<lparr>nvalue = elem, nnext = NULL\<rparr>);
                (s2, hp) = set_link s1 (q_head q) prv cur
            in if cur \<noteq> NULL then Inr (h1, s2, \<lparr>q_head = hp, q_size = q_size q + 1\<rparr>, True)
               else Inr (h1, s2, q\<lparr>q_head := hp\<rparr>, False)))"

partial_function (option) erase_item_loop :: "'v \<Rightarrow> block \<Rightarrow> 'v nodes \<Rightarrow> lqueue \<Rightarrow> int \<Rightarrow> addr \<Rightarrow> addr
    \<Rightarrow> (block \<times> 'v nodes \<times> lqueue \<times> int) option" where
  "erase_item_loop elem h s q cnt prv cur =
     (if cur \<noteq> NULL then
        if nvalue (s cur) = elem then
          (let (s1, hp) = set_link s (q_head q) prv (nnext (s cur));
               nxt = nnext (s1 cur)
           in erase_item_loop elem (kfree h cur) s1 \<lparr>q_head = hp, q_size = q_size q - 1\<rparr> (cnt + 1) prv nxt)
        else erase_item_loop elem h s q cnt cur (nnext (s cur))
      else Some (h, s, q, cnt))"

definition erase_item :: "block \<Rightarrow> 'v nodes \<Rightarrow> lqueue \<Rightarrow> 'v \<Rightarrow> (block \<times> 'v nodes \<times> lqueue \<times> int) result" where
  "erase_item h s q elem =
     (case erase_item_loop elem h s q 0 NULL (q_head q) of None \<Rightarrow> Inl Hang | Some r \<Rightarrow> Inr r)"

partial_function (option) walk_idx :: "'v nodes \<Rightarrow> u32 \<Rightarrow> addr \<Rightarrow> addr \<Rightarrow> u32 \<Rightarrow> (addr \<times> addr \<times> u32) option" where
  "walk_idx s index prv cur idx =
     (if cur \<noteq> NULL \<and> idx \<noteq> index then walk_idx s index cur (nnext (s cur)) (idx + 1)
      else Some (prv, cur, idx))"

definition erase_idx :: "block \<Rightarrow> 'v nodes \<Rightarrow> lqueue \<Rightarrow> u32 \<Rightarrow> (block \<times> 'v nodes \<times> lqueue \<times> bool) result" where
  "erase_idx h s q index =
     (case walk_idx s index NULL (q_head q) 0 of
        None \<Rightarrow> Inl Hang
      | Some (prv, cur, idx) \<Rightarrow>
          if cur = NULL then Inr (h, s, q, False)
          else
            let (s1, hp) = (if idx = 0 then (s, nnext (s cur))
                            else (s(prv := (s prv)\<lparr>nnext := nnext (s cur)\<rparr>), q_head q))
            in Inr (kfree h cur, s1, \<lparr>q_head = hp, q_size = q_size q - 1\<rparr>, True))"

text \<open>\<open>dflt\<close> is \<^verbatim>\<open>T()\<close>.\<close>

definition queue_dequeue :: "'v \<Rightarrow> block \<Rightarrow> 'v nodes \<Rightarrow> lqueue \<Rightarrow> block \<times> lqueue \<times> 'v" where
  "queue_dequeue dflt h s q =
     (if q_head q \<noteq> NULL then
        let v = nvalue (s (q_head q)); nxt = nnext (s (q_head q))
        in (kfree h (q_head q), \<lparr>q_head = nxt, q_size = q_size q - 1\<rparr>, v)
      else (h, q, dflt))"

partial_function (option) find_node :: "'v nodes \<Rightarrow> ('v \<Rightarrow> bool) \<Rightarrow> addr \<Rightarrow> addr option" where
  "find_node s P nd = (if nd \<noteq> NULL \<and> \<not> P (nvalue (s nd)) then find_node s P (nnext (s nd)) else Some nd)"

text \<open>
  Both overloads of \<^verbatim>\<open>find\<close>. \<^verbatim>\<open>&node->value\<close> is the address of the node, since \<^verbatim>\<open>value\<close> is its first field.
\<close>

definition queue_find_if :: "'v nodes \<Rightarrow> lqueue \<Rightarrow> ('v \<Rightarrow> bool) \<Rightarrow> addr result" where
  "queue_find_if s q P = (case find_node s P (q_head q) of None \<Rightarrow> Inl Hang | Some nd \<Rightarrow> Inr nd)"

definition queue_find :: "'v nodes \<Rightarrow> lqueue \<Rightarrow> 'v \<Rightarrow> addr result" where
  "queue_find s q elem = queue_find_if s q (\<lambda>v. v = elem)"

definition queue_top :: "'v \<Rightarrow> 'v nodes \<Rightarrow> lqueue \<Rightarrow> 'v" where
  "queue_top dflt s q = (if q_head q \<noteq> NULL then nvalue (s (q_head q)) else dflt)"

definition queue_size :: "lqueue \<Rightarrow> int" where
  "queue_size q = q_size q"

section \<open>Segments of the node store\<close>

text \<open>\<open>lseg s p as r\<close>: following \<^verbatim>\<open>next\<close> from \<open>p\<close> visits the nodes \<open>as\<close> and arrives at \<open>r\<close>.\<close>

fun lseg :: "'v nodes \<Rightarrow> addr \<Rightarrow> addr list \<Rightarrow> addr \<Rightarrow> bool" where
  "lseg s p [] r = (p = r)"
| "lseg s p (a # as) r = (p = a \<and> a \<noteq> NULL \<and> lseg s (nnext (s a)) as r)"

abbreviation lpath :: "'v nodes \<Rightarrow> addr \<Rightarrow> addr list \<Rightarrow> bool" where
  "lpath s p as \<equiv> lseg s p as NULL"

definition nvals :: "'v nodes \<Rightarrow> addr list \<Rightarrow> 'v list" where
  "nvals s as = map (\<lambda>a. nvalue (s a)) as"

text \<open>The pointer \<^verbatim>\<open>prev\<close> of a walk that has passed the nodes \<open>as\<close>.\<close>

definition last_or_null :: "addr list \<Rightarrow> addr" where
  "last_or_null as = (if as = [] then NULL else last as)"

lemma last_or_null_simps [simp]: "last_or_null [] = NULL" "last_or_null (as @ [a]) = a"
  by (simp_all add: last_or_null_def)

lemma nvals_simps [simp]: "nvals s [] = []" "nvals s (a # as) = nvalue (s a) # nvals s as"
  "nvals s (as @ bs) = nvals s as @ nvals s bs" "length (nvals s as) = length as"
  by (simp_all add: nvals_def)

lemma lseg_append: "lseg s p (as @ bs) r \<longleftrightarrow> (\<exists>x. lseg s p as x \<and> lseg s x bs r)"
  by (induction as arbitrary: p) auto

lemma lseg_cong: "(\<And>a. a \<in> set as \<Longrightarrow> nnext (s a) = nnext (s' a)) \<Longrightarrow> lseg s p as r = lseg s' p as r"
  by (induction as arbitrary: p) auto

lemma lseg_upd_other [simp]: "a \<notin> set as \<Longrightarrow> lseg (s(a := n)) p as r = lseg s p as r"
  by (rule lseg_cong) auto

lemma nvals_cong: "(\<And>a. a \<in> set as \<Longrightarrow> nvalue (s a) = nvalue (s' a)) \<Longrightarrow> nvals s as = nvals s' as"
  by (simp add: nvals_def)

lemma lseg_nonnull: "lseg s p as r \<Longrightarrow> a \<in> set as \<Longrightarrow> a \<noteq> NULL"
  by (induction as arbitrary: p) auto

lemma lseg_null [simp]: "lseg s NULL as r \<longleftrightarrow> as = [] \<and> r = NULL"
  by (cases as) auto

lemma lpath_hd: "lpath s p as \<Longrightarrow> p \<noteq> NULL \<Longrightarrow> as = p # tl as"
  by (cases as) auto

text \<open>Redirecting the link behind a prefix.\<close>

lemma set_link_seg:
  assumes "lseg s hp as x" "distinct as" "set_link s hp (last_or_null as) r = (s', hp')"
  shows "lseg s' hp' as r" and "\<And>a. nvalue (s' a) = nvalue (s a)"
    and "\<And>a. a \<notin> set as \<Longrightarrow> s' a = s a"
    and "a \<noteq> last_or_null as \<Longrightarrow> s' a = s a"
proof -
  have "(a \<notin> set as \<longrightarrow> s' a = s a) \<and> nvalue (s' a) = nvalue (s a) \<and> lseg s' hp' as r \<and>
     (a \<noteq> last_or_null as \<longrightarrow> s' a = s a)" for a
  proof (cases as rule: rev_cases)
    case Nil
    with assms show ?thesis by (auto simp: set_link_def)
  next
    case (snoc bs b)
    with assms(1) have "b \<noteq> NULL" "lseg s hp bs b" by (auto simp: lseg_append)
    moreover from this snoc assms(3) have "s' = s(b := (s b)\<lparr>nnext := r\<rparr>)" "hp' = hp"
      by (simp_all add: set_link_def)
    ultimately show ?thesis using snoc assms(2) by (simp add: lseg_append)
  qed
  note * = this
  show "lseg s' hp' as r" using *[of undefined] by simp
  show "nvalue (s' a) = nvalue (s a)" for a using *[of a] by simp
  show "a \<notin> set as \<Longrightarrow> s' a = s a" for a using *[of a] by simp
  show "a \<noteq> last_or_null as \<Longrightarrow> s' a = s a" using *[of a] by simp
qed

section \<open>Correctness of the operations\<close>

text \<open>
  A queue in memory: its nodes are \<open>as\<close>, pairwise different, each in a live block of the kernel heap of at
  least \<^verbatim>\<open>sizeof(Node)\<close> bytes.
\<close>

definition queue_state :: "u32 \<Rightarrow> block \<Rightarrow> 'v nodes \<Rightarrow> lqueue \<Rightarrow> addr list \<Rightarrow> bool" where
  "queue_state sz h s q as \<longleftrightarrow> heap_inv h \<and> lpath s (q_head q) as \<and> distinct as \<and> q_size q = int (length as) \<and>
     (\<forall>a \<in> set as. \<exists>n. live h a = Some n \<and> unat sz \<le> n)"

lemma queue_state_live: "queue_state sz h s q as \<Longrightarrow> a \<in> set as \<Longrightarrow> live h a \<noteq> None"
  by (auto simp: queue_state_def)

lemma queue_state_new: "heap_inv h \<Longrightarrow> queue_state sz h s queue_new []"
  by (simp add: queue_state_def queue_new_def)

text \<open>A queue does not notice changes outside its nodes.\<close>

lemma queue_state_frame:
  assumes "queue_state sz h s q as" "heap_inv h'" "\<And>a. a \<in> set as \<Longrightarrow> s' a = s a"
    and "\<And>a. a \<in> set as \<Longrightarrow> live h' a = live h a"
  shows "queue_state sz h' s' q as" and "nvals s' as = nvals s as"
  using assms lseg_cong [of as s s' "q_head q" NULL] by (auto simp: queue_state_def intro: nvals_cong)

lemma find_tail_ok: "lpath s p as \<Longrightarrow> find_tail s prv p = Some (if as = [] then prv else last as)"
proof (induction as arbitrary: p prv)
  case Nil
  then show ?case by (simp add: find_tail.simps)
next
  case (Cons a as)
  then show ?case by (subst find_tail.simps) simp
qed

lemma queue_insert_ok:
  assumes q: "queue_state sz h s q as" and room: "unat sz + 24 < slack h"
  shows "\<exists>h' s' q' a n. queue_insert sz h s q e = Inr (h', s', q', True) \<and> queue_state sz h' s' q' (as @ [a]) \<and>
    nvals s' (as @ [a]) = nvals s as @ [e] \<and> live h a = None \<and> live h' = (live h)(a \<mapsto> n) \<and>
    (\<forall>x. x \<notin> set (as @ [a]) \<longrightarrow> s' x = s x) \<and> slack h \<le> slack h' + unat sz + 16"
proof -
  from q have inv: "heap_inv h" and path: "lpath s (q_head q) as" and dist: "distinct as"
    by (auto simp: queue_state_def)
  from kh.alloc_ok [OF inv room] obtain h' a n where a: "kmalloc h sz = Inr (h', a)" "heap_inv h'" "a \<noteq> NULL"
    "live h a = None" "live h' = (live h)(a \<mapsto> n)" "unat sz \<le> n" "slack h \<le> slack h' + unat sz + 16" by blast
  have new: "a \<notin> set as" using a(4) queue_state_live [OF q] by blast
  define s1 where "s1 = s(a := \<lparr>nvalue = e, nnext = NULL\<rparr>)"
  obtain s2 hp where s2: "set_link s1 (q_head q) (last_or_null as) a = (s2, hp)" by fastforce
  have "lpath s1 (q_head q) as" using path new by (simp add: s1_def)
  note L = set_link_seg [OF this dist s2]
  have at: "s2 a = \<lparr>nvalue = e, nnext = NULL\<rparr>" using L(3) [OF new] by (simp add: s1_def)
  have "queue_insert sz h s q e = Inr (h', s2, \<lparr>q_head = hp, q_size = q_size q + 1\<rparr>, True)"
    using find_tail_ok [OF path, of NULL] a(1,3) s2
    by (simp add: queue_insert_def operator_new_def s1_def last_or_null_def)
  moreover have "lpath s2 hp (as @ [a])"
    using L(1) at a(3) by (auto simp: lseg_append)
  moreover have "nvals s2 as = nvals s as"
    using new by (intro nvals_cong) (auto simp: L(2) s1_def)
  moreover have "\<forall>x. x \<notin> set (as @ [a]) \<longrightarrow> s2 x = s x"
    using L(3) by (simp add: s1_def)
  ultimately show ?thesis
    using q a new at dist
    by (intro exI [of _ h'] exI [of _ s2] exI [of _ "\<lparr>q_head = hp, q_size = q_size q + 1\<rparr>"] exI [of _ a] exI [of _ n])
       (auto simp: queue_state_def)
qed

text \<open>One node of the loop: it is unlinked and released, and the loop goes on with the same prefix.\<close>

lemma erase_item_unlink:
  fixes s :: "'v nodes"
  assumes inv: "heap_inv h" and seg: "lseg s (q_head q) as1 a" and rest: "lpath s (nnext (s a)) as2" and a: "a \<noteq> NULL" "nvalue (s a) = e"
    and d: "distinct (as1 @ a # as2)" and al: "live h a \<noteq> None"
  shows "\<exists>s1 hp. erase_item_loop e h s q cnt (last_or_null as1) a =
      erase_item_loop e (kfree h a) s1 \<lparr>q_head = hp, q_size = q_size q - 1\<rparr> (cnt + 1) (last_or_null as1) (nnext (s a)) \<and>
    heap_inv (kfree h a) \<and> live (kfree h a) = (live h)(a := None) \<and> slack h \<le> slack (kfree h a) \<and>
    lseg s1 hp as1 (nnext (s a)) \<and> lpath s1 (nnext (s a)) as2 \<and>
    (\<forall>x. nvalue (s1 x) = nvalue (s x)) \<and> (\<forall>x. x \<notin> set as1 \<longrightarrow> s1 x = s x)"
proof -
  obtain s1 hp where s1: "set_link s (q_head q) (last_or_null as1) (nnext (s a)) = (s1, hp)" by fastforce
  have "distinct as1" using d by simp
  note L = set_link_seg [OF seg this s1]
  have same: "s1 x = s x" if "x \<in> set (a # as2)" for x using d that by (intro L(3)) auto
  obtain n where "live h a = Some n" using al by auto
  note f = kh.free_ok [OF inv this]
  have "erase_item_loop e h s q cnt (last_or_null as1) a =
      erase_item_loop e (kfree h a) s1 \<lparr>q_head = hp, q_size = q_size q - 1\<rparr> (cnt + 1) (last_or_null as1) (nnext (s a))"
    using a s1 same by (subst erase_item_loop.simps) simp
  moreover have "lpath s1 (nnext (s a)) as2" using rest same lseg_cong [of as2 s1 s] by auto
  ultimately show ?thesis using f L by (intro exI [of _ s1] exI [of _ hp]) auto
qed

lemma erase_item_loop_ok:
  fixes s :: "'v nodes"
  assumes "heap_inv h" "lseg s (q_head q) as1 cur" "lpath s cur as2" "distinct (as1 @ as2)"
    "q_size q = int (length (as1 @ as2))" "\<forall>a \<in> set as2. live h a \<noteq> None"
  shows "\<exists>h' s' q'. erase_item_loop e h s q cnt (last_or_null as1) cur =
      Some (h', s', q', cnt + int (length (filter (\<lambda>a. nvalue (s a) = e) as2))) \<and> heap_inv h' \<and>
    lpath s' (q_head q') (as1 @ filter (\<lambda>a. nvalue (s a) \<noteq> e) as2) \<and>
    q_size q' = int (length (as1 @ filter (\<lambda>a. nvalue (s a) \<noteq> e) as2)) \<and>
    live h' = (\<lambda>a. if a \<in> set as2 \<and> nvalue (s a) = e then None else live h a) \<and>
    (\<forall>a. nvalue (s' a) = nvalue (s a)) \<and> (\<forall>a. a \<notin> set (as1 @ as2) \<longrightarrow> s' a = s a) \<and> slack h \<le> slack h'"
  using assms
proof (induction as2 arbitrary: as1 cur h s q cnt)
  case Nil
  then show ?case by (subst erase_item_loop.simps) simp
next
  case (Cons a as2)
  from Cons.prems(3) have cur: "cur = a" "a \<noteq> NULL" and rest: "lpath s (nnext (s a)) as2" by auto
  show ?case
  proof (cases "nvalue (s a) = e")
    case False
    have "lseg s (q_head q) (as1 @ [a]) (nnext (s a))" using Cons.prems(2) cur by (auto simp: lseg_append)
    moreover have "(\<lambda>x. if x \<in> set (a # as2) \<and> nvalue (s x) = e then None else live h x) =
        (\<lambda>x. if x \<in> set as2 \<and> nvalue (s x) = e then None else live h x)"
      using False by auto
    ultimately show ?thesis
      using Cons.IH [OF Cons.prems(1) _ rest, of q "as1 @ [a]" cnt] Cons.prems False cur
      by (subst erase_item_loop.simps) simp
  next
    case True
    have "live h a \<noteq> None" using Cons.prems(6) by simp
    from erase_item_unlink [OF Cons.prems(1) Cons.prems(2) [unfolded cur(1)] rest cur(2) True Cons.prems(4) this, of cnt] obtain s1 hp where
      e: "erase_item_loop e h s q cnt (last_or_null as1) a =
        erase_item_loop e (kfree h a) s1 \<lparr>q_head = hp, q_size = q_size q - 1\<rparr> (cnt + 1) (last_or_null as1) (nnext (s a))"
      and f: "heap_inv (kfree h a)" "live (kfree h a) = (live h)(a := None)" "slack h \<le> slack (kfree h a)"
      and L: "lseg s1 hp as1 (nnext (s a))" "lpath s1 (nnext (s a)) as2" "\<forall>x. nvalue (s1 x) = nvalue (s x)" "\<forall>x. x \<notin> set as1 \<longrightarrow> s1 x = s x"
      by blast
    let ?q = "\<lparr>q_head = hp, q_size = q_size q - 1\<rparr>"
    have "\<forall>x \<in> set as2. live (kfree h a) x \<noteq> None" "distinct (as1 @ as2)" "q_size ?q = int (length (as1 @ as2))" "lseg s1 (q_head ?q) as1 (nnext (s a))"
      using Cons.prems(4,5,6) f(2) L(1) by auto
    from Cons.IH [OF f(1) this(4) L(2) this(2,3,1), of "cnt + 1"]
    obtain h' s' q' where r: "erase_item_loop e (kfree h a) s1 ?q (cnt + 1) (last_or_null as1) (nnext (s a)) =
        Some (h', s', q', cnt + 1 + int (length (filter (\<lambda>a. nvalue (s a) = e) as2)))" "heap_inv h'"
      "lpath s' (q_head q') (as1 @ filter (\<lambda>a. nvalue (s a) \<noteq> e) as2)"
      "q_size q' = int (length (as1 @ filter (\<lambda>a. nvalue (s a) \<noteq> e) as2))"
      "live h' = (\<lambda>x. if x \<in> set as2 \<and> nvalue (s x) = e then None else live (kfree h a) x)"
      "\<forall>a. nvalue (s' a) = nvalue (s a)" "\<forall>a. a \<notin> set (as1 @ as2) \<longrightarrow> s' a = s1 a" "slack (kfree h a) \<le> slack h'"
      unfolding L(3) [rule_format] by blast
    have "live h' = (\<lambda>x. if x \<in> set (a # as2) \<and> nvalue (s x) = e then None else live h x)"
      using r(5) f(2) True by (auto simp: fun_eq_iff)
    with r e cur f(3) L(4) True show ?thesis by (auto simp: algebra_simps)
  qed
qed

lemma erase_item_ok:
  assumes q: "queue_state sz h s q as"
  shows "\<exists>h' s' q'. erase_item h s q e = Inr (h', s', q', int (length (filter (\<lambda>a. nvalue (s a) = e) as))) \<and>
    queue_state sz h' s' q' (filter (\<lambda>a. nvalue (s a) \<noteq> e) as) \<and>
    live h' = (\<lambda>a. if a \<in> set as \<and> nvalue (s a) = e then None else live h a) \<and>
    (\<forall>a. nvalue (s' a) = nvalue (s a)) \<and> (\<forall>a. a \<notin> set as \<longrightarrow> s' a = s a) \<and> slack h \<le> slack h'"
proof -
  from q have "heap_inv h" "lseg s (q_head q) [] (q_head q)" "lpath s (q_head q) as" "distinct ([] @ as)"
    "q_size q = int (length ([] @ as))" "\<forall>a \<in> set as. live h a \<noteq> None" by (auto simp: queue_state_def)
  from erase_item_loop_ok [OF this, of e 0] obtain h' s' q' where r:
    "erase_item_loop e h s q 0 NULL (q_head q) = Some (h', s', q', int (length (filter (\<lambda>a. nvalue (s a) = e) as)))"
    "heap_inv h'" "lpath s' (q_head q') (filter (\<lambda>a. nvalue (s a) \<noteq> e) as)"
    "q_size q' = int (length (filter (\<lambda>a. nvalue (s a) \<noteq> e) as))"
    "live h' = (\<lambda>a. if a \<in> set as \<and> nvalue (s a) = e then None else live h a)"
    "\<forall>a. nvalue (s' a) = nvalue (s a)" "\<forall>a. a \<notin> set as \<longrightarrow> s' a = s a" "slack h \<le> slack h'" by auto
  moreover from r q have "queue_state sz h' s' q' (filter (\<lambda>a. nvalue (s a) \<noteq> e) as)"
    by (auto simp: queue_state_def)
  ultimately show ?thesis by (auto simp: erase_item_def)
qed

lemma filter_nvals: "nvals s (filter (\<lambda>a. P (nvalue (s a))) as) = filter P (nvals s as)"
  by (induction as) auto

lemma lpath_length: "lpath s p as \<Longrightarrow> distinct as \<Longrightarrow> length as < 2 ^ 32"
proof -
  assume l: "lpath s p as" and d: "distinct as"
  then have "card (set as) \<le> card (UNIV - {NULL :: addr})"
    using lseg_nonnull [OF l] by (intro card_mono) auto
  also have "\<dots> < 2 ^ 32" by (simp add: card_word)
  finally show ?thesis using d by (simp add: distinct_card)
qed

lemma walk_idx_ok:
  assumes "lpath s cur as2" "length (as1 @ as2) < 2 ^ 32" "length as1 \<le> unat index" "as = as1 @ as2"
  shows "walk_idx s index (last_or_null as1) cur (word_of_nat (length as1)) =
    (if unat index < length as then Some (last_or_null (take (unat index) as), as ! unat index, index)
     else Some (last_or_null as, NULL, word_of_nat (length as)))"
  using assms
proof (induction as2 arbitrary: as1 cur)
  case Nil
  then show ?case by (subst walk_idx.simps) simp
next
  case (Cons a as2)
  show ?case
  proof (cases "unat index = length as1")
    case True
    then have "word_of_nat (length as1) = index" using True [symmetric] by simp
    with True Cons.prems show ?thesis by (subst walk_idx.simps) simp
  next
    case False
    then have "word_of_nat (length as1) \<noteq> index"
      using Cons.prems unat_word32_of_nat [of "length as1"] by auto
    moreover have "walk_idx s index (last_or_null (as1 @ [a])) (nnext (s a)) (word_of_nat (length (as1 @ [a]))) =
      (if unat index < length as then Some (last_or_null (take (unat index) as), as ! unat index, index)
       else Some (last_or_null as, NULL, word_of_nat (length as)))"
      using Cons.prems False by (intro Cons.IH) auto
    ultimately show ?thesis using Cons.prems by (subst walk_idx.simps) (simp add: add.commute)
  qed
qed

definition drop_nth :: "nat \<Rightarrow> 'a list \<Rightarrow> 'a list" where
  "drop_nth i xs = take i xs @ drop (Suc i) xs"

lemma drop_nth_nvals: "nvals s (drop_nth i as) = drop_nth i (nvals s as)"
  by (simp add: drop_nth_def nvals_def take_map drop_map)

lemma erase_idx_ok:
  assumes q: "queue_state sz h s q as" and i: "unat i < length as"
  shows "\<exists>s' q'. erase_idx h s q i = Inr (kfree h (as ! unat i), s', q', True) \<and>
    queue_state sz (kfree h (as ! unat i)) s' q' (drop_nth (unat i) as) \<and>
    live (kfree h (as ! unat i)) = (live h)(as ! unat i := None) \<and>
    (\<forall>a. nvalue (s' a) = nvalue (s a)) \<and> (\<forall>a. a \<notin> set as \<longrightarrow> s' a = s a)"
proof -
  obtain as1 a as2 where split: "as = as1 @ a # as2" and len: "length as1 = unat i"
    using i id_take_nth_drop [OF i] by (metis length_take min.absorb4)
  then have at: "as ! unat i = a" "take (unat i) as = as1" "drop_nth (unat i) as = as1 @ as2"
    by (auto simp: drop_nth_def nth_append simp flip: len)
  from q have inv: "heap_inv h" and path: "lpath s (q_head q) as" and dist: "distinct as"
    by (auto simp: queue_state_def)
  from path split have pre: "lseg s (q_head q) as1 a" and a0: "a \<noteq> NULL" and post: "lpath s (nnext (s a)) as2"
    by (auto simp: lseg_append)
  have d1: "distinct as1" "set as1 \<inter> set as2 = {}" "a \<notin> set as1" using dist split by auto
  obtain n where n: "live h a = Some n" using queue_state_live [OF q, of a] split by auto
  note f = kh.free_ok [OF inv n]
  obtain s' hp where l: "set_link s (q_head q) (last_or_null as1) (nnext (s a)) = (s', hp)" by fastforce
  note L = set_link_seg [OF pre d1(1) l]
  have "walk_idx s i NULL (q_head q) 0 = Some (last_or_null as1, a, i)"
    using walk_idx_ok [OF path, of "[]" i as] i lpath_length [OF path dist] at by simp
  moreover have "last_or_null as1 = NULL \<longleftrightarrow> i = 0"
    using len lseg_nonnull [OF pre, of "last as1"] by (cases "as1 = []") (auto simp: last_or_null_def unat_eq_zero)
  ultimately have "erase_idx h s q i = Inr (kfree h a, s', \<lparr>q_head = hp, q_size = q_size q - 1\<rparr>, True)"
    using l a0 by (auto simp: erase_idx_def set_link_def split: if_splits)
  moreover have "lpath s' hp (as1 @ as2)"
  proof -
    have "\<forall>x \<in> set as2. s' x = s x" using L(3) d1 by blast
    then have "lpath s' (nnext (s a)) as2" using post lseg_cong [of as2 s' s] by simp
    with L(1) show ?thesis by (auto simp: lseg_append)
  qed
  moreover have "queue_state sz (kfree h a) s' \<lparr>q_head = hp, q_size = q_size q - 1\<rparr> (as1 @ as2)"
    using calculation q f split by (auto simp: queue_state_def)
  ultimately show ?thesis using f L(2,3) at split by auto
qed

lemma erase_idx_out_of_range:
  assumes q: "queue_state sz h s q as" and i: "length as \<le> unat i"
  shows "erase_idx h s q i = Inr (h, s, q, False)"
proof -
  have path: "lpath s (q_head q) as" "distinct as" using q by (auto simp: queue_state_def)
  with walk_idx_ok [OF path(1), of "[]" i as] i lpath_length [OF path] show ?thesis
    by (simp add: erase_idx_def)
qed

lemma queue_dequeue_ok:
  assumes q: "queue_state sz h s q (a # as)"
  shows "\<exists>q'. queue_dequeue d h s q = (kfree h a, q', nvalue (s a)) \<and> queue_state sz (kfree h a) s q' as \<and>
    live (kfree h a) = (live h)(a := None) \<and> slack h \<le> slack (kfree h a)"
proof -
  obtain n where "live h a = Some n" using queue_state_live [OF q, of a] by auto
  with q have f: "heap_inv (kfree h a) \<and> live (kfree h a) = (live h)(a := None) \<and> slack h \<le> slack (kfree h a)"
    by (intro kh.free_ok) (auto simp: queue_state_def)
  with q show ?thesis by (auto simp: queue_dequeue_def queue_state_def)
qed

lemma queue_dequeue_empty: "queue_state sz h s q [] \<Longrightarrow> queue_dequeue d h s q = (h, q, d)"
  by (simp add: queue_dequeue_def queue_state_def)

lemma find_node_ok:
  "lpath s p as \<Longrightarrow> find_node s P p = Some (case List.find (\<lambda>a. P (nvalue (s a))) as of None \<Rightarrow> NULL | Some a \<Rightarrow> a)"
proof (induction as arbitrary: p)
  case Nil
  then show ?case by (subst find_node.simps) simp
next
  case (Cons a as)
  then show ?case by (subst find_node.simps) auto
qed

lemma destroy_loop_ok:
  assumes "lpath s p as" "heap_inv h" "distinct as" "\<forall>a \<in> set as. live h a \<noteq> None"
  shows "\<exists>h'. destroy_loop s h p = Some h' \<and> heap_inv h' \<and> live h' = (\<lambda>a. if a \<in> set as then None else live h a) \<and>
    slack h \<le> slack h'"
  using assms
proof (induction as arbitrary: p h)
  case Nil
  then show ?case by (subst destroy_loop.simps) simp
next
  case (Cons a as)
  then obtain n where "live h a = Some n" by auto
  note f = kh.free_ok [OF Cons.prems(2) this]
  have "\<forall>x \<in> set as. live (kfree h a) x \<noteq> None" using Cons.prems f by auto
  with Cons.IH [of "nnext (s a)" "kfree h a"] Cons.prems f obtain h' where h':
    "destroy_loop s (kfree h a) (nnext (s a)) = Some h'" "heap_inv h'"
    "live h' = (\<lambda>x. if x \<in> set as then None else live (kfree h a) x)" "slack (kfree h a) \<le> slack h'" by auto
  moreover have "destroy_loop s h p = Some h'"
    using h'(1) Cons.prems(1) by (subst destroy_loop.simps) (simp add: Let_def)
  ultimately show ?case using f by auto
qed

section \<open>The interface: first in, first out\<close>

fun enq_all :: "('s \<Rightarrow> 'e \<Rightarrow> 's result) \<Rightarrow> 's \<Rightarrow> 'e list \<Rightarrow> 's result" where
  "enq_all enq s [] = Inr s"
| "enq_all enq s (x # xs) = rbind (enq s x) (\<lambda>s'. enq_all enq s' xs)"

fun deq_many :: "('s \<Rightarrow> 'e \<times> 's) \<Rightarrow> nat \<Rightarrow> 's \<Rightarrow> 'e list \<times> 's" where
  "deq_many deq 0 s = ([], s)"
| "deq_many deq (Suc n) s = (let (x, s') = deq s; (xs, s'') = deq_many deq n s' in (x # xs, s''))"

locale fifo =
  fixes enq :: "'s \<Rightarrow> 'e \<Rightarrow> 's result"
    and deq :: "'s \<Rightarrow> 'e \<times> 's"
    and rep :: "'s \<Rightarrow> 'e list \<Rightarrow> bool"
    and room :: "'s \<Rightarrow> nat"
    and cost :: nat
  assumes enq_ok: "rep s xs \<Longrightarrow> cost + 24 < room s \<Longrightarrow>
      \<exists>s'. enq s x = Inr s' \<and> rep s' (xs @ [x]) \<and> room s \<le> room s' + cost + 16"
    and deq_front: "rep s (x # xs) \<Longrightarrow> \<exists>s'. deq s = (x, s') \<and> rep s' xs"
begin

lemma enq_all_ok:
  "rep s ys \<Longrightarrow> length xs * (cost + 16) + 8 < room s \<Longrightarrow> \<exists>s'. enq_all enq s xs = Inr s' \<and> rep s' (ys @ xs)"
proof (induction xs arbitrary: s ys)
  case Nil
  then show ?case by simp
next
  case (Cons x xs)
  then have "cost + 24 < room s" by simp
  from enq_ok [OF Cons.prems(1) this, of x] obtain s' where s': "enq s x = Inr s'" "rep s' (ys @ [x])"
    "room s \<le> room s' + cost + 16" by blast
  with Cons.prems have "length xs * (cost + 16) + 8 < room s'" by simp
  from Cons.IH [OF s'(2) this] s' show ?case by auto
qed

lemma deq_many_ok: "rep s (xs @ ys) \<Longrightarrow> \<exists>s'. deq_many deq (length xs) s = (xs, s') \<and> rep s' ys"
proof (induction xs arbitrary: s)
  case Nil
  then show ?case by simp
next
  case (Cons x xs)
  then obtain s' where s': "deq s = (x, s')" "rep s' (xs @ ys)" using deq_front [of s x "xs @ ys"] by auto
  from Cons.IH [OF s'(2)] s' show ?case by auto
qed

lemma fifo_order:
  assumes "rep s ys" "length xs * (cost + 16) + 8 < room s"
  shows "\<exists>s1 s2. enq_all enq s xs = Inr s1 \<and> deq_many deq (length ys + length xs) s1 = (ys @ xs, s2) \<and> rep s2 []"
  using enq_all_ok [OF assms] deq_many_ok [of _ "ys @ xs" "[]"] by fastforce

end

text \<open>The queue as the kernel uses it: the heap, the node store and the queue object together.\<close>

definition queue_rep :: "u32 \<Rightarrow> block \<times> 'v nodes \<times> lqueue \<Rightarrow> 'v list \<Rightarrow> bool" where
  "queue_rep sz = (\<lambda>(h, s, q) xs. \<exists>as. queue_state sz h s q as \<and> nvals s as = xs)"

definition queue_enq :: "u32 \<Rightarrow> block \<times> 'v nodes \<times> lqueue \<Rightarrow> 'v \<Rightarrow> (block \<times> 'v nodes \<times> lqueue) result" where
  "queue_enq sz = (\<lambda>(h, s, q) e. rbind (queue_insert sz h s q e) (\<lambda>(h', s', q', _). Inr (h', s', q')))"

definition queue_deq :: "'v \<Rightarrow> block \<times> 'v nodes \<times> lqueue \<Rightarrow> 'v \<times> block \<times> 'v nodes \<times> lqueue" where
  "queue_deq d = (\<lambda>(h, s, q). let (h', q', v) = queue_dequeue d h s q in (v, h', s, q'))"

interpretation lq: fifo "queue_enq sz" "queue_deq d" "queue_rep sz" "\<lambda>(h, s, q). slack h" "unat sz"
  for sz :: u32 and d :: 'v
proof (unfold_locales, goal_cases)
  case (1 st xs x)
  obtain h s q where st: "st = (h, s, q)" by (cases st)
  with 1 obtain as where as: "queue_state sz h s q as" "nvals s as = xs" "unat sz + 24 < slack h"
    by (auto simp: queue_rep_def)
  from queue_insert_ok [OF as(1,3), of x] obtain h' s' q' a where
    "queue_insert sz h s q x = Inr (h', s', q', True)" "queue_state sz h' s' q' (as @ [a])"
    "nvals s' (as @ [a]) = nvals s as @ [x]" "slack h \<le> slack h' + unat sz + 16" by blast
  with st as show ?case by (auto simp: queue_enq_def queue_rep_def simp del: nvals_simps)
next
  case (2 st x xs)
  obtain h s q where st: "st = (h, s, q)" by (cases st)
  with 2 obtain a as where as: "queue_state sz h s q (a # as)" "nvalue (s a) = x" "nvals s as = xs"
    by (auto simp: queue_rep_def nvals_def)
  with st queue_dequeue_ok [OF as(1), of d] show ?case by (auto simp: queue_deq_def queue_rep_def)
qed

section \<open>Properties\<close>

text \<open>An empty queue of integers on a fresh heap, and one that holds 5, 7, 5.\<close>

definition no_nodes :: "int nodes" where
  "no_nodes _ = \<lparr>nvalue = 0, nnext = NULL\<rparr>"

lemma empty_rep: "queue_rep 8 (wide_heap, no_nodes, queue_new) []"
  using queue_state_new [OF wide_heap_inv(1), of 8 no_nodes] by (auto simp: queue_rep_def intro: exI [of _ "[]"])

lemma demo_lqueue:
  obtains h s q as where "queue_state 8 h s q as" "nvals s as = [5, 7, 5 :: int]"
    "enq_all (queue_enq 8) (wide_heap, no_nodes, queue_new) [5, 7, 5] = Inr (h, s, q)"
proof -
  from lq.enq_all_ok [OF empty_rep, of "[5, 7, 5]"] wide_heap_inv(2) obtain st where
    "enq_all (queue_enq 8) (wide_heap, no_nodes, queue_new) [5, 7, 5] = Inr st" "queue_rep 8 st [5, 7, 5]"
    by (auto simp del: enq_all.simps)
  then show ?thesis using that by (cases st) (auto simp: queue_rep_def simp del: enq_all.simps)
qed

text \<open>
  C33. \<^verbatim>\<open>queue\<close> is first in, first out: inserting \<open>xs\<close> into a queue that holds \<open>ys\<close> and dequeuing as often as
  there are elements returns \<open>ys\<close> and then \<open>xs\<close>, and leaves an empty queue. Every insertion succeeds as long
  as the heap has room for its node and header.
\<close>

theorem queue_is_fifo:
  assumes "queue_rep sz (h, s, q) ys" "length xs * (unat sz + 16) + 8 < slack h"
  shows "\<exists>st1 st2. enq_all (queue_enq sz) (h, s, q) xs = Inr st1 \<and>
    deq_many (queue_deq d) (length ys + length xs) st1 = (ys @ xs, st2) \<and> queue_rep sz st2 []"
  using lq.fifo_order [of sz "(h, s, q)" ys xs d] assms by simp

theorem queue_is_fifo_witness:
  "\<exists>st1 st2. enq_all (queue_enq 8) (wide_heap, no_nodes, queue_new) [5, 7, 5] = Inr st1 \<and>
    deq_many (queue_deq 0) 3 st1 = ([5, 7, 5], st2)"
  using queue_is_fifo [OF empty_rep, of "[5, 7, 5]" 0] wide_heap_inv(2)
  by (auto simp: numeral_3_eq_3 simp del: enq_all.simps deq_many.simps)

text \<open>
  C34. \<^verbatim>\<open>erase_item\<close> removes exactly the elements equal to its argument, keeps the order of the others, returns
  how many it removed, releases exactly their nodes, and leaves every other queue of the same type, whose
  nodes \<open>bs\<close> are elsewhere, as it was.
\<close>

theorem erase_item_correct:
  assumes "queue_state sz h s q as" "queue_state sz h s r bs" "set as \<inter> set bs = {}"
  shows "\<exists>h' s' q' as'. erase_item h s q e = Inr (h', s', q', int (count_list (nvals s as) e)) \<and>
    queue_state sz h' s' q' as' \<and> nvals s' as' = filter (\<lambda>v. v \<noteq> e) (nvals s as) \<and>
    dom (live h') = dom (live h) - {a. a \<in> set as \<and> nvalue (s a) = e} \<and>
    queue_state sz h' s' r bs \<and> nvals s' bs = nvals s bs"
proof -
  let ?as = "filter (\<lambda>a. nvalue (s a) \<noteq> e) as"
  from erase_item_ok [OF assms(1), of e] obtain h' s' q' where r:
    "erase_item h s q e = Inr (h', s', q', int (length (filter (\<lambda>a. nvalue (s a) = e) as)))"
    "queue_state sz h' s' q' ?as" "live h' = (\<lambda>a. if a \<in> set as \<and> nvalue (s a) = e then None else live h a)"
    "\<forall>a. nvalue (s' a) = nvalue (s a)" "\<forall>a. a \<notin> set as \<longrightarrow> s' a = s a" by blast
  have "nvals s' ?as = filter (\<lambda>v. v \<noteq> e) (nvals s as)"
    using r(4) filter_nvals [of s "\<lambda>v. v \<noteq> e" as] nvals_cong [of ?as s' s] by simp
  moreover have "length (filter (\<lambda>a. nvalue (s a) = e) as) = count_list (nvals s as) e"
    by (induction as) auto
  moreover have "dom (live h') = dom (live h) - {a. a \<in> set as \<and> nvalue (s a) = e}"
    using r(3) by (auto split: if_splits)
  moreover have "s' a = s a" "live h' a = live h a" if "a \<in> set bs" for a
    using that assms(3) r(3,5) by auto
  then have "queue_state sz h' s' r bs \<and> nvals s' bs = nvals s bs"
    using queue_state_frame [OF assms(2), of h' s'] r(2) by (auto simp: queue_state_def)
  ultimately show ?thesis using r(1,2) by auto
qed

theorem erase_item_correct_witness:
  "\<exists>h s q as h' s' q' as'. queue_state 8 h s q as \<and> nvals s as = [5, 7, 5 :: int] \<and>
    erase_item h s q 5 = Inr (h', s', q', 2) \<and> queue_state 8 h' s' q' as' \<and> nvals s' as' = [7]"
proof -
  obtain h s q as where q: "queue_state 8 h s q as" "nvals s as = [5, 7, 5 :: int]" by (rule demo_lqueue)
  have "queue_state 8 h s queue_new []" using q(1) by (simp add: queue_state_def queue_new_def)
  from erase_item_correct [OF q(1) this, of 5] q show ?thesis by fastforce
qed

text \<open>
  \<^verbatim>\<open>erase_idx\<close> removes the element at that position and nothing else; past the end it changes nothing and
  says so.
\<close>

theorem erase_idx_correct:
  assumes "queue_state sz h s q as"
  shows "if unat i < length as
    then \<exists>h' s' q' as'. erase_idx h s q i = Inr (h', s', q', True) \<and> queue_state sz h' s' q' as' \<and>
      nvals s' as' = take (unat i) (nvals s as) @ drop (Suc (unat i)) (nvals s as) \<and>
      dom (live h') = dom (live h) - {as ! unat i}
    else erase_idx h s q i = Inr (h, s, q, False)"
proof (cases "unat i < length as")
  case True
  from erase_idx_ok [OF assms this] obtain s' q' where e:
    "erase_idx h s q i = Inr (kfree h (as ! unat i), s', q', True)"
    "queue_state sz (kfree h (as ! unat i)) s' q' (drop_nth (unat i) as)"
    "live (kfree h (as ! unat i)) = (live h)(as ! unat i := None)" "\<forall>a. nvalue (s' a) = nvalue (s a)" by blast
  moreover have "nvals s' (drop_nth (unat i) as) = take (unat i) (nvals s as) @ drop (Suc (unat i)) (nvals s as)"
    using e(4) nvals_cong [of "drop_nth (unat i) as" s' s] drop_nth_nvals [of s "unat i" as] by (simp add: drop_nth_def)
  ultimately show ?thesis using True by auto
next
  case False
  with erase_idx_out_of_range [OF assms, of i] show ?thesis by simp
qed

theorem erase_idx_correct_witness:
  "\<exists>h s q as h' s' q' as'. queue_state 8 h s q as \<and> nvals s as = [5, 7, 5 :: int] \<and>
    erase_idx h s q 1 = Inr (h', s', q', True) \<and> queue_state 8 h' s' q' as' \<and> nvals s' as' = [5, 5] \<and>
    erase_idx h s q 3 = Inr (h, s, q, False)"
proof -
  obtain h s q as where q: "queue_state 8 h s q as" "nvals s as = [5, 7, 5 :: int]" by (rule demo_lqueue)
  then have "length as = 3" by (metis length_Cons list.size(3) numeral_3_eq_3 nvals_simps(4))
  with erase_idx_correct [OF q(1), of 1] erase_idx_correct [OF q(1), of 3] q show ?thesis by fastforce
qed

text \<open>
  The destructor releases every node and nothing else.
\<close>

theorem queue_destroy_no_leak:
  assumes "queue_state sz h s q as"
  shows "\<exists>h'. queue_destroy h s q = Inr h' \<and> heap_inv h' \<and> dom (live h') = dom (live h) - set as"
proof -
  from assms have "lpath s (q_head q) as" "heap_inv h" "distinct as" "\<forall>a \<in> set as. live h a \<noteq> None"
    by (auto simp: queue_state_def)
  from destroy_loop_ok [OF this] obtain h' where "destroy_loop s h (q_head q) = Some h'" "heap_inv h'"
    "live h' = (\<lambda>a. if a \<in> set as then None else live h a)" by blast
  then show ?thesis by (auto simp: queue_destroy_def split: if_splits)
qed

theorem queue_destroy_no_leak_witness:
  "\<exists>h s q as h'. queue_state 8 h s q as \<and> nvals s as = [5, 7, 5 :: int] \<and> queue_destroy h s q = Inr h' \<and>
    dom (live h') = dom (live h) - set as"
proof -
  obtain h s q as where q: "queue_state 8 h s q as" "nvals s as = [5, 7, 5 :: int]" by (rule demo_lqueue)
  with queue_destroy_no_leak [OF q(1)] show ?thesis by fastforce
qed

end
