(* ===== verification/Hash_Map.thy ===== *)
theory Hash_Map
  imports Linked_Queue
begin

unbundle bit_operations_syntax

text \<open>
  The hash functions of \<^verbatim>\<open>src/src/kernel/kernel/utils/hash.cpp\<close> and the class template \<^verbatim>\<open>unordered_map\<close> of
  \<^verbatim>\<open>src/src/kernel/include/kernel/containers/unordered_map.h\<close>: an array of buckets on the kernel heap, each a
  \<^verbatim>\<open>queue\<close> of key/value pairs. The kernel has hash functions for 4-byte keys only and uses 4-byte values, so a
  node is 12 bytes and the value of a pair is 4 bytes behind its key. Log output is left out.
\<close>

section \<open>Hash functions\<close>

definition integer_hash :: "u32 \<Rightarrow> u32" where
  "integer_hash key =
     (let x1 = (drop_bit 16 key XOR key) * 0x119de1f3;
          x2 = (drop_bit 16 x1 XOR x1) * 0x119de1f3
      in drop_bit 16 x2 XOR x2)"

text \<open>\<^verbatim>\<open>hash<int>\<close> and \<^verbatim>\<open>hash<unsigned int>\<close>; a signed key is cast to its 32 bits.\<close>

definition hash_int :: "32 word \<Rightarrow> u32" where
  "hash_int key = integer_hash key"

definition hash_uint :: "u32 \<Rightarrow> u32" where
  "hash_uint key = integer_hash key"

text \<open>The mixing steps one by one: the xor-shift is an involution, the multiplier is odd.\<close>

definition xshift :: "u32 \<Rightarrow> u32" where
  "xshift x = drop_bit 16 x XOR x"

lemma xshift_xshift [simp]: "xshift (xshift x) = x"
  by (rule bit_word_eqI) (auto simp: xshift_def bit_simps)

definition integer_unhash :: "u32 \<Rightarrow> u32" where
  "integer_unhash y = xshift (0x45d9f3b * xshift (0x45d9f3b * xshift y))"

lemma multiplier_inverse: "(0x45d9f3b :: u32) * (x * 0x119de1f3) = x"
proof -
  have "(0x45d9f3b :: u32) * (x * 0x119de1f3) = x * (0x45d9f3b * 0x119de1f3)" by (simp add: mult.commute)
  also have "(0x45d9f3b :: u32) * 0x119de1f3 = 1" by simp
  finally show ?thesis by simp
qed

lemma unhash_hash: "integer_unhash (integer_hash x) = x"
proof -
  have "integer_hash x = xshift (xshift (xshift x * 0x119de1f3) * 0x119de1f3)"
    by (simp add: integer_hash_def xshift_def Let_def)
  then show ?thesis by (simp add: integer_unhash_def multiplier_inverse del: mult_numeral_left_semiring_numeral)
qed

section \<open>State and operations of the map\<close>

record ('a, 'b) kpair =
  first :: 'a
  second :: 'b

definition kpair_eq :: "('a, 'b) kpair \<Rightarrow> ('a, 'b) kpair \<Rightarrow> bool" where
  "kpair_eq l r = (first l = first r \<and> second l = second r)"

definition make_pair :: "'a \<Rightarrow> 'b \<Rightarrow> ('a, 'b) kpair" where
  "make_pair a b = \<lparr>first = a, second = b\<rparr>"

record umap =
  um_buckets :: addr
  um_arr :: "lqueue list"
  um_bucket_count :: int
  um_items :: u32

type_synonym ('k, 'v) pairs = "('k, 'v) kpair nodes"

definition sizeof_mnode :: u32 where
  "sizeof_mnode = 12"

definition sizeof_bucket :: u32 where
  "sizeof_bucket = 8"

text \<open>
  \<^verbatim>\<open>new Bucket[count]\<close>: \<^verbatim>\<open>Bucket\<close> has a destructor, so the array is preceded by a word that holds the count,
  written before the code can compare the pointer with \<^verbatim>\<open>NULL\<close>.
\<close>

definition allocate_buckets :: "block \<Rightarrow> u32 \<Rightarrow> (block \<times> addr \<times> lqueue list) result" where
  "allocate_buckets h n = rbind (operator_new h (4 + sizeof_bucket * n)) (\<lambda>(h', p).
     if p = NULL then Inl NullAccess else Inr (h', p + 4, replicate (unat n) queue_new))"

definition umap_new :: "block \<Rightarrow> u32 \<Rightarrow> (block \<times> umap) result" where
  "umap_new h n = rbind (allocate_buckets h n) (\<lambda>(h', p, bs).
     Inr (h', \<lparr>um_buckets = p, um_arr = bs, um_bucket_count = sint n, um_items = 0\<rparr>))"

text \<open>\<^verbatim>\<open>delete[]\<close> destroys the buckets from the last to the first and releases the array with its count word.\<close>

fun destroy_buckets :: "block \<Rightarrow> ('k, 'v) pairs \<Rightarrow> lqueue list \<Rightarrow> block result" where
  "destroy_buckets h s [] = Inr h"
| "destroy_buckets h s (b # bs) = rbind (queue_destroy h s b) (\<lambda>h'. destroy_buckets h' s bs)"

definition umap_destroy :: "block \<Rightarrow> ('k, 'v) pairs \<Rightarrow> umap \<Rightarrow> block result" where
  "umap_destroy h s m =
     (if um_buckets m \<noteq> NULL
      then rbind (destroy_buckets h s (rev (um_arr m))) (\<lambda>h'. Inr (operator_delete h' (um_buckets m - 4)))
      else Inr h)"

definition umap_size :: "umap \<Rightarrow> u32" where
  "umap_size m = um_items m"

text \<open>\<^verbatim>\<open>find_bucket\<close>: the index of the bucket; \<^verbatim>\<open>size_t % int\<close> is an unsigned remainder.\<close>

definition find_bucket :: "('k \<Rightarrow> u32) \<Rightarrow> umap \<Rightarrow> 'k \<Rightarrow> int result" where
  "find_bucket hf m key =
     (let hv = hf key; n = (word_of_int (um_bucket_count m) :: u32)
      in if n = 0 then Inl DivByZero else Inr (int (unat (hv mod n))))"

definition umap_insert :: "('k \<Rightarrow> u32) \<Rightarrow> block \<Rightarrow> ('k, 'v) pairs \<Rightarrow> umap \<Rightarrow> 'k \<Rightarrow> 'v
    \<Rightarrow> (block \<times> ('k, 'v) pairs \<times> umap \<times> bool) result" where
  "umap_insert hf h s m k v =
     rbind (find_bucket hf m k) (\<lambda>i. rbind (rd (um_arr m) i) (\<lambda>buck.
     rbind (queue_find_if s buck (\<lambda>elem. if first elem = k then True else False)) (\<lambda>elem.
     if elem \<noteq> NULL then Inr (h, s, m, False)
     else rbind (queue_insert sizeof_mnode h s buck (make_pair k v)) (\<lambda>(h', s', buck', ok).
       rbind (wr (um_arr m) i buck') (\<lambda>arr.
       if ok then Inr (h', s', m\<lparr>um_arr := arr, um_items := um_items m + 1\<rparr>, True)
       else Inr (h', s', m\<lparr>um_arr := arr\<rparr>, False))))))"

definition umap_find :: "('k \<Rightarrow> u32) \<Rightarrow> ('k, 'v) pairs \<Rightarrow> umap \<Rightarrow> 'k \<Rightarrow> addr result" where
  "umap_find hf s m k =
     rbind (find_bucket hf m k) (\<lambda>i. rbind (rd (um_arr m) i) (\<lambda>buck.
     rbind (queue_find_if s buck (\<lambda>elem. if first elem = k then True else False)) (\<lambda>elem.
     if elem = NULL then Inr NULL else Inr (elem + 4))))"

text \<open>
  \<^verbatim>\<open>erase\<close> removes the pair it found by value. If \<^verbatim>\<open>erase_item\<close> removed nothing, the function would end without
  returning a value.
\<close>

definition umap_erase :: "('k \<Rightarrow> u32) \<Rightarrow> block \<Rightarrow> ('k, 'v) pairs \<Rightarrow> umap \<Rightarrow> 'k
    \<Rightarrow> (block \<times> ('k, 'v) pairs \<times> umap \<times> bool) result" where
  "umap_erase hf h s m k =
     rbind (find_bucket hf m k) (\<lambda>i. rbind (rd (um_arr m) i) (\<lambda>buck.
     rbind (queue_find_if s buck (\<lambda>elem. if first elem = k then True else False)) (\<lambda>elem.
     if elem = NULL then Inr (h, s, m, False)
     else
       let el = nvalue (s elem)
       in rbind (erase_item h s buck el) (\<lambda>(h', s', buck', n).
          rbind (wr (um_arr m) i buck') (\<lambda>arr.
          if n > 0 then Inr (h', s', m\<lparr>um_arr := arr, um_items := um_items m - 1\<rparr>, True)
          else Inl UninitRead)))))"

text \<open>Reading through the pointer \<^verbatim>\<open>find\<close> returns.\<close>

definition umap_get :: "('k \<Rightarrow> u32) \<Rightarrow> ('k, 'v) pairs \<Rightarrow> umap \<Rightarrow> 'k \<Rightarrow> 'v option result" where
  "umap_get hf s m k = rbind (umap_find hf s m k)
     (\<lambda>p. Inr (if p = NULL then None else Some (second (nvalue (s (p - 4))))))"

section \<open>The map in memory\<close>

abbreviation nkey :: "('k, 'v) pairs \<Rightarrow> addr \<Rightarrow> 'k" where
  "nkey s a \<equiv> first (nvalue (s a))"

abbreviation nval :: "('k, 'v) pairs \<Rightarrow> addr \<Rightarrow> 'v" where
  "nval s a \<equiv> second (nvalue (s a))"

text \<open>\<open>ass\<close> lists the nodes of each bucket.\<close>

definition all_nodes :: "addr list list \<Rightarrow> addr set" where
  "all_nodes ass = (\<Union>i < length ass. set (ass ! i))"

definition umap_state :: "('k \<Rightarrow> u32) \<Rightarrow> block \<Rightarrow> ('k, 'v) pairs \<Rightarrow> umap \<Rightarrow> addr list list \<Rightarrow> bool" where
  "umap_state hf h s m ass \<longleftrightarrow> heap_inv h \<and> 0 < length ass \<and> length ass < 2 ^ 31 \<and>
     um_bucket_count m = int (length ass) \<and> length (um_arr m) = length ass \<and>
     (\<forall>i < length ass. queue_state sizeof_mnode h s (um_arr m ! i) (ass ! i)) \<and>
     (\<forall>i < length ass. \<forall>a \<in> set (ass ! i). unat (hf (nkey s a)) mod length ass = i) \<and>
     inj_on (nkey s) (all_nodes ass) \<and> um_items m = word_of_nat (card (all_nodes ass)) \<and>
     um_buckets m \<noteq> NULL \<and> live h (um_buckets m - 4) \<noteq> None \<and> um_buckets m - 4 \<notin> all_nodes ass"

definition umap_rep :: "('k \<Rightarrow> u32) \<Rightarrow> block \<times> ('k, 'v) pairs \<times> umap \<Rightarrow> ('k \<rightharpoonup> 'v) \<Rightarrow> bool" where
  "umap_rep hf = (\<lambda>(h, s, m) mp. \<exists>ass. umap_state hf h s m ass \<and>
     (\<forall>k v. mp k = Some v \<longleftrightarrow> (\<exists>a \<in> all_nodes ass. nkey s a = k \<and> nval s a = v)))"

text \<open>The same map with the blocks \<open>L\<close> that belong to everybody else.\<close>

definition umap_rest :: "block \<Rightarrow> umap \<Rightarrow> addr list list \<Rightarrow> addr \<rightharpoonup> nat" where
  "umap_rest h m ass = (\<lambda>a. if a \<in> insert (um_buckets m - 4) (all_nodes ass) then None else live h a)"

definition umap_owns :: "('k \<Rightarrow> u32) \<Rightarrow> (addr \<rightharpoonup> nat) \<Rightarrow> block \<times> ('k, 'v) pairs \<times> umap \<Rightarrow> ('k \<rightharpoonup> 'v) \<Rightarrow> bool" where
  "umap_owns hf L = (\<lambda>(h, s, m) mp. \<exists>ass. umap_state hf h s m ass \<and>
     (\<forall>k v. mp k = Some v \<longleftrightarrow> (\<exists>a \<in> all_nodes ass. nkey s a = k \<and> nval s a = v)) \<and> umap_rest h m ass = L)"

lemma umap_rep_owns: "umap_rep hf st mp \<longleftrightarrow> (\<exists>L. umap_owns hf L st mp)"
  by (auto simp: umap_rep_def umap_owns_def)

lemma finite_all_nodes [simp]: "finite (all_nodes ass)"
  by (simp add: all_nodes_def)

lemma all_nodesI: "i < length ass \<Longrightarrow> a \<in> set (ass ! i) \<Longrightarrow> a \<in> all_nodes ass"
  by (auto simp: all_nodes_def)

text \<open>Nodes are in the bucket their key hashes to, so buckets share no nodes.\<close>

lemma umap_state_bucket:
  assumes "umap_state hf h s m ass" "a \<in> all_nodes ass"
  shows "a \<in> set (ass ! (unat (hf (nkey s a)) mod length ass))"
  using assms by (auto simp: umap_state_def all_nodes_def)

lemma umap_state_disjoint:
  assumes "umap_state hf h s m ass" "i < length ass" "j < length ass" "i \<noteq> j"
  shows "set (ass ! i) \<inter> set (ass ! j) = {}"
proof -
  have "\<forall>i < length ass. \<forall>a \<in> set (ass ! i). unat (hf (nkey s a)) mod length ass = i"
    using assms(1) by (simp add: umap_state_def)
  with assms(2-4) show ?thesis by (metis disjoint_iff)
qed

lemma all_nodes_update:
  assumes "umap_state hf h s m ass" "i < length ass"
  shows "all_nodes (ass[i := as]) = (all_nodes ass - set (ass ! i)) \<union> set as"
proof -
  have "all_nodes (ass[i := as]) = (\<Union>j \<in> {..<length ass} - {i}. set (ass ! j)) \<union> set as"
    using assms(2) by (auto simp: all_nodes_def nth_list_update split: if_splits)
  also have "(\<Union>j \<in> {..<length ass} - {i}. set (ass ! j)) = all_nodes ass - set (ass ! i)"
    using umap_state_disjoint [OF assms] by (auto simp: all_nodes_def)
  finally show ?thesis .
qed

lemma find_bucket_ok:
  assumes "umap_state hf h s m ass"
  shows "find_bucket hf m k = Inr (int (unat (hf k) mod length ass))"
    "rd (um_arr m) (int (unat (hf k) mod length ass)) = Inr (um_arr m ! (unat (hf k) mod length ass))"
    "wr (um_arr m) (int (unat (hf k) mod length ass)) q = Inr ((um_arr m)[unat (hf k) mod length ass := q])"
proof -
  have n: "0 < length ass" "length ass < 2 ^ 31" "um_bucket_count m = int (length ass)" "length (um_arr m) = length ass"
    using assms by (auto simp: umap_state_def)
  let ?n = "word_of_int (um_bucket_count m) :: u32"
  have "unat ?n = length ass" using n by (simp add: unat_word32_of_nat)
  with n show "find_bucket hf m k = Inr (int (unat (hf k) mod length ass))"
    by (auto simp: find_bucket_def Let_def unat_mod simp flip: unat_eq_0)
qed (use assms in \<open>simp_all add: umap_state_def access_simps\<close>)

lemma find_in_bucket:
  assumes st: "umap_state hf h s m ass"
  shows "a \<in> all_nodes ass \<Longrightarrow> nkey s a = k \<Longrightarrow>
      queue_find_if s (um_arr m ! (unat (hf k) mod length ass)) (\<lambda>e. if first e = k then True else False) = Inr a"
    and "\<forall>a \<in> all_nodes ass. nkey s a \<noteq> k \<Longrightarrow>
      queue_find_if s (um_arr m ! (unat (hf k) mod length ass)) (\<lambda>e. if first e = k then True else False) = Inr NULL"
proof -
  let ?i = "unat (hf k) mod length ass"
  let ?f = "List.find (\<lambda>a. if nkey s a = k then True else False) (ass ! ?i)"
  have i: "?i < length ass" and inj: "inj_on (nkey s) (all_nodes ass)" using st by (auto simp: umap_state_def)
  with st have "lpath s (q_head (um_arr m ! ?i)) (ass ! ?i)" by (auto simp: umap_state_def queue_state_def)
  note F = find_node_ok [OF this, of "\<lambda>e. if first e = k then True else False"]
  { assume a: "a \<in> all_nodes ass" "nkey s a = k"
    with umap_state_bucket [OF st a(1)] have "a \<in> set (ass ! ?i)" by simp
    with a(2) have "?f \<noteq> None" by (auto simp: find_None_iff)
    then obtain b where b: "?f = Some b" by blast
    then have "b \<in> set (ass ! ?i)" "nkey s b = k" by (auto simp: find_Some_iff split: if_splits)
    then have "b = a" using a inj all_nodesI [OF i, of b] by (auto dest: inj_onD)
    with F b show "queue_find_if s (um_arr m ! ?i) (\<lambda>e. if first e = k then True else False) = Inr a"
      by (simp add: queue_find_if_def) }
  { assume "\<forall>a \<in> all_nodes ass. nkey s a \<noteq> k"
    with i have "?f = None" by (auto simp: find_None_iff dest: all_nodesI)
    with F show "queue_find_if s (um_arr m ! ?i) (\<lambda>e. if first e = k then True else False) = Inr NULL"
      by (simp add: queue_find_if_def) }
qed

text \<open>Replacing one bucket, with the other buckets and the bucket array framed.\<close>

lemma umap_state_update:
  assumes st: "umap_state hf h s m ass" and i: "i < length ass"
    and q: "queue_state sizeof_mnode h' s' q as"
    and own: "set as \<inter> all_nodes ass \<subseteq> set (ass ! i)" "um_buckets m - 4 \<notin> set as"
    and frame: "\<And>a. a \<notin> set (ass ! i) \<union> set as \<Longrightarrow> s' a = s a \<and> live h' a = live h a"
    and hash: "\<And>a. a \<in> set as \<Longrightarrow> unat (hf (nkey s' a)) mod length ass = i"
    and inj: "inj_on (nkey s') (all_nodes (ass[i := as]))"
    and cnt: "n = word_of_nat (card (all_nodes (ass[i := as])))"
  shows "umap_state hf h' s' (m\<lparr>um_arr := (um_arr m)[i := q], um_items := n\<rparr>) (ass[i := as])"
proof -
  from st have base: "um_buckets m - 4 \<notin> all_nodes ass" "live h (um_buckets m - 4) \<noteq> None"
    by (auto simp: umap_state_def)
  then have "um_buckets m - 4 \<notin> set (ass ! i) \<union> set as" using own(2) i by (auto dest: all_nodesI)
  with base frame have buckets: "live h' (um_buckets m - 4) \<noteq> None" by simp
  have other: "a \<notin> set (ass ! i) \<union> set as" if "j < length ass" "j \<noteq> i" "a \<in> set (ass ! j)" for a j
    using that own(1) umap_state_disjoint [OF st, of i j] i by (auto dest: all_nodesI)
  have qs: "queue_state sizeof_mnode h' s' ((um_arr m)[i := q] ! j) (ass[i := as] ! j)" if "j < length ass" for j
  proof (cases "j = i")
    case True
    with q i st show ?thesis by (simp add: umap_state_def)
  next
    case False
    from st that have "queue_state sizeof_mnode h s (um_arr m ! j) (ass ! j)" by (simp add: umap_state_def)
    with False show ?thesis
      using queue_state_frame(1) [of sizeof_mnode h s "um_arr m ! j" "ass ! j" h' s'] other [OF that False] frame q
      by (auto simp: queue_state_def)
  qed
  have hs: "unat (hf (nkey s' a)) mod length ass = j" if "j < length ass" "a \<in> set (ass[i := as] ! j)" for a j
  proof (cases "j = i")
    case True
    with hash that i show ?thesis by simp
  next
    case False
    with that have "a \<in> set (ass ! j)" by simp
    moreover from this False that have "s' a = s a" using frame other by blast
    ultimately show ?thesis using st that(1) by (simp add: umap_state_def)
  qed
  show ?thesis
    using st qs hs inj cnt buckets base(1) own(2) all_nodes_update [OF st i, of as] q
    by (simp add: umap_state_def queue_state_def)
qed

lemma umap_new_owns:
  assumes "heap_inv h" "0 < unat n" "unat n < 2 ^ 28" "8 * unat n + 28 < slack h"
  shows "\<exists>h' m. umap_new h n = Inr (h', m) \<and> umap_owns hf (live h) (h', s, m) Map.empty \<and> umap_size m = 0 \<and>
    slack h \<le> slack h' + 8 * unat n + 20"
proof -
  have u: "unat (4 + sizeof_bucket * n) = 4 + 8 * unat n"
    using assms(3) by (simp add: sizeof_bucket_def unat_word_ariths)
  with kh.alloc_ok [OF assms(1), of "4 + sizeof_bucket * n"] assms(4) obtain h' p sz where p:
    "kmalloc h (4 + sizeof_bucket * n) = Inr (h', p)" "heap_inv h'" "p \<noteq> NULL" "live h' = (live h)(p \<mapsto> sz)"
    "4 + 8 * unat n \<le> sz" "slack h \<le> slack h' + (4 + 8 * unat n) + 16" "live h p = None" by auto
  have "unat (p + 4) = unat p + unat (4 :: u32)" using p(4,5) by (intro live_field [OF p(2), of p sz]) auto
  then have p4: "p + 4 \<noteq> NULL" by (metis add_is_0 unat_0 unat_numeral zero_neq_numeral p(3) unat_eq_0)
  have sint: "sint n = int (unat n)" using assms(3) by (intro sint_u32_small) simp
  let ?m = "\<lparr>um_buckets = p + 4, um_arr = replicate (unat n) queue_new, um_bucket_count = sint n, um_items = 0\<rparr>"
  have "umap_new h n = Inr (h', ?m)"
    using p(1,3) by (simp add: umap_new_def allocate_buckets_def operator_new_def)
  moreover have "all_nodes (replicate (unat n) []) = {}" by (auto simp: all_nodes_def)
  then have "umap_state hf h' s ?m (replicate (unat n) [])"
    using assms(2,3) p p4 sint queue_state_new [OF p(2)] by (auto simp: umap_state_def)
  then have "umap_owns hf (live h) (h', s, ?m) Map.empty"
    using \<open>all_nodes (replicate (unat n) []) = {}\<close> p(4,7) by (auto simp: umap_owns_def umap_rest_def fun_eq_iff)
  ultimately show ?thesis using p(6) by (auto simp: umap_size_def)
qed

lemma umap_new_ok:
  assumes "heap_inv h" "0 < unat n" "unat n < 2 ^ 28" "8 * unat n + 28 < slack h"
  shows "\<exists>h' m. umap_new h n = Inr (h', m) \<and> umap_rep hf (h', s, m) Map.empty \<and> umap_size m = 0 \<and>
    slack h \<le> slack h' + 8 * unat n + 20"
  using umap_new_owns [OF assms, of hf s] umap_rep_owns by blast

lemma umap_state_node:
  assumes st: "umap_state hf h s m ass" and a: "a \<in> all_nodes ass"
  shows "\<exists>n. live h a = Some n \<and> 12 \<le> n" and "a \<noteq> NULL"
proof -
  from a obtain i where i: "i < length ass" "a \<in> set (ass ! i)" by (auto simp: all_nodes_def)
  with st have q: "queue_state sizeof_mnode h s (um_arr m ! i) (ass ! i)" by (simp add: umap_state_def)
  with i show "\<exists>n. live h a = Some n \<and> 12 \<le> n" by (auto simp: queue_state_def sizeof_mnode_def)
  from q i lseg_nonnull [of s _ "ass ! i" NULL a] show "a \<noteq> NULL" by (auto simp: queue_state_def)
qed

lemma umap_insert_state:
  assumes st: "umap_state hf h s m ass" and new: "\<forall>a \<in> all_nodes ass. nkey s a \<noteq> k" and room: "36 < slack h"
  shows "\<exists>h' s' m' ass' a. umap_insert hf h s m k v = Inr (h', s', m', True) \<and> umap_state hf h' s' m' ass' \<and>
    all_nodes ass' = insert a (all_nodes ass) \<and> a \<notin> all_nodes ass \<and> nvalue (s' a) = \<lparr>first = k, second = v\<rparr> \<and>
    (\<forall>x \<in> all_nodes ass. nvalue (s' x) = nvalue (s x)) \<and> um_items m' = um_items m + 1 \<and> slack h \<le> slack h' + 28 \<and>
    umap_rest h' m' ass' = umap_rest h m ass"
proof -
  define i where "i = unat (hf k) mod length ass"
  have i: "i < length ass" and inj: "inj_on (nkey s) (all_nodes ass)"
    and items: "um_items m = word_of_nat (card (all_nodes ass))"
    and q: "queue_state sizeof_mnode h s (um_arr m ! i) (ass ! i)"
    and bk: "um_buckets m - 4 \<notin> all_nodes ass" "live h (um_buckets m - 4) \<noteq> None"
    using st by (auto simp: umap_state_def i_def)
  have "unat sizeof_mnode + 24 < slack h" "unat sizeof_mnode + 16 = 28" using room by (simp_all add: sizeof_mnode_def)
  with queue_insert_ok [OF q, of "make_pair k v"] obtain h' s' q' a n where r:
    "queue_insert sizeof_mnode h s (um_arr m ! i) (make_pair k v) = Inr (h', s', q', True)"
    "queue_state sizeof_mnode h' s' q' (ass ! i @ [a])" "nvals s' (ass ! i @ [a]) = nvals s (ass ! i) @ [make_pair k v]"
    "live h a = None" "live h' = (live h)(a \<mapsto> n)" "\<forall>x. x \<notin> set (ass ! i @ [a]) \<longrightarrow> s' x = s x" "slack h \<le> slack h' + 28"
    by fastforce
  have av: "nvalue (s' a) = \<lparr>first = k, second = v\<rparr>" and old: "\<forall>x \<in> set (ass ! i). nvalue (s' x) = nvalue (s x)"
    using r(3) by (auto simp: nvals_def make_pair_def)
  have aN: "a \<notin> all_nodes ass" using umap_state_node(1) [OF st, of a] r(4) by auto
  let ?ass = "ass[i := ass ! i @ [a]]"
  have N: "all_nodes ?ass = insert a (all_nodes ass)"
    using all_nodes_update [OF st i, of "ass ! i @ [a]"] all_nodesI [OF i] by auto
  have same: "\<forall>x \<in> all_nodes ass. nvalue (s' x) = nvalue (s x)"
  proof
    fix x assume "x \<in> all_nodes ass"
    with old r(6) aN show "nvalue (s' x) = nvalue (s x)" by (cases "x \<in> set (ass ! i)") auto
  qed
  have hash: "unat (hf (nkey s x)) mod length ass = i" if "x \<in> set (ass ! i)" for x
    using st i that by (auto simp: umap_state_def)
  have "umap_state hf h' s' (m\<lparr>um_arr := (um_arr m)[i := q'], um_items := um_items m + 1\<rparr>) ?ass"
  proof (rule umap_state_update [OF st i r(2)])
    show "set (ass ! i @ [a]) \<inter> all_nodes ass \<subseteq> set (ass ! i)" using aN by auto
    show "um_buckets m - 4 \<notin> set (ass ! i @ [a])" using bk r(4) i by (auto dest: all_nodesI)
    show "s' x = s x \<and> live h' x = live h x" if "x \<notin> set (ass ! i) \<union> set (ass ! i @ [a])" for x
      using that r(5,6) by auto
    show "unat (hf (nkey s' x)) mod length ass = i" if "x \<in> set (ass ! i @ [a])" for x
      using that old av hash by (auto simp: i_def)
    show "inj_on (nkey s') (all_nodes ?ass)"
      using inj same av new by (auto simp: N inj_on_def)
    show "um_items m + 1 = word_of_nat (card (all_nodes ?ass))" using items aN by (simp add: N)
  qed
  moreover have "umap_insert hf h s m k v =
      Inr (h', s', m\<lparr>um_arr := (um_arr m)[i := q'], um_items := um_items m + 1\<rparr>, True)"
    using find_bucket_ok [OF st, of k] find_in_bucket(2) [OF st new] r(1)
    by (simp add: umap_insert_def flip: i_def)
  moreover have "umap_rest h' (m\<lparr>um_arr := (um_arr m)[i := q'], um_items := um_items m + 1\<rparr>) ?ass = umap_rest h m ass"
    using r(4,5) by (auto simp: umap_rest_def N fun_eq_iff)
  ultimately show ?thesis using N aN av same r(7) by (auto simp del: fun_upd_apply)
qed

lemma umap_insert_old:
  assumes "umap_state hf h s m ass" "a \<in> all_nodes ass" "nkey s a = k"
  shows "umap_insert hf h s m k v = Inr (h, s, m, False)"
proof -
  have "a \<noteq> NULL" using umap_state_node(2) [OF assms(1,2)] .
  then show ?thesis using find_bucket_ok [OF assms(1), of k] find_in_bucket(1) [OF assms]
    by (simp add: umap_insert_def)
qed

lemma umap_erase_state:
  assumes st: "umap_state hf h s m ass" and a: "a \<in> all_nodes ass" "nkey s a = k"
  shows "\<exists>h' s' m' ass'. umap_erase hf h s m k = Inr (h', s', m', True) \<and> umap_state hf h' s' m' ass' \<and>
    all_nodes ass' = all_nodes ass - {a} \<and> (\<forall>x. nvalue (s' x) = nvalue (s x)) \<and> um_items m' = um_items m - 1 \<and>
    umap_rest h' m' ass' = umap_rest h m ass \<and> slack h \<le> slack h'"
proof -
  define i where "i = unat (hf k) mod length ass"
  have i: "i < length ass" and inj: "inj_on (nkey s) (all_nodes ass)"
    and items: "um_items m = word_of_nat (card (all_nodes ass))"
    and q: "queue_state sizeof_mnode h s (um_arr m ! i) (ass ! i)"
    and bk: "um_buckets m - 4 \<notin> all_nodes ass"
    using st by (auto simp: umap_state_def i_def)
  have ai: "a \<in> set (ass ! i)" using umap_state_bucket [OF st a(1)] a(2) by (simp add: i_def)
  have only: "nvalue (s x) = nvalue (s a) \<longleftrightarrow> x = a" if "x \<in> set (ass ! i)" for x
    using inj_onD [OF inj, of x a] all_nodesI [OF i that] a(1) by auto
  let ?as = "filter (\<lambda>x. nvalue (s x) \<noteq> nvalue (s a)) (ass ! i)"
  have as: "set ?as = set (ass ! i) - {a}" using only by auto
  from erase_item_ok [OF q, of "nvalue (s a)"] obtain h' s' q' where r:
    "erase_item h s (um_arr m ! i) (nvalue (s a)) =
       Inr (h', s', q', int (length (filter (\<lambda>x. nvalue (s x) = nvalue (s a)) (ass ! i))))"
    "queue_state sizeof_mnode h' s' q' ?as"
    "live h' = (\<lambda>x. if x \<in> set (ass ! i) \<and> nvalue (s x) = nvalue (s a) then None else live h x)"
    "\<forall>x. nvalue (s' x) = nvalue (s x)" "\<forall>x. x \<notin> set (ass ! i) \<longrightarrow> s' x = s x" "slack h \<le> slack h'" by blast
  have N: "all_nodes (ass[i := ?as]) = all_nodes ass - {a}"
    using all_nodes_update [OF st i, of ?as] as ai all_nodesI [OF i] by auto
  have "0 < card (all_nodes ass)" using a(1) by (auto simp: card_gt_0_iff)
  then have cnt: "um_items m - 1 = word_of_nat (card (all_nodes (ass[i := ?as])))"
    using items a(1) by (simp add: N of_nat_diff)
  have "umap_state hf h' s' (m\<lparr>um_arr := (um_arr m)[i := q'], um_items := um_items m - 1\<rparr>) (ass[i := ?as])"
  proof (rule umap_state_update [OF st i r(2) _ _ _ _ _ cnt])
    show "set ?as \<inter> all_nodes ass \<subseteq> set (ass ! i)" by auto
    show "um_buckets m - 4 \<notin> set ?as" using bk i by (auto dest: all_nodesI)
    show "s' x = s x \<and> live h' x = live h x" if "x \<notin> set (ass ! i) \<union> set ?as" for x
      using that r(3,5) by auto
    show "unat (hf (nkey s' x)) mod length ass = i" if "x \<in> set ?as" for x
      using that r(4) st i by (auto simp: umap_state_def)
    show "inj_on (nkey s') (all_nodes (ass[i := ?as]))"
      using inj r(4) by (auto simp: N inj_on_def)
  qed
  moreover have "filter (\<lambda>x. nvalue (s x) = nvalue (s a)) (ass ! i) \<noteq> []"
    using ai by (auto simp: filter_empty_conv)
  then have "umap_erase hf h s m k =
      Inr (h', s', m\<lparr>um_arr := (um_arr m)[i := q'], um_items := um_items m - 1\<rparr>, True)"
    using find_bucket_ok [OF st, of k] find_in_bucket(1) [OF st a] r(1) umap_state_node(2) [OF st a(1)]
    by (simp add: umap_erase_def Let_def flip: i_def)
  moreover have "live h' = (live h)(a := None)" using r(3) only ai by (auto simp: fun_eq_iff)
  then have "umap_rest h' (m\<lparr>um_arr := (um_arr m)[i := q'], um_items := um_items m - 1\<rparr>) (ass[i := ?as]) = umap_rest h m ass"
    using a(1) by (auto simp: umap_rest_def N fun_eq_iff)
  ultimately show ?thesis using N r(4,6) by (auto simp del: fun_upd_apply)
qed

lemma umap_erase_absent:
  assumes "umap_state hf h s m ass" "\<forall>a \<in> all_nodes ass. nkey s a \<noteq> k"
  shows "umap_erase hf h s m k = Inr (h, s, m, False)"
  using find_bucket_ok [OF assms(1), of k] find_in_bucket(2) [OF assms] by (simp add: umap_erase_def)

lemma umap_get_state:
  assumes st: "umap_state hf h s m ass"
  shows "a \<in> all_nodes ass \<Longrightarrow> nkey s a = k \<Longrightarrow> umap_get hf s m k = Inr (Some (nval s a))"
    and "\<forall>a \<in> all_nodes ass. nkey s a \<noteq> k \<Longrightarrow> umap_get hf s m k = Inr None"
proof -
  assume a: "a \<in> all_nodes ass" "nkey s a = k"
  obtain n where n: "live h a = Some n" "12 \<le> n" "a \<noteq> NULL" using umap_state_node [OF st a(1)] by blast
  have "unat (a + 4) = unat a + unat (4 :: u32)"
    using st n by (intro live_field [of h a n]) (auto simp: umap_state_def)
  with n(3) have "a + 4 \<noteq> NULL" by (metis add_is_0 unat_0 unat_eq_0)
  then show "umap_get hf s m k = Inr (Some (nval s a))"
    using find_bucket_ok [OF st, of k] find_in_bucket(1) [OF st a] n(3) by (simp add: umap_get_def umap_find_def)
next
  assume "\<forall>a \<in> all_nodes ass. nkey s a \<noteq> k"
  with find_bucket_ok [OF st, of k] find_in_bucket(2) [OF st] show "umap_get hf s m k = Inr None"
    by (simp add: umap_get_def umap_find_def)
qed

section \<open>The interface: a finite map with first-wins insertion\<close>

text \<open>Inserting a list of bindings one after the other.\<close>

fun ins_all :: "('s \<Rightarrow> 'k \<Rightarrow> 'v \<Rightarrow> ('s \<times> bool) result) \<Rightarrow> 's \<Rightarrow> ('k \<times> 'v) list \<Rightarrow> 's result" where
  "ins_all ins s [] = Inr s"
| "ins_all ins s (b # bs) = rbind (ins s (fst b) (snd b)) (\<lambda>(s', _). ins_all ins s' bs)"

locale kernel_map =
  fixes ins :: "'s \<Rightarrow> 'k \<Rightarrow> 'v \<Rightarrow> ('s \<times> bool) result"
    and del :: "'s \<Rightarrow> 'k \<Rightarrow> ('s \<times> bool) result"
    and get :: "'s \<Rightarrow> 'k \<Rightarrow> 'v option result"
    and rep :: "'s \<Rightarrow> ('k \<rightharpoonup> 'v) \<Rightarrow> bool"
    and room :: "'s \<Rightarrow> nat"
  assumes ins_new: "rep s m \<Longrightarrow> m k = None \<Longrightarrow> 36 < room s \<Longrightarrow>
      \<exists>s'. ins s k v = Inr (s', True) \<and> rep s' (m(k \<mapsto> v)) \<and> room s \<le> room s' + 28"
    and ins_dup: "rep s m \<Longrightarrow> m k \<noteq> None \<Longrightarrow> ins s k v = Inr (s, False)"
    and del_ok: "rep s m \<Longrightarrow> \<exists>s'. del s k = Inr (s', m k \<noteq> None) \<and> rep s' (m(k := None))"
    and get_ok: "rep s m \<Longrightarrow> get s k = Inr (m k)"
begin

lemma ins_all_ok:
  "rep s m \<Longrightarrow> 28 * length bs + 8 < room s \<Longrightarrow> \<exists>s'. ins_all ins s bs = Inr s' \<and> rep s' (map_of bs ++ m)"
proof (induction bs arbitrary: s m)
  case Nil
  then show ?case by simp
next
  case (Cons b bs)
  obtain k v where b: "b = (k, v)" by (cases b)
  show ?case
  proof (cases "m k")
    case None
    from ins_new [OF Cons.prems(1) None, of v] Cons.prems(2) obtain s' where s':
      "ins s k v = Inr (s', True)" "rep s' (m(k \<mapsto> v))" "room s \<le> room s' + 28" by auto
    have eq: "map_of bs ++ m(k \<mapsto> v) = map_of (b # bs) ++ m"
      using None b by (auto simp: map_add_def fun_eq_iff split: option.splits)
    from s'(3) Cons.prems(2) have "28 * length bs + 8 < room s'" by simp
    from Cons.IH [OF s'(2) this, unfolded eq] s'(1) b show ?thesis by (simp del: map_of.simps)
  next
    case (Some w)
    then have "map_of bs ++ m = map_of (b # bs) ++ m"
      using b by (auto simp: map_add_def fun_eq_iff split: option.splits)
    moreover have "ins s k v = Inr (s, False)" using ins_dup [OF Cons.prems(1)] Some by simp
    ultimately show ?thesis using Cons.IH [OF Cons.prems(1)] Cons.prems(2) b by (simp del: map_of.simps)
  qed
qed

lemma get_after_ins_all:
  assumes "rep s Map.empty" "28 * length bs + 8 < room s"
  shows "\<exists>s'. ins_all ins s bs = Inr s' \<and> get s' k = Inr (map_of bs k)"
  using ins_all_ok [OF assms] get_ok by fastforce

end

text \<open>The map as its clients see it: heap, node store and map object together.\<close>

definition um_ins :: "('k \<Rightarrow> u32) \<Rightarrow> block \<times> ('k, 'v) pairs \<times> umap \<Rightarrow> 'k \<Rightarrow> 'v
    \<Rightarrow> ((block \<times> ('k, 'v) pairs \<times> umap) \<times> bool) result" where
  "um_ins hf = (\<lambda>(h, s, m) k v. rbind (umap_insert hf h s m k v) (\<lambda>(h', s', m', ok). Inr ((h', s', m'), ok)))"

definition um_del :: "('k \<Rightarrow> u32) \<Rightarrow> block \<times> ('k, 'v) pairs \<times> umap \<Rightarrow> 'k
    \<Rightarrow> ((block \<times> ('k, 'v) pairs \<times> umap) \<times> bool) result" where
  "um_del hf = (\<lambda>(h, s, m) k. rbind (umap_erase hf h s m k) (\<lambda>(h', s', m', ok). Inr ((h', s', m'), ok)))"

definition um_get :: "('k \<Rightarrow> u32) \<Rightarrow> block \<times> ('k, 'v) pairs \<times> umap \<Rightarrow> 'k \<Rightarrow> 'v option result" where
  "um_get hf = (\<lambda>(h, s, m) k. umap_get hf s m k)"

lemma umap_owns_key:
  assumes "umap_owns hf L (h, s, m) mp"
  obtains ass where "umap_state hf h s m ass" "umap_rest h m ass = L"
    "\<forall>k v. mp k = Some v \<longleftrightarrow> (\<exists>a \<in> all_nodes ass. nkey s a = k \<and> nval s a = v)"
    "\<forall>k. mp k = None \<longleftrightarrow> (\<forall>a \<in> all_nodes ass. nkey s a \<noteq> k)"
proof -
  from assms obtain ass where a: "umap_state hf h s m ass" "umap_rest h m ass = L"
    "\<forall>k v. mp k = Some v \<longleftrightarrow> (\<exists>a \<in> all_nodes ass. nkey s a = k \<and> nval s a = v)"
    unfolding umap_owns_def by blast
  moreover from a(3) have "mp k = None \<longleftrightarrow> (\<forall>a \<in> all_nodes ass. nkey s a \<noteq> k)" for k
    by (metis not_None_eq)
  ultimately show ?thesis using that by blast
qed

lemma umap_rep_key:
  assumes "umap_rep hf (h, s, m) mp"
  obtains ass where "umap_state hf h s m ass"
    "\<forall>k v. mp k = Some v \<longleftrightarrow> (\<exists>a \<in> all_nodes ass. nkey s a = k \<and> nval s a = v)"
    "\<forall>k. mp k = None \<longleftrightarrow> (\<forall>a \<in> all_nodes ass. nkey s a \<noteq> k)"
proof -
  from assms obtain L where "umap_owns hf L (h, s, m) mp" by (auto simp: umap_rep_owns)
  then show ?thesis by (rule umap_owns_key) (rule that)
qed

lemma umap_insert_owns:
  assumes rep: "umap_owns hf L (h, s, m) mp" and new: "mp k = None" and room: "36 < slack h"
  shows "\<exists>h' s' m'. umap_insert hf h s m k v = Inr (h', s', m', True) \<and> umap_owns hf L (h', s', m') (mp(k \<mapsto> v)) \<and>
    umap_size m' = umap_size m + 1 \<and> slack h \<le> slack h' + 28"
proof -
  from rep obtain ass where st: "umap_state hf h s m ass" and L: "umap_rest h m ass = L"
    and mp: "\<forall>k v. mp k = Some v \<longleftrightarrow> (\<exists>a \<in> all_nodes ass. nkey s a = k \<and> nval s a = v)"
    and none: "\<forall>k. mp k = None \<longleftrightarrow> (\<forall>a \<in> all_nodes ass. nkey s a \<noteq> k)"
    by (rule umap_owns_key)
  from umap_insert_state [OF st, of k v] none new room obtain h' s' m' ass' a where r:
    "umap_insert hf h s m k v = Inr (h', s', m', True)" "umap_state hf h' s' m' ass'"
    "all_nodes ass' = insert a (all_nodes ass)" "a \<notin> all_nodes ass" "nvalue (s' a) = \<lparr>first = k, second = v\<rparr>"
    "\<forall>x \<in> all_nodes ass. nvalue (s' x) = nvalue (s x)" "um_items m' = um_items m + 1" "slack h \<le> slack h' + 28"
    "umap_rest h' m' ass' = umap_rest h m ass" by blast
  have "(mp(k \<mapsto> v)) k' = Some v' \<longleftrightarrow> (\<exists>a \<in> all_nodes ass'. nkey s' a = k' \<and> nval s' a = v')" for k' v'
    using mp [rule_format, of k' v'] none [rule_format, of k] new r(3,5,6) by auto
  with r(2,9) L have "umap_owns hf L (h', s', m') (mp(k \<mapsto> v))" by (auto simp: umap_owns_def)
  with r(1,7,8) show ?thesis by (auto simp: umap_size_def)
qed

lemma umap_insert_rep:
  assumes "umap_rep hf (h, s, m) mp" "mp k = None" "36 < slack h"
  shows "\<exists>h' s' m'. umap_insert hf h s m k v = Inr (h', s', m', True) \<and> umap_rep hf (h', s', m') (mp(k \<mapsto> v)) \<and>
    umap_size m' = umap_size m + 1 \<and> slack h \<le> slack h' + 28"
  using assms umap_insert_owns [of hf _ h s m mp k v] unfolding umap_rep_owns by blast

lemma umap_erase_owns:
  assumes rep: "umap_owns hf L (h, s, m) mp"
  shows "\<exists>h' s' m'. umap_erase hf h s m k = Inr (h', s', m', mp k \<noteq> None) \<and> umap_owns hf L (h', s', m') (mp(k := None)) \<and>
    slack h \<le> slack h'"
proof -
  from rep obtain ass where st: "umap_state hf h s m ass" and L: "umap_rest h m ass = L"
    and mp: "\<forall>k v. mp k = Some v \<longleftrightarrow> (\<exists>a \<in> all_nodes ass. nkey s a = k \<and> nval s a = v)"
    and none: "\<forall>k. mp k = None \<longleftrightarrow> (\<forall>a \<in> all_nodes ass. nkey s a \<noteq> k)"
    by (rule umap_owns_key)
  show ?thesis
  proof (cases "mp k")
    case None
    then have "mp(k := None) = mp" by auto
    with None umap_erase_absent [OF st, of k] none [rule_format, of k] rep show ?thesis by simp
  next
    case (Some v)
    with mp obtain a where a: "a \<in> all_nodes ass" "nkey s a = k" by blast
    from umap_erase_state [OF st a] obtain h' s' m' ass' where r:
      "umap_erase hf h s m k = Inr (h', s', m', True)" "umap_state hf h' s' m' ass'"
      "all_nodes ass' = all_nodes ass - {a}" "\<forall>x. nvalue (s' x) = nvalue (s x)"
      "umap_rest h' m' ass' = umap_rest h m ass" "slack h \<le> slack h'" by blast
    have "inj_on (nkey s) (all_nodes ass)" using st by (simp add: umap_state_def)
    then have rem: "x \<in> all_nodes ass' \<longleftrightarrow> x \<in> all_nodes ass \<and> nkey s x \<noteq> k" for x
      using inj_onD [of "nkey s" "all_nodes ass" x a] a r(3) by auto
    have "(mp(k := None)) k' = Some v' \<longleftrightarrow> (\<exists>a \<in> all_nodes ass'. nkey s' a = k' \<and> nval s' a = v')" for k' v'
      using mp by (auto simp: rem r(4))
    with r(2,5) L have "umap_owns hf L (h', s', m') (mp(k := None))" by (auto simp: umap_owns_def)
    with r(1,6) Some show ?thesis by auto
  qed
qed

lemma umap_erase_rep:
  assumes "umap_rep hf (h, s, m) mp"
  shows "\<exists>h' s' m'. umap_erase hf h s m k = Inr (h', s', m', mp k \<noteq> None) \<and> umap_rep hf (h', s', m') (mp(k := None))"
  using assms umap_erase_owns [of hf _ h s m mp k] unfolding umap_rep_owns by blast

lemma umap_get_rep:
  assumes rep: "umap_rep hf (h, s, m) mp"
  shows "umap_get hf s m k = Inr (mp k)"
proof -
  from rep obtain ass where st: "umap_state hf h s m ass"
    and mp: "\<forall>k v. mp k = Some v \<longleftrightarrow> (\<exists>a \<in> all_nodes ass. nkey s a = k \<and> nval s a = v)"
    and none: "\<forall>k. mp k = None \<longleftrightarrow> (\<forall>a \<in> all_nodes ass. nkey s a \<noteq> k)"
    by (rule umap_rep_key)
  show ?thesis
  proof (cases "mp k")
    case None
    with none [rule_format, of k] umap_get_state(2) [OF st, of k] show ?thesis by simp
  next
    case (Some v)
    with mp obtain a where "a \<in> all_nodes ass" "nkey s a = k" "nval s a = v" by blast
    with Some umap_get_state(1) [OF st] show ?thesis by metis
  qed
qed

interpretation um: kernel_map "um_ins hf" "um_del hf" "um_get hf" "umap_rep hf" "\<lambda>(h, s, m). slack h"
  for hf :: "'k \<Rightarrow> u32"
proof (unfold_locales, goal_cases)
  case (1 st mp k v)
  then show ?case using umap_insert_rep [of hf "fst st" "fst (snd st)" "snd (snd st)" mp k v]
    by (cases st) (auto simp: um_ins_def)
next
  case (2 st mp k v)
  obtain h s m where st: "st = (h, s, m)" by (cases st)
  with 2 umap_rep_key [of hf h s m mp] obtain ass a where "umap_state hf h s m ass" "a \<in> all_nodes ass" "nkey s a = k"
    by metis
  with st umap_insert_old [of hf h s m ass a k v] show ?case by (simp add: um_ins_def)
next
  case (3 st mp k)
  then show ?case using umap_erase_rep [of hf "fst st" "fst (snd st)" "snd (snd st)" mp k]
    by (cases st) (auto simp: um_del_def)
next
  case (4 st mp k)
  then show ?case using umap_get_rep [of hf "fst st" "fst (snd st)" "snd (snd st)" mp k]
    by (cases st) (simp add: um_get_def)
qed

text \<open>The size is the number of bindings; it is exact as long as it fits 32 bits, which distinct nodes ensure.\<close>

lemma umap_size_rep:
  assumes "umap_rep hf (h, s, m) mp"
  shows "finite (dom mp)" "unat (umap_size m) = card (dom mp)"
proof -
  from assms obtain ass where st: "umap_state hf h s m ass"
    and mp: "\<forall>k v. mp k = Some v \<longleftrightarrow> (\<exists>a \<in> all_nodes ass. nkey s a = k \<and> nval s a = v)"
    by (rule umap_rep_key)
  have dom: "dom mp = nkey s ` all_nodes ass" using mp by (auto simp: dom_def image_iff)
  then show "finite (dom mp)" by simp
  have "all_nodes ass \<subseteq> UNIV - {NULL}" using umap_state_node(2) [OF st] by auto
  then have "card (all_nodes ass) \<le> card (UNIV - {NULL :: addr})" by (intro card_mono) auto
  then have "card (all_nodes ass) < 2 ^ 32" by (simp add: card_word)
  moreover have "card (dom mp) = card (all_nodes ass)"
    using st by (simp add: dom card_image umap_state_def)
  ultimately show "unat (umap_size m) = card (dom mp)"
    using st by (simp add: umap_size_def umap_state_def unat_word32_of_nat)
qed

lemma destroy_buckets_ok:
  assumes "heap_inv h" "list_all2 (queue_state sz h s) bs ass" "distinct (concat ass)"
  shows "\<exists>h'. destroy_buckets h s bs = Inr h' \<and> heap_inv h' \<and>
    live h' = (\<lambda>a. if a \<in> set (concat ass) then None else live h a) \<and> slack h \<le> slack h'"
  using assms
proof (induction bs arbitrary: h ass)
  case Nil
  then show ?case by simp
next
  case (Cons b bs)
  then obtain as ass' where ass: "ass = as # ass'" "queue_state sz h s b as" "list_all2 (queue_state sz h s) bs ass'"
    by (cases ass) auto
  from ass(2) have "lpath s (q_head b) as" "heap_inv h" "distinct as" "\<forall>a \<in> set as. live h a \<noteq> None"
    by (auto simp: queue_state_def)
  from destroy_loop_ok [OF this] obtain h1 where h1: "destroy_loop s h (q_head b) = Some h1" "heap_inv h1"
    "live h1 = (\<lambda>a. if a \<in> set as then None else live h a)" "slack h \<le> slack h1" by blast
  have "list_all2 (queue_state sz h1 s) bs ass'"
  proof (rule list_all2_all_nthI)
    show "length bs = length ass'" using ass(3) by (rule list_all2_lengthD)
    fix i assume i: "i < length bs"
    then have "queue_state sz h s (bs ! i) (ass' ! i)" "ass' ! i \<in> set ass'"
      using ass(3) by (auto simp: list_all2_conv_all_nth)
    moreover from this Cons.prems(3) ass(1) have "set as \<inter> set (ass' ! i) = {}" by auto
    moreover from this have "live h1 a = live h a" if "a \<in> set (ass' ! i)" for a
      using that h1(3) by auto
    ultimately show "queue_state sz h1 s (bs ! i) (ass' ! i)"
      using h1(2) queue_state_frame(1) [of sz h s "bs ! i" "ass' ! i" h1 s] by blast
  qed
  from Cons.IH [OF h1(2) this] Cons.prems(3) ass(1) obtain h' where "destroy_buckets h1 s bs = Inr h'" "heap_inv h'"
    "live h' = (\<lambda>a. if a \<in> set (concat ass') then None else live h1 a)" "slack h1 \<le> slack h'" by auto
  with h1 ass(1) show ?case by (auto simp: queue_destroy_def fun_eq_iff)
qed

lemma umap_destroy_ok:
  assumes st: "umap_state hf h s m ass"
  shows "\<exists>h'. umap_destroy h s m = Inr h' \<and> heap_inv h' \<and> live h' = umap_rest h m ass \<and> slack h \<le> slack h'"
proof -
  have bs: "list_all2 (queue_state sizeof_mnode h s) (rev (um_arr m)) (rev ass)"
    using st by (simp add: list_all2_rev) (auto simp: list_all2_conv_all_nth umap_state_def)
  have "distinct (concat ass)"
    using st umap_state_disjoint [OF st] by (intro distinct_concat_nth) (auto simp: umap_state_def queue_state_def)
  then have dist: "distinct (concat (rev ass))"
    by (rule mset_eq_imp_distinct_iff [THEN iffD1, rotated]) (simp add: mset_concat rev_map sum_list_rev flip: rev_map)
  have N: "set (concat (rev ass)) = all_nodes ass"
    by (auto simp: all_nodes_def) (metis in_set_conv_nth lessThan_iff, metis nth_mem)
  have inv: "heap_inv h" and p: "um_buckets m \<noteq> NULL" "live h (um_buckets m - 4) \<noteq> None" "um_buckets m - 4 \<notin> all_nodes ass"
    using st by (auto simp: umap_state_def)
  from destroy_buckets_ok [OF inv bs dist, unfolded N] obtain h' where h': "destroy_buckets h s (rev (um_arr m)) = Inr h'" "heap_inv h'"
    "live h' = (\<lambda>a. if a \<in> all_nodes ass then None else live h a)" "slack h \<le> slack h'" by blast
  with p obtain n where "live h' (um_buckets m - 4) = Some n" by auto
  note f = kh.free_ok [OF h'(2) this]
  moreover have "umap_destroy h s m = Inr (kfree h' (um_buckets m - 4))"
    using p(1) h'(1) by (simp add: umap_destroy_def operator_delete_def)
  moreover have "live (kfree h' (um_buckets m - 4)) = umap_rest h m ass"
    using f h'(3) by (auto simp: umap_rest_def fun_eq_iff)
  ultimately show ?thesis using h'(4) by auto
qed

section \<open>Properties\<close>

definition no_pairs :: "(u32, int) pairs" where
  "no_pairs _ = \<lparr>nvalue = \<lparr>first = 0, second = 0\<rparr>, nnext = NULL\<rparr>"

text \<open>A map with the default eight buckets on a fresh heap, empty and with two bindings.\<close>

lemma demo_umap:
  obtains h m where "umap_new wide_heap 8 = Inr (h, m)" "umap_rep hash_uint (h, no_pairs, m) Map.empty" "60000 < slack h"
  using umap_new_ok [OF wide_heap_inv(1), of 8 hash_uint no_pairs] wide_heap_inv(2) by auto

lemma demo_umap2:
  obtains h s m where "umap_rep hash_uint (h, s, m) [3 \<mapsto> 30, 4 \<mapsto> 40 :: int]" "50000 < slack h"
proof -
  obtain h m where 0: "umap_rep hash_uint (h, no_pairs, m) Map.empty" "60000 < slack h" by (rule demo_umap)
  from umap_insert_rep [OF 0(1), of 3 30] 0(2) obtain h1 s1 m1 where
    1: "umap_rep hash_uint (h1, s1, m1) [3 \<mapsto> 30 :: int]" "59000 < slack h1" by auto
  from umap_insert_rep [OF 1(1), of 4 40] 1(2) that show ?thesis by auto
qed

text \<open>
  C32. The integer hash is a bijection on 32-bit keys: different keys never share a full hash value, and
  \<open>integer_unhash\<close> recovers the key.
\<close>

theorem integer_hash_bij: "bij integer_hash \<and> integer_unhash (integer_hash x) = x"
proof -
  have "inj integer_hash" by (metis injI unhash_hash)
  then show ?thesis by (simp add: bij_def finite_UNIV_inj_surj unhash_hash)
qed

text \<open>
  C31. \<^verbatim>\<open>unordered_map\<close> implements a finite map. Insertion binds a new key and reports it, never overwrites;
  \<^verbatim>\<open>find\<close> points at the value bound to the key; \<^verbatim>\<open>erase\<close> removes exactly that binding (its path without a
  \<^verbatim>\<open>return\<close> is never reached); \<^verbatim>\<open>size\<close> is the number of bindings.
\<close>

theorem unordered_map_implements_map:
  assumes "umap_rep hf (h, s, m) mp" "36 < slack h"
  shows "(\<exists>h' s' m'. umap_insert hf h s m k v = Inr (h', s', m', mp k = None) \<and>
      umap_rep hf (h', s', m') (case mp k of None \<Rightarrow> mp(k \<mapsto> v) | Some w \<Rightarrow> mp)) \<and>
    umap_get hf s m k = Inr (mp k) \<and>
    (\<exists>h' s' m'. umap_erase hf h s m k = Inr (h', s', m', mp k \<noteq> None) \<and> umap_rep hf (h', s', m') (mp(k := None))) \<and>
    unat (umap_size m) = card (dom mp)"
proof (intro conjI)
  show "\<exists>h' s' m'. umap_insert hf h s m k v = Inr (h', s', m', mp k = None) \<and>
      umap_rep hf (h', s', m') (case mp k of None \<Rightarrow> mp(k \<mapsto> v) | Some w \<Rightarrow> mp)"
  proof (cases "mp k")
    case None
    with umap_insert_rep [OF assms(1) None assms(2), of v] show ?thesis by auto
  next
    case (Some w)
    with um.ins_dup [OF assms(1), of k v] assms(1) show ?thesis
      by (auto simp: um_ins_def rbind_Inr_iff)
  qed
qed (use umap_get_rep [OF assms(1)] umap_erase_rep [OF assms(1)] umap_size_rep [OF assms(1)] in auto)

theorem unordered_map_implements_map_witness:
  "\<exists>h s m h' s' m'. umap_get hash_uint s m 3 = Inr (Some (30 :: int)) \<and>
     umap_insert hash_uint h s m 3 31 = Inr (h', s', m', False) \<and> umap_get hash_uint s' m' 3 = Inr (Some 30)"
proof -
  obtain h s m where r: "umap_rep hash_uint (h, s, m) [3 \<mapsto> 30, 4 \<mapsto> 40 :: int]" "50000 < slack h"
    by (rule demo_umap2)
  from unordered_map_implements_map [OF r(1), of 3 31] r(2) obtain h' s' m' where
    1: "umap_get hash_uint s m 3 = Inr (Some 30)" "umap_insert hash_uint h s m 3 31 = Inr (h', s', m', False)"
    "umap_rep hash_uint (h', s', m') [3 \<mapsto> 30, 4 \<mapsto> 40]" by auto
  moreover have "umap_get hash_uint s' m' 3 = Inr (Some 30)" using umap_get_rep [OF 1(3), of 3] by simp
  ultimately show ?thesis by blast
qed

text \<open>
  Filling a fresh map: after inserting a list of bindings, looking up a key gives its first binding in the
  list.
\<close>

theorem unordered_map_first_wins:
  assumes "heap_inv h" "0 < unat n" "unat n < 2 ^ 28" "8 * unat n + 28 * length bs + 28 < slack h"
  shows "\<exists>h' m st. umap_new h n = Inr (h', m) \<and> ins_all (um_ins hf) (h', s, m) bs = Inr st \<and>
    um_get hf st k = Inr (map_of bs k)"
proof -
  have "8 * unat n + 28 < slack h" using assms(4) by simp
  from umap_new_ok [OF assms(1-3) this, of hf s] obtain h' m where
    1: "umap_new h n = Inr (h', m)" "umap_rep hf (h', s, m) Map.empty" "slack h \<le> slack h' + 8 * unat n + 20" by blast
  with assms(4) have "28 * length bs + 8 < slack h'" by simp
  with um.get_after_ins_all [OF 1(2), of bs k] 1(1) show ?thesis by auto
qed

theorem unordered_map_first_wins_witness:
  "\<exists>h' m st. umap_new wide_heap 8 = Inr (h', m) \<and>
     ins_all (um_ins hash_uint) (h', no_pairs, m) [(3, 30), (11, 50), (3, 31)] = Inr st \<and>
     um_get hash_uint st 3 = Inr (Some 30)"
  using unordered_map_first_wins [OF wide_heap_inv(1), of 8 "[(3, 30), (11, 50), (3, 31)]" hash_uint no_pairs 3] wide_heap_inv(2)
  by (auto simp del: ins_all.simps)

text \<open>
  Destroying a map releases every node of every bucket and the bucket array, and nothing else.
\<close>

theorem unordered_map_destroy_no_leak:
  assumes "umap_state hf h s m ass"
  shows "\<exists>h'. umap_destroy h s m = Inr h' \<and> heap_inv h' \<and>
    dom (live h') = dom (live h) - insert (um_buckets m - 4) (all_nodes ass)"
  using umap_destroy_ok [OF assms] by (auto simp: umap_rest_def dom_def)

theorem unordered_map_destroy_no_leak_witness:
  "\<exists>h (s :: (u32, int) pairs) m ass h'. umap_state hash_uint h s m ass \<and> card (all_nodes ass) = 2 \<and> umap_destroy h s m = Inr h' \<and>
     dom (live h') = dom (live h) - insert (um_buckets m - 4) (all_nodes (ass :: addr list list))"
proof -
  obtain h s m where r: "umap_rep hash_uint (h, s, m) [3 \<mapsto> 30, 4 \<mapsto> 40 :: int]" by (rule demo_umap2)
  then obtain ass where st: "umap_state hash_uint h s m ass"
    "\<forall>k v. [3 \<mapsto> 30, 4 \<mapsto> 40] k = Some v \<longleftrightarrow> (\<exists>a \<in> all_nodes ass. nkey s a = k \<and> nval s a = v)" by (rule umap_rep_key)
  have "dom [3 \<mapsto> 30, 4 \<mapsto> 40 :: int] = nkey s ` all_nodes ass" using st(2) by (auto simp: dom_def image_iff)
  moreover have "dom [3 \<mapsto> 30, 4 \<mapsto> 40 :: int] = {4, 3 :: u32}" by simp
  ultimately have "nkey s ` all_nodes ass = {4, 3}" by simp
  then have "card (nkey s ` all_nodes ass) = 2" by simp
  moreover have "inj_on (nkey s) (all_nodes ass)" using st(1) by (simp add: umap_state_def)
  ultimately have "card (all_nodes ass) = 2" by (simp add: card_image)
  moreover obtain h' where "umap_destroy h s m = Inr h'"
    "dom (live h') = dom (live h) - insert (um_buckets m - 4) (all_nodes ass)"
    using unordered_map_destroy_no_leak [OF st(1)] by auto
  ultimately show ?thesis
    using st(1) by (intro exI [of _ h] exI [of _ s] exI [of _ m] exI [of _ ass] exI [of _ h']) simp
qed

end
