(* ===== verification/Paging.thy ===== *)
theory Paging
  imports Bodos_Prelude
begin

unbundle bit_operations_syntax

text \<open>
  The page allocator and the kernel page tables: \<^verbatim>\<open>src/src/kernel/arch/i386/paging.c\<close>. The 1024 entries of the
  page directory and the 1024 entries of a table are functions on indices; every index the code uses is
  either in range by construction of its loop or checked here. The addresses the linker chooses
  (\<^verbatim>\<open>boot_page_table1\<close>, \<^verbatim>\<open>kernel_page_tables\<close>) are parameters. Log output and the TLB flush are left out.
\<close>

section \<open>Constants and address arithmetic\<close>

definition VIRTUAL_MEM_OFFSET :: u32 where
  "VIRTUAL_MEM_OFFSET = 0xC0000000"

abbreviation (input) PAGESIZE :: u32 where
  "PAGESIZE \<equiv> 4096"

definition FIRST_PDE :: nat where
  "FIRST_PDE = 776"

definition phys_to_virtual :: "u32 \<Rightarrow> u32" where
  "phys_to_virtual phys = phys + VIRTUAL_MEM_OFFSET"

definition virtual_to_physical :: "u32 \<Rightarrow> u32" where
  "virtual_to_physical virt = virt - VIRTUAL_MEM_OFFSET"

text \<open>
  In C both products of \<^verbatim>\<open>virtual_addr\<close> are of type \<^verbatim>\<open>int\<close> if the constants are, and \<^verbatim>\<open>4096 * 1024 * pde_index\<close> exceeds its range for
  every directory entry from 512 on, so for all of the kernel; the words wrap around here, as the compiled code does.
\<close>

definition virtual_addr :: "u16 \<Rightarrow> u16 \<Rightarrow> u32" where
  "virtual_addr pde_index pte_index =
     (let high = PAGESIZE * 1024 * ucast pde_index; low = PAGESIZE * ucast pte_index in high + low)"

definition calc_pd_offset :: "u32 \<Rightarrow> u16" where
  "calc_pd_offset start = ucast (start div (1024 * PAGESIZE))"

text \<open>The cast binds tighter than the division: \<^verbatim>\<open>(uint16_t)rem / PAGE_SIZE\<close> keeps 16 bits of the remainder.\<close>

definition calc_pt_offset :: "u32 \<Rightarrow> u16" where
  "calc_pt_offset start =
     (let rem = start mod (1024 * PAGESIZE) in ucast ((ucast (ucast rem :: u16) :: u32) div PAGESIZE))"

section \<open>State\<close>

record page_table_info =
  pt_table :: addr
  pt_free :: u16
  pt_taken :: "nat \<Rightarrow> bool"

type_synonym pd_info = "nat \<Rightarrow> page_table_info"

text \<open>
  \<open>pd_entries\<close> is the page directory, \<open>kpts\<close> the array \<^verbatim>\<open>kernel_page_tables\<close> by slot and index.
\<close>

record paging =
  pd_entries :: "nat \<Rightarrow> u32"
  kpts :: "nat \<Rightarrow> nat \<Rightarrow> u32"
  pdi :: pd_info

definition init_pagetable_info :: "page_table_info \<Rightarrow> page_table_info" where
  "init_pagetable_info info = info\<lparr>pt_table := NULL, pt_free := 1024, pt_taken := (\<lambda>_. False)\<rparr>"

section \<open>Initialisation\<close>

text \<open>The three loops of \<^verbatim>\<open>init_higher_half_pagedirectory_info\<close>.\<close>

definition clear_low :: "paging \<Rightarrow> paging" where
  "clear_low st = fold (\<lambda>i st. st\<lparr>pd_entries := (pd_entries st)(i := 0)\<rparr>) [0..<768] st"

definition init_boot_tables :: "addr \<Rightarrow> paging \<Rightarrow> paging" where
  "init_boot_tables bpt st = fold (\<lambda>i st. st\<lparr>pdi := (pdi st)(768 + i :=
       (pdi st (768 + i))\<lparr>pt_table := bpt + 4 * 1024 * word_of_nat i, pt_free := 0\<rparr>)\<rparr>) [0..<8] st"

text \<open>The inner loop: fills a page table, carrying \<^verbatim>\<open>vaddr\<close>.\<close>

definition fill_table :: "(nat \<Rightarrow> u32) \<Rightarrow> u32 \<Rightarrow> (nat \<Rightarrow> u32) \<times> u32" where
  "fill_table t vaddr = fold (\<lambda>j (t, vaddr). (t(j := virtual_to_physical vaddr + 3), vaddr + PAGESIZE)) [0..<1024] (t, vaddr)"

definition init_dynamic_step :: "addr \<Rightarrow> nat \<Rightarrow> paging \<times> u32 \<times> nat \<Rightarrow> paging \<times> u32 \<times> nat" where
  "init_dynamic_step kpt i = (\<lambda>(st, vaddr, slot).
     let info = (pdi st i)\<lparr>pt_free := 1024, pt_taken := (\<lambda>_. False), pt_table := kpt + 4096 * word_of_nat slot\<rparr>;
         (t, vaddr') = fill_table (kpts st slot) vaddr
     in (st\<lparr>pd_entries := (pd_entries st)(i := virtual_to_physical (kpt + 4096 * word_of_nat slot) + 3),
            kpts := (kpts st)(slot := t),
            pdi := (pdi st)(i := info)\<rparr>, vaddr', slot + 1))"

definition init_dynamic :: "addr \<Rightarrow> paging \<Rightarrow> paging" where
  "init_dynamic kpt st =
     fst (fold (init_dynamic_step kpt) [FIRST_PDE..<1024] (st, VIRTUAL_MEM_OFFSET + 8 * PAGESIZE * 1024, 0))"

definition init_higher_half :: "addr \<Rightarrow> addr \<Rightarrow> paging \<Rightarrow> paging" where
  "init_higher_half bpt kpt st = init_dynamic kpt (init_boot_tables bpt (clear_low st))"

definition paging_init :: "addr \<Rightarrow> addr \<Rightarrow> paging \<Rightarrow> paging" where
  "paging_init bpt kpt st = init_higher_half bpt kpt st"

section \<open>Allocation\<close>

text \<open>
  The search of \<^verbatim>\<open>alloc_pages\<close>. Its \<^verbatim>\<open>int\<close> variables never go below zero and are natural numbers here;
  \<open>cnt\<close> is the requested count. Variables the code declares without a value are options.
  \<open>run_loop\<close> is the innermost loop: it returns \<^verbatim>\<open>i\<close>, \<^verbatim>\<open>c\<close>, \<^verbatim>\<open>sofarCount\<close>, \<^verbatim>\<open>num_pages_collected\<close>,
  \<^verbatim>\<open>page_table_crosses\<close> and \<^verbatim>\<open>keepGoing\<close>.
\<close>

function run_loop :: "(nat \<Rightarrow> bool) \<Rightarrow> nat \<Rightarrow> nat \<Rightarrow> nat \<Rightarrow> nat \<Rightarrow> nat \<Rightarrow> nat \<Rightarrow> bool
    \<Rightarrow> nat \<times> nat \<times> nat \<times> nat \<times> nat \<times> bool" where
  "run_loop taken cnt i c sofar num cross keep =
     (if i < 1024 \<and> sofar + c < cnt \<and> keep then
        if \<not> taken i then run_loop taken cnt (i + 1) (c + 1) sofar num cross keep
        else if cross > 0 then run_loop taken cnt (i + 1) 0 0 0 0 False
        else run_loop taken cnt (i + 1) c sofar num cross False
      else (i, c, sofar, num, cross, keep))"
  by pat_completeness auto
termination
  by (relation "measure (\<lambda>(taken, cnt, i, c, sofar, num, cross, keep). 1024 - i)") auto

declare run_loop.simps [simp del]

text \<open>The loop over one table; \<open>None\<close> is a loop that makes no progress.\<close>

partial_function (option) table_loop :: "(nat \<Rightarrow> bool) \<Rightarrow> nat \<Rightarrow> nat \<Rightarrow> nat \<Rightarrow> nat \<Rightarrow> u16 option \<Rightarrow> bool
    \<Rightarrow> (nat \<times> nat \<times> u16 option \<times> bool) option" where
  "table_loop taken cnt i num cross pte keep =
     (if i < 1024 then
        (let pte' = (if cross = 0 then Some (word_of_nat i) else pte);
             (i', c, sofar, num', cross', keep') = run_loop taken cnt i 0 num num cross True
         in if keep' then
              (if sofar + c = cnt then Some (sofar + c, cross', pte', keep')
               else table_loop taken cnt i' (sofar + c) cross' pte' keep')
            else table_loop taken cnt i' num' cross' pte' keep')
      else Some (num, cross, pte, keep))"

text \<open>
  The loop over the tables; the result is \<^verbatim>\<open>num_pages_collected\<close>, \<^verbatim>\<open>pte_start_index\<close>, \<^verbatim>\<open>pde_start_index\<close> and
  \<^verbatim>\<open>possible\<close>.
\<close>

function scan :: "pd_info \<Rightarrow> nat \<Rightarrow> nat \<Rightarrow> nat \<Rightarrow> nat \<Rightarrow> u16 option \<Rightarrow> u16 option \<Rightarrow> bool
    \<Rightarrow> (nat \<times> u16 option \<times> u16 option \<times> bool) option" where
  "scan info cnt pde num cross pte pds possible =
     (if pde < 1024 then
        let possible' = (if pde = 1024 then False else possible) in
        if pt_free (info pde) \<noteq> 0 then
          Option.bind (table_loop (pt_taken (info pde)) cnt 0 num cross pte True) (\<lambda>(num', cross', pte', keep).
            if num' = cnt then Some (num', pte', Some (word_of_int (int pde - int cross')), possible)
            else scan info cnt (pde + 1) num' (if keep then cross' + 1 else cross') pte' pds possible')
        else scan info cnt (pde + 1) num cross pte pds possible'
      else Some (num, pte, pds, possible))"
  by pat_completeness auto
termination
  by (relation "measure (\<lambda>(info, cnt, pde, num, cross, pte, pds, possible). 1024 - pde)") auto

declare scan.simps [simp del]

partial_function (option) search_loop :: "pd_info \<Rightarrow> nat \<Rightarrow> nat \<Rightarrow> u16 option \<Rightarrow> u16 option \<Rightarrow> bool
    \<Rightarrow> (u16 option \<times> u16 option \<times> bool) option" where
  "search_loop info cnt num pte pds possible =
     (if num \<noteq> cnt \<and> possible then
        Option.bind (scan info cnt FIRST_PDE num 0 pte pds possible)
          (\<lambda>(num', pte', pds', possible'). search_loop info cnt num' pte' pds' possible')
      else Some (pte, pds, possible))"

text \<open>Marking the pages found.\<close>

definition take_page :: "page_table_info \<Rightarrow> nat \<Rightarrow> page_table_info" where
  "take_page t pte = t\<lparr>pt_taken := (pt_taken t)(pte := True), pt_free := pt_free t - 1\<rparr>"

fun mark_pages :: "pd_info \<Rightarrow> nat \<Rightarrow> u16 \<Rightarrow> u16 \<Rightarrow> pd_info result" where
  "mark_pages info 0 pde pte = Inr info"
| "mark_pages info (Suc n) pde pte =
     (if unat pde \<ge> 1024 \<or> unat pte \<ge> 1024 then Inl OutOfBounds
      else if pt_taken (info (unat pde)) (unat pte) then Inl Hang
      else
        let info' = info(unat pde := take_page (info (unat pde)) (unat pte));
            pte' = pte + 1
        in if pte' = 1024 then mark_pages info' n (pde + 1) 0 else mark_pages info' n pde pte')"

definition alloc_pages :: "paging \<Rightarrow> u32 \<Rightarrow> (paging \<times> addr) result" where
  "alloc_pages st n =
     (case search_loop (pdi st) (unat n) 0 None None True of
        None \<Rightarrow> Inl Hang
      | Some (pte, pds, possible) \<Rightarrow>
          if possible then
            (case (pds, pte) of
               (Some pde_start, Some pte_start) \<Rightarrow>
                 rbind (mark_pages (pdi st) (unat n) pde_start pte_start)
                   (\<lambda>info. Inr (st\<lparr>pdi := info\<rparr>, virtual_addr pde_start pte_start))
             | _ \<Rightarrow> Inl UninitRead)
          else Inr (st, NULL))"

section \<open>Release\<close>

definition release_page :: "page_table_info \<Rightarrow> nat \<Rightarrow> page_table_info" where
  "release_page t pte = t\<lparr>pt_taken := (pt_taken t)(pte := False), pt_free := pt_free t + 1\<rparr>"

fun unmark_pages :: "pd_info \<Rightarrow> nat \<Rightarrow> u16 \<Rightarrow> u16 \<Rightarrow> pd_info result" where
  "unmark_pages info 0 pde pte = Inr info"
| "unmark_pages info (Suc n) pde pte =
     (if unat pde \<ge> 1024 \<or> unat pte \<ge> 1024 then Inl OutOfBounds
      else
        let info' = info(unat pde := release_page (info (unat pde)) (unat pte));
            pte' = pte + 1
        in if pte' = 1024 then unmark_pages info' n (pde + 1) 0 else unmark_pages info' n pde pte')"

definition free_pages :: "paging \<Rightarrow> addr \<Rightarrow> u32 \<Rightarrow> paging result" where
  "free_pages st start n =
     rbind (unmark_pages (pdi st) (unat n) (calc_pd_offset start) (calc_pt_offset start))
       (\<lambda>info. Inr (st\<lparr>pdi := info\<rparr>))"

end
