(* ===== verification/Paging_Spec.thy ===== *)
theory Paging_Spec
  imports Paging
begin

text \<open>
  What the page allocator guarantees. Pages are numbered \<open>1024 * pde + pte\<close>; the allocator refines first fit on
  the bitmap of taken pages as long as no full table follows a free page, and whatever it returns were free pages. Its error
  path, the way it skips full tables and its release function are wrong; the lemmas below say how.
\<close>

section \<open>Page numbers\<close>

definition taken_at :: "pd_info \<Rightarrow> nat \<Rightarrow> bool" where
  "taken_at info p = pt_taken (info (p div 1024)) (p mod 1024)"

text \<open>Every table counts its free pages.\<close>

definition free_count :: "(nat \<Rightarrow> bool) \<Rightarrow> nat" where
  "free_count t = card {i. i < 1024 \<and> \<not> t i}"

definition pages_inv :: "pd_info \<Rightarrow> bool" where
  "pages_inv info \<longleftrightarrow> (\<forall>pde. FIRST_PDE \<le> pde \<and> pde < 1024 \<longrightarrow> unat (pt_free (info pde)) = free_count (pt_taken (info pde)))"

definition base_page :: nat where
  "base_page = FIRST_PDE * 1024"

definition num_pages :: nat where
  "num_pages = 1024 * 1024"

definition free_run :: "pd_info \<Rightarrow> nat \<Rightarrow> nat \<Rightarrow> bool" where
  "free_run info p n \<longleftrightarrow> p + n \<le> num_pages \<and> (\<forall>k. p \<le> k \<and> k < p + n \<longrightarrow> \<not> taken_at info k)"

text \<open>The first fit: the lowest run of \<open>n\<close> free pages of the dynamic kernel area.\<close>

definition first_run :: "pd_info \<Rightarrow> nat \<Rightarrow> nat \<Rightarrow> bool" where
  "first_run info n p \<longleftrightarrow> base_page \<le> p \<and> free_run info p n \<and> (\<forall>q. base_page \<le> q \<and> q < p \<longrightarrow> \<not> free_run info q n)"

lemma free_count_le: "free_count t \<le> 1024"
proof -
  have "free_count t \<le> card {..<1024 :: nat}" unfolding free_count_def by (rule card_mono) auto
  then show ?thesis by simp
qed

lemma free_count_take:
  assumes "i < 1024" "\<not> t i"
  shows "free_count t = Suc (free_count (t(i := True)))"
proof -
  have "{j. j < 1024 \<and> \<not> t j} = insert i {j. j < 1024 \<and> \<not> (t(i := True)) j}" using assms by auto
  then show ?thesis by (simp add: free_count_def)
qed

lemma free_count_release:
  assumes "i < 1024" "t i"
  shows "free_count (t(i := False)) = Suc (free_count t)"
  using free_count_take [of i "t(i := False)"] assms by (simp add: fun_upd_idem)

lemma unat_u16_Suc: "unat (x :: u16) < 1024 \<Longrightarrow> unat (x + 1) = Suc (unat x)"
  by (simp add: unat_word_ariths)

lemma take_page_inv:
  assumes "pages_inv info" "pde < 1024" "pte < 1024" "\<not> pt_taken (info pde) pte"
  shows "pages_inv (info(pde := take_page (info pde) pte))"
proof -
  have "unat (pt_free (info pde) - 1) = free_count ((pt_taken (info pde))(pte := True))" if "FIRST_PDE \<le> pde"
  proof -
    have "unat (pt_free (info pde)) = Suc (free_count ((pt_taken (info pde))(pte := True)))"
      using assms that free_count_take [of pte "pt_taken (info pde)"] by (simp add: pages_inv_def)
    moreover from this have "pt_free (info pde) \<noteq> 0" by auto
    ultimately show ?thesis by (simp add: unat_minus_one)
  qed
  then show ?thesis using assms(1) by (auto simp: pages_inv_def take_page_def)
qed

lemma taken_at_upd:
  assumes "pte < 1024"
  shows "taken_at (info(pde := t)) k =
    (if k div 1024 = pde then pt_taken t (k mod 1024) else taken_at info k)"
  by (simp add: taken_at_def)

lemma page_split: "pte < 1024 \<Longrightarrow> k div 1024 = pde \<and> k mod 1024 = pte \<longleftrightarrow> k = 1024 * pde + pte" for k :: nat
  by auto

lemma taken_at_take_page:
  assumes "pte < 1024"
  shows "taken_at (info(pde := take_page (info pde) pte)) k \<longleftrightarrow> k = 1024 * pde + pte \<or> taken_at info k"
  using page_split [OF assms, of k pde] by (auto simp: taken_at_def take_page_def)

lemma taken_at_release_page:
  assumes "pte < 1024"
  shows "taken_at (info(pde := release_page (info pde) pte)) k \<longleftrightarrow> k \<noteq> 1024 * pde + pte \<and> taken_at info k"
  using page_split [OF assms, of k pde] by (auto simp: taken_at_def release_page_def)

section \<open>Marking and releasing runs\<close>

text \<open>Directory and table index of a page, as the code keeps them.\<close>

abbreviation pde_of :: "nat \<Rightarrow> u16" where
  "pde_of p \<equiv> word_of_nat (p div 1024)"

abbreviation pte_of :: "nat \<Rightarrow> u16" where
  "pte_of p \<equiv> word_of_nat (p mod 1024)"

lemma unat_u16_small: "k < 65536 \<Longrightarrow> unat (word_of_nat k :: u16) = k"
  by (simp add: unat_of_nat)

lemma pde_of_unat [simp]: "p \<le> num_pages \<Longrightarrow> unat (pde_of p) = p div 1024"
  by (rule unat_u16_small) (auto simp: num_pages_def)

lemma pte_of_unat [simp]: "unat (pte_of p) = p mod 1024"
  by (rule unat_u16_small) (rule less_trans [of _ 1024], auto)

text \<open>The step to the next page.\<close>

lemma next_page:
  "(if pte_of p + 1 = 1024 then f (pde_of p + 1) 0 else f (pde_of p) (pte_of p + 1)) = f (pde_of (Suc p)) (pte_of (Suc p))"
proof (cases "p mod 1024 = 1023")
  case True
  then have "Suc p mod 1024 = 0" "Suc p div 1024 = Suc (p div 1024)" by (simp_all add: mod_Suc div_Suc)
  with True show ?thesis by (simp add: add.commute)
next
  case False
  then have m: "p mod 1024 < 1023" using mod_less_divisor [of 1024 p] by linarith
  then have S: "Suc p mod 1024 = Suc (p mod 1024)" "Suc p div 1024 = p div 1024" by (simp_all add: mod_Suc div_Suc)
  have "unat (pte_of p + 1) = Suc (p mod 1024)" using m by (subst unat_u16_Suc) simp_all
  with m have "unat (pte_of p + 1) \<noteq> unat (1024 :: u16)" by simp
  then have "pte_of p + 1 \<noteq> 1024" by metis
  with S show ?thesis by (simp add: add.commute)
qed

lemma mark_pages_Suc:
  assumes "p \<le> num_pages"
  shows "mark_pages info (Suc n) (pde_of p) (pte_of p) =
    (if p = num_pages then Inl OutOfBounds else if taken_at info p then Inl Hang
     else mark_pages (info(p div 1024 := take_page (info (p div 1024)) (p mod 1024))) n (pde_of (Suc p)) (pte_of (Suc p)))"
proof -
  have m: "1024 \<le> p mod 1024 \<longleftrightarrow> False" by (simp add: not_le)
  have "1024 \<le> p div 1024 \<longleftrightarrow> p = num_pages" using assms by (auto simp: num_pages_def)
  then show ?thesis using assms next_page [of p "mark_pages (info(p div 1024 := take_page (info (p div 1024)) (p mod 1024))) n"]
    by (simp add: taken_at_def Let_def m)
qed

lemma unmark_pages_Suc:
  assumes "p \<le> num_pages"
  shows "unmark_pages info (Suc n) (pde_of p) (pte_of p) =
    (if p = num_pages then Inl OutOfBounds
     else unmark_pages (info(p div 1024 := release_page (info (p div 1024)) (p mod 1024))) n (pde_of (Suc p)) (pte_of (Suc p)))"
proof -
  have m: "1024 \<le> p mod 1024 \<longleftrightarrow> False" by (simp add: not_le)
  have "1024 \<le> p div 1024 \<longleftrightarrow> p = num_pages" using assms by (auto simp: num_pages_def)
  then show ?thesis using assms next_page [of p "unmark_pages (info(p div 1024 := release_page (info (p div 1024)) (p mod 1024))) n"]
    by (simp add: Let_def m)
qed

declare mark_pages.simps(2) [simp del] unmark_pages.simps(2) [simp del]

lemma mark_pages_run:
  assumes "mark_pages info n (pde_of p) (pte_of p) = Inr info'" "p \<le> num_pages"
  shows "free_run info p n \<and> (\<forall>k. taken_at info' k \<longleftrightarrow> taken_at info k \<or> p \<le> k \<and> k < p + n) \<and>
    (pages_inv info \<longrightarrow> pages_inv info')"
  using assms
proof (induction n arbitrary: info p)
  case 0
  then show ?case by (auto simp: free_run_def)
next
  case (Suc n)
  define i where "i = info(p div 1024 := take_page (info (p div 1024)) (p mod 1024))"
  from Suc.prems have p: "p < num_pages" "\<not> taken_at info p"
    and m: "mark_pages i n (pde_of (Suc p)) (pte_of (Suc p)) = Inr info'"
    by (auto simp: mark_pages_Suc i_def split: if_splits)
  have t: "taken_at i k \<longleftrightarrow> k = p \<or> taken_at info k" for k
    using taken_at_take_page [of "p mod 1024" info "p div 1024" k] by (simp add: i_def)
  have pi: "pages_inv info \<Longrightarrow> pages_inv i"
    using p take_page_inv [of info "p div 1024" "p mod 1024"] by (auto simp: num_pages_def taken_at_def i_def)
  from Suc.IH [OF m] p(1) have IH: "free_run i (Suc p) n"
    "\<And>k. taken_at info' k \<longleftrightarrow> taken_at i k \<or> Suc p \<le> k \<and> k < Suc p + n" "pages_inv i \<longrightarrow> pages_inv info'" by auto
  have "\<not> taken_at info k" if "p \<le> k" "k < p + Suc n" for k
    using that IH(1) p(2) by (cases "k = p") (auto simp: free_run_def t)
  with IH(1) have "free_run info p (Suc n)" by (simp add: free_run_def)
  moreover have "taken_at info' k \<longleftrightarrow> taken_at info k \<or> p \<le> k \<and> k < p + Suc n" for k
    unfolding IH(2) t by auto
  ultimately show ?case using IH(3) pi by blast
qed

lemma mark_pages_free:
  assumes "free_run info p n"
  shows "\<exists>info'. mark_pages info n (pde_of p) (pte_of p) = Inr info'"
  using assms
proof (induction n arbitrary: info p)
  case 0
  then show ?case by simp
next
  case (Suc n)
  define i where "i = info(p div 1024 := take_page (info (p div 1024)) (p mod 1024))"
  have t: "taken_at i k \<longleftrightarrow> k = p \<or> taken_at info k" for k
    using taken_at_take_page [of "p mod 1024" info "p div 1024" k] by (simp add: i_def)
  from Suc.prems have p: "p < num_pages" "\<not> taken_at info p" and "free_run i (Suc p) n"
    by (auto simp: free_run_def t)
  from Suc.IH [OF this(3)] p show ?case by (simp add: mark_pages_Suc flip: i_def)
qed

lemma unmark_pages_run:
  assumes "p + n \<le> num_pages"
  shows "\<exists>info'. unmark_pages info n (pde_of p) (pte_of p) = Inr info' \<and>
    (\<forall>k. taken_at info' k \<longleftrightarrow> taken_at info k \<and> \<not> (p \<le> k \<and> k < p + n))"
  using assms
proof (induction n arbitrary: info p)
  case 0
  then show ?case by auto
next
  case (Suc n)
  define i where "i = info(p div 1024 := release_page (info (p div 1024)) (p mod 1024))"
  have t: "taken_at i k \<longleftrightarrow> k \<noteq> p \<and> taken_at info k" for k
    using taken_at_release_page [of "p mod 1024" info "p div 1024" k] by (simp add: i_def)
  from Suc.IH [of "Suc p" i] Suc.prems obtain info' where
    u: "unmark_pages i n (pde_of (Suc p)) (pte_of (Suc p)) = Inr info'"
    "\<And>k. taken_at info' k \<longleftrightarrow> taken_at i k \<and> \<not> (Suc p \<le> k \<and> k < Suc p + n)" by auto
  have "taken_at info' k \<longleftrightarrow> taken_at info k \<and> \<not> (p \<le> k \<and> k < p + Suc n)" for k
    unfolding u(2) t by auto
  with u(1) Suc.prems show ?case by (simp add: unmark_pages_Suc flip: i_def)
qed

section \<open>What the search can return\<close>

definition pte_ok :: "u16 option \<Rightarrow> bool" where
  "pte_ok x \<longleftrightarrow> (\<forall>t. x = Some t \<longrightarrow> unat t < 1024)"

definition pde_ok :: "u16 option \<Rightarrow> bool" where
  "pde_ok x \<longleftrightarrow> (\<forall>t. x = Some t \<longrightarrow> FIRST_PDE \<le> unat t \<and> unat t < 1024)"

lemma run_loop_stop: "run_loop taken cnt i c sofar num cross False = (i, c, sofar, num, cross, False)"
  by (simp add: run_loop.simps)

lemma run_loop_step:
  "run_loop taken cnt i c sofar num cross True =
     (if i < 1024 \<and> sofar + c < cnt then
        if \<not> taken i then run_loop taken cnt (Suc i) (Suc c) sofar num cross True
        else if cross > 0 then (Suc i, 0, 0, 0, 0, False)
        else (Suc i, c, sofar, num, cross, False)
      else (i, c, sofar, num, cross, True))"
  by (subst run_loop.simps) (simp add: run_loop_stop)

text \<open>The innermost loop passes \<open>m\<close> free pages and stops for one of three reasons.\<close>

lemma run_loop_result:
  assumes "i \<le> 1024" "sofar + c \<le> cnt"
  shows "\<exists>m. i + m \<le> 1024 \<and> sofar + c + m \<le> cnt \<and> (\<forall>j. i \<le> j \<and> j < i + m \<longrightarrow> \<not> taken j) \<and>
    (if sofar + c + m = cnt \<or> i + m = 1024 then run_loop taken cnt i c sofar num cross True = (i + m, c + m, sofar, num, cross, True)
     else taken (i + m) \<and> run_loop taken cnt i c sofar num cross True =
       (if cross > 0 then (Suc (i + m), 0, 0, 0, 0, False) else (Suc (i + m), c + m, sofar, num, cross, False)))"
  using assms
proof (induction "1024 - i" arbitrary: i c)
  case 0
  then show ?case by (intro exI [of _ 0]) (auto simp: run_loop_step)
next
  case (Suc d)
  show ?case
  proof (cases "sofar + c < cnt \<and> \<not> taken i")
    case True
    have "d = 1024 - Suc i" "Suc i \<le> 1024" "sofar + Suc c \<le> cnt" using Suc.hyps(2) Suc.prems True by auto
    from Suc.hyps(1) [OF this] obtain m where
      m: "Suc i + m \<le> 1024" "sofar + Suc c + m \<le> cnt" "\<forall>j. Suc i \<le> j \<and> j < Suc i + m \<longrightarrow> \<not> taken j"
      "if sofar + Suc c + m = cnt \<or> Suc i + m = 1024
       then run_loop taken cnt (Suc i) (Suc c) sofar num cross True = (Suc i + m, Suc c + m, sofar, num, cross, True)
       else taken (Suc i + m) \<and> run_loop taken cnt (Suc i) (Suc c) sofar num cross True =
         (if cross > 0 then (Suc (Suc i + m), 0, 0, 0, 0, False) else (Suc (Suc i + m), Suc c + m, sofar, num, cross, False))"
      by blast
    have "\<not> taken j" if "i \<le> j" "j < i + Suc m" for j
      using that m(3) True by (cases "j = i") auto
    moreover have "run_loop taken cnt i c sofar num cross True = run_loop taken cnt (Suc i) (Suc c) sofar num cross True"
      using True m(1) by (subst run_loop_step) simp
    ultimately show ?thesis using m(1,2,4) by (intro exI [of _ "Suc m"]) (auto split: if_splits)
  next
    case False
    with Suc.prems Suc.hyps(2) show ?thesis by (intro exI [of _ 0]) (auto simp: run_loop_step)
  qed
qed

lemma run_loop_cross:
  "run_loop taken cnt i c sofar num cross True = (i', c', sofar', num', cross', keep') \<Longrightarrow> cross' \<le> cross"
proof (cases "i \<le> 1024 \<and> sofar + c \<le> cnt")
  case True
  assume r: "run_loop taken cnt i c sofar num cross True = (i', c', sofar', num', cross', keep')"
  from run_loop_result [of i sofar c cnt taken num cross] True r show ?thesis
    by (auto split: if_splits)
qed (auto simp: run_loop_step)

lemma table_loop_sound:
  assumes "table_loop taken cnt i num cross pte keep = Some r"
  shows "pte_ok pte \<longrightarrow> fst (snd r) \<le> cross \<and> pte_ok (fst (snd (snd r)))"
proof (rule table_loop.raw_induct [of "\<lambda>taken cnt i num cross pte keep r.
    pte_ok pte \<longrightarrow> fst (snd r) \<le> cross \<and> pte_ok (fst (snd (snd r)))", OF _ assms], goal_cases)
  case (1 table_loop taken cnt i num cross pte keep r)
  show ?case
  proof (cases "i < 1024 \<and> pte_ok pte")
    case True
    define pte' where "pte' = (if cross = 0 then Some (word_of_nat i) else pte)"
    have ok: "pte_ok pte'" using True by (auto simp: pte'_def pte_ok_def unat_u16_small)
    obtain i' c sofar num' cross' keep' where r: "run_loop taken cnt i 0 num num cross True = (i', c, sofar, num', cross', keep')"
      by (cases "run_loop taken cnt i 0 num num cross True") auto
    have le: "cross' \<le> cross" using run_loop_cross [OF r] .
    from 1(2) True r have *: "(if keep' then
              (if sofar + c = cnt then Some (sofar + c, cross', pte', keep')
               else table_loop taken cnt i' (sofar + c) cross' pte' keep')
            else table_loop taken cnt i' num' cross' pte' keep') = Some r"
      by (simp add: Let_def flip: pte'_def)
    show ?thesis
    proof (cases "keep' \<and> sofar + c = cnt")
      case True
      with * have "r = (sofar + c, cross', pte', keep')" by simp
      with ok le show ?thesis by simp
    next
      case False
      with * obtain x y z where "table_loop taken cnt x y cross' pte' z = Some r" by (auto split: if_splits)
      from 1(1) [OF this] ok le show ?thesis by auto
    qed
  qed (use 1 in auto)
qed

text \<open>One step of the loop over the tables.\<close>

lemma scan_end: "scan info cnt 1024 num cross pte pds possible = Some (num, pte, pds, possible)"
  by (simp add: scan.simps)

lemma scan_full:
  "pde < 1024 \<Longrightarrow> pt_free (info pde) = 0 \<Longrightarrow>
   scan info cnt pde num cross pte pds possible = scan info cnt (Suc pde) num cross pte pds possible"
  by (subst scan.simps) simp

lemma scan_table:
  assumes "pde < 1024" "pt_free (info pde) \<noteq> 0"
    "table_loop (pt_taken (info pde)) cnt 0 num cross pte True = Some (num', cross', pte', keep)"
  shows "scan info cnt pde num cross pte pds possible =
    (if num' = cnt then Some (num', pte', Some (word_of_int (int pde - int cross')), possible)
     else scan info cnt (Suc pde) num' (if keep then cross' + 1 else cross') pte' pds possible)"
  using assms by (subst scan.simps) simp

lemma word_of_int_diff: "b \<le> a \<Longrightarrow> (word_of_int (int a - int b) :: u16) = word_of_nat (a - b)"
  by (simp add: of_nat_diff)

lemma scan_sound:
  assumes "scan info cnt pde num cross pte pds possible = Some (num', pte', pds', possible')"
    "FIRST_PDE + cross \<le> pde" "pde \<le> 1024" "pte_ok pte" "pde_ok pds"
  shows "pte_ok pte' \<and> pde_ok pds' \<and> possible' = possible"
  using assms
proof (induction "1024 - pde" arbitrary: pde num cross pte)
  case 0
  then show ?case by (simp add: scan_end)
next
  case (Suc d)
  then have lt: "pde < 1024" "d = 1024 - Suc pde" "Suc pde \<le> 1024" by auto
  show ?case
  proof (cases "pt_free (info pde) = 0")
    case True
    with Suc.hyps(1) [OF lt(2), of num cross pte] Suc.prems lt scan_full [of pde info] show ?thesis by simp
  next
    case False
    with Suc.prems(1) lt obtain r where r: "table_loop (pt_taken (info pde)) cnt 0 num cross pte True = Some r"
      by (subst (asm) scan.simps) (auto simp: bind_eq_Some_conv)
    obtain n1 x1 t1 k1 where r1: "r = (n1, x1, t1, k1)" by (cases r)
    from table_loop_sound [OF r] Suc.prems r1 have t: "x1 \<le> cross" "pte_ok t1" by auto
    note e = scan_table [of pde info, OF lt(1) False r [unfolded r1], of pds possible]
    show ?thesis
    proof (cases "n1 = cnt")
      case True
      have "unat (word_of_nat (pde - x1) :: u16) = pde - x1" using lt by (simp add: unat_u16_small)
      then have "pde_ok (Some (word_of_int (int pde - int x1)))"
        using lt t Suc.prems(2) by (auto simp: pde_ok_def word_of_int_diff)
      with True e t Suc.prems show ?thesis by auto
    next
      case False
      with e Suc.prems have "scan info cnt (Suc pde) n1 (if k1 then x1 + 1 else x1) t1 pds possible = Some (num', pte', pds', possible')"
        by simp
      from Suc.hyps(1) [OF lt(2) this _ lt(3) t(2) Suc.prems(5)] t(1) Suc.prems(2) show ?thesis by simp
    qed
  qed
qed

lemma search_loop_sound:
  assumes "search_loop info cnt num pte pds possible = Some r"
  shows "pte_ok pte \<and> pde_ok pds \<longrightarrow> pte_ok (fst r) \<and> pde_ok (fst (snd r)) \<and> snd (snd r) = possible"
proof (rule search_loop.raw_induct [of "\<lambda>info cnt num pte pds possible r.
    pte_ok pte \<and> pde_ok pds \<longrightarrow> pte_ok (fst r) \<and> pde_ok (fst (snd r)) \<and> snd (snd r) = possible", OF _ assms], goal_cases)
  case (1 search_loop info cnt num pte pds possible r)
  show ?case
  proof (cases "num \<noteq> cnt \<and> possible")
    case True
    with 1(2) obtain n1 t1 p1 q1 where s: "scan info cnt FIRST_PDE num 0 pte pds possible = Some (n1, t1, p1, q1)"
      and rest: "search_loop info cnt n1 t1 p1 q1 = Some r"
      by (auto simp: bind_eq_Some_conv)
    have "FIRST_PDE \<le> 1024" by (simp add: FIRST_PDE_def)
    with scan_sound [OF s] 1(1) [OF rest] show ?thesis by auto
  qed (use 1 in auto)
qed

text \<open>Page numbers and virtual addresses.\<close>

lemma ucast_u16_of_nat: "k < 65536 \<Longrightarrow> ucast (word_of_nat k :: u16) = (word_of_nat k :: u32)"
  by (simp add: unsigned_of_nat take_bit_nat_eq_self)

lemma virtual_addr_page:
  assumes "p < num_pages"
  shows "virtual_addr (pde_of p) (pte_of p) = word_of_nat (4096 * p)"
proof -
  have "p div 1024 < 65536" "p mod 1024 < 65536"
    using assms mod_less_divisor [of 1024 p] by (auto simp: num_pages_def intro: less_trans)
  then have "virtual_addr (pde_of p) (pte_of p) = word_of_nat (4096 * 1024 * (p div 1024) + 4096 * (p mod 1024))"
    by (simp add: virtual_addr_def Let_def ucast_u16_of_nat)
  also have "4096 * 1024 * (p div 1024) + 4096 * (p mod 1024) = 4096 * p"
    using div_mult_mod_eq [of p 1024] by linarith
  finally show ?thesis .
qed

lemma alloc_pages_sound:
  assumes a: "alloc_pages st n = Inr (st', a)" and n: "0 < unat n"
  shows "\<exists>p. a = word_of_nat (4096 * p) \<and> base_page \<le> p \<and> free_run (pdi st) p (unat n) \<and>
    (\<forall>k. taken_at (pdi st') k \<longleftrightarrow> taken_at (pdi st) k \<or> p \<le> k \<and> k < p + unat n) \<and>
    (pages_inv (pdi st) \<longrightarrow> pages_inv (pdi st')) \<and> pd_entries st' = pd_entries st \<and> kpts st' = kpts st"
proof -
  from a obtain pte pds possible where s: "search_loop (pdi st) (unat n) 0 None None True = Some (pte, pds, possible)"
    by (auto simp: alloc_pages_def split: option.splits)
  from search_loop_sound [OF s] have ok: "pte_ok pte" "pde_ok pds" possible
    by (auto simp: pte_ok_def pde_ok_def)
  with a s obtain d t info where dt: "pds = Some d" "pte = Some t" "mark_pages (pdi st) (unat n) d t = Inr info"
    "st' = st\<lparr>pdi := info\<rparr>" "a = virtual_addr d t"
    by (auto simp: alloc_pages_def rbind_Inr_iff split: option.splits)
  with ok have b: "FIRST_PDE \<le> unat d" "unat d < 1024" "unat t < 1024" by (auto simp: pte_ok_def pde_ok_def)
  define p where "p = 1024 * unat d + unat t"
  have p: "p div 1024 = unat d" "p mod 1024 = unat t" "p < num_pages" "base_page \<le> p"
    using b by (auto simp: p_def num_pages_def base_page_def)
  then have w: "pde_of p = d" "pte_of p = t" by simp_all
  from mark_pages_run [of "pdi st" "unat n" p info] dt(3) p(3) w show ?thesis
    using dt(4,5) p(3,4) virtual_addr_page [OF p(3)] by (intro exI [of _ p]) (simp add: w)
qed

section \<open>The search is first fit\<close>

text \<open>
  The state of the search before page \<open>1024 * pde + i\<close>: \<open>r\<close> is where the current run of \<open>num\<close> free pages
  starts, and no fit starts below \<open>r\<close>. A run that crosses tables is remembered in \<open>cross\<close> and \<open>pte\<close>.
\<close>

definition no_fit :: "pd_info \<Rightarrow> nat \<Rightarrow> nat \<Rightarrow> bool" where
  "no_fit info cnt r \<longleftrightarrow> (\<forall>q. base_page \<le> q \<and> q < r \<longrightarrow> (\<exists>k. q \<le> k \<and> k < q + cnt \<and> taken_at info k))"

definition run_free :: "pd_info \<Rightarrow> nat \<Rightarrow> nat \<Rightarrow> bool" where
  "run_free info r n \<longleftrightarrow> (\<forall>k. r \<le> k \<and> k < r + n \<longrightarrow> \<not> taken_at info k)"

definition starts_at :: "nat \<Rightarrow> nat \<Rightarrow> u16 option \<Rightarrow> nat \<Rightarrow> bool" where
  "starts_at pde cross pte r \<longleftrightarrow> cross \<le> pde \<and> (\<exists>t. pte = Some t \<and> unat t < 1024 \<and> r = 1024 * (pde - cross) + unat t)"

definition fit_inv :: "pd_info \<Rightarrow> nat \<Rightarrow> nat \<Rightarrow> nat \<Rightarrow> nat \<Rightarrow> nat \<Rightarrow> u16 option \<Rightarrow> nat \<Rightarrow> bool" where
  "fit_inv info cnt pde i num cross pte r \<longleftrightarrow>
     r + num = 1024 * pde + i \<and> base_page \<le> r \<and> num < cnt \<and> run_free info r num \<and> no_fit info cnt r \<and>
     (if cross = 0 then num = 0 else 0 < num \<and> i = 0 \<and> starts_at pde cross pte r)"

lemma run_free_extend:
  assumes "run_free info r num" "r + num = 1024 * pde + i" "i + m \<le> 1024"
    "\<forall>j. i \<le> j \<and> j < i + m \<longrightarrow> \<not> pt_taken (info pde) j"
  shows "run_free info r (num + m)"
  unfolding run_free_def
proof (intro allI impI)
  fix k assume k: "r \<le> k \<and> k < r + (num + m)"
  show "\<not> taken_at info k"
  proof (cases "k < r + num")
    case True
    with k assms(1) show ?thesis by (simp add: run_free_def)
  next
    case False
    with k assms(2) have b: "1024 * pde + i \<le> k" "k < 1024 * pde + (i + m)" by auto
    with assms(3) have d: "k div 1024 = pde" by (intro div_nat_eqI) auto
    then have "k mod 1024 = k - 1024 * pde" by (auto simp: modulo_nat_def mult.commute)
    moreover have "i \<le> k - 1024 * pde \<and> k - 1024 * pde < i + m" using b by linarith
    ultimately show ?thesis using d assms(4) by (simp add: taken_at_def)
  qed
qed

lemma no_fit_extend:
  assumes "no_fit info cnt r" "r \<le> b" "taken_at info b" "b < r + cnt"
  shows "no_fit info cnt (Suc b)"
  unfolding no_fit_def
proof (intro allI impI)
  fix q assume q: "base_page \<le> q \<and> q < Suc b"
  show "\<exists>k. q \<le> k \<and> k < q + cnt \<and> taken_at info k"
  proof (cases "q < r")
    case True
    with q assms(1) show ?thesis by (auto simp: no_fit_def)
  next
    case False
    with q assms show ?thesis by (intro exI [of _ b]) auto
  qed
qed

definition fit_post :: "pd_info \<Rightarrow> nat \<Rightarrow> nat \<Rightarrow> nat \<times> nat \<times> u16 option \<times> bool \<Rightarrow> bool" where
  "fit_post info cnt pde = (\<lambda>(num, cross, pte, keep). \<exists>r.
     if num = cnt then starts_at pde cross pte r \<and> base_page \<le> r \<and> run_free info r cnt \<and> no_fit info cnt r \<and> r + cnt \<le> 1024 * Suc pde
     else fit_inv info cnt (Suc pde) 0 num (if keep then cross + 1 else cross) pte r)"

text \<open>One round: the search ends in this table, or it goes on behind a page that is taken.\<close>

lemma table_round:
  assumes i: "i < 1024" and fit: "fit_inv info cnt pde i num cross pte r"
  defines "T \<equiv> table_loop (pt_taken (info pde)) cnt"
  shows "(\<exists>res. T i num cross pte keep = Some res \<and> fit_post info cnt pde res) \<or>
    (\<exists>b pte' r'. i \<le> b \<and> b < 1024 \<and> T i num cross pte keep = T (Suc b) 0 0 pte' False \<and> fit_inv info cnt pde (Suc b) 0 0 pte' r')"
proof -
  let ?t = "pt_taken (info pde)"
  note inv = fit [unfolded fit_inv_def]
  define pte' where "pte' = (if cross = 0 then Some (word_of_nat i) else pte)"
  have st: "starts_at pde cross pte' r" using inv i by (auto simp: starts_at_def pte'_def unat_u16_small)
  from run_loop_result [of i num 0 cnt ?t num cross] i inv obtain m where
    m: "i + m \<le> 1024" "num + m \<le> cnt" "\<forall>j. i \<le> j \<and> j < i + m \<longrightarrow> \<not> ?t j"
    and run: "if num + m = cnt \<or> i + m = 1024 then run_loop ?t cnt i 0 num num cross True = (i + m, m, num, num, cross, True)
      else ?t (i + m) \<and> run_loop ?t cnt i 0 num num cross True =
        (if cross > 0 then (Suc (i + m), 0, 0, 0, 0, False) else (Suc (i + m), m, num, num, cross, False))"
    by auto
  have free: "run_free info r (num + m)" using run_free_extend [of info r num pde i m] inv m by simp
  note step = table_loop.simps [of ?t cnt i num cross pte keep]
  consider "num + m = cnt" | "num + m < cnt" "i + m = 1024" | "num + m < cnt" "i + m < 1024"
    using m by linarith
  then show ?thesis
  proof cases
    case 1
    with run have "T i num cross pte keep = Some (cnt, cross, pte', True)" using i by (simp add: T_def step pte'_def)
    moreover have "fit_post info cnt pde (cnt, cross, pte', True)"
      using st inv free 1 m by (auto simp: fit_post_def intro!: exI [of _ r])
    ultimately show ?thesis by blast
  next
    case 2
    have "T 1024 (num + m) cross pte' True = Some (num + m, cross, pte', True)"
      unfolding T_def by (subst table_loop.simps) simp
    with 2 run have "T i num cross pte keep = Some (num + m, cross, pte', True)" using i by (simp add: T_def step pte'_def)
    moreover have "fit_post info cnt pde (num + m, cross, pte', True)"
      using st inv free 2 i by (auto simp: fit_post_def fit_inv_def starts_at_def intro!: exI [of _ r])
    ultimately show ?thesis by blast
  next
    case 3
    let ?b = "1024 * pde + (i + m)"
    from 3 run have tk: "taken_at info ?b" by (simp add: taken_at_def)
    have "run_loop ?t cnt i 0 num num cross True = (Suc (i + m), if cross > 0 then 0 else m, if cross > 0 then 0 else num, 0, 0, False)"
      using 3 run inv by (auto split: if_splits)
    then have "T i num cross pte keep = T (Suc (i + m)) 0 0 pte' False" using i by (simp add: T_def step pte'_def)
    moreover have "no_fit info cnt (Suc ?b)" using inv 3 tk by (intro no_fit_extend [of info cnt r]) auto
    then have "fit_inv info cnt pde (Suc (i + m)) 0 0 pte' (Suc ?b)" using inv by (simp add: fit_inv_def run_free_def)
    ultimately show ?thesis using 3(2) by (intro disjI2 exI [of _ "i + m"]) auto
  qed
qed

lemma table_loop_fit:
  assumes "i < 1024" "fit_inv info cnt pde i num cross pte r"
  shows "\<exists>res. table_loop (pt_taken (info pde)) cnt i num cross pte keep = Some res \<and> fit_post info cnt pde res"
  using assms
proof (induction "1024 - i" arbitrary: i num cross pte keep r rule: less_induct)
  case less
  let ?T = "table_loop (pt_taken (info pde)) cnt"
  from table_round [OF less.prems, of keep] show ?case
  proof (elim disjE exE conjE)
    fix b pte' r' assume b: "i \<le> b" "b < 1024" "?T i num cross pte keep = ?T (Suc b) 0 0 pte' False" "fit_inv info cnt pde (Suc b) 0 0 pte' r'"
    show ?thesis
    proof (cases "Suc b = 1024")
      case True
      have "?T 1024 0 0 pte' False = Some (0, 0, pte', False)" by (subst table_loop.simps) simp
      moreover have "fit_post info cnt pde (0, 0, pte', False)" using b(4) True less.prems(2) by (auto simp: fit_post_def fit_inv_def add.commute)
      ultimately show ?thesis using b(3) True by simp
    next
      case False
      with less.hyps [OF _ _ b(4), of False] b show ?thesis by simp
    qed
  qed blast
qed

text \<open>
  A table without free pages is skipped, and a run that reaches the end of the table before goes on behind it. So the search
  is only right if no full table follows a free page.
\<close>

definition skips_ok :: "pd_info \<Rightarrow> bool" where
  "skips_ok info \<longleftrightarrow> (\<forall>d. FIRST_PDE \<le> d \<and> d < 1024 \<and> pt_free (info d) = 0 \<longrightarrow>
     (\<forall>k. k div 1024 = d \<longrightarrow> taken_at info k) \<and> (d = FIRST_PDE \<or> taken_at info (1024 * d - 1)))"

lemma skips_ok_nonfull: "\<forall>d. FIRST_PDE \<le> d \<and> d < 1024 \<longrightarrow> pt_free (info d) \<noteq> 0 \<Longrightarrow> skips_ok info"
  unfolding skips_ok_def by blast

lemma fit_inv_skip:
  assumes f: "fit_inv info cnt pde 0 num cross pte r" and s: "skips_ok info" and pde: "FIRST_PDE \<le> pde" "pde < 1024" "pt_free (info pde) = 0"
  shows "num = 0 \<and> cross = 0 \<and> fit_inv info cnt (Suc pde) 0 num cross pte (1024 * Suc pde)"
proof -
  from s pde have full: "\<forall>k. k div 1024 = pde \<longrightarrow> taken_at info k" and prev: "pde = FIRST_PDE \<or> taken_at info (1024 * pde - 1)"
    by (auto simp: skips_ok_def)
  from f have r: "r + num = 1024 * pde" "base_page \<le> r" "num < cnt" "run_free info r num" "no_fit info cnt r" and
    c: "if cross = 0 then num = 0 else 0 < num" by (auto simp: fit_inv_def split: if_splits)
  have n: "num = 0"
  proof (rule ccontr)
    assume "num \<noteq> 0"
    with r(1) have "r \<le> 1024 * pde - 1 \<and> 1024 * pde - 1 < r + num" by linarith
    with r(4) have "\<not> taken_at info (1024 * pde - 1)" unfolding run_free_def by blast
    with prev have "pde = FIRST_PDE" by blast
    with r(1,2) \<open>num \<noteq> 0\<close> show False by (simp add: base_page_def)
  qed
  have "no_fit info cnt (1024 * Suc pde)"
    unfolding no_fit_def
  proof (intro allI impI)
    fix q assume q: "base_page \<le> q \<and> q < 1024 * Suc pde"
    show "\<exists>k. q \<le> k \<and> k < q + cnt \<and> taken_at info k"
    proof (cases "q < r")
      case True
      with r(5) q show ?thesis by (auto simp: no_fit_def)
    next
      case False
      with q r(1) n have "q div 1024 = pde" by (intro div_nat_eqI) auto
      with full r(3) show ?thesis by (intro exI [of _ q]) simp
    qed
  qed
  moreover have "base_page \<le> 1024 * Suc pde" using pde by (simp add: base_page_def)
  ultimately show ?thesis using n c r(3) by (auto simp: fit_inv_def run_free_def split: if_splits)
qed

lemma scan_fit:
  assumes "pde \<le> 1024" "FIRST_PDE \<le> pde" "fit_inv info cnt pde 0 num cross pte r0"
    and "skips_ok info" and "first_run info cnt p"
  shows "scan info cnt pde num cross pte pds possible = Some (cnt, Some (pte_of p), Some (pde_of p), possible)"
  using assms
proof (induction "1024 - pde" arbitrary: pde num cross pte r0)
  case 0
  then have "r0 + num = num_pages" "num < cnt" "no_fit info cnt r0" by (auto simp: fit_inv_def num_pages_def)
  moreover have "base_page \<le> p" "p + cnt \<le> num_pages" "\<forall>k. p \<le> k \<and> k < p + cnt \<longrightarrow> \<not> taken_at info k"
    using assms(5) by (auto simp: first_run_def free_run_def)
  moreover from calculation have "p < r0" by linarith
  ultimately show ?case by (auto simp: no_fit_def)
next
  case (Suc d)
  then have lt: "pde < 1024" "d = 1024 - Suc pde" "Suc pde \<le> 1024" "FIRST_PDE \<le> Suc pde" by auto
  show ?case
  proof (cases "pt_free (info pde) = 0")
    case True
    from fit_inv_skip [OF Suc.prems(3,4,2) lt(1) True] have f: "fit_inv info cnt (Suc pde) 0 num cross pte (1024 * Suc pde)" by blast
    with Suc.hyps(1) [OF lt(2,3,4) f Suc.prems(4,5)] scan_full [of pde info cnt num cross pte pds possible] lt(1) True show ?thesis by simp
  next
  case nz: False
  from table_loop_fit [OF _ Suc.prems(3), of True] obtain n1 x1 t1 k1 where
    t: "table_loop (pt_taken (info pde)) cnt 0 num cross pte True = Some (n1, x1, t1, k1)"
    and post: "fit_post info cnt pde (n1, x1, t1, k1)" by auto
  note e = scan_table [of pde info, OF lt(1) nz t, of pds possible]
  show ?thesis
  proof (cases "n1 = cnt")
    case True
    with post obtain r t where r: "t1 = Some t" "unat t < 1024" "r = 1024 * (pde - x1) + unat t" "x1 \<le> pde"
      "base_page \<le> r" "run_free info r cnt" "no_fit info cnt r" "r + cnt \<le> 1024 * Suc pde"
      by (auto simp: fit_post_def starts_at_def)
    have "free_run info r cnt" using r(6,8) lt(1) by (auto simp: free_run_def run_free_def num_pages_def)
    with r(5) assms(5) have "\<not> r < p" by (auto simp: first_run_def)
    moreover have "\<not> p < r" using r(7) assms(5) by (auto simp: no_fit_def first_run_def free_run_def)
    ultimately have "p = r" by simp
    with r have "p div 1024 = pde - x1" "p mod 1024 = unat t" by auto
    then have "pte_of p = t" "pde_of p = word_of_int (int pde - int x1)"
      using r(4) by (simp_all add: word_of_int_diff)
    with True e r(1) show ?thesis by simp
  next
    case False
    with post obtain r where "fit_inv info cnt (Suc pde) 0 n1 (if k1 then x1 + 1 else x1) t1 r"
      by (auto simp: fit_post_def)
    from Suc.hyps(1) [OF lt(2,3,4) this Suc.prems(4,5)] False e show ?thesis by simp
  qed
  qed
qed

lemma alloc_pages_first_run:
  assumes "0 < unat n" "first_run (pdi st) (unat n) p" and "skips_ok (pdi st)"
  shows "\<exists>st'. alloc_pages st n = Inr (st', word_of_nat (4096 * p))"
proof -
  have p: "p < num_pages" "free_run (pdi st) p (unat n)" using assms(1,2) by (auto simp: first_run_def free_run_def)
  have "fit_inv (pdi st) (unat n) FIRST_PDE 0 0 0 None base_page"
    using assms(1) by (auto simp: fit_inv_def base_page_def run_free_def no_fit_def)
  from scan_fit [OF _ _ this assms(3,2), of None True] have
    "scan (pdi st) (unat n) FIRST_PDE 0 0 None None True = Some (unat n, Some (pte_of p), Some (pde_of p), True)"
    by (simp add: FIRST_PDE_def)
  then have "search_loop (pdi st) (unat n) 0 None None True = Some (Some (pte_of p), Some (pde_of p), True)"
    using assms(1) by (subst search_loop.simps) (simp, subst search_loop.simps, simp)
  with mark_pages_free [OF p(2)] virtual_addr_page [OF p(1)] show ?thesis
    by (auto simp: alloc_pages_def)
qed

section \<open>A full table behind a free page\<close>

lemma table_loop_all_free:
  assumes "num < cnt" "\<forall>j < 1024. \<not> t j"
  shows "table_loop t cnt 0 num cross pte k =
    (let pte' = if cross = 0 then Some 0 else pte in
     if cnt \<le> num + 1024 then Some (cnt, cross, pte', True) else Some (num + 1024, cross, pte', True))"
proof -
  from run_loop_result [of 0 num 0 cnt t num cross] assms(1) obtain m where
    m: "m \<le> 1024" "num + m \<le> cnt" and run: "if num + m = cnt \<or> m = 1024 then run_loop t cnt 0 0 num num cross True = (m, m, num, num, cross, True)
      else t m \<and> run_loop t cnt 0 0 num num cross True =
        (if cross > 0 then (Suc m, 0, 0, 0, 0, False) else (Suc m, m, num, num, cross, False))"
    unfolding add_0 by auto
  have e: "num + m = cnt \<or> m = 1024"
  proof (rule ccontr)
    assume "\<not> (num + m = cnt \<or> m = 1024)"
    with run m(1) assms(2) show False by simp
  qed
  with run have r: "run_loop t cnt 0 0 num num cross True = (m, m, num, num, cross, True)" by simp
  show ?thesis
  proof (cases "num + m = cnt")
    case True
    with r m(1) show ?thesis by (subst table_loop.simps) (auto simp: Let_def)
  next
    case False
    with e m(2) have "m = 1024" "\<not> cnt \<le> num + 1024" by auto
    moreover have "table_loop t cnt 1024 n x q True = Some (n, x, q, True)" for n x q by (subst table_loop.simps) simp
    ultimately show ?thesis using r False by (subst table_loop.simps) (simp add: Let_def)
  qed
qed

text \<open>
  The search skips a full table without giving up the run that ends before it: 1025 pages are looked for where a full table lies between two free
  ones. It counts the pages of both as consecutive and takes the full table for the first one of the run: the loop that marks
  the pages then meets a taken one and does not end, even if there are enough consecutive pages elsewhere.
\<close>

lemma alloc_pages_gap_hangs:
  assumes "FIRST_PDE \<le> d" "d + 2 < 1024" "\<forall>e. FIRST_PDE \<le> e \<and> e < d \<longrightarrow> pt_free (pdi st e) = 0"
    and "\<forall>e \<in> {d, d + 2}. pt_free (pdi st e) \<noteq> 0 \<and> (\<forall>j < 1024. \<not> pt_taken (pdi st e) j)"
    and "pt_free (pdi st (d + 1)) = 0" "pt_taken (pdi st (d + 1)) 0"
  shows "alloc_pages st 1025 = Inl Hang"
proof -
  let ?i = "pdi st"
  have skip: "scan ?i 1025 e 0 0 None None True = scan ?i 1025 d 0 0 None None True" if "FIRST_PDE \<le> e" "e \<le> d" for e
    using that
  proof (induction "d - e" arbitrary: e)
    case (Suc n)
    then show ?case using assms(2,3) scan_full [of e ?i] by simp
  qed simp
  have "scan ?i 1025 d 0 0 None None True = scan ?i 1025 (d + 1) 1024 1 (Some 0) None True"
    using scan_table [of d ?i 1025 0 0 None] assms(2,4) table_loop_all_free [of 0 1025 "pt_taken (?i d)"] by simp
  also have "\<dots> = scan ?i 1025 (d + 2) 1024 1 (Some 0) None True" using scan_full [of "d + 1" ?i] assms(2,5) by simp
  also have "\<dots> = Some (1025, Some 0, Some (word_of_int (int (d + 2) - 1)), True)"
    using scan_table [of "d + 2" ?i 1025 1024 1 "Some 0"] assms(2,4) table_loop_all_free [of 1024 1025 "pt_taken (?i (d + 2))"] by simp
  also have "(word_of_int (int (d + 2) - 1) :: u16) = word_of_nat (d + 1)" using word_of_int_diff [of 1 "d + 2"] by simp
  finally have s: "scan ?i 1025 FIRST_PDE 0 0 None None True = Some (1025, Some 0, Some (word_of_nat (d + 1)), True)"
    using skip [OF order_refl assms(1)] by simp
  have "search_loop ?i 1025 0 None None True = Some (Some 0, Some (word_of_nat (d + 1)), True)"
    using s by (subst search_loop.simps) (simp, subst search_loop.simps, simp)
  moreover have "unat (word_of_nat (d + 1) :: u16) = d + 1" using assms(2) by (intro unat_u16_small) simp
  then have "mark_pages ?i (Suc 1024) (word_of_nat (d + 1)) 0 = Inl Hang"
    using assms(2,6) by (subst mark_pages.simps(2)) (simp del: of_nat_add of_nat_Suc)
  moreover have "Suc 1024 = 1025" by simp
  ultimately show ?thesis by (simp add: alloc_pages_def)
qed

section \<open>Exhaustion\<close>

lemma scan_all_full:
  assumes "\<forall>d. FIRST_PDE \<le> d \<and> d < 1024 \<longrightarrow> pt_free (info d) = 0" "FIRST_PDE \<le> pde" "pde \<le> 1024"
  shows "scan info cnt pde num cross pte pds possible = Some (num, pte, pds, possible)"
  using assms(2,3)
proof (induction "1024 - pde" arbitrary: pde)
  case 0
  then show ?case by (simp add: scan_end)
next
  case (Suc d)
  then show ?case using assms(1) scan_full [of pde info] by simp
qed

lemma search_all_full:
  assumes "search_loop info cnt num pte pds possible = Some r"
  shows "(\<forall>d. FIRST_PDE \<le> d \<and> d < 1024 \<longrightarrow> pt_free (info d) = 0) \<longrightarrow> \<not> (num \<noteq> cnt \<and> possible)"
proof (rule search_loop.raw_induct [of "\<lambda>info cnt num pte pds possible r.
    (\<forall>d. FIRST_PDE \<le> d \<and> d < 1024 \<longrightarrow> pt_free (info d) = 0) \<longrightarrow> \<not> (num \<noteq> cnt \<and> possible)", OF _ assms], goal_cases)
  case (1 search_loop info cnt num pte pds possible r)
  show ?case
  proof (intro impI notI)
    assume full: "\<forall>d. FIRST_PDE \<le> d \<and> d < 1024 \<longrightarrow> pt_free (info d) = 0" and go: "num \<noteq> cnt \<and> possible"
    have "scan info cnt FIRST_PDE num 0 pte pds possible = Some (num, pte, pds, possible)"
      using scan_all_full [OF full] by (simp add: FIRST_PDE_def)
    with 1(2) go have "search_loop info cnt num pte pds possible = Some r" by simp
    from 1(1) [OF this] full go show False by blast
  qed
qed

section \<open>Release\<close>

lemma unat_ucast_u16: "unat (ucast (x :: u32) :: u16) = unat x mod 65536"
  by (simp add: unsigned_ucast_eq take_bit_eq_mod)

lemma unat_ucast_u32: "unat (ucast (x :: u16) :: u32) = unat x"
proof -
  have "unat x < 2 ^ 16" using unsigned_less [of x] by simp
  then show ?thesis by (simp add: unsigned_ucast_eq take_bit_eq_mod)
qed

lemma u16_eqI: "unat (x :: u16) = unat y \<Longrightarrow> x = y"
  by (metis unsigned_word_eqI)

lemma calc_offsets:
  assumes "p < num_pages"
  shows "calc_pd_offset (word_of_nat (4096 * p)) = pde_of p"
    and "calc_pt_offset (word_of_nat (4096 * p)) = word_of_nat (p mod 16)"
proof -
  define a where "a = (word_of_nat (4096 * p) :: u32)"
  have u: "unat a = 4096 * p"
    unfolding a_def using assms by (intro unat_word32_of_nat) (simp add: num_pages_def)
  have pd: "p div 1024 < 1024" using assms by (simp add: num_pages_def)
  have "calc_pd_offset a = pde_of p"
    using pd assms by (intro u16_eqI) (simp add: calc_pd_offset_def unat_ucast_u16 unat_div u)
  then show "calc_pd_offset (word_of_nat (4096 * p)) = pde_of p" by (simp add: a_def)
  have "4096 * p mod 4194304 mod 65536 div 4096 = p mod 16"
  proof -
    have "4096 * p mod 4194304 mod 65536 = 4096 * p mod 65536" by (simp add: mod_mod_cancel)
    also have "\<dots> = 4096 * (p mod 16)" using mult_mod_right [of 4096 p 16] by simp
    finally show ?thesis by simp
  qed
  then have "unat (calc_pt_offset a) = p mod 16"
    by (simp add: calc_pt_offset_def Let_def unat_ucast_u16 unat_ucast_u32 unat_div unat_mod u)
  moreover have "unat (word_of_nat (p mod 16) :: u16) = p mod 16"
    by (rule unat_u16_small) (rule less_trans [of _ 16], auto)
  ultimately have "calc_pt_offset a = word_of_nat (p mod 16)" by (intro u16_eqI) simp
  then show "calc_pt_offset (word_of_nat (4096 * p)) = word_of_nat (p mod 16)" by (simp add: a_def)
qed

text \<open>What \<^verbatim>\<open>free_pages\<close> releases: the run that starts at the table's page number modulo 16.\<close>

definition freed_from :: "nat \<Rightarrow> nat" where
  "freed_from p = 1024 * (p div 1024) + p mod 1024 mod 16"

lemma free_pages_run:
  assumes "p < num_pages" "freed_from p + unat n \<le> num_pages"
  shows "\<exists>st'. free_pages st (word_of_nat (4096 * p)) n = Inr st' \<and>
    (\<forall>k. taken_at (pdi st') k \<longleftrightarrow> taken_at (pdi st) k \<and> \<not> (freed_from p \<le> k \<and> k < freed_from p + unat n))"
proof -
  let ?q = "freed_from p"
  have "p mod 1024 mod 16 < 16" by simp
  then have "?q div 1024 = p div 1024" "?q mod 1024 = p mod 1024 mod 16" by (auto simp: freed_from_def)
  moreover have "p mod 1024 mod 16 = p mod 16" by (simp add: mod_mod_cancel)
  ultimately have "calc_pd_offset (word_of_nat (4096 * p)) = pde_of ?q" "calc_pt_offset (word_of_nat (4096 * p)) = pte_of ?q"
    using calc_offsets [OF assms(1)] by simp_all
  with unmark_pages_run [OF assms(2), of "pdi st"] show ?thesis by (auto simp: free_pages_def)
qed

section \<open>Initialisation\<close>

lemma fill_table_prefix:
  "m \<le> 1024 \<Longrightarrow> fold (\<lambda>j (t, vaddr). (t(j := virtual_to_physical vaddr + 3), vaddr + PAGESIZE)) [0..<m] (t, vaddr) =
     ((\<lambda>j. if j < m then virtual_to_physical (vaddr + 4096 * word_of_nat j) + 3 else t j), vaddr + 4096 * word_of_nat m)"
proof (induction m)
  case 0
  then show ?case by simp
next
  case (Suc m)
  then show ?case by (auto simp: fun_eq_iff less_Suc_eq algebra_simps)
qed

lemma fill_table_ok:
  "fill_table t vaddr = ((\<lambda>j. if j < 1024 then virtual_to_physical (vaddr + 4096 * word_of_nat j) + 3 else t j),
     vaddr + 4096 * 1024)"
  using fill_table_prefix [of 1024 t vaddr] by (simp add: fill_table_def)

lemma clear_low_prefix:
  "fold (\<lambda>i st. st\<lparr>pd_entries := (pd_entries st)(i := 0)\<rparr>) [0..<m] st =
     st\<lparr>pd_entries := (\<lambda>i. if i < m then 0 else pd_entries st i)\<rparr>"
  by (induction m) (auto simp: fun_eq_iff less_Suc_eq)

lemma init_dynamic_prefix:
  assumes "d \<le> 1024 - FIRST_PDE"
  shows "fold (init_dynamic_step kpt) [FIRST_PDE..<FIRST_PDE + d] (st, 0xC2000000, 0) =
    (st\<lparr>pd_entries := (\<lambda>i. if FIRST_PDE \<le> i \<and> i < FIRST_PDE + d
          then virtual_to_physical (kpt + 4096 * word_of_nat (i - FIRST_PDE)) + 3 else pd_entries st i),
        kpts := (\<lambda>s j. if s < d \<and> j < 1024
          then virtual_to_physical (0xC2000000 + 4096 * word_of_nat (1024 * s + j)) + 3 else kpts st s j),
        pdi := (\<lambda>i. if FIRST_PDE \<le> i \<and> i < FIRST_PDE + d
          then \<lparr>pt_table = kpt + 4096 * word_of_nat (i - FIRST_PDE), pt_free = 1024, pt_taken = (\<lambda>_. False)\<rparr>
          else pdi st i)\<rparr>, 0xC2000000 + 4096 * 1024 * word_of_nat d, d)"
  using assms
proof (induction d)
  case 0
  show ?case by (auto intro!: paging.equality simp: fun_eq_iff)
next
  case (Suc d)
  then show ?case by (auto simp: init_dynamic_step_def fill_table_ok fun_eq_iff less_Suc_eq algebra_simps)
qed

lemma init_boot_tables_frame:
  "pd_entries (init_boot_tables bpt st) = pd_entries st" "kpts (init_boot_tables bpt st) = kpts st"
  "pdi (init_boot_tables bpt st) i = (if 768 \<le> i \<and> i < 776
     then (pdi st i)\<lparr>pt_table := bpt + 4096 * word_of_nat (i - 768), pt_free := 0\<rparr> else pdi st i)"
proof -
  have "fold (\<lambda>i st. st\<lparr>pdi := (pdi st)(768 + i :=
       (pdi st (768 + i))\<lparr>pt_table := bpt + 4 * 1024 * word_of_nat i, pt_free := 0\<rparr>)\<rparr>) [0..<m] st =
    st\<lparr>pdi := (\<lambda>i. if 768 \<le> i \<and> i < 768 + m then (pdi st i)\<lparr>pt_table := bpt + 4096 * word_of_nat (i - 768), pt_free := 0\<rparr>
      else pdi st i)\<rparr>" for m
    by (induction m) (auto intro!: paging.equality simp: fun_eq_iff less_Suc_eq)
  from this [of 8] show "pd_entries (init_boot_tables bpt st) = pd_entries st" "kpts (init_boot_tables bpt st) = kpts st"
    "pdi (init_boot_tables bpt st) i = (if 768 \<le> i \<and> i < 776
     then (pdi st i)\<lparr>pt_table := bpt + 4096 * word_of_nat (i - 768), pt_free := 0\<rparr> else pdi st i)"
    by (simp_all add: init_boot_tables_def)
qed

lemma paging_init_ok:
  "pd_entries (paging_init bpt kpt st) i = (if i < 768 then 0 else if FIRST_PDE \<le> i \<and> i < 1024
     then virtual_to_physical (kpt + 4096 * word_of_nat (i - FIRST_PDE)) + 3 else pd_entries st i)"
  "s < 248 \<Longrightarrow> j < 1024 \<Longrightarrow>
     kpts (paging_init bpt kpt st) s j = virtual_to_physical (0xC2000000 + 4096 * word_of_nat (1024 * s + j)) + 3"
  "FIRST_PDE \<le> i \<Longrightarrow> i < 1024 \<Longrightarrow> pdi (paging_init bpt kpt st) i =
     \<lparr>pt_table = kpt + 4096 * word_of_nat (i - FIRST_PDE), pt_free = 1024, pt_taken = (\<lambda>_. False)\<rparr>"
  "768 \<le> i \<Longrightarrow> i < FIRST_PDE \<Longrightarrow> pt_free (pdi (paging_init bpt kpt st) i) = 0"
proof -
  define st1 where "st1 = init_boot_tables bpt (clear_low st)"
  have e: "paging_init bpt kpt st = fst (fold (init_dynamic_step kpt) [FIRST_PDE..<FIRST_PDE + 248] (st1, 0xC2000000, 0))"
    by (simp add: paging_init_def init_higher_half_def init_dynamic_def st1_def FIRST_PDE_def VIRTUAL_MEM_OFFSET_def)
  show "pd_entries (paging_init bpt kpt st) i = (if i < 768 then 0 else if FIRST_PDE \<le> i \<and> i < 1024
     then virtual_to_physical (kpt + 4096 * word_of_nat (i - FIRST_PDE)) + 3 else pd_entries st i)"
    by (subst e, subst init_dynamic_prefix)
       (auto simp: FIRST_PDE_def st1_def init_boot_tables_frame clear_low_def clear_low_prefix)
  show "s < 248 \<Longrightarrow> j < 1024 \<Longrightarrow>
     kpts (paging_init bpt kpt st) s j = virtual_to_physical (0xC2000000 + 4096 * word_of_nat (1024 * s + j)) + 3"
    by (subst e, subst init_dynamic_prefix) (auto simp: FIRST_PDE_def)
  show "FIRST_PDE \<le> i \<Longrightarrow> i < 1024 \<Longrightarrow> pdi (paging_init bpt kpt st) i =
     \<lparr>pt_table = kpt + 4096 * word_of_nat (i - FIRST_PDE), pt_free = 1024, pt_taken = (\<lambda>_. False)\<rparr>"
    by (subst e, subst init_dynamic_prefix) (auto simp: FIRST_PDE_def)
  show "768 \<le> i \<Longrightarrow> i < FIRST_PDE \<Longrightarrow> pt_free (pdi (paging_init bpt kpt st) i) = 0"
    by (subst e, subst init_dynamic_prefix) (auto simp: FIRST_PDE_def st1_def init_boot_tables_frame)
qed

lemma paging_init_fresh:
  "pages_inv (pdi (paging_init bpt kpt st))"
  "\<forall>d. FIRST_PDE \<le> d \<and> d < 1024 \<longrightarrow> pt_free (pdi (paging_init bpt kpt st) d) \<noteq> 0"
  "base_page \<le> k \<Longrightarrow> k < num_pages \<Longrightarrow> \<not> taken_at (pdi (paging_init bpt kpt st)) k"
proof -
  have "free_count (\<lambda>_. False) = 1024" by (simp add: free_count_def)
  then show "pages_inv (pdi (paging_init bpt kpt st))"
    by (simp add: pages_inv_def paging_init_ok(3))
  show "\<forall>d. FIRST_PDE \<le> d \<and> d < 1024 \<longrightarrow> pt_free (pdi (paging_init bpt kpt st) d) \<noteq> 0"
    by (simp add: paging_init_ok(3))
  show "base_page \<le> k \<Longrightarrow> k < num_pages \<Longrightarrow> \<not> taken_at (pdi (paging_init bpt kpt st)) k"
    by (subst taken_at_def, subst paging_init_ok(3)) (auto simp: base_page_def num_pages_def FIRST_PDE_def)
qed

text \<open>Releasing taken pages keeps the counters right.\<close>

lemma release_page_inv:
  assumes "pages_inv info" "pde < 1024" "pte < 1024" "pt_taken (info pde) pte"
  shows "pages_inv (info(pde := release_page (info pde) pte))"
proof -
  have "unat (pt_free (info pde) + 1) = free_count ((pt_taken (info pde))(pte := False))" if "FIRST_PDE \<le> pde"
  proof -
    have "unat (pt_free (info pde)) = free_count (pt_taken (info pde))" using assms that by (simp add: pages_inv_def)
    moreover have "free_count (pt_taken (info pde)) \<le> 1024" by (rule free_count_le)
    ultimately have "unat (pt_free (info pde) + 1) = Suc (free_count (pt_taken (info pde)))"
      by (simp add: unat_word_ariths)
    then show ?thesis using free_count_release [of pte "pt_taken (info pde)"] assms by simp
  qed
  then show ?thesis using assms(1) by (auto simp: pages_inv_def release_page_def)
qed

lemma unmark_pages_inv:
  assumes "p + n \<le> num_pages" "\<forall>k. p \<le> k \<and> k < p + n \<longrightarrow> taken_at info k" "pages_inv info"
    "unmark_pages info n (pde_of p) (pte_of p) = Inr info'"
  shows "pages_inv info'"
  using assms
proof (induction n arbitrary: info p)
  case 0
  then show ?case by simp
next
  case (Suc n)
  define i where "i = info(p div 1024 := release_page (info (p div 1024)) (p mod 1024))"
  have t: "taken_at i k \<longleftrightarrow> k \<noteq> p \<and> taken_at info k" for k
    using taken_at_release_page [of "p mod 1024" info "p div 1024" k] by (simp add: i_def)
  have "pt_taken (info (p div 1024)) (p mod 1024)" using Suc.prems(2) by (simp add: taken_at_def)
  then have "pages_inv i" using Suc.prems(1,3) release_page_inv [of info "p div 1024" "p mod 1024"]
    by (simp add: i_def num_pages_def)
  moreover have "unmark_pages i n (pde_of (Suc p)) (pte_of (Suc p)) = Inr info'"
    using Suc.prems(1,4) by (simp add: unmark_pages_Suc i_def)
  ultimately show ?case using Suc.prems(1,2) by (intro Suc.IH [of "Suc p" i]) (auto simp: t)
qed

text \<open>Tables with a free page in them are not skipped.\<close>

lemma pages_inv_nonfull:
  assumes "pages_inv info" "\<forall>k. base_page \<le> k \<and> k < num_pages \<and> k mod 1024 = 1023 \<longrightarrow> \<not> taken_at info k"
  shows "\<forall>d. FIRST_PDE \<le> d \<and> d < 1024 \<longrightarrow> pt_free (info d) \<noteq> 0"
proof (intro allI impI)
  fix d assume d: "FIRST_PDE \<le> d \<and> d < 1024"
  then have "\<not> taken_at info (1024 * d + 1023)"
    using assms(2) [rule_format, of "1024 * d + 1023"] by (simp add: base_page_def num_pages_def)
  then have "\<not> pt_taken (info d) 1023" by (simp add: taken_at_def)
  from free_count_take [of 1023 "pt_taken (info d)"] this have "0 < free_count (pt_taken (info d))" by simp
  with d assms(1) have "0 < unat (pt_free (info d))" by (simp add: pages_inv_def)
  then show "pt_free (info d) \<noteq> 0" by auto
qed

lemma pages_inv_full:
  assumes "pages_inv info" "FIRST_PDE \<le> d" "d < 1024"
  shows "pt_free (info d) = 0 \<longleftrightarrow> (\<forall>k. k div 1024 = d \<longrightarrow> taken_at info k)"
proof -
  have "pt_free (info d) = 0 \<longleftrightarrow> free_count (pt_taken (info d)) = 0"
    using assms by (auto simp: pages_inv_def unat_eq_0 [symmetric])
  also have "\<dots> \<longleftrightarrow> (\<forall>i < 1024. pt_taken (info d) i)" by (auto simp: free_count_def)
  also have "\<dots> \<longleftrightarrow> (\<forall>k. k div 1024 = d \<longrightarrow> taken_at info k)"
  proof
    assume "\<forall>k. k div 1024 = d \<longrightarrow> taken_at info k"
    then have "taken_at info (1024 * d + i)" if "i < 1024" for i using that by simp
    then show "\<forall>i < 1024. pt_taken (info d) i" by (simp add: taken_at_def)
  qed (auto simp: taken_at_def)
  finally show ?thesis .
qed

lemma skips_ok_inv:
  assumes "pages_inv info" "\<forall>d. FIRST_PDE < d \<and> d < 1024 \<and> pt_free (info d) = 0 \<longrightarrow> taken_at info (1024 * d - 1)"
  shows "skips_ok info"
  using assms pages_inv_full [OF assms(1)] unfolding skips_ok_def by (metis le_neq_implies_less)

lemma first_runI:
  assumes "base_page \<le> p" "p + n \<le> num_pages" "\<And>k. p \<le> k \<Longrightarrow> k < p + n \<Longrightarrow> \<not> taken_at info k"
    "\<And>k. base_page \<le> k \<Longrightarrow> k < p \<Longrightarrow> taken_at info k" "0 < n"
  shows "first_run info n p"
proof -
  have "\<not> free_run info q n" if "base_page \<le> q" "q < p" for q
    using assms(4) [OF that] assms(5) by (auto simp: free_run_def)
  then show ?thesis using assms by (auto simp: first_run_def free_run_def)
qed

section \<open>Properties\<close>

definition blank_paging :: paging where
  "blank_paging = \<lparr>pd_entries = (\<lambda>_. 0), kpts = (\<lambda>_ _. 0),
     pdi = (\<lambda>_. \<lparr>pt_table = NULL, pt_free = 0, pt_taken = (\<lambda>_. True)\<rparr>)\<rparr>"

text \<open>
  C29. Page table initialisation: the low 3 GiB are unmapped, every page of the dynamic kernel area has a
  directory entry for its own kernel page table and an entry there that maps it, present and writable, to its
  virtual address minus \<^verbatim>\<open>0xC0000000\<close>, and all of these pages are free.
\<close>

theorem paging_init_maps_linear:
  assumes "base_page \<le> p" "p < num_pages"
  shows "pd_entries (paging_init bpt kpt st) (p div 1024) =
      virtual_to_physical (kpt + 4096 * word_of_nat (p div 1024 - FIRST_PDE)) + 3 \<and>
    kpts (paging_init bpt kpt st) (p div 1024 - FIRST_PDE) (p mod 1024) =
      virtual_to_physical (virtual_addr (pde_of p) (pte_of p)) + 3 \<and>
    \<not> taken_at (pdi (paging_init bpt kpt st)) p \<and> (\<forall>i. i < 768 \<longrightarrow> pd_entries (paging_init bpt kpt st) i = 0)"
proof -
  let ?d = "p div 1024" and ?s = "p div 1024 - FIRST_PDE"
  have d: "FIRST_PDE \<le> ?d" "?d < 1024" "\<not> ?d < 768" using assms by (auto simp: base_page_def num_pages_def FIRST_PDE_def)
  have s: "?s < 248" using d by (simp add: FIRST_PDE_def)
  define x where "x = 1024 * ?s + p mod 1024"
  have "p = base_page + x" using d assms(1) by (simp add: x_def base_page_def algebra_simps)
  then have "(word_of_nat (4096 * p) :: u32) = 0xC2000000 + 4096 * word_of_nat x"
    by (simp add: base_page_def FIRST_PDE_def algebra_simps)
  then have "virtual_addr (pde_of p) (pte_of p) = 0xC2000000 + 4096 * word_of_nat (1024 * ?s + p mod 1024)"
    using virtual_addr_page [OF assms(2)] by (simp add: x_def)
  with d s show ?thesis
    using paging_init_ok(1) [of bpt kpt st] paging_init_ok(2) [OF s, of "p mod 1024" bpt kpt st] paging_init_fresh(3) [OF assms]
    by (simp del: of_nat_add of_nat_mult)
qed

theorem paging_init_maps_linear_witness:
  "kpts (paging_init 0xC0110000 0xC0120000 blank_paging) 0 5 = virtual_to_physical 0xC2005000 + 3"
proof -
  have "base_page \<le> 794629" "794629 < num_pages" by (simp_all add: base_page_def num_pages_def FIRST_PDE_def)
  from paging_init_maps_linear [where p = 794629 and bpt = "0xC0110000" and kpt = "0xC0120000" and st = blank_paging, OF this]
    virtual_addr_page [OF this(2)]
  show ?thesis by (simp add: FIRST_PDE_def)
qed

text \<open>
  C26. Safety of \<^verbatim>\<open>alloc_pages\<close>: whatever it returns, on any state and even when its search went wrong, is a run of
  \<open>n\<close> pages of the dynamic kernel area that were all free; exactly these are taken afterwards, the free
  counters stay right and the page tables are not touched. In particular it never returns \<^verbatim>\<open>NULL\<close>.
\<close>

theorem alloc_pages_safe:
  assumes "alloc_pages st n = Inr (st', a)" "0 < unat n" "pages_inv (pdi st)"
  shows "\<exists>p. a = word_of_nat (4096 * p) \<and> a \<noteq> NULL \<and> base_page \<le> p \<and> free_run (pdi st) p (unat n) \<and>
    (\<forall>k. taken_at (pdi st') k \<longleftrightarrow> taken_at (pdi st) k \<or> p \<le> k \<and> k < p + unat n) \<and>
    pages_inv (pdi st') \<and> pd_entries st' = pd_entries st \<and> kpts st' = kpts st"
proof -
  from alloc_pages_sound [OF assms(1,2)] assms(3) obtain p where
    p: "a = word_of_nat (4096 * p)" "base_page \<le> p" "free_run (pdi st) p (unat n)"
    "\<forall>k. taken_at (pdi st') k \<longleftrightarrow> taken_at (pdi st) k \<or> p \<le> k \<and> k < p + unat n"
    "pages_inv (pdi st')" "pd_entries st' = pd_entries st" "kpts st' = kpts st" by blast
  have "4096 * p < 2 ^ 32" using p(3) assms(2) by (simp add: free_run_def num_pages_def)
  then have "unat a = 4096 * p" unfolding p(1) by (rule unat_word32_of_nat)
  moreover have "0 < p" using p(2) by (simp add: base_page_def FIRST_PDE_def)
  ultimately have "a \<noteq> NULL" by auto
  with p show ?thesis by blast
qed

text \<open>
  C27. \<^verbatim>\<open>alloc_pages\<close> is first fit: it returns the lowest run of \<open>n\<close> free pages whenever there is one, within a table or across table
  boundaries, if the counters are right and every table without a free page is the first one or follows a page that is taken. So it
  is after the start, when the heap fills the first 64 tables. If a full table follows a free page, the search can join pages that
  are not consecutive (\<open>alloc_pages_gap_hangs\<close>).
\<close>

theorem alloc_pages_first_fit:
  assumes "0 < unat n" "first_run (pdi st) (unat n) p" "pages_inv (pdi st)"
    and "\<forall>d. FIRST_PDE < d \<and> d < 1024 \<and> pt_free (pdi st d) = 0 \<longrightarrow> taken_at (pdi st) (1024 * d - 1)"
  shows "\<exists>st'. alloc_pages st n = Inr (st', word_of_nat (4096 * p)) \<and>
    (\<forall>k. taken_at (pdi st') k \<longleftrightarrow> taken_at (pdi st) k \<or> p \<le> k \<and> k < p + unat n)"
proof -
  from alloc_pages_first_run [OF assms(1,2) skips_ok_inv [OF assms(3,4)]] obtain st' where
    a: "alloc_pages st n = Inr (st', word_of_nat (4096 * p))" by blast
  from alloc_pages_sound [OF a assms(1)] obtain q where
    q: "(word_of_nat (4096 * p) :: u32) = word_of_nat (4096 * q)" "free_run (pdi st) q (unat n)"
    "\<forall>k. taken_at (pdi st') k \<longleftrightarrow> taken_at (pdi st) k \<or> q \<le> k \<and> k < q + unat n" by blast
  have "4096 * q < 2 ^ 32" "4096 * p < 2 ^ 32"
    using assms(1,2) q(2) by (simp_all add: first_run_def free_run_def num_pages_def)
  with q(1) have "p = q" using word32_of_nat_eq_iff [of "4096 * p" "4096 * q"] by simp
  with a q(3) show ?thesis by blast
qed

lemma fresh_first_run:
  "0 < n \<Longrightarrow> base_page + n \<le> num_pages \<Longrightarrow> first_run (pdi (paging_init bpt kpt st)) n base_page"
  by (rule first_runI) (use paging_init_fresh(3) in auto)

text \<open>On the page tables as they are after the start, where 64 tables are full of heap pages.\<close>

theorem alloc_pages_first_fit_witness:
  "\<exists>st1 st2. alloc_pages (paging_init 0xC0110000 0xC0120000 blank_paging) 65536 = Inr (st1, 0xC2000000) \<and>
     alloc_pages st1 2000 = Inr (st2, 0xD2000000)"
proof -
  let ?st = "paging_init 0xC0110000 0xC0120000 blank_paging"
  have c: "base_page = 794624" "num_pages = 1048576" "FIRST_PDE = 776" by (simp_all add: base_page_def num_pages_def FIRST_PDE_def)
  have r: "first_run (pdi ?st) (unat (65536 :: u32)) base_page" by (intro fresh_first_run) (simp_all add: c)
  have nf: "\<forall>d. FIRST_PDE < d \<and> d < 1024 \<and> pt_free (pdi ?st d) = 0 \<longrightarrow> taken_at (pdi ?st) (1024 * d - 1)"
    using paging_init_fresh(2) [of "0xC0110000" "0xC0120000" blank_paging] by (meson less_imp_le)
  obtain st1 where a: "alloc_pages ?st 65536 = Inr (st1, word_of_nat (4096 * base_page))"
    and t: "\<forall>k. taken_at (pdi st1) k \<longleftrightarrow> taken_at (pdi ?st) k \<or> base_page \<le> k \<and> k < base_page + 65536"
    using alloc_pages_first_fit [OF _ r paging_init_fresh(1)] nf by auto
  have i: "pages_inv (pdi st1)" using alloc_pages_sound [OF a] paging_init_fresh(1) by auto
  have t1: "taken_at (pdi st1) k \<longleftrightarrow> k < 860160" if "794624 \<le> k" "k < 1048576" for k
    using t paging_init_fresh(3) [of k] that by (auto simp: c)
  have "taken_at (pdi st1) (1024 * d - 1)" if d: "776 < d" "d < 1024" "pt_free (pdi st1 d) = 0" for d
  proof -
    have "taken_at (pdi st1) (1024 * d + 1)" using pages_inv_full [OF i, of d] d by (simp add: c)
    with d t1 [of "1024 * d + 1"] t1 [of "1024 * d - 1"] show ?thesis by auto
  qed
  moreover have "first_run (pdi st1) (unat (2000 :: u32)) 860160" by (rule first_runI) (use t1 in \<open>auto simp: c\<close>)
  ultimately obtain st2 where "alloc_pages st1 2000 = Inr (st2, word_of_nat (4096 * 860160))"
    using alloc_pages_first_fit [of 2000 st1 860160] i by (auto simp: c)
  with a show ?thesis by (auto simp: c)
qed

theorem alloc_pages_safe_witness:
  "\<exists>st' p. alloc_pages (paging_init 0xC0110000 0xC0120000 blank_paging) 2000 = Inr (st', word_of_nat (4096 * p)) \<and>
     pages_inv (pdi st') \<and> taken_at (pdi st') (p + 1999)"
proof -
  let ?st = "paging_init 0xC0110000 0xC0120000 blank_paging"
  have r: "first_run (pdi ?st) (unat (2000 :: u32)) base_page"
    by (intro fresh_first_run) (simp_all add: base_page_def num_pages_def FIRST_PDE_def)
  obtain st' where a: "alloc_pages ?st 2000 = Inr (st', word_of_nat (4096 * base_page))"
    using alloc_pages_first_run [OF _ r skips_ok_nonfull [OF paging_init_fresh(2)]] by auto
  from alloc_pages_safe [OF a _ paging_init_fresh(1)] a show ?thesis by fastforce
qed

text \<open>
  When every table is full, \<^verbatim>\<open>alloc_pages\<close> does not return: the test that should give up compares the loop
  variable with a value it never has inside the loop, so the search starts over for ever instead of returning
  \<^verbatim>\<open>NULL\<close>.
\<close>

theorem alloc_pages_exhausted_hangs:
  assumes "\<forall>d. FIRST_PDE \<le> d \<and> d < 1024 \<longrightarrow> pt_free (pdi st d) = 0" "0 < unat n"
  shows "alloc_pages st n = Inl Hang"
proof -
  have "search_loop (pdi st) (unat n) 0 None None True = None"
    using search_all_full [of "pdi st" "unat n" 0 None None True] assms
    by (cases "search_loop (pdi st) (unat n) 0 None None True") auto
  then show ?thesis by (simp add: alloc_pages_def)
qed

theorem alloc_pages_exhausted_hangs_witness: "alloc_pages blank_paging 1 = Inl Hang"
  by (rule alloc_pages_exhausted_hangs) (simp_all add: blank_paging_def)

lemma free_pages_inv:
  assumes p: "p + unat n \<le> num_pages" "p < num_pages" "p mod 1024 < 16" and t: "\<forall>k. p \<le> k \<and> k < p + unat n \<longrightarrow> taken_at (pdi st) k"
    and i: "pages_inv (pdi st)" and f: "free_pages st (word_of_nat (4096 * p)) n = Inr st'"
  shows "pages_inv (pdi st') \<and> pd_entries st' = pd_entries st \<and> kpts st' = kpts st"
proof -
  have "p mod 1024 mod 16 = p mod 16" by (simp add: mod_mod_cancel)
  with p(3) have "p mod 16 = p mod 1024" by simp
  then have "calc_pd_offset (word_of_nat (4096 * p)) = pde_of p" "calc_pt_offset (word_of_nat (4096 * p)) = pte_of p"
    using calc_offsets [OF p(2)] by simp_all
  with f obtain info where "unmark_pages (pdi st) (unat n) (pde_of p) (pte_of p) = Inr info" "st' = st\<lparr>pdi := info\<rparr>"
    by (auto simp: free_pages_def rbind_Inr_iff)
  with unmark_pages_inv [OF p(1) t i] show ?thesis by simp
qed

text \<open>
  C28. \<^verbatim>\<open>free_pages\<close> undoes \<^verbatim>\<open>alloc_pages\<close> when the run starts at one of the first 16 pages of a table: the same pages are
  taken as before, and every table of the dynamic area counts as many free pages as before; the page tables are not touched.
\<close>

theorem alloc_free_pages_roundtrip:
  assumes "alloc_pages st n = Inr (st1, a)" "0 < unat n" "pages_inv (pdi st)" "unat a div 4096 mod 1024 < 16"
  shows "\<exists>st2. free_pages st1 a n = Inr st2 \<and> taken_at (pdi st2) = taken_at (pdi st) \<and>
    (\<forall>d. FIRST_PDE \<le> d \<and> d < 1024 \<longrightarrow> pt_free (pdi st2 d) = pt_free (pdi st d)) \<and>
    pages_inv (pdi st2) \<and> pd_entries st2 = pd_entries st \<and> kpts st2 = kpts st"
proof -
  from alloc_pages_sound [OF assms(1,2)] assms(3) obtain p where
    p: "a = word_of_nat (4096 * p)" "free_run (pdi st) p (unat n)"
    "\<forall>k. taken_at (pdi st1) k \<longleftrightarrow> taken_at (pdi st) k \<or> p \<le> k \<and> k < p + unat n"
    "pages_inv (pdi st1)" "pd_entries st1 = pd_entries st" "kpts st1 = kpts st" by blast
  then have lt: "p < num_pages" "p + unat n \<le> num_pages" using assms(2) by (auto simp: free_run_def)
  then have "unat a = 4096 * p" unfolding p(1) by (intro unat_word32_of_nat) (simp add: num_pages_def)
  with assms(4) have m: "p mod 1024 < 16" by simp
  then have "freed_from p = p" by (simp add: freed_from_def)
  with free_pages_run [OF lt(1), of n st1] lt(2) obtain st2 where
    s: "free_pages st1 a n = Inr st2" "\<forall>k. taken_at (pdi st2) k \<longleftrightarrow> taken_at (pdi st1) k \<and> \<not> (p \<le> k \<and> k < p + unat n)"
    unfolding p(1) by auto
  have tk: "taken_at (pdi st2) k = taken_at (pdi st) k" for k
    using s(2) p(2,3) by (auto simp: free_run_def)
  have i: "pages_inv (pdi st2)" "pd_entries st2 = pd_entries st" "kpts st2 = kpts st"
    using free_pages_inv [OF lt(2,1) m _ p(4) s(1) [unfolded p(1)]] p(3,5,6) by auto
  have "pt_free (pdi st2 d) = pt_free (pdi st d)" if d: "FIRST_PDE \<le> d" "d < 1024" for d
  proof -
    have "pt_taken (pdi st2 d) j = pt_taken (pdi st d) j" if "j < 1024" for j
      using tk [of "1024 * d + j"] that by (simp add: taken_at_def)
    then have "free_count (pt_taken (pdi st2 d)) = free_count (pt_taken (pdi st d))" by (simp add: free_count_def cong: conj_cong)
    then show ?thesis using i(1) assms(3) d by (simp add: pages_inv_def word_unat_eq_iff)
  qed
  with s(1) tk i show ?thesis by (auto simp: fun_eq_iff)
qed

theorem alloc_free_pages_roundtrip_witness:
  "\<exists>st1 st2. alloc_pages (paging_init 0xC0110000 0xC0120000 blank_paging) 2000 = Inr (st1, 0xC2000000) \<and>
     free_pages st1 0xC2000000 2000 = Inr st2 \<and>
     taken_at (pdi st2) = taken_at (pdi (paging_init 0xC0110000 0xC0120000 blank_paging)) \<and> pages_inv (pdi st2)"
proof -
  let ?st = "paging_init 0xC0110000 0xC0120000 blank_paging"
  have r: "first_run (pdi ?st) (unat (2000 :: u32)) base_page"
    by (intro fresh_first_run) (simp_all add: base_page_def num_pages_def FIRST_PDE_def)
  obtain st1 where a: "alloc_pages ?st 2000 = Inr (st1, 0xC2000000)"
    using alloc_pages_first_run [OF _ r skips_ok_nonfull [OF paging_init_fresh(2)]] by (auto simp: base_page_def FIRST_PDE_def)
  from alloc_free_pages_roundtrip [OF a _ paging_init_fresh(1)] a show ?thesis by auto
qed

text \<open>
  C39. \<^verbatim>\<open>free_pages\<close> releases the wrong pages when the run starts behind the first 16 pages of a table: the pages it
  was given keep their state and the run that starts at the table index modulo 16 becomes free, whoever owns
  it.
\<close>

theorem free_pages_wrong_run:
  assumes "p < num_pages" "16 \<le> p mod 1024" "0 < unat n" "freed_from p + unat n \<le> p"
  shows "\<exists>st'. free_pages st (word_of_nat (4096 * p)) n = Inr st' \<and>
    (\<forall>k. p \<le> k \<longrightarrow> taken_at (pdi st') k = taken_at (pdi st) k) \<and> \<not> taken_at (pdi st') (freed_from p)"
proof -
  have "freed_from p + unat n \<le> num_pages" using assms(1,4) by simp
  from free_pages_run [OF assms(1) this, of st] assms(3,4) show ?thesis by fastforce
qed

theorem free_pages_wrong_run_witness:
  "\<exists>st'. free_pages blank_paging 0xC2010000 1 = Inr st' \<and> taken_at (pdi st') 794640 \<and> \<not> taken_at (pdi st') 794624"
proof -
  have "\<exists>st'. free_pages blank_paging (word_of_nat (4096 * 794640)) 1 = Inr st' \<and>
    (\<forall>k. 794640 \<le> k \<longrightarrow> taken_at (pdi st') k = taken_at (pdi blank_paging) k) \<and> \<not> taken_at (pdi st') (freed_from 794640)"
    by (rule free_pages_wrong_run) (simp_all add: num_pages_def freed_from_def)
  then show ?thesis by (auto simp: freed_from_def taken_at_def blank_paging_def)
qed

end
