(* ===== verification/Context_Switch.thy ===== *)
theory Context_Switch
  imports Heap_Spec
begin

unbundle bit_operations_syntax

text \<open>
  Kernel threads at the machine level: the stack a new thread starts on
  (\<^verbatim>\<open>src/src/kernel/arch/i386/proc/stack.cpp\<close>, \<^verbatim>\<open>getstack\<close> of \<^verbatim>\<open>proc_x86.cpp\<close>), the context switch
  (\<^verbatim>\<open>ctxswitch.s\<close>, one model instruction per machine instruction) and the interrupt mask functions of
  \<^verbatim>\<open>interrupt_x86.s\<close>. Memory is word-addressed: all accesses here are words at a common alignment.
\<close>

section \<open>The initial stack of a thread\<close>

type_synonym wmem = "addr \<Rightarrow> u32"

text \<open>The loop \<^verbatim>\<open>*stack-- = *argcurr--\<close>: the arguments from the last to the first, towards lower addresses.\<close>

fun store_args :: "wmem \<Rightarrow> addr \<Rightarrow> u32 list \<Rightarrow> wmem \<times> addr" where
  "store_args m stack [] = (m, stack)"
| "store_args m stack (a # args) = store_args (m(stack := a)) (stack - 4) args"

text \<open>\<open>initret\<close> is the address of \<^verbatim>\<open>userret\<close>; \<open>args\<close> are the \<^verbatim>\<open>nargs\<close> words from \<^verbatim>\<open>argstart\<close> on.\<close>

definition create_stack :: "addr \<Rightarrow> wmem \<Rightarrow> u32 \<Rightarrow> addr \<Rightarrow> u32 list \<Rightarrow> wmem \<times> addr" where
  "create_stack initret m code stack args =
     (let (m1, s1) = store_args m stack (rev args);
          m2 = m1(s1 := initret);
          s = s1 - 4
      in (m2(s := code,
             s - 4 := s - 4,
             s - 8 := 0x0200,
             s - 12 := 0,
             s - 16 := 0,
             s - 20 := 0,
             s - 24 := 0,
             s - 28 := s - 8,
             s - 32 := s - 4,
             s - 36 := 0,
             s - 40 := 0), s - 40))"

text \<open>
  \<^verbatim>\<open>getstack\<close>: pointer arithmetic on \<^verbatim>\<open>uint32_t*\<close> counts words, so \<^verbatim>\<open>*stackmem + size\<close> is \<open>4 * size\<close> bytes away.
\<close>

definition getstack :: "block \<Rightarrow> u32 \<Rightarrow> (block \<times> addr \<times> addr) result" where
  "getstack h sz = rbind (kmalloc h sz) (\<lambda>(h', stackmem).
     let stacktop = stackmem + 4 * sz;
         remain = stacktop mod 16;
         stacktop' = (if remain \<noteq> 0 then stacktop - 4 * (16 - remain) else stacktop)
     in Inr (h', stacktop', stackmem))"

section \<open>The context switch\<close>

record cpu =
  eax :: u32
  ecx :: u32
  edx :: u32
  ebx :: u32
  esp :: u32
  ebp :: u32
  esi :: u32
  edi :: u32
  eflags :: u32
  eip :: u32
  mem :: wmem

definition push :: "u32 \<Rightarrow> 'a cpu_scheme \<Rightarrow> 'a cpu_scheme" where
  "push v s = s\<lparr>esp := esp s - 4, mem := (mem s)(esp s - 4 := v)\<rparr>"

definition pop :: "'a cpu_scheme \<Rightarrow> u32 \<times> 'a cpu_scheme" where
  "pop s = (mem s (esp s), s\<lparr>esp := esp s + 4\<rparr>)"

definition pusha :: "'a cpu_scheme \<Rightarrow> 'a cpu_scheme" where
  "pusha s =
     (let temp = esp s
      in push (edi s) (push (esi s) (push (ebp s) (push temp (push (ebx s) (push (edx s) (push (ecx s) (push (eax s) s))))))))"

text \<open>\<^verbatim>\<open>popa\<close> discards the saved stack pointer.\<close>

definition popa :: "'a cpu_scheme \<Rightarrow> 'a cpu_scheme" where
  "popa s =
     (let (v_edi, s1) = pop s;
          (v_esi, s2) = pop s1;
          (v_ebp, s3) = pop s2;
          (_, s4) = pop s3;
          (v_ebx, s5) = pop s4;
          (v_edx, s6) = pop s5;
          (v_ecx, s7) = pop s6;
          (v_eax, s8) = pop s7
      in s8\<lparr>edi := v_edi, esi := v_esi, ebp := v_ebp, ebx := v_ebx, edx := v_edx, ecx := v_ecx, eax := v_eax\<rparr>)"

text \<open>
  \<^verbatim>\<open>ctxswitch\<close>, entered with the return address at \<^verbatim>\<open>[esp]\<close>, the address of the old stack pointer at
  \<^verbatim>\<open>[esp + 4]\<close> and that of the new one at \<^verbatim>\<open>[esp + 8]\<close>. The first half saves the running thread, the second
  resumes the other.
\<close>

definition ctx_save :: "'a cpu_scheme \<Rightarrow> 'a cpu_scheme" where
  "ctx_save s0 =
     (let s1 = push (ebp s0) s0;
          s2 = s1\<lparr>ebp := esp s1\<rparr>;
          s3 = push (eflags s2) s2;
          s4 = pusha s3;
          s5 = s4\<lparr>eax := mem s4 (ebp s4 + 8)\<rparr>
      in s5\<lparr>mem := (mem s5)(eax s5 := esp s5)\<rparr>)"

definition ctx_restore :: "'a cpu_scheme \<Rightarrow> 'a cpu_scheme" where
  "ctx_restore s0 =
     (let s1 = s0\<lparr>eax := mem s0 (ebp s0 + 12)\<rparr>;
          s2 = s1\<lparr>esp := mem s1 (eax s1)\<rparr>;
          s3 = popa s2;
          s4 = s3\<lparr>ebp := mem s3 (esp s3 + 4)\<rparr>;
          (fl, s5) = pop s4;
          s6 = s5\<lparr>eflags := fl\<rparr>;
          s7 = s6\<lparr>esp := esp s6 + 4\<rparr>;
          (ret, s8) = pop s7
      in s8\<lparr>eip := ret\<rparr>)"

definition ctxswitch :: "'a cpu_scheme \<Rightarrow> 'a cpu_scheme" where
  "ctxswitch s = ctx_restore (ctx_save s)"

section \<open>Interrupt masks\<close>

text \<open>
  The masks of the two interrupt controllers as one 16-bit register, and the interrupt flag. \<^verbatim>\<open>disable\<close> returns
  the complement of the mask; its \<^verbatim>\<open>popf\<close> restores flags saved after \<^verbatim>\<open>cli\<close>, so interrupts stay off.
  \<^verbatim>\<open>restore\<close> ends in \<^verbatim>\<open>sti\<close> whatever the flag was before.
\<close>

record intr =
  imr :: u16
  iflag :: bool

definition girmask :: u16 where
  "girmask = 0xfffb"

definition intr_enable :: "intr \<Rightarrow> intr" where
  "intr_enable i = i\<lparr>imr := girmask, iflag := True\<rparr>"

definition intr_disable :: "intr \<Rightarrow> u16 \<times> intr" where
  "intr_disable i = (NOT (imr i), i\<lparr>imr := 0xffff, iflag := False\<rparr>)"

definition intr_restore :: "u16 \<Rightarrow> intr \<Rightarrow> intr" where
  "intr_restore ps i = i\<lparr>imr := NOT ps AND girmask, iflag := True\<rparr>"

definition getirmask :: "intr \<Rightarrow> u16" where
  "getirmask i = imr i"

section \<open>Properties of the pieces\<close>

lemma intr_disable_restore:
  "intr_disable i = (ps, i') \<Longrightarrow> intr_restore ps i' = \<lparr>imr = imr i AND girmask, iflag = True\<rparr>"
  by (auto simp: intr_disable_def intr_restore_def)

text \<open>Where the arguments are.\<close>

lemma store_args_sp: "snd (store_args m s args) = s - 4 * word_of_nat (length args)"
proof (induction args arbitrary: m s)
  case Nil
  then show ?case by simp
next
  case (Cons a args)
  have "snd (store_args m s (a # args)) = s - 4 - 4 * word_of_nat (length args)"
    by (simp only: store_args.simps Cons.IH)
  then show ?case by (simp add: algebra_simps)
qed

lemma store_args_outside:
  assumes "\<And>k. k < length args \<Longrightarrow> x \<noteq> s - 4 * word_of_nat k"
  shows "fst (store_args m s args) x = m x"
  using assms
proof (induction args arbitrary: m s)
  case Nil
  then show ?case by simp
next
  case (Cons a args)
  have "x \<noteq> (s - 4) - 4 * word_of_nat k" if "k < length args" for k
    using Cons.prems [of "Suc k"] that by (simp add: algebra_simps)
  moreover have "x \<noteq> s" using Cons.prems [of 0] by simp
  ultimately show ?case using Cons.IH [of "s - 4" "m(s := a)"] by (simp add: fun_upd_def)
qed

text \<open>Multiples of 4 below the wrap-around are different offsets.\<close>

lemma word4_inject:
  assumes "i < 2 ^ 30" "j < 2 ^ 30"
  shows "(4 :: u32) * word_of_nat i = 4 * word_of_nat j \<longleftrightarrow> i = j"
proof -
  have e: "(4 :: u32) * word_of_nat k = word_of_nat (4 * k)" for k by simp
  have "4 * i < 2 ^ 32" "4 * j < 2 ^ 32" using assms by simp_all
  from word32_of_nat_eq_iff [OF this] show ?thesis unfolding e by linarith
qed

lemma store_args_nth:
  assumes "k < length args" "length args < 2 ^ 30"
  shows "fst (store_args m s args) (s - 4 * word_of_nat k) = args ! k"
  using assms
proof (induction args arbitrary: m s k)
  case Nil
  then show ?case by simp
next
  case (Cons a args)
  show ?case
  proof (cases k)
    case 0
    have "s \<noteq> (s - 4) - 4 * word_of_nat j" if "j < length args" for j
    proof
      assume "s = (s - 4) - 4 * word_of_nat j"
      then have "4 * word_of_nat (Suc j) = (4 :: u32) * word_of_nat 0" by (simp add: algebra_simps)
      with word4_inject [of "Suc j" 0] that Cons.prems show False by simp
    qed
    with 0 store_args_outside [of args s "s - 4" "m(s := a)"] show ?thesis by simp
  next
    case (Suc j)
    have e: "s - 4 * word_of_nat (Suc j) = s - 4 - 4 * word_of_nat j" by (simp add: algebra_simps)
    show ?thesis unfolding Suc e using Suc Cons.IH [of j "m(s := a)" "s - 4"] Cons.prems
      by (simp add: fun_upd_def)
  qed
qed

section \<open>What the context switch does\<close>

lemmas machine_simps = push_def pop_def pusha_def popa_def ctx_save_def ctx_restore_def Let_def

text \<open>The frame \<^verbatim>\<open>ctxswitch\<close> saves, and what it makes of a frame it resumes.\<close>

lemma ctx_save_regs: "ebp (ctx_save s) = esp s - 4"
  by (simp add: machine_simps)

lemma ctx_save_mem:
  "mem (ctx_save s) = (mem s)(esp s - 4 := ebp s, esp s - 8 := eflags s, esp s - 12 := eax s, esp s - 16 := ecx s,
     esp s - 20 := edx s, esp s - 24 := ebx s, esp s - 28 := esp s - 8, esp s - 32 := esp s - 4, esp s - 36 := esi s,
     esp s - 40 := edi s, mem s (esp s + 4) := esp s - 40)"
  by (simp add: machine_simps) (simp only: add.commute [of 4])

lemma ctx_restore_result:
  assumes "sp = mem s (mem s (ebp s + 12))"
  shows "ctx_restore s = s\<lparr>eax := mem s (sp + 28), ecx := mem s (sp + 24), edx := mem s (sp + 20), ebx := mem s (sp + 16),
    esp := sp + 44, ebp := mem s (sp + 36), esi := mem s (sp + 4), edi := mem s sp, eflags := mem s (sp + 32),
    eip := mem s (sp + 40)\<rparr>"
  using assms by (simp add: machine_simps ac_simps)

text \<open>The words a save writes: ten below the stack pointer and the cell for the stack pointer.\<close>

definition save_writes :: "'a cpu_scheme \<Rightarrow> addr set" where
  "save_writes s = insert (mem s (esp s + 4)) {esp s - 4, esp s - 8, esp s - 12, esp s - 16, esp s - 20, esp s - 24,
     esp s - 28, esp s - 32, esp s - 36, esp s - 40}"

lemma ctx_save_other: "x \<notin> save_writes s \<Longrightarrow> mem (ctx_save s) x = mem s x"
  unfolding ctx_save_mem save_writes_def by simp

lemma ctxswitch_result:
  assumes "esp s + 8 \<notin> save_writes s" "mem s (esp s + 8) \<notin> save_writes s" "sp = mem s (mem s (esp s + 8))"
  shows "ctxswitch s = (ctx_save s)\<lparr>eax := mem (ctx_save s) (sp + 28), ecx := mem (ctx_save s) (sp + 24),
    edx := mem (ctx_save s) (sp + 20), ebx := mem (ctx_save s) (sp + 16), esp := sp + 44, ebp := mem (ctx_save s) (sp + 36),
    esi := mem (ctx_save s) (sp + 4), edi := mem (ctx_save s) sp, eflags := mem (ctx_save s) (sp + 32),
    eip := mem (ctx_save s) (sp + 40)\<rparr>"
proof -
  have e: "ebp (ctx_save s) + 12 = esp s + 8" by (simp add: ctx_save_regs)
  have "sp = mem (ctx_save s) (mem (ctx_save s) (ebp (ctx_save s) + 12))"
    unfolding e using assms by (simp add: ctx_save_other)
  from ctx_restore_result [OF this] show ?thesis by (simp add: ctxswitch_def)
qed

text \<open>The words of a saved frame, with the return address.\<close>

definition frame_words :: "addr \<Rightarrow> addr set" where
  "frame_words sp = {sp, sp + 4, sp + 8, sp + 12, sp + 16, sp + 20, sp + 24, sp + 28, sp + 32, sp + 36, sp + 40}"

lemma saved_frame:
  assumes "mem s (esp s + 4) \<notin> frame_words (esp s - 40)"
  shows "mem (ctx_save s) (esp s - 40) = edi s" "mem (ctx_save s) (esp s - 36) = esi s"
    "mem (ctx_save s) (esp s - 24) = ebx s" "mem (ctx_save s) (esp s - 20) = edx s"
    "mem (ctx_save s) (esp s - 16) = ecx s" "mem (ctx_save s) (esp s - 12) = eax s"
    "mem (ctx_save s) (esp s - 8) = eflags s" "mem (ctx_save s) (esp s - 4) = ebp s"
    "mem (ctx_save s) (esp s) = mem s (esp s)"
proof -
  have n: "mem s (esp s + 4) \<noteq> esp s - 40" "mem s (esp s + 4) \<noteq> esp s - 36" "mem s (esp s + 4) \<noteq> esp s - 24"
    "mem s (esp s + 4) \<noteq> esp s - 20" "mem s (esp s + 4) \<noteq> esp s - 16" "mem s (esp s + 4) \<noteq> esp s - 12"
    "mem s (esp s + 4) \<noteq> esp s - 8" "mem s (esp s + 4) \<noteq> esp s - 4" "mem s (esp s + 4) \<noteq> esp s"
    using assms by (simp_all add: frame_words_def)
  show "mem (ctx_save s) (esp s - 40) = edi s" using n(1) unfolding ctx_save_mem by simp
  show "mem (ctx_save s) (esp s - 36) = esi s" using n(2) unfolding ctx_save_mem by simp
  show "mem (ctx_save s) (esp s - 24) = ebx s" using n(3) unfolding ctx_save_mem by simp
  show "mem (ctx_save s) (esp s - 20) = edx s" using n(4) unfolding ctx_save_mem by simp
  show "mem (ctx_save s) (esp s - 16) = ecx s" using n(5) unfolding ctx_save_mem by simp
  show "mem (ctx_save s) (esp s - 12) = eax s" using n(6) unfolding ctx_save_mem by simp
  show "mem (ctx_save s) (esp s - 8) = eflags s" using n(7) unfolding ctx_save_mem by simp
  show "mem (ctx_save s) (esp s - 4) = ebp s" using n(8) unfolding ctx_save_mem by simp
  show "mem (ctx_save s) (esp s) = mem s (esp s)" using n(9) unfolding ctx_save_mem by simp
qed

lemma ctxswitch_back:
  assumes saved: "mem s1 (esp s1 + 4) \<notin> frame_words (esp s1 - 40)"
    and kept: "\<forall>x \<in> frame_words (esp s1 - 40). mem s2 x = mem (ctx_save s1) x"
    and target: "mem s2 (mem s2 (esp s2 + 8)) = esp s1 - 40"
    and apart: "save_writes s2 \<inter> (frame_words (esp s1 - 40) \<union> {esp s2 + 8, mem s2 (esp s2 + 8)}) = {}"
  shows "eip (ctxswitch s2) = mem s1 (esp s1) \<and> esp (ctxswitch s2) = esp s1 + 4 \<and> eax (ctxswitch s2) = eax s1 \<and>
    ecx (ctxswitch s2) = ecx s1 \<and> edx (ctxswitch s2) = edx s1 \<and> ebx (ctxswitch s2) = ebx s1 \<and> ebp (ctxswitch s2) = ebp s1 \<and> esi (ctxswitch s2) = esi s1 \<and> edi (ctxswitch s2) = edi s1 \<and>
    eflags (ctxswitch s2) = eflags s1"
proof -
  let ?sp = "esp s1 - 40"
  have a: "esp s2 + 8 \<notin> save_writes s2" "mem s2 (esp s2 + 8) \<notin> save_writes s2"
    using apart by auto
  have r: "mem (ctx_save s2) x = mem (ctx_save s1) x" if "x \<in> frame_words ?sp" for x
  proof -
    have "x \<notin> save_writes s2" using apart that by blast
    then show ?thesis using kept that by (simp add: ctx_save_other)
  qed
  have o: "?sp + 4 = esp s1 - 36" "?sp + 16 = esp s1 - 24" "?sp + 20 = esp s1 - 20" "?sp + 24 = esp s1 - 16"
    "?sp + 28 = esp s1 - 12" "?sp + 32 = esp s1 - 8" "?sp + 36 = esp s1 - 4" "?sp + 40 = esp s1" "?sp + 44 = esp s1 + 4"
    by simp_all
  have fw: "?sp \<in> frame_words ?sp" "esp s1 - 36 \<in> frame_words ?sp" "esp s1 - 24 \<in> frame_words ?sp"
    "esp s1 - 20 \<in> frame_words ?sp" "esp s1 - 16 \<in> frame_words ?sp" "esp s1 - 12 \<in> frame_words ?sp"
    "esp s1 - 8 \<in> frame_words ?sp" "esp s1 - 4 \<in> frame_words ?sp" "esp s1 \<in> frame_words ?sp"
    by (simp_all add: frame_words_def)
  show ?thesis
    unfolding ctxswitch_result [OF a target [symmetric]] o
    by (simp add: r [OF fw(1)] r [OF fw(2)] r [OF fw(3)] r [OF fw(4)] r [OF fw(5)] r [OF fw(6)] r [OF fw(7)] r [OF fw(8)]
      r [OF fw(9)] saved_frame [OF saved])
qed

section \<open>Properties\<close>


text \<open>A machine with one thread whose stack pointer cell is at 100 and another whose cell is at 104.\<close>

definition demo_cpu :: cpu where
  "demo_cpu = \<lparr>eax = 1, ecx = 2, edx = 3, ebx = 4, esp = 1000, ebp = 5, esi = 6, edi = 7, eflags = 0x202, eip = 0,
     mem = (\<lambda>_. 0)(1000 := 77, 1004 := 100, 1008 := 104, 104 := 2000)\<rparr>"

text \<open>The second thread calls \<^verbatim>\<open>ctxswitch\<close> from a stack at 3000 to go back to the first.\<close>

definition demo_cpu2 :: cpu where
  "demo_cpu2 = demo_cpu\<lparr>esp := 3000, mem := (mem (ctx_save demo_cpu))(3000 := 88, 3004 := 104, 3008 := 100)\<rparr>"


lemma create_stack_frame:
  assumes "create_stack initret m code stack args = (m', sp)" "length args < 2 ^ 29"
  shows "m' sp = 0" "m' (sp + 4) = 0" "m' (sp + 16) = 0" "m' (sp + 20) = 0" "m' (sp + 24) = 0" "m' (sp + 28) = 0"
    "m' (sp + 32) = 0x200" "m' (sp + 36) = sp + 36" "m' (sp + 40) = code" "m' (sp + 44) = initret"
    and "\<And>k. k < length args \<Longrightarrow> m' (sp + 48 + 4 * word_of_nat k) = args ! k"
proof -
  let ?n = "length args"
  define m1 where "m1 = fst (store_args m stack (rev args))"
  define s where "s = stack - 4 * word_of_nat ?n - 4"
  have st: "store_args m stack (rev args) = (m1, s + 4)"
    using store_args_sp [of m stack "rev args"] by (simp add: m1_def s_def prod_eq_iff)
  have sp: "sp = s - 40" and m': "m' = m1(s + 4 := initret, s := code, s - 4 := s - 4, s - 8 := 0x0200, s - 12 := 0,
      s - 16 := 0, s - 20 := 0, s - 24 := 0, s - 28 := s - 8, s - 32 := s - 4, s - 36 := 0, s - 40 := 0)"
    using assms(1) by (auto simp: create_stack_def st)
  show "m' sp = 0" "m' (sp + 4) = 0" "m' (sp + 16) = 0" "m' (sp + 20) = 0" "m' (sp + 24) = 0" "m' (sp + 28) = 0"
    "m' (sp + 32) = 0x200" "m' (sp + 36) = sp + 36" "m' (sp + 40) = code" "m' (sp + 44) = initret"
    unfolding m' sp by simp_all
  fix k assume k: "k < ?n"
  define z where "z = sp + 48 + 4 * word_of_nat k"
  have far: "z \<noteq> s + 4 - 4 * word_of_nat j" if "j < 12" for j
  proof
    assume "z = s + 4 - 4 * word_of_nat j"
    then have "(4 :: u32) * word_of_nat (k + 1 + j) = 4 * word_of_nat 0" by (simp add: z_def sp algebra_simps)
    with word4_inject [of "k + 1 + j" 0] k assms(2) that show False by simp
  qed
  have "z \<noteq> s + 4" "z \<noteq> s" "z \<noteq> s - 4" "z \<noteq> s - 8" "z \<noteq> s - 12" "z \<noteq> s - 16" "z \<noteq> s - 20"
    "z \<noteq> s - 24" "z \<noteq> s - 28" "z \<noteq> s - 32" "z \<noteq> s - 36" "z \<noteq> s - 40"
    using far [of 0] far [of 1] far [of 2] far [of 3] far [of 4] far [of 5] far [of 6] far [of 7] far [of 8] far [of 9]
      far [of 10] far [of 11] by simp_all
  then have "m' z = m1 z" unfolding m' by simp
  moreover have "z = stack - 4 * word_of_nat (?n - 1 - k)"
    using k by (simp add: z_def sp s_def of_nat_diff algebra_simps)
  moreover have "m1 (stack - 4 * word_of_nat (?n - 1 - k)) = rev args ! (?n - 1 - k)"
    unfolding m1_def using k assms(2) by (intro store_args_nth) simp_all
  ultimately show "m' (sp + 48 + 4 * word_of_nat k) = args ! k" using k by (simp add: rev_nth flip: z_def)
qed



text \<open>
  C40. The stack of a new thread is not the memory allocated for it: \<^verbatim>\<open>getstack\<close> allocates \<open>sz\<close> bytes and returns a
  stack top four times that far away, more than \<open>2 * sz\<close> bytes past the end of the block, and its correction
  for 16-byte alignment, made in words instead of bytes, leaves the alignment as it was.
\<close>

theorem getstack_misplaced:
  assumes a: "kmalloc h sz = Inr (h', a)" and top: "unat a + 4 * unat sz < 2 ^ 32" and sz: "16384 \<le> unat sz"
    and al: "unat a mod 4 = 0"
  shows "\<exists>t. getstack h sz = Inr (h', t, a) \<and> unat a + 3 * unat sz \<le> unat t \<and>
    unat t mod 16 = (unat a + 4 * unat sz) mod 16"
proof -
  define n where "n = unat a + 4 * unat sz"
  define r where "r = n mod 16"
  have "a + 4 * sz = word_of_nat n" by (simp add: n_def)
  moreover have un: "unat (word_of_nat n :: u32) = n" using top by (intro unat_word32_of_nat) (simp add: n_def)
  moreover have "(word_of_nat n :: u32) mod 16 = word_of_nat r"
    using un by (intro word32_eq_of_nat) (simp add: unat_mod r_def)
  moreover have r0: "(word_of_nat r :: u32) = 0 \<longleftrightarrow> r = 0" by (rule word32_of_nat_eq_0_iff) (simp add: r_def)
  ultimately have g: "getstack h sz = Inr (h', if r \<noteq> 0 then word_of_nat n - 4 * (16 - word_of_nat r) else word_of_nat n, a)"
    using a by (simp add: getstack_def Let_def)
  have "n mod 4 = 0" using al unfolding n_def by presburger
  then have r16: "r < 16" "r mod 4 = 0" by (simp_all add: r_def mod_mod_cancel)
  show ?thesis
  proof (cases "r = 0")
    case True
    with g un show ?thesis by (simp add: n_def)
  next
    case False
    define t where "t = n - 4 * (16 - r)"
    have t: "t + 4 * (16 - r) = n" using sz by (simp add: t_def n_def)
    have e: "(16 :: u32) - word_of_nat r = word_of_nat (16 - r)" using r16(1) by (simp add: of_nat_diff)
    have "(word_of_nat n :: u32) = word_of_nat t + 4 * word_of_nat (16 - r)"
      unfolding t [symmetric] by (simp del: diff_diff_left)
    then have "(word_of_nat n :: u32) - 4 * (16 - word_of_nat r) = word_of_nat t" unfolding e by simp
    moreover have "unat (word_of_nat t :: u32) = t" using top t by (intro unat_word32_of_nat) (simp add: n_def)
    moreover have "t mod 16 = n mod 16"
    proof -
      have "r = 4 \<or> r = 8 \<or> r = 12" using False r16 by presburger
      with t have "n = t + 3 * 16 \<or> n = t + 2 * 16 \<or> n = t + 1 * 16" by auto
      then show ?thesis by (elim disjE) (simp_all only: mod_mult_self1)
    qed
    moreover have "unat a + 3 * unat sz \<le> t" using t sz by (simp add: n_def)
    ultimately show ?thesis using g False by (simp add: n_def)
  qed
qed

theorem getstack_misplaced_witness:
  "\<exists>h' a t. kmalloc wide_heap 16384 = Inr (h', a) \<and> getstack wide_heap 16384 = Inr (h', t, a) \<and>
     unat a + 49152 \<le> unat t"
proof -
  have rel: "heap_rel wide_heap [(65520, False)]"
    using block_init_rel [of 4096 65536 demo_heap] by (simp add: wide_heap_def)
  have "fits_safely (unat (16384 :: u32)) [(65520, False)]" by (simp add: fits_safely_def)
  from block_allocate_Some [OF rel _ this, of 0] obtain h' where a: "kmalloc wide_heap 16384 = Inr (h', 4112)"
    by (auto simp: kmalloc_eq wide_heap_def block_init_def)
  from getstack_misplaced [OF a] a show ?thesis by auto
qed

end
