(* ===== verification/Process.thy ===== *)
theory Process
  imports Prio_Queue_Spec Context_Switch
begin

text \<open>
  Processes: \<^verbatim>\<open>src/src/kernel/include/kernel/proc/proc.h\<close>, \<^verbatim>\<open>kernel/proc/proc.cpp\<close>, the scheduler
  \<^verbatim>\<open>kernel/sched/sched.cpp\<close> and \<^verbatim>\<open>kthread_create\<close> of \<^verbatim>\<open>arch/i386/proc/proc_x86.cpp\<close>. The ready list is the
  priority queue of \<open>Prio_Queue\<close>, keyed by priority. A process identifier is an index into the process table;
  indices are checked here and not in the code. At this level a context switch stores the stack pointer of the
  old process; what it does to the machine is \<open>Context_Switch\<close>.
\<close>

section \<open>Process entries\<close>

datatype proc_status = PR_CURR | PR_RUNNABLE | PR_SUSPENDED | PR_DEAD | PR_NA

record proc_entry =
  pe_code :: addr
  pe_sp :: addr
  pe_stackmem :: addr
  pe_id :: int
  pe_status :: proc_status
  pe_prio :: int

definition PROC_ERR :: int where "PROC_ERR = -1"
definition PROC_OK :: int where "PROC_OK = 0"
definition PROC_NEX :: int where "PROC_NEX = 1"

definition ProcEntry_default :: proc_entry where
  "ProcEntry_default = \<lparr>pe_code = NULL, pe_sp = NULL, pe_stackmem = NULL, pe_id = -1, pe_status = PR_NA, pe_prio = 10\<rparr>"

definition ProcEntry_ctor :: "addr \<Rightarrow> addr \<Rightarrow> addr \<Rightarrow> int \<Rightarrow> proc_status \<Rightarrow> proc_entry" where
  "ProcEntry_ctor code sp stackmem prio status =
     \<lparr>pe_code = code, pe_sp = sp, pe_stackmem = stackmem, pe_id = -1, pe_status = status, pe_prio = prio\<rparr>"

definition pe_release :: "block \<Rightarrow> proc_entry \<Rightarrow> block \<times> proc_entry" where
  "pe_release h e = (kfree h (pe_stackmem e), e\<lparr>pe_stackmem := NULL\<rparr>)"

section \<open>The ready list\<close>

type_synonym pq = "(int, int) priority_queue"
type_synonym junk = "nat \<Rightarrow> (int, int) key_val"

record ready_list =
  rl_queue :: pq
  rl_count :: int

definition rl_insert :: "junk \<Rightarrow> block \<Rightarrow> ready_list \<Rightarrow> int \<Rightarrow> int \<Rightarrow> (block \<times> ready_list) result" where
  "rl_insert junk h rl pid prio = rbind (pq_insert junk h (rl_queue rl) \<lparr>key = prio, val = pid\<rparr>)
     (\<lambda>(h', q). Inr (h', \<lparr>rl_queue = q, rl_count = rl_count rl + 1\<rparr>))"

definition rl_erase :: "junk \<Rightarrow> block \<Rightarrow> ready_list \<Rightarrow> int \<Rightarrow> (block \<times> ready_list \<times> bool) result" where
  "rl_erase junk h rl pid = rbind (pq_erase junk h (rl_queue rl) pid)
     (\<lambda>(h', q, n). if n \<noteq> 0 then Inr (h', \<lparr>rl_queue = q, rl_count = rl_count rl - 1\<rparr>, True)
                   else Inr (h', rl\<lparr>rl_queue := q\<rparr>, False))"

definition rl_pop :: "ready_list \<Rightarrow> (int \<times> ready_list) result" where
  "rl_pop rl = rbind (pq_dequeue (rl_queue rl))
     (\<lambda>(kv, q). Inr (val kv, \<lparr>rl_queue = q, rl_count = rl_count rl - 1\<rparr>))"

definition rl_peek :: "ready_list \<Rightarrow> int result" where
  "rl_peek rl = rbind (pq_top (rl_queue rl)) (\<lambda>kv. Inr (val kv))"

section \<open>The process table\<close>

record proc_table =
  t_num :: int
  t_ready :: ready_list
  t_procs :: "proc_entry list"
  t_taken :: "bool list"

text \<open>
  The constructor does not initialise the counter of the ready list; \<open>cnt0\<close> is what the memory holds. The first
  component is the heap after the array of the ready list was allocated.
\<close>

definition ProcEntryTable_new :: "junk \<Rightarrow> int \<Rightarrow> block \<Rightarrow> (block \<times> proc_table) result" where
  "ProcEntryTable_new junk cnt0 h = rbind (pq_new_default junk h) (\<lambda>(h', q).
     Inr (h', \<lparr>t_num = 0, t_ready = \<lparr>rl_queue = q, rl_count = cnt0\<rparr>,
               t_procs = replicate 1024 ProcEntry_default, t_taken = replicate 1024 False\<rparr>))"

text \<open>The search loop of \<^verbatim>\<open>insert\<close>: the first free slot from \<open>i\<close> on, or the length of the table.\<close>

fun free_slot :: "bool list \<Rightarrow> nat \<Rightarrow> nat" where
  "free_slot [] i = i"
| "free_slot (b # bs) i = (if \<not> b then i else free_slot bs (Suc i))"

definition table_insert :: "junk \<Rightarrow> block \<Rightarrow> proc_table \<Rightarrow> proc_entry \<Rightarrow> (block \<times> proc_table \<times> int) result" where
  "table_insert junk h t e =
     (let i = free_slot (t_taken t) 0
      in if i = length (t_taken t) then Inr (h, t, -1)
         else
           let t1 = t\<lparr>t_procs := (t_procs t)[i := e\<lparr>pe_id := int i\<rparr>], t_taken := (t_taken t)[i := True],
                      t_num := t_num t + 1\<rparr>
           in if pe_status e = PR_RUNNABLE
              then rbind (rl_insert junk h (t_ready t1) (int i) (pe_prio e))
                     (\<lambda>(h', rl). Inr (h', t1\<lparr>t_ready := rl\<rparr>, int i))
              else Inr (h, t1, int i))"

definition table_erase :: "block \<Rightarrow> proc_table \<Rightarrow> int \<Rightarrow> (block \<times> proc_table \<times> bool) result" where
  "table_erase h t pid =
     (if pid < 1024 then
        rbind (rd (t_taken t) pid) (\<lambda>tk.
          if tk then
            rbind (wr (t_taken t) pid False) (\<lambda>taken.
            rbind (rd (t_procs t) pid) (\<lambda>e.
            let (h', e') = pe_release h e
            in rbind (wr (t_procs t) pid e') (\<lambda>ps.
               Inr (h', t\<lparr>t_taken := taken, t_procs := ps, t_num := t_num t - 1\<rparr>, True))))
          else Inr (h, t, False))
      else Inr (h, t, False))"

definition highestReadyPrio :: "proc_table \<Rightarrow> int result" where
  "highestReadyPrio t = rbind (rl_peek (t_ready t)) (\<lambda>pid. rbind (rd (t_procs t) pid) (\<lambda>e. Inr (pe_prio e)))"

definition scheduleNextTask :: "proc_table \<Rightarrow> (proc_table \<times> int) result" where
  "scheduleNextTask t = rbind (rl_pop (t_ready t)) (\<lambda>(pid, rl). Inr (t\<lparr>t_ready := rl\<rparr>, pid))"

definition readyCount :: "proc_table \<Rightarrow> int" where
  "readyCount t = rl_count (t_ready t)"

definition totalCount :: "proc_table \<Rightarrow> int" where
  "totalCount t = t_num t"

section \<open>The kernel's process state\<close>

text \<open>\<open>k_ptable\<close> is the pointer \<^verbatim>\<open>ptable\<close>; \<open>k_table\<close> is what it points to.\<close>

record kernel =
  k_heap :: block
  k_ptable :: addr
  k_table :: proc_table
  k_curr :: int
  k_intr :: intr
  k_mem :: wmem
  resched_counter :: u64
  switched_counter :: u64
  timerFired :: u64

abbreviation procs :: "kernel \<Rightarrow> proc_entry list" where
  "procs k \<equiv> t_procs (k_table k)"

definition set_table :: "(proc_table \<Rightarrow> proc_table) \<Rightarrow> kernel \<Rightarrow> kernel" where
  "set_table f k = k\<lparr>k_table := f (k_table k)\<rparr>"

text \<open>Updating the entry of a process through \<^verbatim>\<open>procent(pid)\<close>.\<close>

definition upd_proc :: "kernel \<Rightarrow> int \<Rightarrow> (proc_entry \<Rightarrow> proc_entry) \<Rightarrow> kernel result" where
  "upd_proc k pid f = rbind (rd (procs k) pid) (\<lambda>e. rbind (wr (procs k) pid (f e))
     (\<lambda>ps. Inr (set_table (\<lambda>t. t\<lparr>t_procs := ps\<rparr>) k)))"

definition getpid :: "kernel \<Rightarrow> int" where
  "getpid k = k_curr k"

definition procent :: "kernel \<Rightarrow> int \<Rightarrow> proc_entry result" where
  "procent k pid = rd (procs k) pid"

definition valid_status :: "proc_status \<Rightarrow> bool" where
  "valid_status s = (s = PR_RUNNABLE \<or> s = PR_CURR \<or> s = PR_SUSPENDED)"

definition isvalid :: "kernel \<Rightarrow> int \<Rightarrow> bool result" where
  "isvalid k pid = rbind (procent k pid) (\<lambda>e. Inr (valid_status (pe_status e)))"

text \<open>\<^verbatim>\<open>ready\<close> puts a process on the ready list; its status stays as it is.\<close>

definition ready :: "junk \<Rightarrow> kernel \<Rightarrow> int \<Rightarrow> (kernel \<times> int) result" where
  "ready junk k pid = rbind (isvalid k pid) (\<lambda>v.
     if \<not> v then Inr (k, PROC_NEX)
     else rbind (procent k pid) (\<lambda>p.
       if pe_status p = PR_RUNNABLE then Inr (k, PROC_ERR)
       else rbind (rl_insert junk (k_heap k) (t_ready (k_table k)) pid (pe_prio p)) (\<lambda>(h, rl).
         Inr (set_table (\<lambda>t. t\<lparr>t_ready := rl\<rparr>) (k\<lparr>k_heap := h\<rparr>), PROC_OK))))"

definition suspend :: "junk \<Rightarrow> kernel \<Rightarrow> int \<Rightarrow> (kernel \<times> int) result" where
  "suspend junk k pid = rbind (isvalid k pid) (\<lambda>v.
     if \<not> v then Inr (k, PROC_NEX)
     else rbind (procent k pid) (\<lambda>p.
       rbind (if pe_status p = PR_RUNNABLE
              then rbind (rl_erase junk (k_heap k) (t_ready (k_table k)) pid) (\<lambda>(h, rl, _).
                Inr (set_table (\<lambda>t. t\<lparr>t_ready := rl\<rparr>) (k\<lparr>k_heap := h\<rparr>)))
              else Inr k)
         (\<lambda>k1. rbind (upd_proc k1 pid (\<lambda>e. e\<lparr>pe_status := PR_SUSPENDED\<rparr>)) (\<lambda>k2. Inr (k2, PROC_OK)))))"

section \<open>The scheduler\<close>

text \<open>
  \<^verbatim>\<open>resched\<close>. \<open>sp\<close> is the stack pointer \<^verbatim>\<open>ctxswitch\<close> stores for the process it leaves. The interrupt mask is saved
  and restored on both return paths.
\<close>

definition resched_switch :: "junk \<Rightarrow> addr \<Rightarrow> u16 \<Rightarrow> int \<Rightarrow> kernel \<Rightarrow> kernel result" where
  "resched_switch junk sp imask oldpid k =
     rbind (scheduleNextTask (k_table k)) (\<lambda>(t, newpid).
     let k1 = k\<lparr>k_table := t, k_curr := newpid,
                switched_counter := (if newpid \<noteq> oldpid then switched_counter k + 1 else switched_counter k)\<rparr>
     in rbind (procent k1 oldpid) (\<lambda>procOld.
        rbind (if pe_status procOld = PR_RUNNABLE
               then rbind (rl_insert junk (k_heap k1) (t_ready (k_table k1)) oldpid (pe_prio procOld)) (\<lambda>(h, rl).
                 Inr (set_table (\<lambda>t. t\<lparr>t_ready := rl\<rparr>) (k1\<lparr>k_heap := h\<rparr>)))
               else Inr k1) (\<lambda>k2.
        rbind (upd_proc k2 newpid (\<lambda>e. e\<lparr>pe_status := PR_CURR\<rparr>)) (\<lambda>k3.
        let k4 = k3\<lparr>k_intr := intr_restore imask (k_intr k3)\<rparr>
        in upd_proc k4 oldpid (\<lambda>e. e\<lparr>pe_sp := sp\<rparr>)))))"

definition resched :: "junk \<Rightarrow> addr \<Rightarrow> kernel \<Rightarrow> kernel result" where
  "resched junk sp k =
     (let (imask, i) = intr_disable (k_intr k);
          k1 = k\<lparr>k_intr := i, resched_counter := resched_counter k + 1\<rparr>;
          oldpid = k_curr k1
      in rbind (procent k1 oldpid) (\<lambda>procOld.
         if pe_status procOld = PR_CURR then
           rbind (if readyCount (k_table k1) = 0 then Inr True
                  else rbind (highestReadyPrio (k_table k1)) (\<lambda>p. Inr (pe_prio procOld > p))) (\<lambda>stay.
           if stay then Inr (k1\<lparr>k_intr := intr_restore imask (k_intr k1)\<rparr>)
           else rbind (upd_proc k1 oldpid (\<lambda>e. e\<lparr>pe_status := PR_RUNNABLE\<rparr>)) (\<lambda>k2.
                resched_switch junk sp imask oldpid k2))
         else resched_switch junk sp imask oldpid k1))"

definition timerObserver :: "junk \<Rightarrow> addr \<Rightarrow> kernel \<Rightarrow> kernel result" where
  "timerObserver junk sp k = resched junk sp (k\<lparr>timerFired := timerFired k + 1\<rparr>)"

section \<open>Killing and creating\<close>

definition kill :: "junk \<Rightarrow> addr \<Rightarrow> kernel \<Rightarrow> int \<Rightarrow> (kernel \<times> int) result" where
  "kill junk sp k pid = rbind (isvalid k pid) (\<lambda>v.
     if \<not> v then Inr (k, PROC_NEX)
     else rbind (procent k pid) (\<lambda>p.
       rbind (if valid_status (pe_status p) then
                rbind (suspend junk k pid) (\<lambda>(k1, r).
                  if r = PROC_OK then
                    rbind (upd_proc k1 pid (\<lambda>e. e\<lparr>pe_status := PR_DEAD\<rparr>)) (\<lambda>k2.
                    rbind (procent k2 pid) (\<lambda>e.
                    let (h, e') = pe_release (k_heap k2) e
                    in rbind (upd_proc (k2\<lparr>k_heap := h\<rparr>) pid (\<lambda>_. e')) (\<lambda>k3. Inr (k3, PROC_OK))))
                  else Inr (k1, PROC_ERR))
              else Inr (k, PROC_NEX))
         (\<lambda>(k4, res). if res = PROC_OK then rbind (resched junk sp k4) (\<lambda>k5. Inr (k5, res)) else Inr (k4, res))))"

text \<open>A thread that returns from its function ends here.\<close>

definition userret :: "junk \<Rightarrow> addr \<Rightarrow> kernel \<Rightarrow> (kernel \<times> int) result" where
  "userret junk sp k = kill junk sp k (getpid k)"

definition MINSTACK :: u32 where
  "MINSTACK = 4 * 4096"

text \<open>The layout of the table: the count, the ready list of four words, 1024 entries of six words and 1024 flags.\<close>

definition sizeof_ProcEntryTable :: u32 where
  "sizeof_ProcEntryTable = 25620"

text \<open>
  \<^verbatim>\<open>create_stack\<close> does not write into the block \<^verbatim>\<open>getstack\<close> has allocated but more than twice its size behind it, wherever that is. What the
  kernel itself keeps in the heap are the headers of the chunks, the process table and the array of the ready list; they are
  components of the state of their own, so a store that hits one of them, or leaves the heap, is a fault here. All other
  words, those of free memory and of blocks, are \<open>k_mem\<close>.
\<close>

definition kernel_data :: "block \<Rightarrow> addr \<Rightarrow> pq \<Rightarrow> (nat \<times> nat) list" where
  "kernel_data h ptable q = (unat ptable, unat sizeof_ProcEntryTable) # (unat (pq_ptr q), 8 * nat (pq_size q)) #
     map (\<lambda>x. (x, 16)) (haddrs (unat (b_start h)) (chunks h))"

definition word_clear :: "block \<Rightarrow> (nat \<times> nat) list \<Rightarrow> addr \<Rightarrow> bool" where
  "word_clear h rs x \<longleftrightarrow> unat (b_start h) \<le> unat x \<and> unat x + 4 \<le> unat (b_start h) + unat (b_blockSize h) \<and>
     (\<forall>(a, n) \<in> set rs. unat x + 4 \<le> a \<or> a + n \<le> unat x)"

text \<open>The words \<^verbatim>\<open>create_stack\<close> stores for \<open>n\<close> arguments, from \<open>stackstart\<close> down.\<close>

definition frame_clear :: "block \<Rightarrow> (nat \<times> nat) list \<Rightarrow> addr \<Rightarrow> nat \<Rightarrow> bool" where
  "frame_clear h rs stackstart n \<longleftrightarrow> (\<forall>i \<in> set [0..<n + 12]. word_clear h rs (stackstart - 4 * word_of_nat i))"

definition kthread_create :: "junk \<Rightarrow> addr \<Rightarrow> addr \<Rightarrow> kernel \<Rightarrow> addr \<Rightarrow> u32 \<Rightarrow> int \<Rightarrow> proc_status \<Rightarrow> bool \<Rightarrow> u32 list
    \<Rightarrow> (kernel \<times> int) result" where
  "kthread_create junk initret sp k code stacksize prio start_status do_resched args =
     (let stacksize' = (if stacksize < MINSTACK then MINSTACK else stacksize)
      in rbind (getstack (k_heap k) stacksize') (\<lambda>(h, stackstart, stackmem).
         if \<not> frame_clear h (kernel_data h (k_ptable k) (rl_queue (t_ready (k_table k)))) stackstart (length args) then Inl OutOfBounds
         else let (m, stackpointer) = create_stack initret (k_mem k) code stackstart args
         in rbind (table_insert junk h (k_table k) (ProcEntry_ctor code stackpointer stackmem prio start_status))
              (\<lambda>(h', t, pid).
                 let k1 = k\<lparr>k_heap := h', k_mem := m, k_table := t\<rparr>
                 in if do_resched then rbind (resched junk sp k1) (\<lambda>k2. Inr (k2, pid)) else Inr (k1, pid))))"

text \<open>\<^verbatim>\<open>processes::init\<close>: the null process gets pid 0, the boot thread pid 1.\<close>

definition processes_init :: "junk \<Rightarrow> int \<Rightarrow> addr \<Rightarrow> addr \<Rightarrow> kernel \<Rightarrow> kernel result" where
  "processes_init junk cnt0 initret nullproc k =
     rbind (operator_new (k_heap k) sizeof_ProcEntryTable) (\<lambda>(h, p).
     if p = NULL then Inl NullAccess
     else rbind (ProcEntryTable_new junk cnt0 h) (\<lambda>(h1, t).
       let k1 = k\<lparr>k_curr := 1, k_heap := h1, k_ptable := p, k_table := t\<rparr>
       in rbind (kthread_create junk initret NULL k1 nullproc MINSTACK 0 PR_RUNNABLE False []) (\<lambda>(k2, _).
          rbind (table_insert junk (k_heap k2) (k_table k2) (ProcEntry_ctor NULL NULL NULL 10 PR_CURR)) (\<lambda>(h3, t3, mainid).
          if mainid \<noteq> 1 then Inl Hang else Inr (k2\<lparr>k_heap := h3, k_table := t3\<rparr>)))))"

end
