(* ===== verification/Thread_Stacks.thy ===== *)
theory Thread_Stacks
  imports Process
begin

text \<open>
  Where the initial stack of a thread comes to lie. It is not the block allocated for it (\<open>getstack_misplaced\<close>), so
  \<^verbatim>\<open>kthread_create\<close> can overwrite anything in the heap. \<open>stack_clear\<close> says that it spares what the kernel itself keeps
  there; this holds as long as the stacks are cut from the free chunk at the end of the heap, as they are until a thread dies.
\<close>

abbreviation ready_queue :: "kernel \<Rightarrow> pq" where
  "ready_queue k \<equiv> rl_queue (t_ready (k_table k))"

text \<open>The stack of the next thread with \<open>sz\<close> bytes and \<open>n\<close> arguments spares the headers, the process table and the ready list.\<close>

definition stack_clear :: "kernel \<Rightarrow> u32 \<Rightarrow> nat \<Rightarrow> bool" where
  "stack_clear k sz n = (case getstack (k_heap k) sz of Inl _ \<Rightarrow> False
     | Inr (h, t, a) \<Rightarrow> frame_clear h (kernel_data h (k_ptable k) (ready_queue k)) t n)"

lemma stack_clear_getstack:
  "getstack (k_heap k) sz = Inr (h, t, a) \<Longrightarrow>
   stack_clear k sz n \<longleftrightarrow> frame_clear h (kernel_data h (k_ptable k) (ready_queue k)) t n"
  by (simp add: stack_clear_def)

text \<open>A call that returns has stored its stack there; one that would not is caught.\<close>

lemma kthread_create_clear:
  assumes "kthread_create junk initret sp k code sz prio st now args = Inr r" "MINSTACK \<le> sz"
  shows "stack_clear k sz (length args)"
  using assms leD [OF assms(2)] unfolding kthread_create_def Let_def
  by (elim rbind_InrE) (auto simp: stack_clear_getstack split: if_splits)

lemma kthread_create_unclear:
  assumes "getstack (k_heap k) sz = Inr r" "MINSTACK \<le> sz" "\<not> stack_clear k sz (length args)"
  shows "kthread_create junk initret sp k code sz prio st now args = Inl OutOfBounds"
  using assms leD [OF assms(2)] by (cases r) (simp add: kthread_create_def Let_def stack_clear_getstack)

text \<open>The entry that is inserted, and into which heap.\<close>

lemma kthread_create_insert:
  assumes "kthread_create junk initret sp k code sz prio st False args = Inr (k', pid)"
  obtains h t a e where "getstack (k_heap k) (if sz < MINSTACK then MINSTACK else sz) = Inr (h, t, a)"
    "table_insert junk h (k_table k) e = Inr (k_heap k', k_table k', pid)" "pe_status e = st" "pe_prio e = prio" "k_ptable k' = k_ptable k"
  using assms unfolding kthread_create_def Let_def
  by (elim rbind_InrE) (auto simp: split_def rbind_Inr_iff ProcEntry_ctor_def split: if_splits)

section \<open>Stacks at the end of the heap\<close>

text \<open>Words above everything the kernel keeps are clear.\<close>

lemma frame_clear_above:
  assumes "\<forall>(a, n) \<in> set rs. a + n \<le> L" "unat (b_start h) \<le> L" "L + 4 * (n + 11) \<le> unat t"
    "unat t + 4 \<le> unat (b_start h) + unat (b_blockSize h)"
  shows "frame_clear h rs t n"
proof -
  have "word_clear h rs (t - 4 * word_of_nat i)" if i: "i < n + 12" for i
  proof -
    have "unat t < 2 ^ 32" by (rule order.strict_trans2 [OF unsigned_less]) simp
    moreover have "4 * i \<le> unat t" using assms(3) i by simp
    ultimately have "4 * i < 2 ^ 32" by (rule order.strict_trans1 [rotated])
    then have "unat (word_of_nat (4 * i) :: addr) = 4 * i" by (rule unat_word32_of_nat)
    then have "unat (4 * word_of_nat i :: addr) = 4 * i" by simp
    moreover from this have "unat (t - 4 * word_of_nat i) = unat t - 4 * i"
      using assms(3) i by (subst unat_sub) (auto simp: word_le_nat_alt)
    ultimately show ?thesis using assms i by (fastforce simp: word_clear_def)
  qed
  then show ?thesis by (simp add: frame_clear_def)
qed

text \<open>A heap whose last chunk is free and the only one that can hold a stack.\<close>

definition tail_heap :: "block \<Rightarrow> nat \<Rightarrow> bool" where
  "tail_heap h N \<longleftrightarrow> (\<exists>xs. heap_rel h (xs @ [(N, False)]) \<and> (\<forall>(s, tk) \<in> set xs. tk \<or> s < 16384))"

lemma first_fit_tail:
  "\<forall>(s, tk) \<in> set xs. tk \<or> s < n \<Longrightarrow> n \<le> N \<Longrightarrow> first_fit n (xs @ [(N, False)]) = Some (length xs)"
  by (induction xs) auto

lemma tail_alloc:
  assumes h: "heap_rel h (xs @ [(N, False)])" "\<forall>(s, tk) \<in> set xs. tk \<or> s < unat sz" and n: "unat sz + 24 < N"
  shows "\<exists>h'. kmalloc h sz = Inr (h', word_of_nat (unat (b_start h) + span xs + 16)) \<and> b_start h' = b_start h \<and>
    heap_rel h' (xs @ [(unat sz, True), (N - unat sz - 16, False)])"
proof -
  have ff: "first_fit (unat sz) (xs @ [(N, False)]) = Some (length xs)"
    using n by (intro first_fit_tail [OF h(2)]) simp
  then have "fits_safely (unat sz) (xs @ [(N, False)])" using n by (simp add: fits_safely_def)
  from block_allocate_Some [OF h(1) ff this] show ?thesis
    using n by (simp add: kmalloc_eq occupy_def cut_def less_diff_conv add.commute)
qed

lemma live_chunks_below:
  assumes h: "heap_rel h (xs @ [(N, False)])" and l: "live h a = Some m"
  shows "unat a + m \<le> unat (b_start h) + span xs"
proof -
  have "heap_inv h" "chunks h = xs @ [(N, False)]" using h by (auto simp: heap_inv_iff heap_rel_chunks)
  with live_bounds(2) [OF _ l] have "(unat a, m) \<in> set (payloads (unat (b_start h)) xs)" by simp
  then show ?thesis by (auto dest: payloads_bounds)
qed

text \<open>The table and the ready list lie in blocks of their sizes.\<close>

definition tail_ok :: "kernel \<Rightarrow> nat \<Rightarrow> bool" where
  "tail_ok k N \<longleftrightarrow> tail_heap (k_heap k) N \<and> (\<exists>m \<ge> 25620. live (k_heap k) (k_ptable k) = Some m) \<and>
     (\<exists>m \<ge> 8 * nat (pq_size (ready_queue k)). live (k_heap k) (pq_ptr (ready_queue k)) = Some m)"

text \<open>The last chunk of such a heap after a stack has been cut off it.\<close>

lemma tail_clear:
  assumes ok: "tail_ok k N" and sz: "16384 \<le> unat sz" "4 * unat sz + 100 \<le> N" and n: "n \<le> 1000"
  shows "stack_clear k sz n"
    and "\<exists>h a. kmalloc (k_heap k) sz = Inr (h, a) \<and> tail_heap h (N - unat sz - 16) \<and>
      (\<forall>x m. live (k_heap k) x = Some m \<longrightarrow> live h x = Some m)"
proof -
  let ?h = "k_heap k"
  obtain xs where xs: "heap_rel ?h (xs @ [(N, False)])" "\<forall>(s, tk) \<in> set xs. tk \<or> s < 16384"
    using ok by (auto simp: tail_ok_def tail_heap_def)
  define a where "a = unat (b_start ?h) + span xs + 16"
  have "\<forall>(s, tk) \<in> set xs. tk \<or> s < unat sz" using xs(2) sz(1) by auto
  from tail_alloc [OF xs(1) this] sz(2) obtain h where h: "kmalloc ?h sz = Inr (h, word_of_nat a)" "b_start h = b_start ?h"
    "heap_rel h (xs @ [(unat sz, True), (N - unat sz - 16, False)])" unfolding a_def by auto
  have hi: "heap_inv ?h" using xs(1) by (auto simp: heap_inv_iff)
  have bs: "unat (b_blockSize h) = span xs + 16 + N" "unat (b_start h) + (span xs + 16 + N) < 2 ^ 32"
    using h(3) sz by (simp_all add: heap_rel_def)
  have "tail_heap h (N - unat sz - 16)"
    unfolding tail_heap_def using h(3) xs(2) by (intro exI [of _ "xs @ [(unat sz, True)]"]) auto
  moreover have "unat sz + 24 < slack ?h" using sz slack_rel [OF xs(1)] by (simp add: slack_of_def)
  from kh.alloc_ok [OF hi this] h(1) have "live ?h (word_of_nat a) = None" "\<exists>s. live h = (live ?h)(word_of_nat a \<mapsto> s)" by auto
  then have "\<forall>x m. live ?h x = Some m \<longrightarrow> live h x = Some m" by auto
  ultimately show "\<exists>h a. kmalloc ?h sz = Inr (h, a) \<and> tail_heap h (N - unat sz - 16) \<and>
      (\<forall>x m. live ?h x = Some m \<longrightarrow> live h x = Some m)" using h(1) by blast
  define p where "p = a + 4 * unat sz"
  define t where "t = (if p mod 16 = 0 then p else p - 4 * (16 - p mod 16))"
  have tb: "p \<le> t + 60" "t \<le> p" "p < 2 ^ 32" using bs sz by (auto simp: t_def p_def a_def h(2))
  have "word_of_nat a + 4 * sz = (word_of_nat p :: addr)" by (simp add: p_def)
  moreover have up: "unat (word_of_nat p :: addr) = p" using tb(3) by (rule unat_word32_of_nat)
  moreover have "(word_of_nat p :: addr) mod 16 = word_of_nat (p mod 16)"
    using up by (intro word32_eq_of_nat) (simp add: unat_mod)
  moreover have "(word_of_nat (p mod 16) :: addr) = 0 \<longleftrightarrow> p mod 16 = 0" by (rule word32_of_nat_eq_0_iff) simp
  moreover have "(word_of_nat p - 4 * (16 - word_of_nat (p mod 16)) :: addr) = word_of_nat (p - 4 * (16 - p mod 16))"
    using sz by (simp add: of_nat_diff p_def)
  ultimately have g: "getstack ?h sz = Inr (h, word_of_nat t, word_of_nat a)"
    using h(1) by (simp add: getstack_def Let_def t_def)
  have ut: "unat (word_of_nat t :: addr) = t" using tb by (intro unat_word32_of_nat) simp
  have ch: "chunks h = xs @ [(unat sz, True), (N - unat sz - 16, False)]" by (rule heap_rel_chunks [OF h(3)])
  have tab: "unat (k_ptable k) + 25620 \<le> a" "unat (pq_ptr (ready_queue k)) + 8 * nat (pq_size (ready_queue k)) \<le> a"
    using ok live_chunks_below [OF xs(1)] unfolding tail_ok_def a_def by fastforce+
  have "frame_clear h (kernel_data h (k_ptable k) (ready_queue k)) (word_of_nat t) n"
  proof (rule frame_clear_above [of _ "a + unat sz + 16"])
    have "x + 16 \<le> a + unat sz + 16" if "x \<in> set (haddrs (unat (b_start h)) (chunks h))" for x
      using that haddrs_bounds [of x "unat (b_start h)" xs] by (auto simp: ch a_def h(2))
    then show "\<forall>(x, m) \<in> set (kernel_data h (k_ptable k) (ready_queue k)). x + m \<le> a + unat sz + 16"
      using tab by (auto simp: kernel_data_def sizeof_ProcEntryTable_def)
    show "unat (b_start h) \<le> a + unat sz + 16" by (simp add: a_def h(2))
    show "a + unat sz + 16 + 4 * (n + 11) \<le> unat (word_of_nat t :: addr)" using tb(1) n sz(1) unfolding ut p_def by simp
    show "unat (word_of_nat t :: addr) + 4 \<le> unat (b_start h) + unat (b_blockSize h)"
      unfolding ut bs(1) using tb(2) sz(2) by (simp add: p_def a_def h(2))
  qed
  then show "stack_clear k sz n" by (simp add: stack_clear_getstack [OF g])
qed

text \<open>A thread that needs no larger ready list leaves the heap ready for the next one.\<close>

lemma table_insert_in_place:
  assumes "table_insert junk h t e = Inr (h', t', i)" "pe_status e = PR_RUNNABLE \<longrightarrow> pq_count (rl_queue (t_ready t)) \<noteq> pq_size (rl_queue (t_ready t))"
  shows "h' = h \<and> pq_ptr (rl_queue (t_ready t')) = pq_ptr (rl_queue (t_ready t)) \<and> pq_size (rl_queue (t_ready t')) = pq_size (rl_queue (t_ready t))"
  using assms by (auto simp: table_insert_def rl_insert_def pq_insert_def Let_def rbind_Inr_iff split: if_splits)

lemma create_tail:
  assumes c: "kthread_create junk initret sp k code sz prio st False args = Inr (k', pid)" and ok: "tail_ok k N"
    and sz: "MINSTACK \<le> sz" "4 * unat sz + 100 \<le> N"
    and room: "st = PR_RUNNABLE \<longrightarrow> pq_count (ready_queue k) \<noteq> pq_size (ready_queue k)"
  shows "tail_ok k' (N - unat sz - 16)" "pq_size (ready_queue k') = pq_size (ready_queue k)"
proof -
  have "16384 \<le> unat sz" using sz(1) by (simp add: MINSTACK_def word_le_nat_alt)
  from tail_clear(2) [OF ok this sz(2) le0] obtain h a where h: "kmalloc (k_heap k) sz = Inr (h, a)" "tail_heap h (N - unat sz - 16)"
    "\<forall>x m. live (k_heap k) x = Some m \<longrightarrow> live h x = Some m" by blast
  from c obtain h' x y e where t: "table_insert junk h' (k_table k) e = Inr (k_heap k', k_table k', pid)" "pe_status e = st" "k_ptable k' = k_ptable k"
    and g: "getstack (k_heap k) (if sz < MINSTACK then MINSTACK else sz) = Inr (h', x, y)"
    by (rule kthread_create_insert)
  have "h' = h" using g leD [OF sz(1)] h(1) by (simp add: getstack_def Let_def)
  from table_insert_in_place [OF t(1) [unfolded \<open>h' = h\<close>]] room t(2) have r: "k_heap k' = h" "pq_ptr (ready_queue k') = pq_ptr (ready_queue k)"
    "pq_size (ready_queue k') = pq_size (ready_queue k)" by auto
  with ok h t(3) show "tail_ok k' (N - unat sz - 16)" by (auto simp: tail_ok_def)
  show "pq_size (ready_queue k') = pq_size (ready_queue k)" by (rule r(3))
qed

text \<open>The table and the first ready list in a fresh heap.\<close>

lemma table_new_tail:
  assumes h: "heap_rel (k_heap k) [(N, False)]" and N: "100000 < N"
    and t: "operator_new (k_heap k) sizeof_ProcEntryTable = Inr (h1, p)" "ProcEntryTable_new junk cnt0 h1 = Inr (h2, tab)"
  shows "tail_ok (k\<lparr>k_curr := c, k_heap := h2, k_ptable := p, k_table := tab\<rparr>) (N - 25692)"
proof -
  have u: "unat sizeof_ProcEntryTable = 25620" "unat (40 :: u32) = 40" by (simp_all add: sizeof_ProcEntryTable_def)
  from tail_alloc [of "k_heap k" "[]" N sizeof_ProcEntryTable] h N t(1) u have
    h1: "heap_rel h1 [(25620, True), (N - 25636, False)]" "b_start h1 = b_start (k_heap k)" by (auto simp: operator_new_def)
  have k: "kmalloc (k_heap k) sizeof_ProcEntryTable = Inr (h1, p)" using t(1) by (simp add: operator_new_def)
  have "unat sizeof_ProcEntryTable + 24 < slack (k_heap k)" "heap_inv (k_heap k)"
    using N slack_rel [OF h] h u by (auto simp: slack_of_def heap_inv_iff)
  from kh.alloc_ok [OF this(2,1)] k u(1) obtain s where l1: "live h1 p = Some s" "25620 \<le> s" by auto
  have "64 < N - 25636" using N by simp
  with tail_alloc [of h1 "[(25620, True)]" "N - 25636" 40] h1(1) obtain h' q where
    h': "kmalloc h1 40 = Inr (h', q)" "heap_rel h' ([(25620, True), (40, True)] @ [(N - 25692, False)])" by (auto simp: u)
  have "unat (40 :: u32) + 24 < slack h1" "heap_inv h1" using N slack_rel [OF h1(1)] h1(1) by (auto simp: slack_of_def heap_inv_iff u)
  from kh.alloc_ok [OF this(2,1)] h'(1) u(2) obtain s' where l2: "live h1 q = None" "live h' = (live h1)(q \<mapsto> s')" "40 \<le> s'" by auto
  have "tail_heap h' (N - 25692)" unfolding tail_heap_def using h'(2) by (intro exI [of _ "[(25620, True), (40, True)]"]) auto
  moreover have "h2 = h' \<and> pq_ptr (rl_queue (t_ready tab)) = q \<and> pq_size (rl_queue (t_ready tab)) = 5"
    using t(2) h'(1) by (auto simp: ProcEntryTable_new_def pq_new_default_def pq_new_def new_keyvals_def operator_new_def sizeof_keyval_def rbind_Inr_iff)
  moreover have "p \<noteq> q" using l1 l2(1) by auto
  ultimately show ?thesis using l1 l2 by (auto simp: tail_ok_def)
qed

end
