(* ===== verification/Process_Spec.thy ===== *)
theory Process_Spec
  imports Thread_Stacks
begin

text \<open>
  Correctness of the process table and the scheduler: the ready list holds exactly the runnable processes,
  exactly one process is current, \<^verbatim>\<open>resched\<close> picks a runnable process of maximal priority and loses none, and the
  operations keep this. \<^verbatim>\<open>ready\<close> does not, and the last properties show what follows.
\<close>

section \<open>The ready list holds the runnable processes\<close>

abbreviation stat :: "kernel \<Rightarrow> nat \<Rightarrow> proc_status" where
  "stat k i \<equiv> pe_status (procs k ! i)"

definition runnable :: "kernel \<Rightarrow> nat set" where
  "runnable k = {i. i < 1024 \<and> stat k i = PR_RUNNABLE}"

definition entry_kv :: "kernel \<Rightarrow> nat \<Rightarrow> (int, int) key_val" where
  "entry_kv k i = \<lparr>key = pe_prio (procs k ! i), val = int i\<rparr>"

text \<open>\<open>S\<close> is the set of processes on the ready list.\<close>

definition queued :: "kernel \<Rightarrow> nat set \<Rightarrow> bool" where
  "queued k S \<longleftrightarrow> length (procs k) = 1024 \<and> length (t_taken (k_table k)) = 1024 \<and> S \<subseteq> {..<1024} \<and>
     pq_state (k_heap k) (ready_queue k) \<and> rl_count (t_ready (k_table k)) = pq_count (ready_queue k) \<and>
     pq_mset (ready_queue k) = image_mset (entry_kv k) (mset_set S)"

definition sched_inv :: "kernel \<Rightarrow> bool" where
  "sched_inv k \<longleftrightarrow> queued k (runnable k) \<and>
     (\<exists>c < 1024. k_curr k = int c \<and> (\<forall>i < 1024. stat k i = PR_CURR \<longleftrightarrow> i = c)) \<and>
     (\<forall>i < 1024. \<not> t_taken (k_table k) ! i \<longrightarrow> stat k i = PR_NA)"

lemma finite_queued: "queued k S \<Longrightarrow> finite S"
  using finite_subset [of S "{..<1024}"] by (auto simp: queued_def)

lemma finite_runnable [simp]: "finite (runnable k)"
  by (simp add: runnable_def)

lemma runnable_bound: "runnable k \<subseteq> {..<1024}"
  by (auto simp: runnable_def)

text \<open>A heap with a free cell takes an element without allocating.\<close>

lemma pq_insert_in_place:
  assumes "pq_state h q" "pq_count q < pq_size q"
  shows "\<exists>q'. pq_insert junk h q e = Inr (h, q') \<and> pq_state h q' \<and> pq_ptr q' = pq_ptr q \<and> pq_size q' = pq_size q \<and>
    pq_count q' = pq_count q + 1 \<and> pq_mset q' = add_mset e (pq_mset q)"
  using insert_in_place [of q e h] assms by (auto simp: pq_insert_def pq_state_def Let_def)

lemma entry_kv_mem:
  assumes "finite S"
  shows "e \<in># image_mset (entry_kv k) (mset_set S) \<longleftrightarrow> (\<exists>i \<in> S. e = entry_kv k i)"
  using assms by auto

lemma queued_remove:
  assumes "finite S" "n \<in> S"
  shows "image_mset (entry_kv k) (mset_set S) - {#entry_kv k n#} = image_mset (entry_kv k) (mset_set (S - {n}))"
  using assms by (simp add: mset_set_Diff image_mset_Diff)

section \<open>Peeking and popping\<close>

text \<open>The head of a non-empty ready list is a queued process of maximal priority.\<close>

lemma queued_top:
  assumes q: "queued k S" and ne: "S \<noteq> {}"
  shows "\<exists>n q'. n \<in> S \<and> (\<forall>i \<in> S. pe_prio (procs k ! i) \<le> pe_prio (procs k ! n)) \<and>
    pq_top (ready_queue k) = Inr (entry_kv k n) \<and> pq_dequeue (ready_queue k) = Inr (entry_kv k n, q') \<and>
    pq_state (k_heap k) q' \<and> pq_count q' = pq_count (ready_queue k) - 1 \<and> pq_count q' < pq_size q' \<and>
    pq_mset q' = image_mset (entry_kv k) (mset_set (S - {n})) \<and> pq_ptr q' = pq_ptr (ready_queue k) \<and> pq_size q' = pq_size (ready_queue k)"
proof -
  let ?q = "ready_queue k" and ?e = "pq_mem (ready_queue k) ! 0"
  have fin: "finite S" using finite_queued [OF q] .
  have inv: "pq_inv ?q" and ms: "pq_mset ?q = image_mset (entry_kv k) (mset_set S)" and st: "pq_state (k_heap k) ?q"
    using q by (auto simp: queued_def pq_state_def)
  have "pq_mset ?q \<noteq> {#}" using ms ne fin by (auto simp: mset_set_empty_iff)
  then have pos: "0 < pq_count ?q" using pq_mset_size [OF inv] by (metis nonempty_has_size of_nat_0_less_iff)
  note T = pq_top_max [OF inv pos]
  obtain n where n: "n \<in> S" "?e = entry_kv k n" using T(2) ms fin by auto
  have max: "pe_prio (procs k ! i) \<le> pe_prio (procs k ! n)" if "i \<in> S" for i
    using T(3) [of "entry_kv k i"] ms fin that n(2) by (auto simp: entry_kv_def)
  obtain q' where q': "pq_dequeue ?q = Inr (?e, q')" "pq_inv q'" "pq_ptr q' = pq_ptr ?q" "pq_size q' = pq_size ?q"
    "pq_count q' = pq_count ?q - 1" "pq_mset q' = pq_mset ?q - {#?e#}"
    using pq_dequeue_correct [OF inv pos] by blast
  have "pq_count q' < pq_size q'" using q' inv by (simp add: pq_inv_def)
  moreover have "pq_mset q' = image_mset (entry_kv k) (mset_set (S - {n}))"
    using q'(6) ms n queued_remove [OF fin n(1), of k] by simp
  moreover have "pq_state (k_heap k) q'" using q' st by (simp add: pq_state_def)
  ultimately show ?thesis using n max T(1) q' by (intro exI [of _ n] exI [of _ q']) simp
qed

text \<open>The priority \<^verbatim>\<open>highestReadyPrio\<close> reports.\<close>

lemma highestReadyPrio_ok:
  assumes q: "queued k S" and ne: "S \<noteq> {}"
  shows "\<exists>n \<in> S. highestReadyPrio (k_table k) = Inr (pe_prio (procs k ! n)) \<and>
    (\<forall>i \<in> S. pe_prio (procs k ! i) \<le> pe_prio (procs k ! n))"
proof -
  from queued_top [OF assms] obtain n where n: "n \<in> S" "pq_top (ready_queue k) = Inr (entry_kv k n)"
    "\<forall>i \<in> S. pe_prio (procs k ! i) \<le> pe_prio (procs k ! n)" by blast
  then have "n < length (procs k)" using q by (auto simp: queued_def)
  with n show ?thesis
    by (intro bexI [of _ n]) (auto simp: highestReadyPrio_def rl_peek_def entry_kv_def access_simps)
qed

section \<open>The scheduler\<close>

lemma upd_proc_ok:
  "i < length (procs k) \<Longrightarrow> upd_proc k (int i) f = Inr (k\<lparr>k_table := (k_table k)\<lparr>t_procs := (procs k)[i := f (procs k ! i)]\<rparr>\<rparr>)"
  by (simp add: upd_proc_def access_simps set_table_def)

lemma procent_ok: "i < length (procs k) \<Longrightarrow> procent k (int i) = Inr (procs k ! i)"
  by (simp add: procent_def access_simps)

text \<open>Priorities and identifiers are all that matters for being queued.\<close>

lemma queued_cong:
  assumes "queued k S" "length (procs k') = 1024" "t_taken (k_table k') = t_taken (k_table k)"
    "t_ready (k_table k') = t_ready (k_table k)" "k_heap k' = k_heap k"
    "\<And>i. i < 1024 \<Longrightarrow> pe_prio (procs k' ! i) = pe_prio (procs k ! i)"
  shows "queued k' S"
proof -
  have "entry_kv k' i = entry_kv k i" if "i \<in> S" for i
    using that assms(1,6) by (auto simp: entry_kv_def queued_def)
  then have "image_mset (entry_kv k') (mset_set S) = image_mset (entry_kv k) (mset_set S)"
    using finite_queued [OF assms(1)] by (intro image_mset_cong) auto
  with assms show ?thesis by (simp add: queued_def)
qed

lemma resched_switch_ok:
  assumes q: "queued k S" and c: "c < 1024" "c \<notin> S" and ne: "S \<noteq> {}"
  shows "\<exists>n k'. resched_switch junk sp im (int c) k = Inr k' \<and> n \<in> S \<and>
    (\<forall>i \<in> S. pe_prio (procs k ! i) \<le> pe_prio (procs k ! n)) \<and> k_curr k' = int n \<and>
    procs k' = (procs k)[n := (procs k ! n)\<lparr>pe_status := PR_CURR\<rparr>, c := (procs k ! c)\<lparr>pe_sp := sp\<rparr>] \<and>
    queued k' (if stat k c = PR_RUNNABLE then insert c (S - {n}) else S - {n}) \<and>
    t_taken (k_table k') = t_taken (k_table k) \<and> k_heap k' = k_heap k \<and> k_intr k' = intr_restore im (k_intr k) \<and>
    pq_ptr (ready_queue k') = pq_ptr (ready_queue k) \<and> pq_size (ready_queue k') = pq_size (ready_queue k)"
proof -
  from queued_top [OF q ne] obtain n q' where n: "n \<in> S" "\<forall>i \<in> S. pe_prio (procs k ! i) \<le> pe_prio (procs k ! n)"
    "pq_dequeue (ready_queue k) = Inr (entry_kv k n, q')" "pq_state (k_heap k) q'"
    "pq_count q' = pq_count (ready_queue k) - 1" "pq_count q' < pq_size q'"
    "pq_mset q' = image_mset (entry_kv k) (mset_set (S - {n}))" "pq_ptr q' = pq_ptr (ready_queue k)" "pq_size q' = pq_size (ready_queue k)" by blast
  have len: "length (procs k) = 1024" "n < 1024" "n \<noteq> c" using q n(1) c by (auto simp: queued_def)
  have fin: "finite S" using finite_queued [OF q] .
  define rl where "rl = \<lparr>rl_queue = q', rl_count = rl_count (t_ready (k_table k)) - 1\<rparr>"
  have pop: "scheduleNextTask (k_table k) = Inr ((k_table k)\<lparr>t_ready := rl\<rparr>, int n)"
    using n(3) by (simp add: scheduleNextTask_def rl_pop_def entry_kv_def rl_def)
  have "\<exists>rl'. (if stat k c = PR_RUNNABLE then rl_insert junk (k_heap k) rl (int c) (pe_prio (procs k ! c)) = Inr (k_heap k, rl') else rl' = rl) \<and>
    pq_state (k_heap k) (rl_queue rl') \<and> rl_count rl' = pq_count (rl_queue rl') \<and> pq_ptr (rl_queue rl') = pq_ptr (ready_queue k) \<and>
    pq_mset (rl_queue rl') = image_mset (entry_kv k) (mset_set (if stat k c = PR_RUNNABLE then insert c (S - {n}) else S - {n})) \<and>
    pq_size (rl_queue rl') = pq_size (ready_queue k)"
  proof (cases "stat k c = PR_RUNNABLE")
    case True
    from pq_insert_in_place [OF n(4,6), of junk "entry_kv k c"] obtain q'' where
      "pq_insert junk (k_heap k) q' (entry_kv k c) = Inr (k_heap k, q'')" "pq_state (k_heap k) q''" "pq_ptr q'' = pq_ptr q'" "pq_size q'' = pq_size q'"
      "pq_count q'' = pq_count q' + 1" "pq_mset q'' = add_mset (entry_kv k c) (pq_mset q')" by blast
    with True n(5,7,8,9) fin c(2) q show ?thesis
      by (auto simp: rl_insert_def rl_def entry_kv_def queued_def)
  next
    case False
    with n(4,5,7,8,9) q show ?thesis by (auto simp: rl_def queued_def)
  qed
  then obtain rl' where rl': "if stat k c = PR_RUNNABLE then rl_insert junk (k_heap k) rl (int c) (pe_prio (procs k ! c)) = Inr (k_heap k, rl') else rl' = rl"
    "pq_state (k_heap k) (rl_queue rl')" "rl_count rl' = pq_count (rl_queue rl')"
    "pq_mset (rl_queue rl') = image_mset (entry_kv k) (mset_set (if stat k c = PR_RUNNABLE then insert c (S - {n}) else S - {n}))" "pq_ptr (rl_queue rl') = pq_ptr (ready_queue k)"
    "pq_size (rl_queue rl') = pq_size (ready_queue k)"
    by blast
  define k' where "k' = k\<lparr>k_table := (k_table k)\<lparr>t_ready := rl',
        t_procs := (procs k)[n := (procs k ! n)\<lparr>pe_status := PR_CURR\<rparr>, c := (procs k ! c)\<lparr>pe_sp := sp\<rparr>]\<rparr>,
      k_curr := int n, switched_counter := switched_counter k + 1, k_intr := intr_restore im (k_intr k)\<rparr>"
  have "resched_switch junk sp im (int c) k = Inr k'"
    using rl'(1) len c
    by (auto simp: resched_switch_def pop Let_def upd_proc_ok procent_ok set_table_def k'_def split: if_splits)
  moreover have ekv: "entry_kv k' = entry_kv k"
  proof
    show "entry_kv k' i = entry_kv k i" for i
      using len c(1) by (cases "i < 1024") (auto simp: entry_kv_def k'_def nth_list_update)
  qed
  have "queued k' (if stat k c = PR_RUNNABLE then insert c (S - {n}) else S - {n})"
    unfolding queued_def ekv using rl'(2,3,4) q c(1) by (auto simp: queued_def k'_def)
  ultimately show ?thesis using n(1,2) rl'(5,6) by (intro exI [of _ n] exI [of _ k']) (simp add: k'_def)
qed

text \<open>What a call of \<^verbatim>\<open>resched\<close> leaves alone.\<close>

definition same_frame :: "kernel \<Rightarrow> kernel \<Rightarrow> bool" where
  "same_frame k k' \<longleftrightarrow> k_heap k' = k_heap k \<and> t_taken (k_table k') = t_taken (k_table k) \<and>
     pq_ptr (ready_queue k') = pq_ptr (ready_queue k) \<and> pq_size (ready_queue k') = pq_size (ready_queue k) \<and>
     (\<forall>i < 1024. pe_prio (procs k' ! i) = pe_prio (procs k ! i) \<and> pe_stackmem (procs k' ! i) = pe_stackmem (procs k ! i) \<and>
        (stat k' i = stat k i \<or> {stat k i, stat k' i} \<subseteq> {PR_CURR, PR_RUNNABLE}))"

lemma same_frame_stat:
  "same_frame k k' \<Longrightarrow> i < 1024 \<Longrightarrow> stat k' i = stat k i \<or> {stat k i, stat k' i} \<subseteq> {PR_CURR, PR_RUNNABLE}"
  unfolding same_frame_def by blast

lemma same_frame_valid: "same_frame k k' \<Longrightarrow> i < 1024 \<Longrightarrow> valid_status (stat k' i) = valid_status (stat k i)"
  by (auto simp: same_frame_def valid_status_def)

lemma queued_empty_iff: "queued k S \<Longrightarrow> rl_count (t_ready (k_table k)) = 0 \<longleftrightarrow> S = {}"
proof -
  assume q: "queued k S"
  then have inv: "pq_inv (ready_queue k)" by (simp add: queued_def pq_state_def)
  have "int (card S) = pq_count (ready_queue k)"
    using pq_mset_size [OF inv] q finite_queued [OF q] by (simp add: queued_def)
  with q finite_queued [OF q] show ?thesis by (auto simp: queued_def)
qed

text \<open>The invariant depends on the table, the heap and the current process only.\<close>

lemma runnable_cong: "k_table k' = k_table k \<Longrightarrow> runnable k' = runnable k"
  by (simp add: runnable_def)

lemma sched_inv_cong:
  assumes "k_table k' = k_table k" "k_heap k' = k_heap k" "k_curr k' = k_curr k"
  shows "sched_inv k' = sched_inv k"
proof -
  have e: "entry_kv k' = entry_kv k" using assms by (auto simp: entry_kv_def)
  show ?thesis unfolding sched_inv_def queued_def e runnable_cong [OF assms(1)] assms by simp
qed

text \<open>\<^verbatim>\<open>resched\<close> of a running process up to the decision whether it stays.\<close>

lemma resched_running:
  assumes c: "k_curr k = int c" "c < 1024" "stat k c = PR_CURR" "length (procs k) = 1024" and di: "intr_disable (k_intr k) = (im, i)"
  shows "resched junk sp k = (let k1 = k\<lparr>k_intr := i, resched_counter := resched_counter k + 1\<rparr> in
    rbind (if readyCount (k_table k) = 0 then Inr True
        else rbind (highestReadyPrio (k_table k)) (\<lambda>p. Inr (pe_prio (procs k ! c) > p))) (\<lambda>stay.
      if stay then Inr (k1\<lparr>k_intr := intr_restore im i\<rparr>)
      else rbind (upd_proc k1 (int c) (\<lambda>e. e\<lparr>pe_status := PR_RUNNABLE\<rparr>)) (\<lambda>k2. resched_switch junk sp im (int c) k2)))"
  using assms by (simp add: resched_def procent_ok Let_def cong: if_cong)

lemma resched_stays:
  assumes inv: "sched_inv k" and c: "k_curr k = int c" and best: "\<forall>i \<in> runnable k. pe_prio (procs k ! i) < pe_prio (procs k ! c)"
  shows "\<exists>k'. resched junk sp k = Inr k' \<and> sched_inv k' \<and> k_intr k' = \<lparr>imr = imr (k_intr k) AND girmask, iflag = True\<rparr> \<and>
    same_frame k k' \<and> k_table k' = k_table k \<and> k_curr k' = int c"
proof -
  from inv c have q: "queued k (runnable k)" and c1: "c < 1024" "stat k c = PR_CURR" by (auto simp: sched_inv_def)
  have len: "length (procs k) = 1024" using q by (simp add: queued_def)
  obtain im i where di: "intr_disable (k_intr k) = (im, i)" by fastforce
  have "(if readyCount (k_table k) = 0 then Inr True
      else rbind (highestReadyPrio (k_table k)) (\<lambda>p. Inr (pe_prio (procs k ! c) > p))) = Inr True"
  proof (cases "runnable k = {}")
    case True
    with queued_empty_iff [OF q] show ?thesis by (simp add: readyCount_def)
  next
    case False
    with highestReadyPrio_ok [OF q] best queued_empty_iff [OF q] show ?thesis by (auto simp: readyCount_def)
  qed
  then have "resched junk sp k = Inr (k\<lparr>k_intr := intr_restore im i, resched_counter := resched_counter k + 1\<rparr>)"
    by (simp add: resched_running [OF c c1 len di])
  moreover have "sched_inv (k\<lparr>k_intr := intr_restore im i, resched_counter := resched_counter k + 1\<rparr>)"
    using inv by (subst sched_inv_cong [of _ k]) simp_all
  ultimately show ?thesis using c intr_disable_restore [OF di] by (auto simp: same_frame_def)
qed

lemma resched_gives_up:
  assumes inv: "sched_inv k" and c: "k_curr k = int c" and m: "m \<in> runnable k" "pe_prio (procs k ! c) \<le> pe_prio (procs k ! m)"
  shows "\<exists>im k2. resched junk sp k = resched_switch junk sp im (int c) k2 \<and> queued k2 (runnable k) \<and>
    procs k2 = (procs k)[c := (procs k ! c)\<lparr>pe_status := PR_RUNNABLE\<rparr>] \<and> t_taken (k_table k2) = t_taken (k_table k) \<and>
    k_heap k2 = k_heap k \<and> ready_queue k2 = ready_queue k \<and>
    intr_restore im (k_intr k2) = \<lparr>imr = imr (k_intr k) AND girmask, iflag = True\<rparr>"
proof -
  from inv c have q: "queued k (runnable k)" and c1: "c < 1024" "stat k c = PR_CURR" by (auto simp: sched_inv_def)
  have len: "length (procs k) = 1024" using q by (simp add: queued_def)
  obtain im i where di: "intr_disable (k_intr k) = (im, i)" by fastforce
  have ne: "runnable k \<noteq> {}" using m(1) by auto
  from highestReadyPrio_ok [OF q ne] obtain p where p: "highestReadyPrio (k_table k) = Inr p" "pe_prio (procs k ! c) \<le> p"
    using m by (auto intro: order_trans)
  define k2 where "k2 = k\<lparr>k_intr := i, resched_counter := resched_counter k + 1,
    k_table := (k_table k)\<lparr>t_procs := (procs k)[c := (procs k ! c)\<lparr>pe_status := PR_RUNNABLE\<rparr>]\<rparr>\<rparr>"
  have "resched junk sp k = resched_switch junk sp im (int c) k2"
    using p ne queued_empty_iff [OF q] c1 len by (simp add: resched_running [OF c c1 len di] upd_proc_ok k2_def readyCount_def)
  moreover have "queued k2 (runnable k)"
    using len c1 by (intro queued_cong [OF q]) (auto simp: k2_def nth_list_update)
  ultimately show ?thesis using intr_disable_restore [OF di] by (intro exI [of _ im] exI [of _ k2]) (simp add: k2_def)
qed

lemma resched_preempts:
  assumes inv: "sched_inv k" and c: "k_curr k = int c" and m: "m \<in> runnable k" "pe_prio (procs k ! c) \<le> pe_prio (procs k ! m)"
  shows "\<exists>k'. resched junk sp k = Inr k' \<and> sched_inv k' \<and> k_intr k' = \<lparr>imr = imr (k_intr k) AND girmask, iflag = True\<rparr> \<and>
    same_frame k k' \<and>
    (\<exists>n \<in> runnable k. k_curr k' = int n \<and> (\<forall>i \<in> insert c (runnable k). pe_prio (procs k ! i) \<le> pe_prio (procs k ! n)) \<and>
       runnable k' = insert c (runnable k - {n}) \<and> pe_sp (procs k' ! c) = sp)"
proof -
  from inv c have q: "queued k (runnable k)" and c1: "c < 1024" and cur: "\<forall>i < 1024. stat k i = PR_CURR \<longleftrightarrow> i = c"
    and na: "\<forall>i < 1024. \<not> t_taken (k_table k) ! i \<longrightarrow> stat k i = PR_NA" by (auto simp: sched_inv_def)
  have len: "length (procs k) = 1024" using q by (simp add: queued_def)
  from resched_gives_up [OF inv c m, of junk sp] obtain im k2 where e: "resched junk sp k = resched_switch junk sp im (int c) k2"
    "queued k2 (runnable k)" and p2: "procs k2 = (procs k)[c := (procs k ! c)\<lparr>pe_status := PR_RUNNABLE\<rparr>]"
    and same: "t_taken (k_table k2) = t_taken (k_table k)" "k_heap k2 = k_heap k" "ready_queue k2 = ready_queue k"
      "intr_restore im (k_intr k2) = \<lparr>imr = imr (k_intr k) AND girmask, iflag = True\<rparr>" by blast
  have cr: "c \<notin> runnable k" and ne: "runnable k \<noteq> {}" using cur c1 m(1) by (auto simp: runnable_def)
  have prio2: "pe_prio (procs k2 ! i) = pe_prio (procs k ! i)" for i using len c1 by (cases "i = c") (auto simp: p2)
  have st2: "stat k2 c = PR_RUNNABLE" using len c1 by (simp add: p2)
  from resched_switch_ok [OF e(2) c1 cr ne, of junk sp im] obtain n k' where k':
    "resched_switch junk sp im (int c) k2 = Inr k'" "n \<in> runnable k" "\<forall>i \<in> runnable k. pe_prio (procs k2 ! i) \<le> pe_prio (procs k2 ! n)"
    "k_curr k' = int n" "procs k' = (procs k2)[n := (procs k2 ! n)\<lparr>pe_status := PR_CURR\<rparr>, c := (procs k2 ! c)\<lparr>pe_sp := sp\<rparr>]"
    "queued k' (insert c (runnable k - {n}))" "t_taken (k_table k') = t_taken (k_table k2)" "k_heap k' = k_heap k2"
    "k_intr k' = intr_restore im (k_intr k2)" "pq_ptr (ready_queue k') = pq_ptr (ready_queue k2)" "pq_size (ready_queue k') = pq_size (ready_queue k2)"
    using st2 by auto
  have n: "n < 1024" "n \<noteq> c" using k'(2) cr by (auto simp: runnable_def)
  have stat': "stat k' i = (if i = n then PR_CURR else if i = c then PR_RUNNABLE else stat k i)" if "i < 1024" for i
    using that len n c1 by (auto simp: k'(5) p2 nth_list_update)
  have run': "runnable k' = insert c (runnable k - {n})" using n c1 cr by (auto simp: runnable_def stat' split: if_splits)
  have "stat k' i = PR_CURR \<longleftrightarrow> i = n" if "i < 1024" for i using that cur n by (auto simp: stat')
  moreover have "\<not> t_taken (k_table k') ! i \<longrightarrow> stat k' i = PR_NA" if "i < 1024" for i
    using that na k'(2,7) cur c1 by (force simp: stat' same runnable_def)
  ultimately have "sched_inv k'" using k'(4,6) n(1) by (auto simp: sched_inv_def run')
  moreover have "pe_stackmem (procs k' ! j) = pe_stackmem (procs k ! j) \<and> pe_prio (procs k' ! j) = pe_prio (procs k ! j)" for j
    using len n c1 by (cases "j < 1024") (auto simp: k'(5) p2 nth_list_update)
  then have "same_frame k k'" using k'(2,7,8,10,11) cur by (auto simp: same_frame_def same stat' runnable_def)
  moreover have "pe_sp (procs k' ! c) = sp" using len n c1 by (simp add: k'(5) p2)
  moreover have "\<forall>i \<in> insert c (runnable k). pe_prio (procs k ! i) \<le> pe_prio (procs k ! n)"
    using k'(3) m by (auto simp: prio2 intro: order_trans)
  ultimately show ?thesis using e(1) k'(1,2,4,9) same(4) run' by (intro exI [of _ k']) auto
qed

text \<open>A running process that nobody outranks keeps the processor; otherwise the best runnable process gets it.\<close>

lemma resched_current:
  assumes inv: "sched_inv k" and c: "k_curr k = int c"
  shows "\<exists>k'. resched junk sp k = Inr k' \<and> sched_inv k' \<and> k_intr k' = \<lparr>imr = imr (k_intr k) AND girmask, iflag = True\<rparr> \<and>
    same_frame k k' \<and>
    (if \<forall>i \<in> runnable k. pe_prio (procs k ! i) < pe_prio (procs k ! c)
     then k_table k' = k_table k \<and> k_curr k' = int c
     else \<exists>n \<in> runnable k. k_curr k' = int n \<and> (\<forall>i \<in> insert c (runnable k). pe_prio (procs k ! i) \<le> pe_prio (procs k ! n)) \<and>
       runnable k' = insert c (runnable k - {n}) \<and> pe_sp (procs k' ! c) = sp)"
proof (cases "\<forall>i \<in> runnable k. pe_prio (procs k ! i) < pe_prio (procs k ! c)")
  case True
  from resched_stays [OF inv c True] show ?thesis unfolding if_P [OF True] by blast
next
  case False
  then obtain m where "m \<in> runnable k" "pe_prio (procs k ! c) \<le> pe_prio (procs k ! m)" by (auto simp: not_less)
  from resched_preempts [OF inv c this] show ?thesis unfolding if_not_P [OF False] by blast
qed

section \<open>Suspending and killing\<close>

lemma queued_filter:
  assumes "finite S" "\<And>j. j \<in> S \<Longrightarrow> val (entry_kv k j) = int j"
  shows "filter_mset (\<lambda>e. val e \<noteq> int i) (image_mset (entry_kv k) (mset_set S)) = image_mset (entry_kv k) (mset_set (S - {i}))"
proof -
  have "filter_mset (\<lambda>e. val e \<noteq> int i) (image_mset (entry_kv k) (mset_set S)) =
      image_mset (entry_kv k) (filter_mset (\<lambda>j. val (entry_kv k j) \<noteq> int i) (mset_set S))"
    by (simp add: filter_mset_image_mset)
  also have "filter_mset (\<lambda>j. val (entry_kv k j) \<noteq> int i) (mset_set S) = mset_set {j \<in> S. val (entry_kv k j) \<noteq> int i}"
    by (rule filter_mset_mset_set) (rule assms(1))
  also have "{j \<in> S. val (entry_kv k j) \<noteq> int i} = S - {i}" using assms(2) by auto
  finally show ?thesis .
qed

lemma rl_erase_ok:
  assumes q: "queued k S" and i: "i \<in> S" and room: "erase_room (card S) < slack (k_heap k)"
  shows "\<exists>h q'. rl_erase junk (k_heap k) (t_ready (k_table k)) (int i) =
      Inr (h, \<lparr>rl_queue = q', rl_count = rl_count (t_ready (k_table k)) - 1\<rparr>, True) \<and> pq_state h q' \<and>
    pq_count q' = pq_count (ready_queue k) - 1 \<and> others h q' = others (k_heap k) (ready_queue k) \<and>
    pq_mset q' = image_mset (entry_kv k) (mset_set (S - {i})) \<and>
    pq_size q' \<le> 10 + 2 * int (card S) \<and> slack (k_heap k) \<le> slack h + erase_room (card S)"
proof -
  let ?q = "ready_queue k"
  have fin: "finite S" using finite_queued [OF q] .
  have st: "pq_state (k_heap k) ?q" "pq_inv ?q" and ms: "pq_mset ?q = image_mset (entry_kv k) (mset_set S)"
    using q by (auto simp: queued_def pq_state_def)
  have cnt: "pq_count ?q = int (card S)" using pq_mset_size [OF st(2)] ms by simp
  from pq_erase_ok [OF st(1), of junk "int i"] room cnt obtain h q' where
    e: "pq_erase junk (k_heap k) ?q (int i) = Inr (h, q', pq_count ?q - pq_count q')" "pq_state h q'"
    "others h q' = others (k_heap k) ?q" "pq_mset q' = filter_mset (\<lambda>e. val e \<noteq> int i) (pq_mset ?q)"
    "pq_size q' \<le> 10 + 2 * int (card S)" "slack (k_heap k) \<le> slack h + erase_room (card S)" by auto
  have ms': "pq_mset q' = image_mset (entry_kv k) (mset_set (S - {i}))"
    using e(4) ms queued_filter [OF fin, of k i] by (simp add: entry_kv_def)
  have "pq_count q' = int (card (S - {i}))" using pq_mset_size [of q'] e(2) ms' by (simp add: pq_state_def)
  then have "pq_count q' = pq_count ?q - 1" using cnt card_Suc_Diff1 [OF fin i] by simp
  with e ms' show ?thesis by (auto simp: rl_erase_def)
qed

lemma isvalid_ok: "i < length (procs k) \<Longrightarrow> isvalid k (int i) = Inr (valid_status (stat k i))"
  by (simp add: isvalid_def procent_ok)

text \<open>\<^verbatim>\<open>suspend\<close> takes a process off the ready list if it is runnable.\<close>

lemma suspend_ok:
  assumes q: "queued k S" and i: "i < 1024" "valid_status (stat k i)" "i \<in> S \<longleftrightarrow> stat k i = PR_RUNNABLE"
    and room: "erase_room (card S) < slack (k_heap k)"
  shows "\<exists>k'. suspend junk k (int i) = Inr (k', PROC_OK) \<and> queued k' (S - {i}) \<and>
    procs k' = (procs k)[i := (procs k ! i)\<lparr>pe_status := PR_SUSPENDED\<rparr>] \<and> t_taken (k_table k') = t_taken (k_table k) \<and>
    k_curr k' = k_curr k \<and> k_intr k' = k_intr k \<and>
    others (k_heap k') (ready_queue k') = others (k_heap k) (ready_queue k) \<and>
    pq_size (ready_queue k') \<le> max (pq_size (ready_queue k)) (10 + 2 * int (card S)) \<and> slack (k_heap k) \<le> slack (k_heap k') + erase_room (card S)"
proof -
  have len: "length (procs k) = 1024" "length (t_taken (k_table k)) = 1024" using q by (auto simp: queued_def)
  have "\<exists>h rl. (if stat k i = PR_RUNNABLE then \<exists>b. rl_erase junk (k_heap k) (t_ready (k_table k)) (int i) = Inr (h, rl, b)
      else h = k_heap k \<and> rl = t_ready (k_table k)) \<and> pq_state h (rl_queue rl) \<and> rl_count rl = pq_count (rl_queue rl) \<and>
      pq_mset (rl_queue rl) = image_mset (entry_kv k) (mset_set (S - {i})) \<and>
      others h (rl_queue rl) = others (k_heap k) (ready_queue k) \<and>
      pq_size (rl_queue rl) \<le> max (pq_size (ready_queue k)) (10 + 2 * int (card S)) \<and> slack (k_heap k) \<le> slack h + erase_room (card S)"
  proof (cases "stat k i = PR_RUNNABLE")
    case True
    with rl_erase_ok [OF q _ room, of i junk] i(3) obtain h q' where
      "rl_erase junk (k_heap k) (t_ready (k_table k)) (int i) = Inr (h, \<lparr>rl_queue = q', rl_count = rl_count (t_ready (k_table k)) - 1\<rparr>, True)"
      "pq_state h q'" "pq_count q' = pq_count (ready_queue k) - 1" "others h q' = others (k_heap k) (ready_queue k)"
      "pq_mset q' = image_mset (entry_kv k) (mset_set (S - {i}))" "pq_size q' \<le> 10 + 2 * int (card S)"
      "slack (k_heap k) \<le> slack h + erase_room (card S)" by blast
    with True q show ?thesis
      by (intro exI [of _ h] exI [of _ "\<lparr>rl_queue = q', rl_count = rl_count (t_ready (k_table k)) - 1\<rparr>"]) (auto simp: queued_def)
  next
    case False
    with i(3) q show ?thesis by (auto simp: queued_def)
  qed
  then obtain h rl where r: "if stat k i = PR_RUNNABLE then \<exists>b. rl_erase junk (k_heap k) (t_ready (k_table k)) (int i) = Inr (h, rl, b)
      else h = k_heap k \<and> rl = t_ready (k_table k)" "pq_state h (rl_queue rl)" "rl_count rl = pq_count (rl_queue rl)"
    "pq_mset (rl_queue rl) = image_mset (entry_kv k) (mset_set (S - {i}))" "others h (rl_queue rl) = others (k_heap k) (ready_queue k)"
    "pq_size (rl_queue rl) \<le> max (pq_size (ready_queue k)) (10 + 2 * int (card S))" "slack (k_heap k) \<le> slack h + erase_room (card S)"
    by blast
  define k' where "k' = k\<lparr>k_heap := h, k_table := (k_table k)\<lparr>t_ready := rl,
     t_procs := (procs k)[i := (procs k ! i)\<lparr>pe_status := PR_SUSPENDED\<rparr>]\<rparr>\<rparr>"
  have "suspend junk k (int i) = Inr (k', PROC_OK)"
    using r(1) i len by (auto simp: suspend_def isvalid_ok procent_ok upd_proc_ok set_table_def k'_def split: if_splits)
  moreover have ekv: "entry_kv k' = entry_kv k"
  proof
    show "entry_kv k' j = entry_kv k j" for j
      using len i(1) by (cases "j < 1024") (auto simp: entry_kv_def k'_def nth_list_update)
  qed
  have "queued k' (S - {i})"
    unfolding queued_def ekv using r(2-4) q len by (auto simp: queued_def k'_def)
  ultimately show ?thesis using r(5,6,7) by (intro exI [of _ k']) (simp add: k'_def)
qed

lemma upd_proc_counter: "upd_proc k pid f = Inr k' \<Longrightarrow> resched_counter k' = resched_counter k"
  by (auto simp: upd_proc_def set_table_def rbind_Inr_iff)

lemma suspend_counter: "suspend junk k pid = Inr (k', r) \<Longrightarrow> resched_counter k' = resched_counter k"
  by (auto simp: suspend_def set_table_def rbind_Inr_iff split: if_splits dest!: upd_proc_counter)

lemma resched_switch_counter: "resched_switch junk sp im c k = Inr k' \<Longrightarrow> resched_counter k' = resched_counter k"
  by (auto simp: resched_switch_def set_table_def Let_def rbind_Inr_iff split: if_splits dest!: upd_proc_counter)

lemma resched_counts: "resched junk sp k = Inr k' \<Longrightarrow> resched_counter k' = resched_counter k + 1"
  by (auto simp: resched_def Let_def rbind_Inr_iff split: prod.splits if_splits dest!: upd_proc_counter resched_switch_counter)

text \<open>\<^verbatim>\<open>kill\<close> up to its call of \<^verbatim>\<open>resched\<close>: the process is dead and its stack memory released.\<close>

lemma kill_release:
  assumes q: "queued k S" and i: "i < 1024" "valid_status (stat k i)" "i \<in> S \<longleftrightarrow> stat k i = PR_RUNNABLE"
    and room: "erase_room (card S) < slack (k_heap k)"
    and stk: "others (k_heap k) (ready_queue k) (pe_stackmem (procs k ! i)) \<noteq> None"
  shows "\<exists>k'. kill junk sp k (int i) = rbind (resched junk sp k') (\<lambda>k2. Inr (k2, PROC_OK)) \<and> queued k' (S - {i}) \<and>
    procs k' = (procs k)[i := (procs k ! i)\<lparr>pe_status := PR_DEAD, pe_stackmem := NULL\<rparr>] \<and>
    t_taken (k_table k') = t_taken (k_table k) \<and> k_curr k' = k_curr k \<and> k_intr k' = k_intr k \<and>
    others (k_heap k') (ready_queue k') = (others (k_heap k) (ready_queue k))(pe_stackmem (procs k ! i) := None) \<and>
    resched_counter k' = resched_counter k \<and>
    pq_size (ready_queue k') \<le> max (pq_size (ready_queue k)) (10 + 2 * int (card S)) \<and> slack (k_heap k) \<le> slack (k_heap k') + erase_room (card S)"
proof -
  let ?sm = "pe_stackmem (procs k ! i)"
  from suspend_ok [OF q i room, of junk] obtain k1 where k1: "suspend junk k (int i) = Inr (k1, PROC_OK)" "queued k1 (S - {i})"
    "procs k1 = (procs k)[i := (procs k ! i)\<lparr>pe_status := PR_SUSPENDED\<rparr>]" "t_taken (k_table k1) = t_taken (k_table k)"
    "k_curr k1 = k_curr k" "k_intr k1 = k_intr k" "others (k_heap k1) (ready_queue k1) = others (k_heap k) (ready_queue k)"
    "pq_size (ready_queue k1) \<le> max (pq_size (ready_queue k)) (10 + 2 * int (card S))" "slack (k_heap k) \<le> slack (k_heap k1) + erase_room (card S)"
    by blast
  have len: "length (procs k) = 1024" "length (procs k1) = 1024" using q k1(2) by (auto simp: queued_def)
  have "others (k_heap k1) (ready_queue k1) ?sm \<noteq> None" using stk k1(7) by simp
  then obtain n where n: "live (k_heap k1) ?sm = Some n" and ne: "?sm \<noteq> pq_ptr (ready_queue k1)"
    by (auto simp: others_def split: if_splits)
  have inv1: "heap_inv (k_heap k1)" "live (k_heap k1) (pq_ptr (ready_queue k1)) \<noteq> None"
    using k1(2) by (auto simp: queued_def pq_state_def)
  note f = kh.free_ok [OF inv1(1) n]
  define k' where "k' = k1\<lparr>k_heap := kfree (k_heap k1) ?sm, k_table := (k_table k1)\<lparr>
     t_procs := (procs k)[i := (procs k ! i)\<lparr>pe_status := PR_DEAD, pe_stackmem := NULL\<rparr>]\<rparr>\<rparr>"
  have "kill junk sp k (int i) = rbind (resched junk sp k') (\<lambda>k2. Inr (k2, PROC_OK))"
    using i len k1(1,3)
    by (simp add: kill_def isvalid_ok procent_ok upd_proc_ok pe_release_def k'_def nth_list_update)
  moreover have ekv: "entry_kv k' = entry_kv k1"
  proof
    show "entry_kv k' j = entry_kv k1 j" for j
      using len i(1) k1(3) by (cases "j < 1024") (auto simp: entry_kv_def k'_def nth_list_update)
  qed
  have "queued k' (S - {i})"
    unfolding queued_def ekv using k1(2) f inv1(2) ne len by (auto simp: queued_def k'_def pq_state_def)
  moreover have "others (k_heap k') (ready_queue k') = (others (k_heap k) (ready_queue k))(?sm := None)"
  proof -
    have "others (k_heap k') (ready_queue k') = (others (k_heap k1) (ready_queue k1))(?sm := None)"
      using f by (auto simp: others_def k'_def)
    then show ?thesis using k1(7) by simp
  qed
  moreover have "slack (k_heap k1) \<le> slack (k_heap k')" using f by (simp add: k'_def)
  moreover have "resched_counter k' = resched_counter k" using suspend_counter [OF k1(1)] by (simp add: k'_def)
  ultimately show ?thesis using k1(3-6,8,9) by (intro exI [of _ k']) (simp add: k'_def)
qed

text \<open>\<^verbatim>\<open>resched\<close> called by a process that is no longer current.\<close>

lemma resched_orphan:
  assumes q: "queued k S" and c: "c < 1024" "c \<notin> S" "k_curr k = int c" "stat k c \<noteq> PR_CURR" "stat k c \<noteq> PR_RUNNABLE" and ne: "S \<noteq> {}"
  shows "\<exists>n k'. resched junk sp k = Inr k' \<and> n \<in> S \<and> (\<forall>i \<in> S. pe_prio (procs k ! i) \<le> pe_prio (procs k ! n)) \<and>
    k_curr k' = int n \<and> procs k' = (procs k)[n := (procs k ! n)\<lparr>pe_status := PR_CURR\<rparr>, c := (procs k ! c)\<lparr>pe_sp := sp\<rparr>] \<and>
    queued k' (S - {n}) \<and> t_taken (k_table k') = t_taken (k_table k) \<and> k_heap k' = k_heap k \<and>
    pq_ptr (ready_queue k') = pq_ptr (ready_queue k) \<and> pq_size (ready_queue k') = pq_size (ready_queue k) \<and> k_intr k' = \<lparr>imr = imr (k_intr k) AND girmask, iflag = True\<rparr>"
proof -
  obtain im i where di: "intr_disable (k_intr k) = (im, i)" by fastforce
  define k1 where "k1 = k\<lparr>k_intr := i, resched_counter := resched_counter k + 1\<rparr>"
  have len: "length (procs k) = 1024" using q by (simp add: queued_def)
  have e: "resched junk sp k = resched_switch junk sp im (int c) k1"
    using c di len by (simp add: resched_def procent_ok Let_def k1_def cong: if_cong)
  have "queued k1 S" using len by (intro queued_cong [OF q]) (auto simp: k1_def)
  from resched_switch_ok [OF this c(1,2) ne, of junk sp im] obtain n k' where
    r: "resched_switch junk sp im (int c) k1 = Inr k'" "n \<in> S" "\<forall>i \<in> S. pe_prio (procs k1 ! i) \<le> pe_prio (procs k1 ! n)"
    "k_curr k' = int n" "procs k' = (procs k1)[n := (procs k1 ! n)\<lparr>pe_status := PR_CURR\<rparr>, c := (procs k1 ! c)\<lparr>pe_sp := sp\<rparr>]"
    "queued k' (if stat k1 c = PR_RUNNABLE then insert c (S - {n}) else S - {n})" "t_taken (k_table k') = t_taken (k_table k1)"
    "k_heap k' = k_heap k1" "k_intr k' = intr_restore im (k_intr k1)" "pq_ptr (ready_queue k') = pq_ptr (ready_queue k1)" "pq_size (ready_queue k') = pq_size (ready_queue k1)" by blast
  have "procs k1 = procs k" "k_table k1 = k_table k" "k_heap k1 = k_heap k" "k_intr k1 = i" by (simp_all add: k1_def)
  with r e c(5) intr_disable_restore [OF di] show ?thesis by (intro exI [of _ n] exI [of _ k']) simp
qed

text \<open>
  Stacks: every process but the boot thread owns a live block of its own.
\<close>

definition stacks_ok :: "kernel \<Rightarrow> bool" where
  "stacks_ok k \<longleftrightarrow>
     (\<forall>i < 1024. i \<noteq> 1 \<and> valid_status (stat k i) \<longrightarrow> others (k_heap k) (ready_queue k) (pe_stackmem (procs k ! i)) \<noteq> None) \<and>
     (\<forall>i < 1024. \<forall>j < 1024. i \<noteq> j \<and> i \<noteq> 1 \<and> j \<noteq> 1 \<and> valid_status (stat k i) \<and> valid_status (stat k j) \<longrightarrow>
        pe_stackmem (procs k ! i) \<noteq> pe_stackmem (procs k ! j))"

text \<open>The same for a current process that was just killed: whoever takes over, nothing else changes.\<close>

lemma resched_dead:
  assumes q: "queued k (runnable k)" and i: "i < 1024" "k_curr k = int i" "stat k i = PR_DEAD" and ne: "runnable k \<noteq> {}"
    and cur: "\<forall>j < 1024. stat k j \<noteq> PR_CURR" and na: "\<forall>j < 1024. \<not> t_taken (k_table k) ! j \<longrightarrow> stat k j = PR_NA"
  shows "\<exists>k'. resched junk sp k = Inr k' \<and> sched_inv k' \<and> same_frame k k'"
proof -
  have ni: "i \<notin> runnable k" using i by (simp add: runnable_def)
  from resched_orphan [OF q i(1) ni i(2) _ _ ne, of junk sp] i(3) obtain n k' where
    k': "resched junk sp k = Inr k'" "n \<in> runnable k" "k_curr k' = int n"
    "procs k' = (procs k)[n := (procs k ! n)\<lparr>pe_status := PR_CURR\<rparr>, i := (procs k ! i)\<lparr>pe_sp := sp\<rparr>]"
    "queued k' (runnable k - {n})" "t_taken (k_table k') = t_taken (k_table k)" "k_heap k' = k_heap k"
    "pq_ptr (ready_queue k') = pq_ptr (ready_queue k)" "pq_size (ready_queue k') = pq_size (ready_queue k)" by auto
  have len: "length (procs k) = 1024" using q by (simp add: queued_def)
  have n: "n < 1024" "n \<noteq> i" "stat k n = PR_RUNNABLE" using k'(2) ni by (auto simp: runnable_def)
  have stat': "stat k' j = (if j = n then PR_CURR else stat k j)" if "j < 1024" for j
    using that len n i(1) by (auto simp: k'(4) nth_list_update)
  have frame': "pe_stackmem (procs k' ! j) = pe_stackmem (procs k ! j)" "pe_prio (procs k' ! j) = pe_prio (procs k ! j)" if "j < 1024" for j
    using that len n i(1) by (auto simp: k'(4) nth_list_update)
  have run': "runnable k' = runnable k - {n}" by (auto simp: runnable_def stat' split: if_splits)
  have na': "\<forall>j < 1024. \<not> t_taken (k_table k') ! j \<longrightarrow> stat k' j = PR_NA" using na n by (auto simp: stat' k'(6))
  have cur': "\<forall>j < 1024. stat k' j = PR_CURR \<longleftrightarrow> j = n" using cur by (auto simp: stat')
  have "sched_inv k'" using k'(3,5) n(1) na' cur' by (auto simp: sched_inv_def run')
  moreover have "same_frame k k'" using k'(6-9) n by (auto simp: same_frame_def stat' frame')
  ultimately show ?thesis using k'(1) by blast
qed

lemma kill_ok:
  assumes inv: "sched_inv k" and i: "i < 1024" "valid_status (stat k i)"
    and room: "erase_room (card (runnable k)) < slack (k_heap k)"
    and stk: "others (k_heap k) (ready_queue k) (pe_stackmem (procs k ! i)) \<noteq> None"
    and other: "k_curr k = int i \<longrightarrow> runnable k \<noteq> {}"
  shows "\<exists>k'. kill junk sp k (int i) = Inr (k', PROC_OK) \<and> sched_inv k' \<and> stat k' i = PR_DEAD \<and>
    others (k_heap k') (ready_queue k') = (others (k_heap k) (ready_queue k))(pe_stackmem (procs k ! i) := None) \<and>
    (\<forall>j < 1024. j \<noteq> i \<longrightarrow> pe_stackmem (procs k' ! j) = pe_stackmem (procs k ! j) \<and> (stat k' j = stat k j \<or> {stat k j, stat k' j} \<subseteq> {PR_CURR, PR_RUNNABLE})) \<and>
    t_taken (k_table k') = t_taken (k_table k) \<and> pq_size (ready_queue k') \<le> max (pq_size (ready_queue k)) (10 + 2 * int (card (runnable k))) \<and>
    slack (k_heap k) \<le> slack (k_heap k') + erase_room (card (runnable k)) \<and>
    (\<exists>k4. procs k4 = (procs k)[i := (procs k ! i)\<lparr>pe_status := PR_DEAD, pe_stackmem := NULL\<rparr>] \<and> k_curr k4 = k_curr k \<and>
       queued k4 (runnable k - {i}) \<and> resched junk sp k4 = Inr k' \<and> resched_counter k' = resched_counter k + 1)"
proof -
  from inv obtain c where c: "k_curr k = int c" "c < 1024" "\<forall>j < 1024. stat k j = PR_CURR \<longleftrightarrow> j = c"
    and na: "\<forall>j < 1024. \<not> t_taken (k_table k) ! j \<longrightarrow> stat k j = PR_NA" and q: "queued k (runnable k)"
    by (auto simp: sched_inv_def)
  have len: "length (procs k) = 1024" using q by (simp add: queued_def)
  have "i \<in> runnable k \<longleftrightarrow> stat k i = PR_RUNNABLE" using i by (simp add: runnable_def)
  from kill_release [OF q i this room stk, of junk sp] obtain k4 where k4:
    "kill junk sp k (int i) = rbind (resched junk sp k4) (\<lambda>k2. Inr (k2, PROC_OK))" "queued k4 (runnable k - {i})"
    "procs k4 = (procs k)[i := (procs k ! i)\<lparr>pe_status := PR_DEAD, pe_stackmem := NULL\<rparr>]"
    "t_taken (k_table k4) = t_taken (k_table k)" "k_curr k4 = k_curr k"
    "others (k_heap k4) (ready_queue k4) = (others (k_heap k) (ready_queue k))(pe_stackmem (procs k ! i) := None)"
    "pq_size (ready_queue k4) \<le> max (pq_size (ready_queue k)) (10 + 2 * int (card (runnable k)))"
    "slack (k_heap k) \<le> slack (k_heap k4) + erase_room (card (runnable k))" "resched_counter k4 = resched_counter k" by blast
  have stat4: "stat k4 j = (if j = i then PR_DEAD else stat k j)" if "j < 1024" for j
    using that len i(1) by (auto simp: k4(3) nth_list_update)
  have sm4: "pe_stackmem (procs k4 ! j) = pe_stackmem (procs k ! j)" if "j \<noteq> i" for j using that by (simp add: k4(3))
  have run4: "runnable k4 = runnable k - {i}" by (auto simp: runnable_def stat4 split: if_splits)
  have na4: "\<forall>j < 1024. \<not> t_taken (k_table k4) ! j \<longrightarrow> stat k4 j = PR_NA" using na i by (auto simp: stat4 k4(4) valid_status_def)
  have "\<exists>k'. resched junk sp k4 = Inr k' \<and> sched_inv k' \<and> same_frame k4 k'"
  proof (cases "c = i")
    case False
    then have "sched_inv k4" using k4(2,5) c na4 by (auto simp: sched_inv_def run4 stat4)
    from resched_current [OF this, of c junk sp] k4(5) c(1) show ?thesis by auto
  next
    case True
    have "runnable k4 \<noteq> {}" unfolding run4 using other c True by (auto simp: runnable_def)
    with k4(2,5) c True i(1) na4 show ?thesis by (intro resched_dead [of k4 i]) (auto simp: run4 stat4)
  qed
  then obtain k' where k': "resched junk sp k4 = Inr k'" "sched_inv k'" "same_frame k4 k'" by blast
  have "others (k_heap k') (ready_queue k') = others (k_heap k4) (ready_queue k4)" using k'(3) by (simp add: same_frame_def others_def)
  moreover have "stat k' i = PR_DEAD" using k'(3) i(1) stat4 [of i] by (auto simp: same_frame_def)
  moreover have "pe_stackmem (procs k' ! j) = pe_stackmem (procs k ! j) \<and> (stat k' j = stat k j \<or> {stat k j, stat k' j} \<subseteq> {PR_CURR, PR_RUNNABLE})"
    if "j < 1024" "j \<noteq> i" for j
    using that k'(3) sm4 [of j] stat4 [of j] same_frame_stat [OF k'(3), of j] by (simp add: same_frame_def)
  moreover have "t_taken (k_table k') = t_taken (k_table k)" "pq_size (ready_queue k') = pq_size (ready_queue k4)" "k_heap k' = k_heap k4"
    using k'(3) k4(4) by (simp_all add: same_frame_def)
  moreover have "resched_counter k' = resched_counter k + 1" using resched_counts [OF k'(1)] k4(9) by simp
  with k4(2,3,5) k'(1) have "\<exists>k4. procs k4 = (procs k)[i := (procs k ! i)\<lparr>pe_status := PR_DEAD, pe_stackmem := NULL\<rparr>] \<and> k_curr k4 = k_curr k \<and>
       queued k4 (runnable k - {i}) \<and> resched junk sp k4 = Inr k' \<and> resched_counter k' = resched_counter k + 1" by blast
  ultimately show ?thesis using k4(1,6,7,8) k'(1,2) by - (rule exI [of _ k'], intro conjI, simp_all)
qed

section \<open>Creating processes\<close>

lemma free_slot_shift: "free_slot bs i = i + free_slot bs 0"
proof (induction bs arbitrary: i)
  case Nil
  then show ?case by simp
next
  case (Cons b bs)
  from Cons.IH [of "Suc i"] Cons.IH [of "Suc 0"] show ?case by simp
qed

lemma free_slot_le: "free_slot bs 0 \<le> length bs"
  by (induction bs) (use free_slot_shift [of _ "Suc 0"] in auto)

lemma free_slot_free: "free_slot bs 0 < length bs \<Longrightarrow> \<not> bs ! free_slot bs 0"
  by (induction bs) (use free_slot_shift [of _ "Suc 0"] in auto)

lemma free_slot_below: "j < free_slot bs 0 \<Longrightarrow> bs ! j"
proof (induction bs arbitrary: j)
  case (Cons b bs)
  then show ?case using free_slot_shift [of bs 1] by (cases j) (auto split: if_splits)
qed simp

lemma free_slot_full: "free_slot bs 0 = length bs \<longleftrightarrow> (\<forall>b \<in> set bs. b)"
  by (induction bs) (use free_slot_shift [of _ "Suc 0"] in auto)

text \<open>
  Inserting an entry: it goes to the first free slot and, if it is runnable, onto the ready list.
\<close>

lemma table_insert_ok:
  assumes q: "queued k S" and i: "i = free_slot (t_taken (k_table k)) 0" "i < 1024" "i \<notin> S"
    and room: "16 * nat (pq_size (ready_queue k)) + 24 < slack (k_heap k)"
  shows "\<exists>h t. table_insert junk (k_heap k) (k_table k) e = Inr (h, t, int i) \<and>
    t_procs t = (procs k)[i := e\<lparr>pe_id := int i\<rparr>] \<and> t_taken t = (t_taken (k_table k))[i := True] \<and>
    queued (k\<lparr>k_heap := h, k_table := t\<rparr>) (if pe_status e = PR_RUNNABLE then insert i S else S) \<and>
    others h (rl_queue (t_ready t)) = others (k_heap k) (ready_queue k) \<and>
    slack (k_heap k) \<le> slack h + 16 * nat (pq_size (ready_queue k)) + 16 \<and>
    pq_size (rl_queue (t_ready t)) \<le> max (pq_size (ready_queue k)) (2 * pq_count (ready_queue k))"
proof -
  let ?kv = "\<lparr>key = pe_prio e, val = int i\<rparr>"
  have len: "length (procs k) = 1024" "length (t_taken (k_table k)) = 1024" and st: "pq_state (k_heap k) (ready_queue k)"
    using q by (auto simp: queued_def)
  have "\<exists>h rl. (if pe_status e = PR_RUNNABLE then rl_insert junk (k_heap k) (t_ready (k_table k)) (int i) (pe_prio e) = Inr (h, rl)
      else h = k_heap k \<and> rl = t_ready (k_table k)) \<and> pq_state h (rl_queue rl) \<and> rl_count rl = pq_count (rl_queue rl) \<and>
    pq_mset (rl_queue rl) = (if pe_status e = PR_RUNNABLE then add_mset ?kv (pq_mset (ready_queue k)) else pq_mset (ready_queue k)) \<and>
    others h (rl_queue rl) = others (k_heap k) (ready_queue k) \<and> slack (k_heap k) \<le> slack h + 16 * nat (pq_size (ready_queue k)) + 16 \<and>
    pq_size (rl_queue rl) \<le> max (pq_size (ready_queue k)) (2 * pq_count (ready_queue k))"
  proof (cases "pe_status e = PR_RUNNABLE")
    case True
    from pq_insert_ok [OF st room, of junk ?kv] q True show ?thesis by (auto simp: rl_insert_def queued_def)
  next
    case False
    with q show ?thesis by (auto simp: queued_def)
  qed
  then obtain h rl where r: "if pe_status e = PR_RUNNABLE then rl_insert junk (k_heap k) (t_ready (k_table k)) (int i) (pe_prio e) = Inr (h, rl)
      else h = k_heap k \<and> rl = t_ready (k_table k)" "pq_state h (rl_queue rl)" "rl_count rl = pq_count (rl_queue rl)"
    "pq_mset (rl_queue rl) = (if pe_status e = PR_RUNNABLE then add_mset ?kv (pq_mset (ready_queue k)) else pq_mset (ready_queue k))"
    "others h (rl_queue rl) = others (k_heap k) (ready_queue k)" "slack (k_heap k) \<le> slack h + 16 * nat (pq_size (ready_queue k)) + 16"
    "pq_size (rl_queue rl) \<le> max (pq_size (ready_queue k)) (2 * pq_count (ready_queue k))"
    by blast
  define t where "t = (k_table k)\<lparr>t_procs := (procs k)[i := e\<lparr>pe_id := int i\<rparr>], t_taken := (t_taken (k_table k))[i := True],
      t_num := t_num (k_table k) + 1, t_ready := rl\<rparr>"
  have "table_insert junk (k_heap k) (k_table k) e = Inr (h, t, int i)"
    using r(1) len i(2) unfolding table_insert_def Let_def i(1) [symmetric]
    by (auto simp: t_def split: if_splits)
  moreover have "queued (k\<lparr>k_heap := h, k_table := t\<rparr>) (if pe_status e = PR_RUNNABLE then insert i S else S)"
  proof -
    let ?k = "k\<lparr>k_heap := h, k_table := t\<rparr>"
    have "entry_kv ?k j = entry_kv k j" if "j \<in> S" for j
      using that i(3) by (cases "j = i") (auto simp: entry_kv_def t_def)
    then have im: "image_mset (entry_kv ?k) (mset_set S) = image_mset (entry_kv k) (mset_set S)"
      using finite_queued [OF q] by (intro image_mset_cong) auto
    have "entry_kv ?k i = ?kv" using len i(2) by (simp add: entry_kv_def t_def)
    with im r(2-4) q i finite_queued [OF q] show ?thesis by (auto simp: queued_def t_def)
  qed
  ultimately show ?thesis using r(5-7) by (intro exI [of _ h] exI [of _ t]) (simp add: t_def)
qed

lemma table_insert_full:
  assumes "\<forall>b \<in> set (t_taken t). b"
  shows "table_insert junk h t e = Inr (h, t, -1)"
proof -
  have "free_slot (t_taken t) 0 = length (t_taken t)" using assms by (simp add: free_slot_full)
  then show ?thesis by (simp add: table_insert_def)
qed

text \<open>The room a new thread needs: its stack, its headers and a growing ready list.\<close>

definition create_room :: "kernel \<Rightarrow> u32 \<Rightarrow> nat" where
  "create_room k sz = unat sz + 16 * nat (pq_size (ready_queue k)) + 64"

text \<open>Creating a thread without a call of \<^verbatim>\<open>resched\<close>: the entry, the ready list and the heap.\<close>

lemma kthread_create_step:
  assumes q: "queued k S" and i: "i = free_slot (t_taken (k_table k)) 0" "i < 1024" "i \<notin> S"
    and sz: "MINSTACK \<le> sz" and room: "create_room k sz < slack (k_heap k)" and clr: "stack_clear k sz (length args)"
  shows "\<exists>k' sp0 a n h1 t. kthread_create junk initret sp k code sz prio status False args = Inr (k', int i) \<and>
    procs k' = (procs k)[i := (ProcEntry_ctor code sp0 a prio status)\<lparr>pe_id := int i\<rparr>] \<and>
    t_taken (k_table k') = (t_taken (k_table k))[i := True] \<and> k_curr k' = k_curr k \<and> k_intr k' = k_intr k \<and>
    queued k' (if status = PR_RUNNABLE then insert i S else S) \<and> live (k_heap k) a = None \<and>
    others (k_heap k') (ready_queue k') = (others (k_heap k) (ready_queue k))(a \<mapsto> n) \<and>
    slack (k_heap k) \<le> slack (k_heap k') + create_room k sz \<and>
    pq_size (ready_queue k') \<le> max (pq_size (ready_queue k)) (2 * pq_count (ready_queue k)) \<and>
    getstack (k_heap k) sz = Inr (h1, t, a) \<and> create_stack initret (k_mem k) code t args = (k_mem k', sp0)"
proof -
  have len: "length (procs k) = 1024" "length (t_taken (k_table k)) = 1024" and pst: "pq_state (k_heap k) (ready_queue k)"
    using q by (auto simp: queued_def)
  have "unat sz + 24 < slack (k_heap k)" using room by (simp add: create_room_def)
  with kh.alloc_ok [of "k_heap k" sz] pst obtain h1 a n where a: "kmalloc (k_heap k) sz = Inr (h1, a)" "heap_inv h1"
    "live (k_heap k) a = None" "live h1 = (live (k_heap k))(a \<mapsto> n)" "slack (k_heap k) \<le> slack h1 + unat sz + 16"
    by (auto simp: pq_state_def)
  obtain top where g: "getstack (k_heap k) sz = Inr (h1, top, a)" using a(1) by (simp add: getstack_def Let_def)
  have fc: "frame_clear h1 (kernel_data h1 (k_ptable k) (ready_queue k)) top (length args)" using clr by (simp add: stack_clear_getstack [OF g])
  obtain m sp0 where cs: "create_stack initret (k_mem k) code top args = (m, sp0)" by fastforce
  let ?e = "ProcEntry_ctor code sp0 a prio status"
  have ap: "a \<noteq> pq_ptr (ready_queue k)" using a(3) pst by (auto simp: pq_state_def)
  define k1 where "k1 = k\<lparr>k_heap := h1\<rparr>"
  have "entry_kv k1 = entry_kv k" by (auto simp: k1_def entry_kv_def)
  then have q1: "queued k1 S" using q a(2,4) ap by (simp add: queued_def k1_def pq_state_def)
  have oth1: "others h1 (ready_queue k) = (others (k_heap k) (ready_queue k))(a \<mapsto> n)"
    using a(4) ap by (auto simp: others_def)
  have t1: "k_table k1 = k_table k" "k_heap k1 = h1" by (simp_all add: k1_def)
  have r1: "16 * nat (pq_size (ready_queue k1)) + 24 < slack (k_heap k1)" using room a(5) by (simp add: create_room_def t1)
  have i1: "i = free_slot (t_taken (k_table k1)) 0" by (simp add: i(1) t1)
  from table_insert_ok [OF q1 i1 i(2,3) r1, of junk ?e] obtain h t where ti: "table_insert junk h1 (k_table k) ?e = Inr (h, t, int i)"
    "t_procs t = (procs k)[i := ?e\<lparr>pe_id := int i\<rparr>]" "t_taken t = (t_taken (k_table k))[i := True]"
    "queued (k1\<lparr>k_heap := h, k_table := t\<rparr>) (if status = PR_RUNNABLE then insert i S else S)"
    "others h (rl_queue (t_ready t)) = others h1 (ready_queue k)"
    "slack h1 \<le> slack h + 16 * nat (pq_size (ready_queue k)) + 16"
    "pq_size (rl_queue (t_ready t)) \<le> max (pq_size (ready_queue k)) (2 * pq_count (ready_queue k))"
    by (auto simp: t1 ProcEntry_ctor_def)
  define k' where "k' = k\<lparr>k_heap := h, k_mem := m, k_table := t\<rparr>"
  have create: "kthread_create junk initret sp k code sz prio status False args = Inr (k', int i)"
    using g cs fc ti(1) leD [OF sz] by (simp add: kthread_create_def Let_def k'_def)
  have q': "queued k' (if status = PR_RUNNABLE then insert i S else S)"
    using len by (intro queued_cong [OF ti(4)]) (auto simp: k'_def ti(2))
  show ?thesis using create q' a(3,5) ti(2,3,5,6,7) oth1 g cs
    by (intro exI [of _ k'] exI [of _ sp0] exI [of _ a] exI [of _ n] exI [of _ h1] exI [of _ top]) (simp add: k'_def create_room_def)
qed

lemma kthread_create_ok:
  assumes inv: "sched_inv k" "stacks_ok k" and free: "\<not> (\<forall>b \<in> set (t_taken (k_table k)). b)"
    and st: "status = PR_RUNNABLE \<or> status = PR_SUSPENDED" and sz: "MINSTACK \<le> sz"
    and room: "create_room k sz < slack (k_heap k)" and clr: "stack_clear k sz (length args)"
  shows "\<exists>k' i. kthread_create junk initret sp k code sz prio status False args = Inr (k', int i) \<and>
    i = free_slot (t_taken (k_table k)) 0 \<and> i < 1024 \<and> sched_inv k' \<and> stacks_ok k' \<and> stat k i = PR_NA \<and> stat k' i = status \<and>
    pe_prio (procs k' ! i) = prio \<and> pe_code (procs k' ! i) = code \<and> k_curr k' = k_curr k \<and>
    (\<forall>j < 1024. j \<noteq> i \<longrightarrow> procs k' ! j = procs k ! j) \<and> slack (k_heap k) \<le> slack (k_heap k') + create_room k sz \<and>
    pq_size (ready_queue k') \<le> max (pq_size (ready_queue k)) (2 * pq_count (ready_queue k)) \<and>
    (\<exists>h1 t a sp0 n. getstack (k_heap k) sz = Inr (h1, t, a) \<and> create_stack initret (k_mem k) code t args = (k_mem k', sp0) \<and>
       procs k' ! i = \<lparr>pe_code = code, pe_sp = sp0, pe_stackmem = a, pe_id = int i, pe_status = status, pe_prio = prio\<rparr> \<and>
       others (k_heap k') (ready_queue k') = (others (k_heap k) (ready_queue k))(a \<mapsto> n))"
proof -
  define i where "i = free_slot (t_taken (k_table k)) 0"
  from inv(1) obtain c where c: "k_curr k = int c" "c < 1024" "\<forall>j < 1024. stat k j = PR_CURR \<longleftrightarrow> j = c"
    and na: "\<forall>j < 1024. \<not> t_taken (k_table k) ! j \<longrightarrow> stat k j = PR_NA" and q: "queued k (runnable k)"
    by (auto simp: sched_inv_def)
  have len: "length (procs k) = 1024" "length (t_taken (k_table k)) = 1024" using q by (auto simp: queued_def)
  have i: "i < 1024" "\<not> t_taken (k_table k) ! i"
    using free free_slot_le [of "t_taken (k_table k)"] free_slot_full [of "t_taken (k_table k)"] free_slot_free [of "t_taken (k_table k)"] len
    by (auto simp: i_def le_less)
  then have sti: "stat k i = PR_NA" using na by simp
  then have ir: "i \<notin> runnable k" by (simp add: runnable_def)
  let ?S = "if status = PR_RUNNABLE then insert i (runnable k) else runnable k"
  from kthread_create_step [OF q i_def i(1) ir sz room clr, of junk initret sp code prio status] obtain k' sp0 a n h1 t where
    k': "kthread_create junk initret sp k code sz prio status False args = Inr (k', int i)"
      "procs k' = (procs k)[i := (ProcEntry_ctor code sp0 a prio status)\<lparr>pe_id := int i\<rparr>]"
      "t_taken (k_table k') = (t_taken (k_table k))[i := True]" "k_curr k' = k_curr k" "queued k' ?S"
      "live (k_heap k) a = None" "others (k_heap k') (ready_queue k') = (others (k_heap k) (ready_queue k))(a \<mapsto> n)"
      "slack (k_heap k) \<le> slack (k_heap k') + create_room k sz"
      "pq_size (ready_queue k') \<le> max (pq_size (ready_queue k)) (2 * pq_count (ready_queue k))"
      "getstack (k_heap k) sz = Inr (h1, t, a)" "create_stack initret (k_mem k) code t args = (k_mem k', sp0)"
    by blast
  have stat': "stat k' j = (if j = i then status else stat k j)" if "j < 1024" for j
    using that len i(1) by (auto simp: k'(2) nth_list_update ProcEntry_ctor_def)
  have sm': "pe_stackmem (procs k' ! j) = (if j = i then a else pe_stackmem (procs k ! j))" if "j < 1024" for j
    using that len i(1) by (auto simp: k'(2) nth_list_update ProcEntry_ctor_def)
  have "runnable k' = ?S" using i(1) sti by (auto simp: runnable_def stat' split: if_splits)
  moreover have "stat k' j = PR_CURR \<longleftrightarrow> j = c" if "j < 1024" for j
    using that c st sti by (auto simp: stat')
  moreover have "\<not> t_taken (k_table k') ! j \<longrightarrow> stat k' j = PR_NA" if "j < 1024" for j
    using that na len i(1) by (cases "j = i") (auto simp: stat' k'(3) nth_list_update)
  ultimately have "sched_inv k'" using k'(4,5) c(1,2) by (auto simp: sched_inv_def)
  moreover have "stacks_ok k'"
  proof -
    have old: "pe_stackmem (procs k ! j) \<noteq> a" if "j < 1024" "j \<noteq> 1" "valid_status (stat k j)" for j
      using that inv(2) k'(6) by (auto simp: stacks_ok_def others_def split: if_splits)
    show ?thesis using inv(2) old sti unfolding stacks_ok_def k'(7)
      by (auto simp: stat' sm' valid_status_def split: if_splits)
  qed
  moreover have "pe_prio (procs k' ! i) = prio" "pe_code (procs k' ! i) = code" "\<forall>j < 1024. j \<noteq> i \<longrightarrow> procs k' ! j = procs k ! j"
    using i(1) len by (auto simp: k'(2) ProcEntry_ctor_def)
  moreover have "procs k' ! i = \<lparr>pe_code = code, pe_sp = sp0, pe_stackmem = a, pe_id = int i, pe_status = status, pe_prio = prio\<rparr>"
    using i(1) len by (simp add: k'(2) ProcEntry_ctor_def)
  with k'(7,10,11) have "\<exists>h1 t a sp0 n. getstack (k_heap k) sz = Inr (h1, t, a) \<and> create_stack initret (k_mem k) code t args = (k_mem k', sp0) \<and>
       procs k' ! i = \<lparr>pe_code = code, pe_sp = sp0, pe_stackmem = a, pe_id = int i, pe_status = status, pe_prio = prio\<rparr> \<and>
       others (k_heap k') (ready_queue k') = (others (k_heap k) (ready_queue k))(a \<mapsto> n)" by blast
  ultimately show ?thesis using k'(1,4,8,9) i(1) stat' [of i] sti
    by (intro exI [of _ k'] exI [of _ i] conjI) (simp_all add: i_def)
qed

section \<open>Initialisation\<close>

lemma free_slot_replicate [simp]: "free_slot (replicate n False) i = i"
  by (cases n) auto

lemma replicate_update_0: "0 < n \<Longrightarrow> (replicate n x)[0 := y] = y # replicate (n - 1) x"
  by (cases n) auto

definition boot_room :: nat where
  "boot_room = 43000"

text \<open>The table behind its constructor, in a heap with room for the two processes of \<^verbatim>\<open>processes::init\<close>.\<close>

lemma table_new_ok:
  assumes inv: "heap_inv (k_heap k)" and room: "boot_room < slack (k_heap k)"
  shows "\<exists>h p h1 t. operator_new (k_heap k) sizeof_ProcEntryTable = Inr (h, p) \<and> p \<noteq> NULL \<and> ProcEntryTable_new junk 0 h = Inr (h1, t) \<and>
    t_procs t = replicate 1024 ProcEntry_default \<and> t_taken t = replicate 1024 False \<and>
    pq_size (rl_queue (t_ready t)) = 5 \<and> pq_count (rl_queue (t_ready t)) = 0 \<and>
    queued (k\<lparr>k_curr := 1, k_heap := h1, k_ptable := p, k_table := t\<rparr>) {} \<and> slack (k_heap k) \<le> slack h1 + 25692"
proof -
  have szt: "unat sizeof_ProcEntryTable = 25620" by (simp add: sizeof_ProcEntryTable_def)
  from kh.alloc_ok [OF inv, of sizeof_ProcEntryTable] room szt obtain h p s where 1: "operator_new (k_heap k) sizeof_ProcEntryTable = Inr (h, p)"
    "heap_inv h" "p \<noteq> NULL" "slack (k_heap k) \<le> slack h + 25636"
    by (auto simp: operator_new_def boot_room_def)
  from pq_new_ok [OF 1(2), of 5 junk] room 1(4) obtain h1 q where 2: "pq_new_default junk h = Inr (h1, q)" "pq_state h1 q"
    "pq_count q = 0" "pq_size q = 5" "pq_mset q = {#}" "slack h \<le> slack h1 + 56"
    by (auto simp: pq_new_default_def boot_room_def)
  with 1(1,3,4) show ?thesis by (simp add: ProcEntryTable_new_def queued_def)
qed

text \<open>The state behind \<^verbatim>\<open>processes::init\<close> from the contents of its table.\<close>

lemma boot_table_inv:
  assumes pr: "procs k = (replicate 1024 ProcEntry_default)[0 := (ProcEntry_ctor nullproc sp0 a 0 PR_RUNNABLE)\<lparr>pe_id := 0\<rparr>,
      1 := (ProcEntry_ctor NULL NULL NULL 10 PR_CURR)\<lparr>pe_id := 1\<rparr>]"
    and tk: "t_taken (k_table k) = True # True # replicate 1022 False" and cu: "k_curr k = 1"
    and q: "queued k {0}" and oth: "others (k_heap k) (ready_queue k) a = Some n"
  shows "sched_inv k \<and> stacks_ok k \<and> runnable k = {0} \<and> pe_prio (procs k ! 0) = 0 \<and> pe_prio (procs k ! 1) = 10"
proof -
  have st: "stat k j = (if j = 0 then PR_RUNNABLE else if j = 1 then PR_CURR else PR_NA)" if "j < 1024" for j
    using that by (simp add: pr nth_list_update ProcEntry_ctor_def ProcEntry_default_def)
  have run: "runnable k = {0}" by (auto simp: runnable_def st split: if_splits)
  have "\<not> t_taken (k_table k) ! j \<longrightarrow> stat k j = PR_NA" if "j < 1024" for j
    using that by (cases "j = 0"; cases "j = 1") (auto simp: st tk)
  then have "sched_inv k" using q run cu st by (auto simp: sched_inv_def intro!: exI [of _ 1])
  moreover have "pe_stackmem (procs k ! 0) = a" by (simp add: pr ProcEntry_ctor_def)
  then have "stacks_ok k" using oth by (auto simp: stacks_ok_def st valid_status_def split: if_splits)
  moreover have "pe_prio (procs k ! 0) = 0" "pe_prio (procs k ! 1) = 10" by (simp_all add: pr ProcEntry_ctor_def)
  ultimately show ?thesis using run by simp
qed

lemma processes_init_cases:
  assumes inv: "heap_inv (k_heap k)" and room: "boot_room < slack (k_heap k)"
  shows "(processes_init junk 0 initret nullproc k = Inl OutOfBounds \<and> \<not> (\<exists>N > 100000. heap_rel (k_heap k) [(N, False)])) \<or>
    (\<exists>k'. processes_init junk 0 initret nullproc k = Inr k' \<and> sched_inv k' \<and> stacks_ok k' \<and> k_curr k' = 1 \<and>
    runnable k' = {0} \<and> pe_prio (procs k' ! 0) = 0 \<and> pe_prio (procs k' ! 1) = 10 \<and> k_intr k' = k_intr k \<and>
    t_taken (k_table k') = True # True # replicate 1022 False \<and> pq_size (ready_queue k') \<le> 5 \<and>
    slack (k_heap k) \<le> slack (k_heap k') + boot_room \<and>
    (\<forall>N > 100000. heap_rel (k_heap k) [(N, False)] \<longrightarrow> tail_ok k' (N - 42092) \<and> pq_size (ready_queue k') = 5))"
proof -
  from table_new_ok [OF inv room, of junk] obtain h p h1 t where 1: "operator_new (k_heap k) sizeof_ProcEntryTable = Inr (h, p)" "p \<noteq> NULL"
    "ProcEntryTable_new junk 0 h = Inr (h1, t)" "t_procs t = replicate 1024 ProcEntry_default" "t_taken t = replicate 1024 False"
    "pq_size (rl_queue (t_ready t)) = 5" "pq_count (rl_queue (t_ready t)) = 0"
    "queued (k\<lparr>k_curr := 1, k_heap := h1, k_ptable := p, k_table := t\<rparr>) {}" "slack (k_heap k) \<le> slack h1 + 25692" by blast
  define k1 where "k1 = k\<lparr>k_curr := 1, k_heap := h1, k_ptable := p, k_table := t\<rparr>"
  have k1: "queued k1 {}" "0 = free_slot (t_taken (k_table k1)) 0" using 1(5,8) by (simp_all add: k1_def)
  have cr: "create_room k1 MINSTACK = 16528" by (simp add: create_room_def k1_def 1(6) MINSTACK_def)
  have sl1: "create_room k1 MINSTACK < slack (k_heap k1)" unfolding cr using room 1(9) by (simp add: k1_def boot_room_def)
  have tail: "tail_ok k1 (N - 25692)" if "heap_rel (k_heap k) [(N, False)]" "100000 < N" for N
    unfolding k1_def by (rule table_new_tail [OF that 1(1,3)])
  have i1: "processes_init junk 0 initret nullproc k =
      rbind (kthread_create junk initret NULL k1 nullproc MINSTACK 0 PR_RUNNABLE False []) (\<lambda>(k2, _).
      rbind (table_insert junk (k_heap k2) (k_table k2) (ProcEntry_ctor NULL NULL NULL 10 PR_CURR)) (\<lambda>(h3, t3, mainid).
      if mainid \<noteq> 1 then Inl Hang else Inr (k2\<lparr>k_heap := h3, k_table := t3\<rparr>)))"
    using 1(1-3) by (simp add: processes_init_def Let_def k1_def)
  show ?thesis
  proof (cases "stack_clear k1 MINSTACK 0")
    case False
    have "\<not> heap_rel (k_heap k) [(N, False)]" if "100000 < N" for N
    proof
      assume "heap_rel (k_heap k) [(N, False)]"
      from tail_clear(1) [OF tail [OF this that], of MINSTACK 0] that have "stack_clear k1 MINSTACK 0" by (simp add: MINSTACK_def)
      with False show False by simp
    qed
    moreover have "unat MINSTACK + 24 < slack (k_heap k1)" using sl1 by (simp add: create_room_def)
    then obtain r where "kmalloc (k_heap k1) MINSTACK = Inr r"
      using kh.alloc_ok [of "k_heap k1" MINSTACK] k1(1) by (auto simp: queued_def pq_state_def)
    then obtain r' where "getstack (k_heap k1) MINSTACK = Inr r'" by (simp add: getstack_def Let_def split_def)
    from kthread_create_unclear [OF this order_refl, of "[]"] False have "processes_init junk 0 initret nullproc k = Inl OutOfBounds"
      by (simp add: i1)
    ultimately show ?thesis by blast
  next
    case True
  from kthread_create_step [OF k1 _ _ order_refl sl1, of "[]" junk initret NULL nullproc 0 PR_RUNNABLE] True obtain k2 sp0 a n where
    k2: "kthread_create junk initret NULL k1 nullproc MINSTACK 0 PR_RUNNABLE False [] = Inr (k2, 0)"
      "procs k2 = (procs k1)[0 := (ProcEntry_ctor nullproc sp0 a 0 PR_RUNNABLE)\<lparr>pe_id := 0\<rparr>]"
      "t_taken (k_table k2) = (t_taken (k_table k1))[0 := True]" "k_curr k2 = k_curr k1" "k_intr k2 = k_intr k1" "queued k2 {0}"
      "others (k_heap k2) (ready_queue k2) = (others (k_heap k1) (ready_queue k1))(a \<mapsto> n)"
      "slack (k_heap k1) \<le> slack (k_heap k2) + create_room k1 MINSTACK"
      "pq_size (ready_queue k2) \<le> max (pq_size (ready_queue k1)) (2 * pq_count (ready_queue k1))"
    by auto
  have ps2: "pq_size (ready_queue k2) \<le> 5" using k2(9) 1(6,7) by (simp add: k1_def)
  have pc2: "pq_count (ready_queue k2) = 1" using k2(6) pq_mset_size [of "ready_queue k2"] by (simp add: queued_def pq_state_def)
  have tk2: "t_taken (k_table k2) = True # replicate 1023 False" by (simp add: k2(3) k1_def 1(5) replicate_update_0)
  then have f1: "1 = free_slot (t_taken (k_table k2)) 0" by simp
  let ?e = "ProcEntry_ctor NULL NULL NULL 10 PR_CURR"
  have sl2: "16 * nat (pq_size (ready_queue k2)) + 24 < slack (k_heap k2)"
    using room 1(9) k2(8) ps2 unfolding cr by (simp add: k1_def boot_room_def)
  from table_insert_ok [OF k2(6) f1 _ _ sl2, of junk ?e] obtain h3 t3 where
    3: "table_insert junk (k_heap k2) (k_table k2) ?e = Inr (h3, t3, 1)" "t_procs t3 = (procs k2)[1 := ?e\<lparr>pe_id := 1\<rparr>]"
      "t_taken t3 = (t_taken (k_table k2))[1 := True]" "queued (k2\<lparr>k_heap := h3, k_table := t3\<rparr>) {0}"
      "others h3 (rl_queue (t_ready t3)) = others (k_heap k2) (ready_queue k2)"
      "slack (k_heap k2) \<le> slack h3 + 16 * nat (pq_size (ready_queue k2)) + 16"
      "pq_size (rl_queue (t_ready t3)) \<le> max (pq_size (ready_queue k2)) (2 * pq_count (ready_queue k2))"
    by (auto simp: ProcEntry_ctor_def)
  define k3 where "k3 = k2\<lparr>k_heap := h3, k_table := t3\<rparr>"
  have "processes_init junk 0 initret nullproc k = Inr k3"
    using k2(1) 3(1) by (simp add: i1 k3_def)
  moreover have tk3: "t_taken (k_table k3) = True # True # replicate 1022 False" by (simp add: k3_def 3(3) tk2 replicate_update_0)
  moreover have cu3: "k_curr k3 = 1" "k_intr k3 = k_intr k" using k2(4,5) by (simp_all add: k3_def k1_def)
  moreover have "sched_inv k3 \<and> stacks_ok k3 \<and> runnable k3 = {0} \<and> pe_prio (procs k3 ! 0) = 0 \<and> pe_prio (procs k3 ! 1) = 10"
    by (rule boot_table_inv [OF _ tk3 cu3(1), where n = n and a = a]) (simp_all add: k3_def 3(2,4,5) k2(2,7) k1_def 1(4))
  moreover have "pq_size (ready_queue k3) \<le> 5" using 3(7) ps2 pc2 by (simp add: k3_def)
  moreover have "slack (k_heap k) \<le> slack (k_heap k3) + boot_room"
    using 1(9) k2(8) 3(6) ps2 unfolding cr by (simp add: k3_def k1_def boot_room_def)
  moreover have "tail_ok k3 (N - 42092) \<and> pq_size (ready_queue k3) = 5" if N: "100000 < N" "heap_rel (k_heap k) [(N, False)]" for N
  proof -
    have "tail_ok k2 (N - 25692 - unat MINSTACK - 16)" "pq_size (ready_queue k2) = pq_size (ready_queue k1)"
      by (rule create_tail [OF k2(1) tail [OF N(2,1)]]; use N(1) in \<open>simp add: MINSTACK_def k1_def 1(6,7)\<close>)+
    moreover have "pe_status ?e = PR_RUNNABLE \<longrightarrow> pq_count (ready_queue k2) \<noteq> pq_size (ready_queue k2)" by (simp add: ProcEntry_ctor_def)
    note table_insert_in_place [OF 3(1) this]
    ultimately show ?thesis by (simp add: tail_ok_def k3_def MINSTACK_def k1_def 1(6))
  qed
  ultimately show ?thesis by (intro disjI2 exI [of _ k3]) blast
  qed
qed

text \<open>On a fresh heap it returns.\<close>

lemma processes_init_ok:
  assumes h: "heap_rel (k_heap k) [(N, False)]" and N: "100000 < N"
  shows "\<exists>k'. processes_init junk 0 initret nullproc k = Inr k' \<and> sched_inv k' \<and> stacks_ok k' \<and> k_curr k' = 1 \<and>
    runnable k' = {0} \<and> pe_prio (procs k' ! 0) = 0 \<and> pe_prio (procs k' ! 1) = 10 \<and> k_intr k' = k_intr k \<and>
    t_taken (k_table k') = True # True # replicate 1022 False \<and> pq_size (ready_queue k') \<le> 5 \<and>
    slack (k_heap k) \<le> slack (k_heap k') + boot_room \<and> tail_ok k' (N - 42092) \<and>
    pq_size (ready_queue k') = 5"
proof -
  have "heap_inv (k_heap k)" "boot_room < slack (k_heap k)"
    using h N slack_rel [OF h] by (auto simp: heap_inv_iff boot_room_def slack_of_def)
  from processes_init_cases [OF this, of junk initret nullproc] h N show ?thesis by blast
qed

section \<open>Every reachable kernel state\<close>

text \<open>
  What a booted kernel does: timer ticks, voluntary calls of \<^verbatim>\<open>resched\<close>, thread creation with and without an
  immediate \<^verbatim>\<open>resched\<close>, suspending a process that is not running, and killing a thread. The premises that are not
  calls say that the heap has room; the null process and the boot thread are not killed (the boot thread has no
  stack block to release).
\<close>

inductive proc_step :: "junk \<Rightarrow> addr \<Rightarrow> kernel \<Rightarrow> kernel \<Rightarrow> bool" for junk initret where
  tick: "timerObserver junk sp k = Inr k' \<Longrightarrow> proc_step junk initret k k'"
| yield: "resched junk sp k = Inr k' \<Longrightarrow> proc_step junk initret k k'"
| create: "create_room k sz < slack (k_heap k) \<Longrightarrow> MINSTACK \<le> sz \<Longrightarrow>
    \<not> (\<forall>b \<in> set (t_taken (k_table k)). b) \<Longrightarrow> status = PR_RUNNABLE \<or> status = PR_SUSPENDED \<Longrightarrow>
    kthread_create junk initret sp k code sz prio status now args = Inr (k', pid) \<Longrightarrow> proc_step junk initret k k'"
| suspend: "erase_room (card (runnable k)) < slack (k_heap k) \<Longrightarrow> i < 1024 \<Longrightarrow> i \<noteq> 0 \<Longrightarrow>
    k_curr k \<noteq> int i \<Longrightarrow> suspend junk k (int i) = Inr (k', r) \<Longrightarrow> proc_step junk initret k k'"
| kill: "erase_room (card (runnable k)) < slack (k_heap k) \<Longrightarrow> 1 < i \<Longrightarrow> i < 1024 \<Longrightarrow>
    kill junk sp k (int i) = Inr (k', r) \<Longrightarrow> proc_step junk initret k k'"

inductive proc_reach :: "junk \<Rightarrow> addr \<Rightarrow> kernel \<Rightarrow> bool" for junk initret where
  boot: "heap_inv (k_heap k0) \<Longrightarrow> boot_room < slack (k_heap k0) \<Longrightarrow>
    processes_init junk 0 initret nullproc k0 = Inr k \<Longrightarrow> proc_reach junk initret k"
| step: "proc_reach junk initret k \<Longrightarrow> proc_step junk initret k k' \<Longrightarrow> proc_reach junk initret k'"

definition proc_inv :: "kernel \<Rightarrow> bool" where
  "proc_inv k \<longleftrightarrow> sched_inv k \<and> stacks_ok k \<and> (stat k 0 = PR_CURR \<or> stat k 0 = PR_RUNNABLE)"

lemma proc_inv_frame:
  assumes "proc_inv k" "same_frame k k'" "sched_inv k'"
  shows "proc_inv k'"
proof -
  have "others (k_heap k') (ready_queue k') = others (k_heap k) (ready_queue k)"
    using assms(2) by (simp add: same_frame_def others_def)
  moreover have "pe_stackmem (procs k' ! i) = pe_stackmem (procs k ! i)" if "i < 1024" for i
    using assms(2) that by (simp add: same_frame_def)
  ultimately have "stacks_ok k'"
    using assms(1) same_frame_valid [OF assms(2)] by (auto simp: proc_inv_def stacks_ok_def)
  moreover have "stat k' 0 = PR_CURR \<or> stat k' 0 = PR_RUNNABLE"
    using assms(1) same_frame_stat [OF assms(2), of 0] by (auto simp: proc_inv_def)
  ultimately show ?thesis using assms(3) by (simp add: proc_inv_def)
qed

lemma resched_inv:
  assumes "proc_inv k"
  shows "\<exists>k'. resched junk sp k = Inr k' \<and> proc_inv k'"
proof -
  obtain c where "k_curr k = int c" using assms by (auto simp: proc_inv_def sched_inv_def)
  with resched_current [of k c junk sp] assms proc_inv_frame [OF assms] show ?thesis
    by (auto simp: proc_inv_def)
qed

lemma timerObserver_inv:
  assumes "proc_inv k"
  shows "\<exists>k'. timerObserver junk sp k = Inr k' \<and> proc_inv k'"
proof -
  let ?k = "k\<lparr>timerFired := timerFired k + 1\<rparr>"
  have "proc_inv ?k" using assms sched_inv_cong [of ?k k] by (simp add: proc_inv_def stacks_ok_def)
  then show ?thesis unfolding timerObserver_def by (rule resched_inv)
qed

lemma suspend_inv:
  assumes inv: "proc_inv k" and room: "erase_room (card (runnable k)) < slack (k_heap k)"
    and i: "i < 1024" "i \<noteq> 0" "k_curr k \<noteq> int i"
  shows "\<exists>k' r. suspend junk k (int i) = Inr (k', r) \<and> proc_inv k' \<and>
    (if valid_status (stat k i) then r = PROC_OK \<and> stat k' i = PR_SUSPENDED \<and> runnable k' = runnable k - {i}
     else r = PROC_NEX \<and> k' = k)"
proof (cases "valid_status (stat k i)")
  case False
  have "length (procs k) = 1024" using inv by (simp add: proc_inv_def sched_inv_def queued_def)
  with False inv i show ?thesis by (simp add: suspend_def isvalid_ok)
next
  case True
  from inv obtain c where c: "k_curr k = int c" "c < 1024" "\<forall>j < 1024. stat k j = PR_CURR \<longleftrightarrow> j = c"
    and na: "\<forall>j < 1024. \<not> t_taken (k_table k) ! j \<longrightarrow> stat k j = PR_NA" and q: "queued k (runnable k)"
    by (auto simp: proc_inv_def sched_inv_def)
  have len: "length (procs k) = 1024" using q by (simp add: queued_def)
  have "i \<in> runnable k \<longleftrightarrow> stat k i = PR_RUNNABLE" using i by (simp add: runnable_def)
  from suspend_ok [OF q i(1) True this room, of junk] obtain k' where k': "suspend junk k (int i) = Inr (k', PROC_OK)"
    "queued k' (runnable k - {i})" "procs k' = (procs k)[i := (procs k ! i)\<lparr>pe_status := PR_SUSPENDED\<rparr>]"
    "t_taken (k_table k') = t_taken (k_table k)" "k_curr k' = k_curr k"
    "others (k_heap k') (ready_queue k') = others (k_heap k) (ready_queue k)" by blast
  have stat': "stat k' j = (if j = i then PR_SUSPENDED else stat k j)" if "j < 1024" for j
    using that len i(1) by (auto simp: k'(3) nth_list_update)
  have sm': "pe_stackmem (procs k' ! j) = pe_stackmem (procs k ! j)" if "j < 1024" for j
    using that len i(1) by (auto simp: k'(3) nth_list_update)
  have run: "runnable k' = runnable k - {i}" by (auto simp: runnable_def stat' split: if_splits)
  have "sched_inv k'" using k'(2,4,5) c na i True by (auto simp: sched_inv_def run stat' valid_status_def)
  moreover have "valid_status (stat k' j) = valid_status (stat k j)" if "j < 1024" for j
    using that True by (auto simp: stat' valid_status_def)
  then have "stacks_ok k'" using inv by (auto simp: proc_inv_def stacks_ok_def k'(6) sm')
  ultimately have "proc_inv k'" using inv i(2) by (simp add: proc_inv_def stat')
  with k'(1) True run stat' [of i] i(1) show ?thesis by auto
qed

lemma kill_inv:
  assumes inv: "proc_inv k" and room: "erase_room (card (runnable k)) < slack (k_heap k)" and i: "1 < i" "i < 1024"
  shows "\<exists>k' r. kill junk sp k (int i) = Inr (k', r) \<and> proc_inv k' \<and>
    (if valid_status (stat k i)
     then r = PROC_OK \<and> stat k' i = PR_DEAD \<and>
       others (k_heap k') (ready_queue k') = (others (k_heap k) (ready_queue k))(pe_stackmem (procs k ! i) := None) \<and>
       (\<forall>j < 1024. j \<noteq> i \<longrightarrow> pe_stackmem (procs k' ! j) = pe_stackmem (procs k ! j) \<and>
          (stat k' j = stat k j \<or> {stat k j, stat k' j} \<subseteq> {PR_CURR, PR_RUNNABLE})) \<and>
       (\<exists>k4. procs k4 = (procs k)[i := (procs k ! i)\<lparr>pe_status := PR_DEAD, pe_stackmem := NULL\<rparr>] \<and> k_curr k4 = k_curr k \<and>
          queued k4 (runnable k - {i}) \<and> resched junk sp k4 = Inr k' \<and> resched_counter k' = resched_counter k + 1)
     else r = PROC_NEX \<and> k' = k)"
proof (cases "valid_status (stat k i)")
  case False
  have "length (procs k) = 1024" using inv by (simp add: proc_inv_def sched_inv_def queued_def)
  with False inv i show ?thesis by (simp add: kill_def isvalid_ok)
next
  case True
  have s: "sched_inv k" "stacks_ok k" using inv by (auto simp: proc_inv_def)
  have stk: "others (k_heap k) (ready_queue k) (pe_stackmem (procs k ! i)) \<noteq> None"
    using s(2) i True by (auto simp: stacks_ok_def)
  have "0 \<in> runnable k" if "k_curr k = int i"
    using inv i that by (auto simp: proc_inv_def sched_inv_def runnable_def)
  then have "k_curr k = int i \<longrightarrow> runnable k \<noteq> {}" by auto
  from kill_ok [OF s(1) i(2) True room stk this, of junk sp] obtain k' where k': "kill junk sp k (int i) = Inr (k', PROC_OK)"
    "sched_inv k'" "stat k' i = PR_DEAD"
    "others (k_heap k') (ready_queue k') = (others (k_heap k) (ready_queue k))(pe_stackmem (procs k ! i) := None)"
    and fr: "\<forall>j < 1024. j \<noteq> i \<longrightarrow> pe_stackmem (procs k' ! j) = pe_stackmem (procs k ! j) \<and>
      (stat k' j = stat k j \<or> {stat k j, stat k' j} \<subseteq> {PR_CURR, PR_RUNNABLE})"
    and k4: "\<exists>k4. procs k4 = (procs k)[i := (procs k ! i)\<lparr>pe_status := PR_DEAD, pe_stackmem := NULL\<rparr>] \<and> k_curr k4 = k_curr k \<and>
       queued k4 (runnable k - {i}) \<and> resched junk sp k4 = Inr k' \<and> resched_counter k' = resched_counter k + 1" by blast
  have val: "valid_status (stat k' j) \<longleftrightarrow> j \<noteq> i \<and> valid_status (stat k j)" if "j < 1024" for j
    using fr that k'(3) by (cases "j = i") (auto simp: valid_status_def)
  have sm: "pe_stackmem (procs k' ! j) = pe_stackmem (procs k ! j)" if "j < 1024" "j \<noteq> i" for j using fr that by blast
  have "pe_stackmem (procs k ! j) \<noteq> pe_stackmem (procs k ! i)" if "j < 1024" "j \<noteq> 1" "j \<noteq> i" "valid_status (stat k j)" for j
    using s(2) that i True unfolding stacks_ok_def by fastforce
  then have "stacks_ok k'" using s(2) unfolding stacks_ok_def k'(4) by (auto simp: val sm)
  moreover have "stat k' 0 = PR_CURR \<or> stat k' 0 = PR_RUNNABLE" using fr [rule_format, of 0] i inv by (auto simp: proc_inv_def)
  ultimately have "proc_inv k'" using k'(2) by (simp add: proc_inv_def)
  with k' True fr k4 show ?thesis by (intro exI [of _ k'] exI [of _ PROC_OK]) simp
qed

lemma kthread_create_now:
  "kthread_create junk initret sp k code sz prio status True args =
   rbind (kthread_create junk initret sp k code sz prio status False args)
     (\<lambda>(k1, pid). rbind (resched junk sp k1) (\<lambda>k2. Inr (k2, pid)))"
  by (simp add: kthread_create_def Let_def rbind_assoc split_def if_distrib [of "\<lambda>x. rbind x _"] cong: if_cong)

lemma kthread_create_inv:
  assumes inv: "proc_inv k" and free: "\<not> (\<forall>b \<in> set (t_taken (k_table k)). b)"
    and st: "status = PR_RUNNABLE \<or> status = PR_SUSPENDED" and sz: "MINSTACK \<le> sz" and room: "create_room k sz < slack (k_heap k)"
    and clr: "stack_clear k sz (length args)"
  shows "\<exists>k' pid. kthread_create junk initret sp k code sz prio status now args = Inr (k', pid) \<and> proc_inv k'"
proof -
  have s: "sched_inv k" "stacks_ok k" using inv by (auto simp: proc_inv_def)
  from kthread_create_ok [OF s free st sz room clr, of junk initret sp code prio] obtain k1 i where
    k1: "kthread_create junk initret sp k code sz prio status False args = Inr (k1, int i)" "sched_inv k1" "stacks_ok k1"
      "stat k i = PR_NA" "\<forall>j < 1024. j \<noteq> i \<longrightarrow> procs k1 ! j = procs k ! j" by blast
  have "i \<noteq> 0" using k1(4) inv by (intro notI) (auto simp: proc_inv_def)
  then have p1: "proc_inv k1" using k1(2,3,5) inv by (auto simp: proc_inv_def)
  with resched_inv [OF p1, of junk sp] k1(1) show ?thesis by (cases now) (auto simp: kthread_create_now)
qed

lemma kthread_create_caught:
  assumes "heap_inv (k_heap k)" "create_room k sz < slack (k_heap k)" "MINSTACK \<le> sz" "\<not> stack_clear k sz (length args)"
  shows "kthread_create junk initret sp k code sz prio status now args = Inl OutOfBounds"
proof -
  obtain r where "kmalloc (k_heap k) sz = Inr r" using kh.alloc_ok [OF assms(1), of sz] assms(2) by (auto simp: create_room_def)
  then have "\<exists>r. getstack (k_heap k) sz = Inr r" by (simp add: getstack_def Let_def split_def)
  with kthread_create_unclear [OF _ assms(3,4)] show ?thesis by blast
qed

lemma free_slot_prefix: "free_slot (replicate n True @ replicate m False) i = i + n"
  by (induction n arbitrary: i) (cases m, auto)

lemma update_prefix: "0 < m \<Longrightarrow> (replicate n x @ replicate m y)[n := x] = replicate (Suc n) x @ replicate (m - 1) y"
  by (simp add: list_update_append replicate_update_0 replicate_app_Cons_same)

text \<open>A new thread in a table whose first \<open>n\<close> slots are taken.\<close>

lemma create_next:
  assumes inv: "proc_inv k" and tk: "t_taken (k_table k) = replicate n True @ replicate (1024 - n) False" and n: "n < 1024"
    and sz: "MINSTACK \<le> sz" and room: "create_room k sz < slack (k_heap k)" and clr: "stack_clear k sz (length args)"
  shows "\<exists>k'. kthread_create junk initret sp k code sz prio PR_RUNNABLE False args = Inr (k', int n) \<and> proc_inv k' \<and>
    t_taken (k_table k') = replicate (Suc n) True @ replicate (1024 - Suc n) False \<and> stat k' n = PR_RUNNABLE \<and>
    pe_prio (procs k' ! n) = prio \<and> k_curr k' = k_curr k \<and> (\<forall>j < 1024. j \<noteq> n \<longrightarrow> procs k' ! j = procs k ! j) \<and>
    slack (k_heap k) \<le> slack (k_heap k') + create_room k sz \<and>
    pq_size (ready_queue k') \<le> max (pq_size (ready_queue k)) (2 * int (card (runnable k)))"
proof -
  have s: "sched_inv k" "stacks_ok k" using inv by (auto simp: proc_inv_def)
  have q: "queued k (runnable k)" using s(1) by (simp add: sched_inv_def)
  have i: "n = free_slot (t_taken (k_table k)) 0" unfolding tk by (simp only: free_slot_prefix)
  have free: "\<not> (\<forall>b \<in> set (t_taken (k_table k)). b)" using n by (auto simp: tk)
  have "stat k n = PR_NA" using s(1) n tk by (auto simp: sched_inv_def nth_append)
  then have nr: "n \<notin> runnable k" by (simp add: runnable_def)
  from kthread_create_ok [OF s free _ sz room clr, of PR_RUNNABLE junk initret sp code prio] obtain k' where
    k': "kthread_create junk initret sp k code sz prio PR_RUNNABLE False args = Inr (k', int n)" "stat k' n = PR_RUNNABLE"
      "pe_prio (procs k' ! n) = prio" "k_curr k' = k_curr k" "\<forall>j < 1024. j \<noteq> n \<longrightarrow> procs k' ! j = procs k ! j"
      "slack (k_heap k) \<le> slack (k_heap k') + create_room k sz"
      "pq_size (ready_queue k') \<le> max (pq_size (ready_queue k)) (2 * pq_count (ready_queue k))"
    unfolding i [symmetric] by blast
  moreover from kthread_create_step [OF q i n nr sz room clr, of junk initret sp code prio PR_RUNNABLE] k'(1) have
    "t_taken (k_table k') = (t_taken (k_table k))[n := True]" by auto
  then have "t_taken (k_table k') = replicate (Suc n) True @ replicate (1024 - Suc n) False"
    using update_prefix [of "1024 - n" n True False] n by (simp add: tk del: replicate_Suc)
  moreover have "proc_inv k'"
    using kthread_create_inv [OF inv free _ sz room clr, of PR_RUNNABLE junk initret sp code prio False] k'(1) by auto
  moreover have "pq_count (ready_queue k) = int (card (runnable k))"
    using q pq_mset_size [of "ready_queue k"] by (simp add: queued_def pq_state_def)
  ultimately show ?thesis by (intro exI [of _ k']) simp
qed

lemma proc_step_inv:
  assumes "proc_step junk initret k k'" "proc_inv k"
  shows "proc_inv k'"
  using assms
proof (cases rule: proc_step.cases)
  case (tick sp)
  with timerObserver_inv [OF assms(2), of junk sp] show ?thesis by auto
next
  case (yield sp)
  with resched_inv [OF assms(2), of junk sp] show ?thesis by auto
next
  case (create sz status sp code prio now args pid)
  with kthread_create_inv [OF assms(2) create(3,4,2,1) kthread_create_clear [OF create(5,2)], of junk initret sp code prio now] show ?thesis by auto
next
  case (suspend i r)
  with suspend_inv [OF assms(2) suspend(1-4), of junk] show ?thesis by auto
next
  case (kill i sp r)
  with kill_inv [OF assms(2) kill(1-3), of junk sp] show ?thesis by auto
qed

lemma proc_reach_inv: "proc_reach junk initret k \<Longrightarrow> proc_inv k"
proof (induction rule: proc_reach.induct)
  case (boot k0 nullproc k)
  from processes_init_cases [OF boot(1,2), of junk initret nullproc] boot(3) show ?case by (auto simp: proc_inv_def runnable_def)
qed (rule proc_step_inv)

section \<open>Witness states\<close>

definition no_kv :: junk where
  "no_kv = (\<lambda>_. \<lparr>key = 0, val = 0\<rparr>)"

definition empty_table :: proc_table where
  "empty_table = \<lparr>t_num = 0, t_ready = \<lparr>rl_queue = \<lparr>pq_ptr = 0, pq_mem = [], pq_size = 0, pq_count = 0\<rparr>, rl_count = 0\<rparr>,
     t_procs = [], t_taken = []\<rparr>"

definition kernel0 :: kernel where
  "kernel0 = \<lparr>k_heap = roomy_heap, k_ptable = NULL, k_table = empty_table, k_curr = 1, k_intr = \<lparr>imr = 0, iflag = True\<rparr>,
     k_mem = (\<lambda>_. 0), resched_counter = 0, switched_counter = 0, timerFired = 0\<rparr>"

lemma kernel0_room: "heap_inv (k_heap kernel0)" "boot_room < slack (k_heap kernel0)"
  using roomy_heap_inv by (simp_all add: kernel0_def boot_room_def)

lemma kernel0_fresh: "heap_rel (k_heap kernel0) [(4194288, False)]"
  using block_init_rel [of 4096 4194304 demo_heap] by (simp add: kernel0_def roomy_heap_def)

text \<open>The booted kernel, and the kernel with a thread of priority 20 at pid 2.\<close>

lemma kernel_booted:
  obtains k where "processes_init no_kv 0 7 9 kernel0 = Inr k" "proc_inv k" "k_curr k = 1" "runnable k = {0}"
    "pe_prio (procs k ! 0) = 0" "pe_prio (procs k ! 1) = 10" "t_taken (k_table k) = True # True # replicate 1022 False"
    "22000 < slack (k_heap k)" "create_room k MINSTACK \<le> 16528" "k_intr k = \<lparr>imr = 0, iflag = True\<rparr>" "tail_ok k 4152196"
    "pq_count (ready_queue k) \<noteq> pq_size (ready_queue k)" "pq_size (ready_queue k) = 5" "4000000 < slack (k_heap k)"
proof -
  from processes_init_ok [OF kernel0_fresh, of no_kv 7 9] obtain k where k: "processes_init no_kv 0 7 9 kernel0 = Inr k"
    "sched_inv k" "stacks_ok k" "k_curr k = 1" "runnable k = {0}" "pe_prio (procs k ! 0) = 0" "pe_prio (procs k ! 1) = 10"
    "k_intr k = k_intr kernel0" "t_taken (k_table k) = True # True # replicate 1022 False" "pq_size (ready_queue k) \<le> 5"
    "slack (k_heap kernel0) \<le> slack (k_heap k) + boot_room" "tail_ok k 4152196" "pq_size (ready_queue k) = 5" by auto
  have "proc_inv k" using k(2,3,5) by (auto simp: proc_inv_def runnable_def)
  moreover have "22000 < slack (k_heap k)" "4000000 < slack (k_heap k)" using k(11) roomy_heap_inv(2) by (simp_all add: kernel0_def boot_room_def)
  moreover have "create_room k MINSTACK \<le> 16528" using k(10) by (simp add: create_room_def MINSTACK_def)
  moreover have "pq_count (ready_queue k) = 1"
    using k(2,5) pq_mset_size [of "ready_queue k"] by (simp add: sched_inv_def queued_def pq_state_def)
  ultimately show ?thesis using that k by (simp add: kernel0_def)
qed

lemma kernel_thread_at_2:
  assumes st: "st = PR_RUNNABLE \<or> st = PR_SUSPENDED"
  obtains k0 k where "processes_init no_kv 0 7 9 kernel0 = Inr k0"
    "kthread_create no_kv 7 0 k0 77 MINSTACK 20 st False [] = Inr (k, 2)" "proc_inv k" "k_curr k = 1"
    "runnable k = (if st = PR_RUNNABLE then {0, 2} else {0})"
    "pe_prio (procs k ! 0) = 0" "pe_prio (procs k ! 1) = 10" "pe_prio (procs k ! 2) = 20" "stat k 2 = st"
    "5000 < slack (k_heap k)" "pq_size (ready_queue k) \<le> 10" "tail_ok k 4135796"
proof -
  obtain k0 where k0: "processes_init no_kv 0 7 9 kernel0 = Inr k0" "proc_inv k0" "k_curr k0 = 1" "runnable k0 = {0}"
    "pe_prio (procs k0 ! 0) = 0" "pe_prio (procs k0 ! 1) = 10" "t_taken (k_table k0) = True # True # replicate 1022 False"
    "22000 < slack (k_heap k0)" "create_room k0 MINSTACK \<le> 16528" "tail_ok k0 4152196"
    "pq_count (ready_queue k0) \<noteq> pq_size (ready_queue k0)" by (rule kernel_booted)
  have clr: "stack_clear k0 MINSTACK (length ([] :: u32 list))" by (rule tail_clear(1) [OF k0(10)]) (simp_all add: MINSTACK_def)
  have s: "sched_inv k0" "stacks_ok k0" using k0(2) by (auto simp: proc_inv_def)
  have f: "\<not> (\<forall>b \<in> set (t_taken (k_table k0)). b)" "free_slot (t_taken (k_table k0)) 0 = 2" by (simp_all add: k0(7))
  have r: "create_room k0 MINSTACK < slack (k_heap k0)" using k0(8,9) by simp
  from kthread_create_ok [OF s f(1) st order_refl r clr, of no_kv 7 0 77 20, unfolded f(2)] obtain k where
    k: "kthread_create no_kv 7 0 k0 77 MINSTACK 20 st False [] = Inr (k, int 2)" "sched_inv k" "stacks_ok k"
      "stat k 2 = st" "pe_prio (procs k ! 2) = 20" "k_curr k = k_curr k0"
      "\<forall>j < 1024. j \<noteq> 2 \<longrightarrow> procs k ! j = procs k0 ! j" "slack (k_heap k0) \<le> slack (k_heap k) + create_room k0 MINSTACK"
      "pq_size (ready_queue k) \<le> max (pq_size (ready_queue k0)) (2 * pq_count (ready_queue k0))"
    by blast
  have na: "stat k0 2 = PR_NA" using s(1) by (simp add: sched_inv_def k0(7))
  have "stat k j = (if j = 2 then st else stat k0 j)" if "j < 1024" for j using that k(4,7) by simp
  then have "runnable k = (if st = PR_RUNNABLE then insert 2 (runnable k0) else runnable k0)"
    using na st by (auto simp: runnable_def split: if_splits)
  then have "runnable k = (if st = PR_RUNNABLE then {0, 2} else {0})" by (auto simp: k0(4))
  moreover have "proc_inv k" using k(2,3,7) k0(2) by (simp add: proc_inv_def)
  moreover have "5000 < slack (k_heap k)" using k(8) k0(8,9) by simp
  moreover have "pq_size (ready_queue k0) \<le> 5" using k0(9) by (simp add: create_room_def MINSTACK_def)
  then have "pq_size (ready_queue k) \<le> 10"
    using k(9) s(1) by (auto simp: sched_inv_def queued_def pq_state_def pq_inv_def)
  moreover have "tail_ok k (4152196 - unat MINSTACK - 16)"
    by (rule create_tail(1) [OF k(1) k0(10)]) (use k0(11) in \<open>simp_all add: MINSTACK_def\<close>)
  then have "tail_ok k 4135796" by (simp add: MINSTACK_def)
  ultimately show ?thesis using that [OF k0(1), of k] k(1,4-7) k0(3,5,6) by simp
qed

lemmas kernel_threads = kernel_thread_at_2 [OF disjI1, OF refl, unfolded if_P [OF refl]]
lemmas kernel_suspended = kernel_thread_at_2 [OF disjI2, OF refl]

section \<open>Correctness of processes and scheduler\<close>

text \<open>
  C6. \<^verbatim>\<open>resched\<close> in a running process: it always returns, leaves the interrupt mask as it was (up to the
  controllers' fixed mask \<^verbatim>\<open>girmask\<close>) with interrupts enabled, and keeps the scheduler invariant. If the
  running process has a strictly higher priority than every runnable one nothing changes; otherwise a process of
  maximal priority becomes current, the old one becomes runnable, and its stack pointer is saved.
\<close>

theorem resched_schedules_best:
  assumes "sched_inv k" "k_curr k = int c"
  shows "\<exists>k'. resched junk sp k = Inr k' \<and> sched_inv k' \<and> k_intr k' = \<lparr>imr = imr (k_intr k) AND girmask, iflag = True\<rparr> \<and>
    (if \<forall>i \<in> runnable k. pe_prio (procs k ! i) < pe_prio (procs k ! c)
     then k_table k' = k_table k \<and> k_curr k' = int c
     else \<exists>n \<in> runnable k. k_curr k' = int n \<and> (\<forall>i \<in> insert c (runnable k). pe_prio (procs k ! i) \<le> pe_prio (procs k ! n)) \<and>
       runnable k' = insert c (runnable k - {n}) \<and> pe_sp (procs k' ! c) = sp)"
  using resched_current [OF assms, of junk sp] by (elim exE conjE) blast

theorem resched_schedules_best_witness:
  "\<exists>k k'. sched_inv k \<and> k_curr k = int 1 \<and> resched no_kv 4096 k = Inr k' \<and> k_curr k' = 2 \<and> runnable k' = {0, 1}"
proof -
  obtain k where k: "proc_inv k" "k_curr k = 1" "runnable k = {0, 2}" "pe_prio (procs k ! 0) = 0" "pe_prio (procs k ! 1) = 10"
    "pe_prio (procs k ! 2) = 20" by (rule kernel_threads)
  have s: "sched_inv k" "k_curr k = int 1" using k by (simp_all add: proc_inv_def)
  have out: "\<not> (\<forall>i \<in> runnable k. pe_prio (procs k ! i) < pe_prio (procs k ! 1))" using k(5) by (simp add: k(3,4,6))
  from resched_schedules_best [OF s, of no_kv 4096, unfolded if_not_P [OF out]] obtain k' n where
    k': "resched no_kv 4096 k = Inr k'" "n \<in> runnable k" "k_curr k' = int n" "runnable k' = insert 1 (runnable k - {n})"
      "\<forall>i \<in> insert 1 (runnable k). pe_prio (procs k ! i) \<le> pe_prio (procs k ! n)" by blast
  have "n \<noteq> 0" using k'(5) k(5) k(4) by (intro notI) auto
  then have "n = 2" using k'(2) by (simp add: k(3))
  then have "k_curr k' = 2" "runnable k' = {0, 1}" unfolding k'(3,4) k(3) by auto
  with s k'(1) show ?thesis by blast
qed

text \<open>
  C7. In every state a booted kernel can reach by timer ticks, calls of \<^verbatim>\<open>resched\<close>, thread creation, suspension and
  \<^verbatim>\<open>kill\<close>: exactly one process is current, the ready list holds exactly the runnable ones, every thread has a
  live block of its own that was allocated for its stack (where the stack itself lies is C40), the null process can still run, and
  the next timer tick is handled without a fault (it neither hangs nor reads outside the table). Creating a thread where there is room
  returns, except that the initial stack it stores may hit a header of the heap, the process table or the ready list; the
  states behind such a store are not modelled.
\<close>

theorem proc_reach_safe:
  assumes "proc_reach junk initret k"
  shows "sched_inv k \<and> stacks_ok k \<and> (stat k 0 = PR_CURR \<or> stat k 0 = PR_RUNNABLE) \<and> (\<exists>k'. timerObserver junk sp k = Inr k') \<and>
    (MINSTACK \<le> sz \<and> create_room k sz < slack (k_heap k) \<and> \<not> (\<forall>b \<in> set (t_taken (k_table k)). b) \<and>
       (status = PR_RUNNABLE \<or> status = PR_SUSPENDED) \<longrightarrow>
     (if stack_clear k sz (length args) then \<exists>r. kthread_create junk initret sp k code sz prio status now args = Inr r
      else kthread_create junk initret sp k code sz prio status now args = Inl OutOfBounds))"
proof -
  have inv: "proc_inv k" by (rule proc_reach_inv [OF assms])
  show ?thesis using inv timerObserver_inv [OF inv, of junk sp] kthread_create_inv [OF inv, of status sz args junk initret sp code prio now]
      kthread_create_caught [of k sz args junk initret sp code prio status now]
    unfolding proc_inv_def sched_inv_def queued_def pq_state_def by (simp split del: if_split) metis
qed

theorem proc_reach_safe_witness:
  "\<exists>k0 k k'. processes_init no_kv 0 7 9 kernel0 = Inr k0 \<and>
     kthread_create no_kv 7 0 k0 77 MINSTACK 20 PR_RUNNABLE False [] = Inr (k, 2) \<and> sched_inv k \<and> timerObserver no_kv 0 k = Inr k'"
proof -
  obtain k1 where k1: "processes_init no_kv 0 7 9 kernel0 = Inr k1" "t_taken (k_table k1) = True # True # replicate 1022 False"
    "22000 < slack (k_heap k1)" "create_room k1 MINSTACK \<le> 16528" by (rule kernel_booted)
  obtain k0 k where k: "processes_init no_kv 0 7 9 kernel0 = Inr k0"
    "kthread_create no_kv 7 0 k0 77 MINSTACK 20 PR_RUNNABLE False [] = Inr (k, 2)" by (rule kernel_threads)
  have "k1 = k0" using k1(1) k(1) by simp
  have r0: "proc_reach no_kv 7 k0" by (rule proc_reach.boot [OF kernel0_room k(1)])
  have "proc_step no_kv 7 k0 k"
    by (rule proc_step.create [OF _ order_refl _ _ k(2)]) (use k1 \<open>k1 = k0\<close> in auto)
  then have "proc_reach no_kv 7 k" by (rule proc_reach.step [OF r0])
  from proc_reach_safe [OF this, where sp = 0] k show ?thesis by blast
qed

text \<open>
  C19. \<^verbatim>\<open>kill\<close> of any pid but those of the null process and the boot thread (which have no stack to release, or must not go): a number that
  is no pid is an access outside the table; a pid without a process that can run is reported with \<^verbatim>\<open>PROC_NEX\<close> and nothing changes;
  otherwise exactly that thread is dead and off the ready list, its entry has lost its stack block, exactly this block has been
  released from the heap, every other entry is as it was (\<open>k4\<close>), and then \<^verbatim>\<open>resched\<close> has run once, whoever was killed: every difference
  to \<open>k4\<close> is what that call did. The invariants hold again, also when a thread kills itself.
\<close>

theorem kill_correct:
  assumes "proc_inv k" "erase_room (card (runnable k)) < slack (k_heap k)" "pid \<noteq> 0" "pid \<noteq> 1"
  shows "if pid < 0 \<or> 1024 \<le> pid then kill junk sp k pid = Inl OutOfBounds
    else if \<not> valid_status (stat k (nat pid)) then kill junk sp k pid = Inr (k, PROC_NEX)
    else \<exists>k' k4. kill junk sp k pid = Inr (k', PROC_OK) \<and> proc_inv k' \<and> stat k' (nat pid) = PR_DEAD \<and>
      procs k4 = (procs k)[nat pid := (procs k ! nat pid)\<lparr>pe_status := PR_DEAD, pe_stackmem := NULL\<rparr>] \<and> k_curr k4 = k_curr k \<and>
      queued k4 (runnable k - {nat pid}) \<and> resched junk sp k4 = Inr k' \<and> resched_counter k' = resched_counter k + 1 \<and>
      (\<forall>j < 1024. j \<noteq> nat pid \<longrightarrow> pe_stackmem (procs k' ! j) = pe_stackmem (procs k ! j) \<and>
         (stat k' j = stat k j \<or> {stat k j, stat k' j} \<subseteq> {PR_CURR, PR_RUNNABLE})) \<and>
      others (k_heap k') (ready_queue k') = (others (k_heap k) (ready_queue k))(pe_stackmem (procs k ! nat pid) := None)"
proof (cases "pid < 0 \<or> 1024 \<le> pid")
  case True
  have "length (procs k) = 1024" using assms(1) by (simp add: proc_inv_def sched_inv_def queued_def)
  with True show ?thesis by (auto simp: kill_def isvalid_def procent_def rd_def)
next
  case False
  then obtain i where i: "pid = int i" "1 < i" "i < 1024" using assms(3,4) by (cases pid) auto
  from kill_inv [OF assms(1,2) i(2,3), of junk sp] obtain k' r where k': "kill junk sp k (int i) = Inr (k', r)" "proc_inv k'"
    "if valid_status (stat k i) then r = PROC_OK \<and> stat k' i = PR_DEAD \<and>
       others (k_heap k') (ready_queue k') = (others (k_heap k) (ready_queue k))(pe_stackmem (procs k ! i) := None) \<and>
       (\<forall>j < 1024. j \<noteq> i \<longrightarrow> pe_stackmem (procs k' ! j) = pe_stackmem (procs k ! j) \<and>
          (stat k' j = stat k j \<or> {stat k j, stat k' j} \<subseteq> {PR_CURR, PR_RUNNABLE})) \<and>
       (\<exists>k4. procs k4 = (procs k)[i := (procs k ! i)\<lparr>pe_status := PR_DEAD, pe_stackmem := NULL\<rparr>] \<and> k_curr k4 = k_curr k \<and>
          queued k4 (runnable k - {i}) \<and> resched junk sp k4 = Inr k' \<and> resched_counter k' = resched_counter k + 1)
     else r = PROC_NEX \<and> k' = k" by blast
  show ?thesis
  proof (cases "valid_status (stat k i)")
    case True
    note k'(3) [unfolded if_P [OF True]]
    with k'(1,2) show ?thesis unfolding i(1) nat_int if_not_P [OF False [unfolded i(1)]] using True by (simp only: simp_thms if_False if_True) blast
  next
    case inv: False
    with k'(1,3) False show ?thesis by (simp add: i(1))
  qed
qed

theorem kill_correct_witness:
  "\<exists>k k'. proc_inv k \<and> k_curr k = 1 \<and> runnable k = {0, 2} \<and> kill no_kv 0 k 2 = Inr (k', PROC_OK) \<and> stat k' 2 = PR_DEAD \<and> proc_inv k'"
proof -
  obtain k where k: "proc_inv k" "k_curr k = 1" "runnable k = {0, 2}" "stat k 2 = PR_RUNNABLE" "5000 < slack (k_heap k)"
    by (rule kernel_threads)
  have r: "erase_room (card (runnable k)) < slack (k_heap k)" using k(5) by (simp add: k(3) erase_room_def)
  have v: "valid_status (stat k 2)" by (simp add: k(4) valid_status_def)
  from kill_correct [OF k(1) r, of 2 no_kv 0] v obtain k' where "kill no_kv 0 k 2 = Inr (k', PROC_OK)" "proc_inv k'" "stat k' 2 = PR_DEAD" by auto
  with k(1-3) show ?thesis by blast
qed

lemma processes_init_inv:
  assumes "heap_rel (k_heap k) [(N, False)]" "100000 < N"
  shows "\<exists>k'. processes_init junk 0 initret nullproc k = Inr k' \<and> proc_inv k' \<and> k_curr k' = 1 \<and> runnable k' = {0} \<and>
    stat k' 1 = PR_CURR \<and> pe_prio (procs k' ! 0) = 0 \<and> pe_prio (procs k' ! 1) = 10 \<and> readyCount (k_table k') = 1 \<and>
    t_taken (k_table k') = True # True # replicate 1022 False \<and> pq_size (ready_queue k') = 5 \<and> slack (k_heap k) \<le> slack (k_heap k') + boot_room \<and>
    tail_ok k' (N - 42092)"
proof -
  from processes_init_ok [OF assms, of junk initret nullproc] obtain k' where
    k': "processes_init junk 0 initret nullproc k = Inr k'" "sched_inv k'" "stacks_ok k'" "k_curr k' = 1" "runnable k' = {0}"
      "pe_prio (procs k' ! 0) = 0" "pe_prio (procs k' ! 1) = 10" "t_taken (k_table k') = True # True # replicate 1022 False"
      "pq_size (ready_queue k') = 5" "slack (k_heap k) \<le> slack (k_heap k') + boot_room" "tail_ok k' (N - 42092)" by blast
  have "stat k' 1 = PR_CURR" using k'(2,4) by (auto simp: sched_inv_def)
  moreover have "proc_inv k'" using k'(2,3,5) by (auto simp: proc_inv_def runnable_def)
  moreover have "readyCount (k_table k') = 1"
    using k'(2,5) pq_mset_size [of "ready_queue k'"] by (simp add: sched_inv_def readyCount_def queued_def pq_state_def)
  ultimately show ?thesis using k' by blast
qed

text \<open>
  \<^verbatim>\<open>processes::init\<close> on a fresh heap (and a zeroed counter in the ready list): the null process has
  pid 0 and priority 0 and is runnable, the boot thread is pid 1, current, with priority 10, and the invariant of
  the process table holds.
\<close>

theorem processes_init_correct:
  assumes "heap_rel (k_heap k) [(N, False)]" "100000 < N"
  shows "\<exists>k'. processes_init junk 0 initret nullproc k = Inr k' \<and> proc_inv k' \<and> k_curr k' = 1 \<and> runnable k' = {0} \<and>
    stat k' 1 = PR_CURR \<and> pe_prio (procs k' ! 0) = 0 \<and> pe_prio (procs k' ! 1) = 10 \<and> readyCount (k_table k') = 1"
  using processes_init_inv [OF assms] by blast

theorem processes_init_correct_witness:
  "\<exists>k'. heap_rel (k_heap kernel0) [(4194288, False)] \<and> processes_init no_kv 0 7 9 kernel0 = Inr k' \<and> runnable k' = {0}"
  using processes_init_correct [OF kernel0_fresh, of no_kv 7 9] kernel0_fresh by auto

text \<open>
  C20. \<^verbatim>\<open>kthread_create\<close> with a free slot and room in the heap. Its initial stack lies outside the block allocated for it (C40); where it
  would hit a header of the heap, the process table or the ready list the model stops with \<open>OutOfBounds\<close>, since what the program does from
  then on is not modelled. Otherwise the thread gets the lowest free pid, and its entry holds the function, the
  stack pointer \<^verbatim>\<open>create_stack\<close> returned for the frame it stored, the block allocated, the pid, the status and the priority; nobody else's entry
  changes, exactly that block is new in the heap, the thread is on the ready list exactly if it was created
  runnable, and the invariants hold; with \<^verbatim>\<open>do_resched\<close> one call of \<^verbatim>\<open>resched\<close> follows, and they hold again.
\<close>

theorem kthread_create_correct:
  assumes "proc_inv k" "\<not> (\<forall>b \<in> set (t_taken (k_table k)). b)" "status = PR_RUNNABLE \<or> status = PR_SUSPENDED"
    and "MINSTACK \<le> sz" "create_room k sz < slack (k_heap k)"
  shows "if \<not> stack_clear k sz (length args) then kthread_create junk initret sp k code sz prio status now args = Inl OutOfBounds
    else \<exists>k' i h1 t a sp0 n k''. kthread_create junk initret sp k code sz prio status False args = Inr (k', int i) \<and>
    i < 1024 \<and> (\<forall>j < i. t_taken (k_table k) ! j) \<and> \<not> t_taken (k_table k) ! i \<and> proc_inv k' \<and> k_curr k' = k_curr k \<and>
    getstack (k_heap k) sz = Inr (h1, t, a) \<and> create_stack initret (k_mem k) code t args = (k_mem k', sp0) \<and>
    procs k' ! i = \<lparr>pe_code = code, pe_sp = sp0, pe_stackmem = a, pe_id = int i, pe_status = status, pe_prio = prio\<rparr> \<and>
    (\<forall>j < 1024. j \<noteq> i \<longrightarrow> procs k' ! j = procs k ! j) \<and>
    others (k_heap k') (ready_queue k') = (others (k_heap k) (ready_queue k))(a \<mapsto> n) \<and>
    runnable k' = (if status = PR_RUNNABLE then insert i (runnable k) else runnable k) \<and>
    resched junk sp k' = Inr k'' \<and> proc_inv k'' \<and>
    kthread_create junk initret sp k code sz prio status True args = Inr (k'', int i)"
proof (cases "stack_clear k sz (length args)")
  case False
  have "heap_inv (k_heap k)" using assms(1) by (simp add: proc_inv_def sched_inv_def queued_def pq_state_def)
  from kthread_create_caught [OF this assms(5,4) False] False show ?thesis by simp
next
  case True
  have s: "sched_inv k" "stacks_ok k" using assms(1) by (auto simp: proc_inv_def)
  from kthread_create_ok [OF s assms(2-5) True, of junk initret sp code prio] obtain k' i h1 t a sp0 n where
    k': "kthread_create junk initret sp k code sz prio status False args = Inr (k', int i)" "i < 1024" "sched_inv k'" "stacks_ok k'"
      "stat k i = PR_NA" "stat k' i = status" "k_curr k' = k_curr k"
      "\<forall>j < 1024. j \<noteq> i \<longrightarrow> procs k' ! j = procs k ! j" and i: "i = free_slot (t_taken (k_table k)) 0"
    and e: "getstack (k_heap k) sz = Inr (h1, t, a)" "create_stack initret (k_mem k) code t args = (k_mem k', sp0)"
      "procs k' ! i = \<lparr>pe_code = code, pe_sp = sp0, pe_stackmem = a, pe_id = int i, pe_status = status, pe_prio = prio\<rparr>"
      "others (k_heap k') (ready_queue k') = (others (k_heap k) (ready_queue k))(a \<mapsto> n)" by blast
  have "length (t_taken (k_table k)) = 1024" using s(1) by (simp add: sched_inv_def queued_def)
  then have "\<not> t_taken (k_table k) ! i" using k'(2) free_slot_free [of "t_taken (k_table k)"] by (simp add: i)
  moreover have "\<forall>j < i. t_taken (k_table k) ! j" using free_slot_below [of _ "t_taken (k_table k)"] by (simp add: i)
  moreover have "i \<noteq> 0" using k'(5) assms(1) by (intro notI) (auto simp: proc_inv_def)
  then have p: "proc_inv k'" using k'(3,4,8) assms(1) by (auto simp: proc_inv_def)
  moreover have "stat k' j = (if j = i then status else stat k j)" if "j < 1024" for j using that k'(6,8) by simp
  then have "runnable k' = (if status = PR_RUNNABLE then insert i (runnable k) else runnable k)"
    using k'(2,5) by (auto simp: runnable_def split: if_splits)
  moreover from resched_inv [OF p, of junk sp] obtain k'' where "resched junk sp k' = Inr k''" "proc_inv k''" by blast
  moreover from this have "kthread_create junk initret sp k code sz prio status True args = Inr (k'', int i)"
    using k'(1) by (simp add: kthread_create_now)
  moreover have cl: "\<not> \<not> stack_clear k sz (length args)" using True by simp
  ultimately show ?thesis unfolding if_not_P [OF cl] using k'(1,2,7,8) e by blast
qed

theorem kthread_create_correct_witness:
  "\<exists>k k'. proc_inv k \<and> kthread_create no_kv 7 0 k 77 MINSTACK 20 PR_SUSPENDED False [3] = Inr (k', 2) \<and> proc_inv k' \<and> stat k' 2 = PR_SUSPENDED"
proof -
  obtain k where k: "proc_inv k" "t_taken (k_table k) = True # True # replicate 1022 False"
    "22000 < slack (k_heap k)" "create_room k MINSTACK \<le> 16528" "tail_ok k 4152196" by (rule kernel_booted)
  have clr: "stack_clear k MINSTACK (length [3 :: u32])" by (rule tail_clear(1) [OF k(5)]) (simp_all add: MINSTACK_def)
  have f: "\<not> (\<forall>b \<in> set (t_taken (k_table k)). b)" "PR_SUSPENDED = PR_RUNNABLE \<or> PR_SUSPENDED = PR_SUSPENDED" by (simp_all add: k(2))
  have r: "create_room k MINSTACK < slack (k_heap k)" using k(3,4) by simp
  from kthread_create_correct [OF k(1) f order_refl r, of "[3]" no_kv 7 0 77 20 True] clr obtain k' i where
    k': "kthread_create no_kv 7 0 k 77 MINSTACK 20 PR_SUSPENDED False [3] = Inr (k', int i)" "i < 1024" "\<forall>j < i. t_taken (k_table k) ! j"
      "\<not> t_taken (k_table k) ! i" "proc_inv k'" "stat k' i = PR_SUSPENDED" by auto
  have "i \<noteq> 0" "i \<noteq> 1" using k'(4) unfolding k(2) by (metis nth_Cons_0, metis One_nat_def nth_Cons_0 nth_Cons_Suc)
  moreover have "\<not> 2 < i" using k'(3) [rule_format, of 2] by (auto simp: k(2))
  ultimately have "i = 2" by linarith
  with k(1) k' show ?thesis by auto
qed

text \<open>
  With a full process table \<^verbatim>\<open>kthread_create\<close> returns -1 and leaves the table as it is, but the stack it has
  allocated before looking for a slot stays allocated: every failed call costs a stack.
\<close>

lemma kthread_create_full_leaks:
  assumes "\<forall>b \<in> set (t_taken (k_table k)). b" "heap_inv (k_heap k)" "MINSTACK \<le> sz" "unat sz + 24 < slack (k_heap k)"
    and "stack_clear k sz (length args)"
  shows "\<exists>k' a n. kthread_create junk initret sp k code sz prio status False args = Inr (k', -1) \<and>
    k_table k' = k_table k \<and> live (k_heap k) a = None \<and> live (k_heap k') = (live (k_heap k))(a \<mapsto> n) \<and> unat sz \<le> n"
proof -
  from kh.alloc_ok [OF assms(2,4)] obtain h1 a n where a: "kmalloc (k_heap k) sz = Inr (h1, a)"
    "live (k_heap k) a = None" "live h1 = (live (k_heap k))(a \<mapsto> n)" "unat sz \<le> n" by blast
  obtain top where g: "getstack (k_heap k) sz = Inr (h1, top, a)" using a(1) by (simp add: getstack_def Let_def)
  obtain m sp0 where cs: "create_stack initret (k_mem k) code top args = (m, sp0)" by fastforce
  have "kthread_create junk initret sp k code sz prio status False args = Inr (k\<lparr>k_heap := h1, k_mem := m\<rparr>, -1)"
    using g cs leD [OF assms(3)] assms(5) by (simp add: kthread_create_def Let_def stack_clear_getstack [OF g] table_insert_full [OF assms(1)])
  with a show ?thesis by (intro exI [of _ "k\<lparr>k_heap := h1, k_mem := m\<rparr>"] exI [of _ a] exI [of _ n]) simp
qed

text \<open>\<^verbatim>\<open>ready\<close> of a process that is not runnable.\<close>

lemma ready_enqueues:
  assumes st: "pq_state (k_heap k) (ready_queue k)" and i: "i < length (procs k)" "stat k i = PR_SUSPENDED"
    and room: "16 * nat (pq_size (ready_queue k)) + 24 < slack (k_heap k)"
  shows "\<exists>k'. ready junk k (int i) = Inr (k', PROC_OK) \<and> procs k' = procs k \<and> k_curr k' = k_curr k \<and>
    pq_state (k_heap k') (ready_queue k') \<and> pq_mset (ready_queue k') = add_mset (entry_kv k i) (pq_mset (ready_queue k)) \<and>
    pq_size (ready_queue k') \<le> 2 * pq_size (ready_queue k) \<and>
    slack (k_heap k) \<le> slack (k_heap k') + 16 * nat (pq_size (ready_queue k)) + 16"
proof -
  from pq_insert_ok [OF st room, of junk "entry_kv k i"] obtain h q where q: "pq_insert junk (k_heap k) (ready_queue k) (entry_kv k i) = Inr (h, q)"
    "pq_state h q" "pq_size q \<le> max (pq_size (ready_queue k)) (2 * pq_count (ready_queue k))"
    "pq_mset q = add_mset (entry_kv k i) (pq_mset (ready_queue k))" "slack (k_heap k) \<le> slack h + 16 * nat (pq_size (ready_queue k)) + 16" by blast
  have "pq_size q \<le> 2 * pq_size (ready_queue k)" using q(3) st by (auto simp: pq_state_def pq_inv_def)
  then show ?thesis using q i
    by (auto simp: ready_def isvalid_ok procent_ok valid_status_def rl_insert_def entry_kv_def set_table_def)
qed

text \<open>
  \<^verbatim>\<open>ready\<close> puts a suspended process on the ready list but does not mark it runnable, so a second call puts it there
  again instead of returning \<^verbatim>\<open>PROC_ERR\<close>: the list then holds the process twice while its status is still
  \<^verbatim>\<open>PR_SUSPENDED\<close>, and the scheduler invariant is lost.
\<close>

theorem ready_twice_duplicates:
  assumes "proc_inv k" "i < 1024" "stat k i = PR_SUSPENDED" "64 * nat (pq_size (ready_queue k)) + 100 < slack (k_heap k)"
  shows "\<exists>k1 k2. ready junk k (int i) = Inr (k1, PROC_OK) \<and> ready junk k1 (int i) = Inr (k2, PROC_OK) \<and>
    stat k2 i = PR_SUSPENDED \<and> pq_mset (ready_queue k2) = pq_mset (ready_queue k) + {#entry_kv k i, entry_kv k i#} \<and> \<not> sched_inv k2"
proof -
  have s: "pq_state (k_heap k) (ready_queue k)" "length (procs k) = 1024" using assms(1) by (auto simp: proc_inv_def sched_inv_def queued_def)
  from ready_enqueues [OF s(1) _ assms(3), of junk] assms(2,4) s(2) obtain k1 where k1: "ready junk k (int i) = Inr (k1, PROC_OK)"
    "procs k1 = procs k" "pq_state (k_heap k1) (ready_queue k1)" "pq_mset (ready_queue k1) = add_mset (entry_kv k i) (pq_mset (ready_queue k))"
    "pq_size (ready_queue k1) \<le> 2 * pq_size (ready_queue k)" "slack (k_heap k) \<le> slack (k_heap k1) + 16 * nat (pq_size (ready_queue k)) + 16"
    by auto
  have "nat (pq_size (ready_queue k1)) \<le> 2 * nat (pq_size (ready_queue k))" using k1(5) by simp
  then have r1: "16 * nat (pq_size (ready_queue k1)) + 24 < slack (k_heap k1)" using k1(6) assms(4) by linarith
  from ready_enqueues [OF k1(3) _ _ r1, of i junk] assms(2,3) s(2) k1(2) obtain k2 where k2: "ready junk k1 (int i) = Inr (k2, PROC_OK)"
    "procs k2 = procs k1" "pq_mset (ready_queue k2) = add_mset (entry_kv k1 i) (pq_mset (ready_queue k1))" by auto
  have e: "entry_kv k1 i = entry_kv k i" using k1(2) by (simp add: entry_kv_def)
  have ms: "pq_mset (ready_queue k2) = pq_mset (ready_queue k) + {#entry_kv k i, entry_kv k i#}" by (simp add: k2(3) k1(4) e)
  have st2: "stat k2 i = PR_SUSPENDED" using k2(2) k1(2) assms(3) by simp
  have "\<not> sched_inv k2"
  proof
    assume "sched_inv k2"
    then have "pq_mset (ready_queue k2) = image_mset (entry_kv k2) (mset_set (runnable k2))" by (simp add: sched_inv_def queued_def)
    moreover have "entry_kv k i \<in># pq_mset (ready_queue k2)" by (simp add: ms)
    ultimately obtain j where "j \<in> runnable k2" "entry_kv k i = entry_kv k2 j" by auto
    then show False using st2 by (simp add: entry_kv_def runnable_def)
  qed
  with k1(1) k2(1) st2 ms show ?thesis by blast
qed

theorem ready_twice_duplicates_witness:
  "\<exists>k k1 k2. proc_inv k \<and> stat k 2 = PR_SUSPENDED \<and> ready no_kv k 2 = Inr (k1, PROC_OK) \<and> ready no_kv k1 2 = Inr (k2, PROC_OK) \<and> \<not> sched_inv k2"
proof -
  obtain k where k: "proc_inv k" "stat k 2 = PR_SUSPENDED" "5000 < slack (k_heap k)" "pq_size (ready_queue k) \<le> 10"
    by (rule kernel_suspended)
  have r: "64 * nat (pq_size (ready_queue k)) + 100 < slack (k_heap k)" using k(3,4) by linarith
  from ready_twice_duplicates [OF k(1) _ k(2) r, of no_kv] k(1,2) show ?thesis by auto
qed

end
