(* ===== verification/Cstring.thy ===== *)
theory Cstring
  imports Bodos_Prelude
begin

unbundle bit_operations_syntax

text \<open>
  The kernel's C library: \<^verbatim>\<open>src/src/libc/string.c\<close>. A \<^verbatim>\<open>char\<close> is a byte; a buffer is the list of its bytes and
  every access is checked, so a string without terminator or a destination that is too small is a fault
  \<open>OutOfBounds\<close>. Lengths and indices of buffers are natural numbers: a buffer is smaller than the address space,
  so that \<^verbatim>\<open>size_t\<close> does not wrap around, except where the code decrements an index below 0 (\<open>fill_digits\<close>).
\<close>

section \<open>Functions\<close>

text \<open>The bytes of a string literal, without its terminator.\<close>

definition bytes :: "string \<Rightarrow> u8 list" where
  "bytes s = map of_char s"

function strlen_loop :: "u8 list \<Rightarrow> nat \<Rightarrow> nat result" where
  "strlen_loop str len = rbind (rd str (int len)) (\<lambda>c. if c \<noteq> 0 then strlen_loop str (len + 1) else Inr len)"
  by pat_completeness auto
termination
  by (relation "measure (\<lambda>(str, len). length str - len)") (auto simp: rd_Inr_iff)

declare strlen_loop.simps [simp del]

definition strlen :: "u8 list \<Rightarrow> nat result" where
  "strlen str = strlen_loop str 0"

function strcpy_loop :: "u8 list \<Rightarrow> u8 list \<Rightarrow> nat \<Rightarrow> u8 list result" where
  "strcpy_loop dest src i = rbind (rd src (int i)) (\<lambda>c. rbind (wr dest (int i) c) (\<lambda>dest'.
     if c \<noteq> 0 then strcpy_loop dest' src (i + 1) else Inr dest'))"
  by pat_completeness auto
termination
  by (relation "measure (\<lambda>(dest, src, i). length src - i)") (auto simp: rd_Inr_iff)

declare strcpy_loop.simps [simp del]

definition strcpy :: "u8 list \<Rightarrow> u8 list \<Rightarrow> u8 list result" where
  "strcpy dest src = strcpy_loop dest src 0"

text \<open>Blank, tabulator, newline and bell.\<close>

definition isspace :: "u8 \<Rightarrow> bool" where
  "isspace c = (c = 0x20 \<or> c = 0x09 \<or> c = 0x0A \<or> c = 0x07)"

function count_digits :: "u32 \<Rightarrow> u32 \<Rightarrow> u32" where
  "count_digits c n = (if c \<noteq> 0 then count_digits (c div 10) (n + 1) else n)"
  by pat_completeness auto
termination
  by (relation "measure (\<lambda>(c, n). unat c)") (auto simp: unat_div unat_gt_0)

declare count_digits.simps [simp del]

function fill_digits :: "u8 list \<Rightarrow> u32 \<Rightarrow> u32 \<Rightarrow> u8 list result" where
  "fill_digits s val i =
     (if val \<noteq> 0 then rbind (wr s (uint i) (0x30 + ucast (val mod 10))) (\<lambda>s'. fill_digits s' (val div 10) (i - 1))
      else Inr s)"
  by pat_completeness auto
termination
  by (relation "measure (\<lambda>(s, val, i). unat val)") (auto simp: unat_div unat_gt_0)

declare fill_digits.simps [simp del]

text \<open>\<^verbatim>\<open>itoa\<close> ignores its base.\<close>

definition itoa :: "u32 \<Rightarrow> u8 list \<Rightarrow> u8 list result" where
  "itoa val s =
     (let n = count_digits val 0
      in rbind (wr s (uint n) 0) (\<lambda>s'. fill_digits s' val (n - 1)))"

function memset_loop :: "u8 list \<Rightarrow> u8 \<Rightarrow> nat \<Rightarrow> nat \<Rightarrow> u8 list result" where
  "memset_loop mem val i n = (if i < n then rbind (wr mem (int i) val) (\<lambda>mem'. memset_loop mem' val (i + 1) n) else Inr mem)"
  by pat_completeness auto
termination
  by (relation "measure (\<lambda>(mem, val, i, n). n - i)") auto

declare memset_loop.simps [simp del]

definition memset :: "u8 list \<Rightarrow> u32 \<Rightarrow> nat \<Rightarrow> u8 list result" where
  "memset s c n = memset_loop s (ucast c) 0 n"

section \<open>Strings in buffers\<close>

text \<open>The string a buffer holds, and whether it is terminated.\<close>

definition cstr :: "u8 list \<Rightarrow> u8 list" where
  "cstr buf = takeWhile (\<lambda>c. c \<noteq> 0) buf"

definition terminated :: "u8 list \<Rightarrow> bool" where
  "terminated buf \<longleftrightarrow> 0 \<in> set buf"

lemma cstr_append [simp]: "0 \<notin> set s \<Longrightarrow> cstr (s @ 0 # t) = s"
  unfolding cstr_def by (subst takeWhile_append2) auto

lemma terminated_split:
  assumes "terminated buf"
  obtains t where "buf = cstr buf @ 0 # t" "0 \<notin> set (cstr buf)"
proof -
  from assms have ne: "dropWhile (\<lambda>c. c \<noteq> 0) buf \<noteq> []" by (auto simp: terminated_def dropWhile_eq_Nil_conv)
  then have "hd (dropWhile (\<lambda>c. c \<noteq> 0) buf) = 0" using hd_dropWhile [of "\<lambda>c. c \<noteq> 0" buf] by simp
  then have "buf = cstr buf @ 0 # tl (dropWhile (\<lambda>c. c \<noteq> 0) buf)"
    using ne by (metis cstr_def list.collapse takeWhile_dropWhile_id)
  moreover have "0 \<notin> set (cstr buf)" by (auto simp: cstr_def dest: set_takeWhileD)
  ultimately show ?thesis by (rule that)
qed

lemma strlen_loop_walk:
  assumes "\<And>j. j < k \<Longrightarrow> i + j < length str \<and> str ! (i + j) \<noteq> 0"
  shows "strlen_loop str i = strlen_loop str (i + k)"
  using assms
proof (induction k arbitrary: i)
  case (Suc k)
  have "strlen_loop str i = strlen_loop str (i + 1)"
    using Suc.prems [of 0] by (subst strlen_loop.simps) (simp add: access_simps)
  also have "\<dots> = strlen_loop str (i + 1 + k)" using Suc.prems [of "Suc _"] by (intro Suc.IH) simp
  finally show ?case by simp
qed simp

lemma strlen_ok: "terminated buf \<Longrightarrow> strlen buf = Inr (length (cstr buf))"
proof -
  assume "terminated buf"
  then obtain t where t: "buf = cstr buf @ 0 # t" "0 \<notin> set (cstr buf)" by (rule terminated_split)
  have len: "length (cstr buf) < length buf" "buf ! length (cstr buf) = 0"
    using t(1) by (metis length_append length_Cons less_add_Suc1 add_Suc_right) (metis t(1) nth_append_length)
  have "buf ! j \<noteq> 0" if "j < length (cstr buf)" for j
    using that t by (metis nth_append nth_mem)
  then have "strlen_loop buf 0 = strlen_loop buf (0 + length (cstr buf))"
    using len by (intro strlen_loop_walk) simp
  also have "\<dots> = Inr (length (cstr buf))" using len by (subst strlen_loop.simps) (simp add: access_simps)
  finally show ?thesis by (simp add: strlen_def)
qed

lemma strlen_loop_unterminated:
  assumes "\<not> terminated buf"
  shows "strlen_loop buf i = Inl OutOfBounds"
  using assms
proof (induction buf i rule: strlen_loop.induct)
  case (1 str len)
  then show ?case by (subst strlen_loop.simps) (auto simp: rd_def terminated_def dest: nth_mem)
qed

lemma strcpy_loop_ok:
  assumes s: "0 \<notin> set s" and i: "i \<le> length s" and d: "length s < length dest"
  shows "strcpy_loop dest (s @ 0 # t) i = Inr (take i dest @ drop i s @ 0 # drop (length s + 1) dest)"
  using i d
proof (induction "length s - i" arbitrary: i dest)
  case 0
  then have "i = length s" by simp
  with 0 show ?case by (subst strcpy_loop.simps) (simp add: access_simps upd_conv_take_nth_drop)
next
  case (Suc k)
  then have i: "i < length s" by simp
  have "s ! i \<noteq> 0" using s i by (metis nth_mem)
  then have "strcpy_loop dest (s @ 0 # t) i = strcpy_loop (dest[i := s ! i]) (s @ 0 # t) (i + 1)"
    using i Suc.prems by (subst strcpy_loop.simps) (simp add: access_simps nth_append)
  also have "\<dots> = Inr (take (i + 1) (dest[i := s ! i]) @ drop (i + 1) s @ 0 # drop (length s + 1) (dest[i := s ! i]))"
    using Suc.hyps(2) Suc.prems i by (intro Suc.hyps(1)) auto
  also have "\<dots> = Inr (take i dest @ drop i s @ 0 # drop (length s + 1) dest)"
    using i Suc.prems by (simp add: take_Suc_conv_app_nth Cons_nth_drop_Suc [symmetric])
  finally show ?case .
qed

lemma strcpy_ok:
  assumes "terminated src" "length (cstr src) < length dest"
  shows "strcpy dest src = Inr (cstr src @ 0 # drop (length (cstr src) + 1) dest)"
proof -
  obtain t where t: "src = cstr src @ 0 # t" "0 \<notin> set (cstr src)" using assms(1) by (rule terminated_split)
  from strcpy_loop_ok [OF t(2) _ assms(2), of 0 t] t(1) show ?thesis by (simp add: strcpy_def)
qed

lemma strcpy_loop_overflow:
  assumes s: "0 \<notin> set s" and i: "i \<le> length dest" and d: "length dest \<le> length s"
  shows "strcpy_loop dest (s @ 0 # t) i = Inl OutOfBounds"
  using i d
proof (induction "length dest - i" arbitrary: i dest)
  case 0
  then have i: "i = length dest" by simp
  show ?case by (subst strcpy_loop.simps) (use i 0 in \<open>auto simp: rd_def wr_def rbind_def\<close>)
next
  case (Suc k)
  then have i: "i < length dest" "i < length s" by simp_all
  have "s ! i \<noteq> 0" using s i by (metis nth_mem)
  then have "strcpy_loop dest (s @ 0 # t) i = strcpy_loop (dest[i := s ! i]) (s @ 0 # t) (i + 1)"
    using i Suc.prems by (subst strcpy_loop.simps) (simp add: access_simps nth_append)
  also have "\<dots> = Inl OutOfBounds" using Suc.hyps(2) Suc.prems i by (intro Suc.hyps(1)) auto
  finally show ?case .
qed

lemma strcpy_overflow:
  assumes "terminated src" "length dest \<le> length (cstr src)"
  shows "strcpy dest src = Inl OutOfBounds"
proof -
  obtain t where t: "src = cstr src @ 0 # t" "0 \<notin> set (cstr src)" using assms(1) by (rule terminated_split)
  from strcpy_loop_overflow [OF t(2) _ assms(2), of 0 t] t(1) show ?thesis by (simp add: strcpy_def)
qed

lemma strcpy_loop_unterminated:
  assumes "\<not> terminated src"
  shows "strcpy_loop dest src i = Inl OutOfBounds"
  using assms
proof (induction dest src i rule: strcpy_loop.induct)
  case (1 dest src i)
  show ?case
  proof (cases "i < length src \<and> i < length dest")
    case True
    then have "src ! i \<noteq> 0" using 1(2) by (metis nth_mem terminated_def)
    with 1 True show ?thesis by (subst strcpy_loop.simps) (simp add: access_simps)
  next
    case False
    then show ?thesis by (subst strcpy_loop.simps) (auto simp: rd_def wr_def)
  qed
qed

lemma strcpy_unterminated: "\<not> terminated src \<Longrightarrow> strcpy dest src = Inl OutOfBounds"
  by (simp add: strcpy_def strcpy_loop_unterminated)

lemma drop_update_at: "n < length s \<Longrightarrow> drop n (s[n := x]) = x # drop (n + 1) s"
  by (simp add: upd_conv_take_nth_drop)

section \<open>Decimal numbers\<close>

text \<open>The decimal digits of a number; 0 has none.\<close>

fun digits :: "nat \<Rightarrow> u8 list" where
  "digits n = (if n = 0 then [] else digits (n div 10) @ [0x30 + word_of_nat (n mod 10)])"

declare digits.simps [simp del]

text \<open>Reading them back.\<close>

definition dec_value :: "u8 list \<Rightarrow> nat" where
  "dec_value ds = foldl (\<lambda>a d. 10 * a + (unat d - 48)) 0 ds"

lemma digits_0 [simp]: "digits 0 = []"
  by (simp add: digits.simps)

lemma digits_step: "0 < n \<Longrightarrow> digits n = digits (n div 10) @ [0x30 + word_of_nat (n mod 10)]"
  by (subst digits.simps) simp

lemma unat_digit: "d < 10 \<Longrightarrow> unat (0x30 + word_of_nat d :: u8) = 48 + d"
  by (simp add: unat_word_ariths unat_of_nat)

lemma dec_value_snoc [simp]: "dec_value (ds @ [d]) = 10 * dec_value ds + (unat d - 48)"
  by (simp add: dec_value_def)

lemma dec_value_digits: "dec_value (digits n) = n"
proof (induction n rule: digits.induct)
  case (1 n)
  then show ?case by (cases "n = 0") (auto simp: dec_value_def digits_step unat_digit)
qed

lemma digits_are_digits: "d \<in> set (digits n) \<Longrightarrow> 48 \<le> unat d \<and> unat d \<le> 57"
proof (induction n rule: digits.induct)
  case (1 n)
  then show ?case by (cases "n = 0") (auto simp: digits_step unat_digit)
qed

lemma digits_nonzero: "0 \<notin> set (digits n)"
  using digits_are_digits [of 0 n] by auto

lemma digits_hd: "0 < n \<Longrightarrow> digits n \<noteq> [] \<and> hd (digits n) \<noteq> 0x30"
proof (induction n rule: digits.induct)
  case (1 n)
  show ?case
  proof (cases "n < 10")
    case True
    then have "digits n = [0x30 + word_of_nat n]" using 1(2) by (simp add: digits_step)
    moreover have "(0x30 + word_of_nat n :: u8) \<noteq> 0x30"
    proof
      assume "(0x30 + word_of_nat n :: u8) = 0x30"
      then have "unat (0x30 + word_of_nat n :: u8) = 48" by (simp only:) simp
      with unat_digit [OF True] 1(2) show False by simp
    qed
    ultimately show ?thesis by simp
  next
    case False
    then have "0 < n div 10" by simp
    with 1 show ?thesis by (simp add: digits_step [of n] hd_append)
  qed
qed

lemma digits_length: "n < 10 ^ k \<Longrightarrow> length (digits n) \<le> k"
proof (induction k arbitrary: n)
  case (Suc k)
  then show ?case by (cases "n = 0") (auto simp: digits_step less_mult_imp_div_less mult.commute)
qed simp

lemma digits_u32_length: "length (digits (unat (v :: u32))) \<le> 10"
  using unat_u32_less [of v] by (intro digits_length) (simp del: unat_u32_less)

lemma count_digits_eq: "count_digits c n = n + word_of_nat (length (digits (unat c)))"
proof (induction c n rule: count_digits.induct)
  case (1 c n)
  show ?case
  proof (cases "c = 0")
    case False
    then have "0 < unat c" by (simp add: unat_gt_0)
    with 1 False show ?thesis by (subst count_digits.simps) (simp add: digits_step [of "unat c"] unat_div)
  qed (simp add: count_digits.simps)
qed

lemma fill_digits_eq:
  assumes "length (digits (unat v)) \<le> length s"
  shows "fill_digits s v (word_of_nat (length (digits (unat v))) - 1) =
    Inr (digits (unat v) @ drop (length (digits (unat v))) s)"
  using assms
proof (induction "unat v" arbitrary: v s rule: less_induct)
  case less
  show ?case
  proof (cases "v = 0")
    case True
    then show ?thesis by (simp add: fill_digits.simps)
  next
    case False
    then have pos: "0 < unat v" by (simp add: unat_gt_0)
    let ?w = "v div 10" and ?d = "0x30 + ucast (v mod 10) :: u8" and ?n = "length (digits (unat (v div 10)))"
    have w: "unat ?w = unat v div 10" by (simp add: unat_div)
    have "unat (v mod 10) = unat v mod 10" by (simp add: unat_mod)
    then have d: "?d = 0x30 + word_of_nat (unat v mod 10)" by (metis of_nat_unat)
    have dg: "digits (unat v) = digits (unat ?w) @ [?d]" using digits_step [OF pos] d w by simp
    have n: "?n < length s" "?n < 2 ^ 32" using less.prems dg digits_u32_length [of ?w] by auto
    have "uint (word_of_nat ?n :: u32) = int ?n" using unat_word32_of_nat [OF n(2)] by (metis of_nat_unat)
    then have "fill_digits s v (word_of_nat (length (digits (unat v))) - 1) = fill_digits (s[?n := ?d]) ?w (word_of_nat ?n - 1)"
      using False n(1) by (subst fill_digits.simps) (simp add: dg access_simps)
    also have "\<dots> = Inr (digits (unat ?w) @ drop ?n (s[?n := ?d]))"
      using less.hyps [of ?w "s[?n := ?d]"] pos n(1) by (simp add: w)
    also have "drop ?n (s[?n := ?d]) = ?d # drop (?n + 1) s"
      using n(1) by (rule drop_update_at)
    finally show ?thesis by (simp add: dg)
  qed
qed

lemma itoa_eq:
  assumes "length (digits (unat v)) < length s"
  shows "itoa v s = Inr (digits (unat v) @ 0 # drop (length (digits (unat v)) + 1) s)"
proof -
  let ?n = "length (digits (unat v))"
  have n: "?n < 2 ^ 32" using digits_u32_length [of v] by simp
  have u: "uint (word_of_nat ?n :: u32) = int ?n" using unat_word32_of_nat [OF n] by (metis of_nat_unat)
  have "itoa v s = fill_digits (s[?n := 0]) v (word_of_nat ?n - 1)"
    using assms by (simp add: itoa_def count_digits_eq u access_simps Let_def)
  also have "\<dots> = Inr (digits (unat v) @ drop ?n (s[?n := 0]))" using assms by (intro fill_digits_eq) simp
  also have "drop ?n (s[?n := 0]) = 0 # drop (?n + 1) s"
    using assms by (rule drop_update_at)
  finally show ?thesis .
qed

lemma memset_loop_eq:
  assumes "i \<le> n" "n \<le> length mem"
  shows "memset_loop mem v i n = Inr (take i mem @ replicate (n - i) v @ drop n mem)"
  using assms
proof (induction "n - i" arbitrary: i mem)
  case 0
  then show ?case by (subst memset_loop.simps) simp
next
  case (Suc k)
  then have i: "i < n" by simp
  have "memset_loop mem v i n = memset_loop (mem[i := v]) v (i + 1) n"
    using i Suc.prems by (subst memset_loop.simps) (simp add: access_simps)
  also have "\<dots> = Inr (take (i + 1) (mem[i := v]) @ replicate (n - (i + 1)) v @ drop n (mem[i := v]))"
    using Suc.hyps(2) Suc.prems i by (intro Suc.hyps(1)) auto
  also have "\<dots> = Inr (take i mem @ replicate (n - i) v @ drop n mem)"
    using i Suc.prems by (simp add: take_Suc_conv_app_nth Suc_diff_Suc [symmetric])
  finally show ?case .
qed

lemma memset_ok: "n \<le> length s \<Longrightarrow> memset s c n = Inr (replicate n (ucast c) @ drop n s)"
  using memset_loop_eq [of 0 n s "ucast c"] by (simp add: memset_def)

section \<open>Correctness\<close>

text \<open>
  C37. \<^verbatim>\<open>itoa\<close> writes the decimal representation of its argument: for every number but 0 the buffer holds a terminated
  string of at most ten digits without leading zero whose value is the number, and a buffer of eleven bytes is
  enough. For 0 it writes the empty string.
\<close>

theorem itoa_correct:
  assumes "10 < length s"
  shows "\<exists>s'. itoa v s = Inr s' \<and> length s' = length s \<and> terminated s' \<and> dec_value (cstr s') = unat v \<and>
    length (cstr s') \<le> 10 \<and> (\<forall>d \<in> set (cstr s'). 0x30 \<le> d \<and> d \<le> 0x39) \<and>
    (if v = 0 then cstr s' = [] else cstr s' \<noteq> [] \<and> hd (cstr s') \<noteq> 0x30)"
proof -
  let ?d = "digits (unat v)"
  define s' where "s' = ?d @ 0 # drop (length ?d + 1) s"
  have len: "length ?d < length s" using digits_u32_length [of v] assms by simp
  have c: "cstr s' = ?d" unfolding s'_def by (rule cstr_append [OF digits_nonzero])
  have "length s' = length s" using len by (simp add: s'_def)
  moreover have "terminated s'" by (simp add: terminated_def s'_def)
  moreover have "0x30 \<le> d \<and> d \<le> 0x39" if "d \<in> set ?d" for d
    using digits_are_digits [OF that] by (simp add: word_le_nat_alt)
  moreover have "if v = 0 then ?d = [] else ?d \<noteq> [] \<and> hd ?d \<noteq> 0x30"
    using digits_hd [of "unat v"] by (auto simp: unat_gt_0)
  ultimately show ?thesis
    using itoa_eq [OF len, folded s'_def] dec_value_digits [of "unat v"] digits_u32_length [of v]
    unfolding c [symmetric] by blast
qed

theorem itoa_correct_witness:
  "\<exists>s'. itoa 1307 (replicate 11 0) = Inr s' \<and> dec_value (cstr s') = 1307"
  using itoa_correct [of "replicate 11 0" 1307] by auto

end
