(* ===== verification/Console.thy ===== *)
theory Console
  imports Cstring
begin

unbundle bit_operations_syntax

text \<open>
  The console devices of \<^verbatim>\<open>src/src/kernel/arch/i386\<close>: port access (\<^verbatim>\<open>io.s\<close>), the text screen (\<^verbatim>\<open>tty.c\<close>, \<^verbatim>\<open>vga.h\<close>,
  \<^verbatim>\<open>cursor.c\<close>), the serial port (\<^verbatim>\<open>serialport.c\<close>) and the keyboard handler (\<^verbatim>\<open>keyboard.c\<close>). The screen memory is the
  list of its 2000 cells with checked accesses. What the ports will deliver is part of the state (\<open>c_in\<close>, by port
  and number of the read); what was written to them is recorded in order (\<open>c_out\<close>).
\<close>

section \<open>Ports\<close>

record console =
  terminal_row :: nat
  terminal_column :: nat
  terminal_color :: u8
  terminal_buffer :: "u16 list"
  c_out :: "(u16 \<times> u8) list"
  c_in :: "u16 \<Rightarrow> nat \<Rightarrow> u8"
  c_reads :: "u16 \<Rightarrow> nat"

definition outb :: "u16 \<Rightarrow> u8 \<Rightarrow> console \<Rightarrow> console" where
  "outb port data c = c\<lparr>c_out := c_out c @ [(port, data)]\<rparr>"

definition inb :: "u16 \<Rightarrow> console \<Rightarrow> u8 \<times> console" where
  "inb port c = (c_in c port (c_reads c port), c\<lparr>c_reads := (c_reads c)(port := c_reads c port + 1)\<rparr>)"

section \<open>The text screen\<close>

definition VGA_WIDTH :: nat where "VGA_WIDTH = 80"
definition VGA_HEIGHT :: nat where "VGA_HEIGHT = 25"

definition VGA_COLOR_BLACK :: u8 where "VGA_COLOR_BLACK = 0"
definition VGA_COLOR_GREEN :: u8 where "VGA_COLOR_GREEN = 2"

definition vga_entry_color :: "u8 \<Rightarrow> u8 \<Rightarrow> u8" where
  "vga_entry_color fg bg = fg OR push_bit 4 bg"

definition vga_entry :: "u8 \<Rightarrow> u8 \<Rightarrow> u16" where
  "vga_entry uc color = ucast uc OR push_bit 8 (ucast color)"

text \<open>The cursor position goes to the two location registers of the display controller.\<close>

definition send_high :: "u16 \<Rightarrow> console \<Rightarrow> console" where
  "send_high pos c = outb 0x3D5 (ucast (drop_bit 8 pos AND 0x00ff)) (outb 0x3D4 14 c)"

definition send_low :: "u16 \<Rightarrow> console \<Rightarrow> console" where
  "send_low pos c = outb 0x3D5 (ucast (pos AND 0x00ff)) (outb 0x3D4 15 c)"

definition move_cursor :: "u16 \<Rightarrow> console \<Rightarrow> console" where
  "move_cursor pos c = send_low pos (send_high pos c)"

text \<open>The loops that write screen cells, over the indices they visit.\<close>

fun fill_cells :: "u16 list \<Rightarrow> u16 \<Rightarrow> nat list \<Rightarrow> u16 list result" where
  "fill_cells b v [] = Inr b"
| "fill_cells b v (i # is) = rbind (wr b (int i) v) (\<lambda>b'. fill_cells b' v is)"

fun copy_up :: "u16 list \<Rightarrow> nat list \<Rightarrow> u16 list result" where
  "copy_up b [] = Inr b"
| "copy_up b (i # is) = rbind (rd b (int i)) (\<lambda>v. rbind (wr b (int i - int VGA_WIDTH) v) (\<lambda>b'. copy_up b' is))"

definition cells :: "nat \<Rightarrow> nat \<Rightarrow> nat list" where
  "cells y0 y1 = concat (map (\<lambda>y. map (\<lambda>x. y * VGA_WIDTH + x) [0..<VGA_WIDTH]) [y0..<y1])"

definition terminal_initialize :: "console \<Rightarrow> console result" where
  "terminal_initialize c =
     (let color = vga_entry_color VGA_COLOR_GREEN VGA_COLOR_BLACK
      in rbind (fill_cells (terminal_buffer c) (vga_entry 0x20 color) (cells 0 VGA_HEIGHT))
           (\<lambda>b. Inr (c\<lparr>terminal_row := 0, terminal_column := 0, terminal_color := color, terminal_buffer := b\<rparr>)))"

definition terminal_setcolor :: "u8 \<Rightarrow> console \<Rightarrow> console" where
  "terminal_setcolor color c = c\<lparr>terminal_color := color\<rparr>"

definition terminal_putentryat :: "u8 \<Rightarrow> u8 \<Rightarrow> nat \<Rightarrow> nat \<Rightarrow> console \<Rightarrow> console result" where
  "terminal_putentryat ch color x y c =
     rbind (wr (terminal_buffer c) (int (y * VGA_WIDTH + x)) (vga_entry ch color)) (\<lambda>b. Inr (c\<lparr>terminal_buffer := b\<rparr>))"

definition terminal_scroll :: "console \<Rightarrow> console result" where
  "terminal_scroll c =
     rbind (copy_up (terminal_buffer c) (cells 1 VGA_HEIGHT)) (\<lambda>b.
     rbind (fill_cells b 0x20 (map (\<lambda>i. VGA_WIDTH * (VGA_HEIGHT - 1) + i) [0..<VGA_WIDTH])) (\<lambda>b'.
     Inr (c\<lparr>terminal_buffer := b'\<rparr>)))"

definition terminal_putchar :: "u8 \<Rightarrow> console \<Rightarrow> console result" where
  "terminal_putchar ch c =
     rbind (if terminal_row c = VGA_HEIGHT
            then rbind (terminal_scroll c) (\<lambda>c'. Inr (c'\<lparr>terminal_row := VGA_HEIGHT - 1, terminal_column := 0\<rparr>))
            else Inr c) (\<lambda>c1.
     if ch = 0x0A then
       let c2 = c1\<lparr>terminal_column := 0, terminal_row := terminal_row c1 + 1\<rparr>
       in if terminal_row c2 = VGA_HEIGHT
          then rbind (terminal_scroll c2) (\<lambda>c3. Inr (c3\<lparr>terminal_row := terminal_row c3 - 1\<rparr>))
          else Inr c2
     else
       rbind (terminal_putentryat ch (terminal_color c1) (terminal_column c1) (terminal_row c1) c1) (\<lambda>c2.
       let c3 = c2\<lparr>terminal_column := terminal_column c2 + 1\<rparr>
       in Inr (if terminal_column c3 = VGA_WIDTH
               then c3\<lparr>terminal_column := 0, terminal_row := terminal_row c3 + 1\<rparr> else c3)))"

definition show_cursor :: "console \<Rightarrow> console" where
  "show_cursor c = move_cursor (word_of_nat (VGA_WIDTH * terminal_row c + terminal_column c)) c"

definition terminal_putc :: "u8 \<Rightarrow> console \<Rightarrow> console result" where
  "terminal_putc ch c = rbind (terminal_putchar ch c) (\<lambda>c'. Inr (show_cursor c'))"

fun putchars :: "u8 list \<Rightarrow> console \<Rightarrow> console result" where
  "putchars [] c = Inr c"
| "putchars (ch # chs) c = rbind (terminal_putchar ch c) (putchars chs)"

text \<open>\<open>data\<close> is the memory from the pointer on.\<close>

definition terminal_write :: "u8 list \<Rightarrow> nat \<Rightarrow> console \<Rightarrow> (console \<times> nat) result" where
  "terminal_write data sz c =
     (if sz \<le> length data then rbind (putchars (take sz data) c) (\<lambda>c'. Inr (show_cursor c', sz)) else Inl OutOfBounds)"

definition terminal_writestring :: "u8 list \<Rightarrow> console \<Rightarrow> console result" where
  "terminal_writestring data c = rbind (strlen data) (\<lambda>n. rbind (terminal_write data n c) (\<lambda>(c', _). Inr c'))"

section \<open>The serial port\<close>

definition serial_configure_baud_rate :: "u16 \<Rightarrow> u16 \<Rightarrow> console \<Rightarrow> console" where
  "serial_configure_baud_rate com divisor c =
     outb com (ucast (divisor AND 0x00FF)) (outb com (ucast (drop_bit 8 divisor AND 0x00FF)) (outb (com + 3) 0x80 c))"

definition serial_configure_line :: "u16 \<Rightarrow> console \<Rightarrow> console" where
  "serial_configure_line com c = outb (com + 3) 0x03 c"

definition serial_is_transmit_fifo_empty :: "u16 \<Rightarrow> console \<Rightarrow> bool \<times> console" where
  "serial_is_transmit_fifo_empty com c = (let (v, c') = inb (com + 5) c in (v AND 0x20 \<noteq> 0, c'))"

text \<open>The polling loop; \<open>None\<close> if the port never gets ready.\<close>

partial_function (option) wait_fifo :: "u16 \<Rightarrow> console \<Rightarrow> console option" where
  "wait_fifo com c = (let (empty, c') = serial_is_transmit_fifo_empty com c in if \<not> empty then wait_fifo com c' else Some c')"

fun serial_send :: "u16 \<Rightarrow> u8 list \<Rightarrow> console \<Rightarrow> console result" where
  "serial_send com [] c = Inr c"
| "serial_send com (d # ds) c = (case wait_fifo com c of None \<Rightarrow> Inl Hang | Some c' \<Rightarrow> serial_send com ds (outb com d c'))"

definition serial_write_to_port :: "u8 list \<Rightarrow> nat \<Rightarrow> u16 \<Rightarrow> console \<Rightarrow> console result" where
  "serial_write_to_port data sz com c =
     (if sz \<le> length data
      then serial_send com (take sz data) (serial_configure_line com (serial_configure_baud_rate com 1 c))
      else Inl OutOfBounds)"

definition SERIAL_COM1_BASE :: u16 where
  "SERIAL_COM1_BASE = 0x3F8"

definition serial_write :: "u8 list \<Rightarrow> nat \<Rightarrow> console \<Rightarrow> (console \<times> nat) result" where
  "serial_write data sz c = rbind (serial_write_to_port data sz SERIAL_COM1_BASE c) (\<lambda>c'. Inr (c', sz))"

section \<open>The keyboard\<close>

definition kbdus :: "u8 list" where
  "kbdus =
    [0, 27] @ bytes ''1234567890-='' @ [8, 9] @ bytes ''qwertyuiop[]'' @ [10, 0] @
    bytes ''asdfghjkl;'' @ [39, 96, 0, 92] @ bytes ''zxcvbnm,./'' @ [0] @ bytes ''*'' @ [0] @ bytes '' '' @
    replicate 16 0 @ bytes ''-'' @ replicate 3 0 @ bytes ''+'' @ replicate 49 0"

definition keyboard_irq_handler :: "console \<Rightarrow> console result" where
  "keyboard_irq_handler c =
     (let (scancode, c') = inb 0x60 c
      in if scancode AND 0x80 \<noteq> 0 then Inr c' else rbind (rd kbdus (uint scancode)) (\<lambda>ch. terminal_putc ch c'))"

lemma kbdus_length: "length kbdus = 128"
  by (simp add: kbdus_def bytes_def)

end
