(* ===== verification/Console_Spec.thy ===== *)
theory Console_Spec
  imports Console
begin

unbundle bit_operations_syntax

text \<open>
  The screen as 25 lines of 80 cells, and the console functions as operations on lines: writing never leaves
  the screen memory, scrolling drops the first line, the hardware cursor follows the text. The serial port
  delivers every byte once the line is ready again and again.
\<close>

section \<open>Loops over the cells\<close>

lemma cells_eq: "a \<le> b \<Longrightarrow> cells a b = [a * 80..<b * 80]"
proof (induction rule: dec_induct)
  case (step n)
  have "map (\<lambda>x. n * 80 + x) [0..<80] = [n * 80..<80 + n * 80]"
    using map_add_upt [of "n * 80" 80] by (simp add: add.commute)
  moreover have "[a * 80..<Suc n * 80] = [a * 80..<n * 80] @ [n * 80..<80 + n * 80]"
    using step.hyps upt_add_eq_append [of "a * 80" "n * 80" 80] by (simp add: add.commute)
  ultimately show ?case using step by (simp add: cells_def VGA_WIDTH_def)
qed (simp add: cells_def)

lemma fill_cells_append: "fill_cells b v (xs @ ys) = rbind (fill_cells b v xs) (\<lambda>b'. fill_cells b' v ys)"
  by (induction xs arbitrary: b) (auto simp: rbind_assoc)

lemma copy_up_append: "copy_up b (xs @ ys) = rbind (copy_up b xs) (\<lambda>b'. copy_up b' ys)"
  by (induction xs arbitrary: b) (simp_all add: rbind_assoc)

lemma fill_cells_upt:
  assumes "m \<le> n" "n \<le> length b"
  shows "fill_cells b v [m..<n] = Inr (take m b @ replicate (n - m) v @ drop n b)"
  using assms
proof (induction rule: dec_induct)
  case (step n)
  let ?b = "take m b @ replicate (n - m) v @ drop n b"
  have "?b[n := v] = take m b @ replicate (Suc n - m) v @ drop (Suc n) b"
    using step by (intro nth_equalityI) (auto simp: nth_append nth_list_update)
  moreover have "wr ?b (int n) v = Inr (?b[n := v])" using step by (intro wr_nat) simp
  ultimately show ?case using step by (simp add: fill_cells_append)
qed simp

lemma copy_up_upt:
  assumes "80 \<le> n" "n \<le> length b"
  shows "copy_up b [80..<n] = Inr (take (n - 80) (drop 80 b) @ drop (n - 80) b)"
  using assms
proof (induction rule: dec_induct)
  case (step n)
  let ?b = "take (n - 80) (drop 80 b) @ drop (n - 80) b"
  have v: "?b ! n = b ! n" and len: "length ?b = length b" using step by (auto simp: nth_append)
  have "rd ?b (int n) = Inr (b ! n)" using step len v by (subst rd_nat) auto
  moreover have "int n - int VGA_WIDTH = int (n - 80)" using step by (simp add: VGA_WIDTH_def of_nat_diff)
  moreover have "wr ?b (int (n - 80)) (b ! n) = Inr (?b[n - 80 := b ! n])" using step len by (intro wr_nat) simp
  moreover have "?b[n - 80 := b ! n] = take (Suc n - 80) (drop 80 b) @ drop (Suc n - 80) b"
    using step by (intro nth_equalityI) (auto simp: nth_append nth_list_update Suc_diff_le)
  ultimately show ?case using step by (simp add: copy_up_append)
qed simp

section \<open>The screen as lines\<close>

type_synonym screen = "u16 list list \<times> nat \<times> nat"

definition lines :: "u16 list \<Rightarrow> u16 list list" where
  "lines b = map (\<lambda>r. take 80 (drop (80 * r) b)) [0..<25]"

definition scroll_lines :: "u16 list list \<Rightarrow> u16 list list" where
  "scroll_lines ls = tl ls @ [replicate 80 0x20]"

text \<open>Typing one character on 25 lines; the cursor may rest behind the last line.\<close>

definition type_char :: "u8 \<Rightarrow> u8 \<Rightarrow> screen \<Rightarrow> screen" where
  "type_char color ch = (\<lambda>(ls, row, col).
     let (ls1, row1, col1) = (if row = 25 then (scroll_lines ls, 24, 0) else (ls, row, col))
     in if ch = 0x0A then (if row1 = 24 then (scroll_lines ls1, 24, 0) else (ls1, row1 + 1, 0))
        else (ls1[row1 := (ls1 ! row1)[col1 := vga_entry ch color]],
              if col1 = 79 then (row1 + 1, 0) else (row1, col1 + 1)))"

definition con_inv :: "console \<Rightarrow> bool" where
  "con_inv c \<longleftrightarrow> length (terminal_buffer c) = 2000 \<and> terminal_row c \<le> 25 \<and> terminal_column c < 80"

definition screen_of :: "console \<Rightarrow> screen" where
  "screen_of c = (lines (terminal_buffer c), terminal_row c, terminal_column c)"

lemma lines_nth: "length b = 2000 \<Longrightarrow> r < 25 \<Longrightarrow> x < 80 \<Longrightarrow> lines b ! r ! x = b ! (80 * r + x)"
  by (simp add: lines_def)

lemma lines_length [simp]: "length (lines b) = 25"
  by (simp add: lines_def)

lemma line_length: "length b = 2000 \<Longrightarrow> r < 25 \<Longrightarrow> length (lines b ! r) = 80"
  by (simp add: lines_def)

lemma lines_eqI:
  assumes "length b = 2000" "length ls = 25" "\<And>r. r < 25 \<Longrightarrow> length (ls ! r) = 80"
    and "\<And>r x. r < 25 \<Longrightarrow> x < 80 \<Longrightarrow> b ! (80 * r + x) = ls ! r ! x"
  shows "lines b = ls"
  using assms by (intro nth_equalityI) (auto simp: line_length lines_nth intro!: nth_equalityI)

lemma lines_scroll:
  assumes "length b = 2000"
  shows "lines (drop 80 b @ replicate 80 0x20) = scroll_lines (lines b)"
proof (rule lines_eqI)
  fix r x :: nat assume r: "r < 25" "x < 80"
  show "(drop 80 b @ replicate 80 0x20) ! (80 * r + x) = scroll_lines (lines b) ! r ! x"
    using assms r by (auto simp: scroll_lines_def nth_append nth_tl lines_nth nth_Cons' add.assoc)
qed (use assms in \<open>auto simp: scroll_lines_def nth_append nth_tl line_length nth_Cons'\<close>)

lemma cell_index_inj:
  assumes "x < (80 :: nat)" "x' < 80"
  shows "80 * r' + x' = 80 * r + x \<longleftrightarrow> r' = r \<and> x' = x"
proof
  assume eq: "80 * r' + x' = 80 * r + x"
  have "r' = (80 * r' + x') div 80" using assms by simp
  also have "\<dots> = r" unfolding eq using assms by simp
  finally show "r' = r \<and> x' = x" using eq by simp
qed simp

lemma lines_update:
  assumes "length b = 2000" "r < 25" "x < 80"
  shows "lines (b[80 * r + x := v]) = (lines b)[r := (lines b ! r)[x := v]]"
proof (rule lines_eqI)
  fix r' x' :: nat assume r: "r' < 25" "x' < 80"
  have "80 * r' + x' = 80 * r + x \<longleftrightarrow> r' = r \<and> x' = x" using assms r by (intro cell_index_inj)
  with assms r show "b[80 * r + x := v] ! (80 * r' + x') = (lines b)[r := (lines b ! r)[x := v]] ! r' ! x'"
    by (auto simp: nth_list_update lines_nth line_length)
qed (use assms in \<open>auto simp: nth_list_update line_length\<close>)

lemma terminal_scroll_ok:
  assumes "length (terminal_buffer c) = 2000"
  shows "terminal_scroll c = Inr (c\<lparr>terminal_buffer := drop 80 (terminal_buffer c) @ replicate 80 0x20\<rparr>)"
proof -
  let ?b = "terminal_buffer c"
  have c: "cells 1 VGA_HEIGHT = [80..<2000]" using cells_eq [of 1 25] by (simp add: VGA_HEIGHT_def del: upt_rec_numeral)
  have m: "map (\<lambda>i. VGA_WIDTH * (VGA_HEIGHT - 1) + i) [0..<VGA_WIDTH] = [1920..<2000]"
    using map_add_upt [of 1920 80] by (simp add: VGA_WIDTH_def VGA_HEIGHT_def add.commute del: upt_rec_numeral)
  have "copy_up ?b [80..<2000] = Inr (drop 80 ?b @ drop 1920 ?b)"
    using copy_up_upt [of 2000 ?b] assms by (simp del: upt_rec_numeral)
  moreover have "fill_cells (drop 80 ?b @ drop 1920 ?b) 0x20 [1920..<2000] = Inr (drop 80 ?b @ replicate 80 0x20)"
    using fill_cells_upt [of 1920 2000 "drop 80 ?b @ drop 1920 ?b" "0x20"] assms by (simp del: upt_rec_numeral)
  ultimately show ?thesis unfolding terminal_scroll_def c m by (simp del: upt_rec_numeral)
qed

text \<open>One character.\<close>

lemma terminal_putchar_refines:
  assumes "con_inv c"
  shows "\<exists>c'. terminal_putchar ch c = Inr c' \<and> con_inv c' \<and> screen_of c' = type_char (terminal_color c) ch (screen_of c) \<and>
    terminal_color c' = terminal_color c \<and> c_out c' = c_out c \<and> c_in c' = c_in c \<and> c_reads c' = c_reads c"
proof -
  define c1 where "c1 = (if terminal_row c = 25 then c\<lparr>terminal_buffer := drop 80 (terminal_buffer c) @ replicate 80 0x20,
    terminal_row := 24, terminal_column := 0\<rparr> else c)"
  have inv: "length (terminal_buffer c) = 2000" "terminal_row c \<le> 25" "terminal_column c < 80" using assms by (auto simp: con_inv_def)
  have s1: "(if terminal_row c = VGA_HEIGHT
            then rbind (terminal_scroll c) (\<lambda>c'. Inr (c'\<lparr>terminal_row := VGA_HEIGHT - 1, terminal_column := 0\<rparr>))
            else Inr c) = Inr c1"
    using inv by (simp add: c1_def terminal_scroll_ok VGA_HEIGHT_def)
  have b1: "length (terminal_buffer c1) = 2000" "terminal_row c1 < 25" "terminal_column c1 < 80" using inv by (auto simp: c1_def)
  have fr: "terminal_color c1 = terminal_color c" "c_out c1 = c_out c" "c_in c1 = c_in c" "c_reads c1 = c_reads c"
    by (simp_all add: c1_def)
  have abs1: "(if terminal_row c = 25 then (scroll_lines (lines (terminal_buffer c)), 24, 0)
      else (lines (terminal_buffer c), terminal_row c, terminal_column c)) = screen_of c1"
    using inv by (simp add: c1_def screen_of_def lines_scroll)
  have spec: "type_char (terminal_color c) ch (screen_of c) =
     (if ch = 0x0A then (if terminal_row c1 = 24 then (scroll_lines (lines (terminal_buffer c1)), 24, 0)
        else (lines (terminal_buffer c1), terminal_row c1 + 1, 0))
      else ((lines (terminal_buffer c1))[terminal_row c1 := (lines (terminal_buffer c1) ! terminal_row c1)
              [terminal_column c1 := vga_entry ch (terminal_color c)]],
            if terminal_column c1 = 79 then (terminal_row c1 + 1, 0) else (terminal_row c1, terminal_column c1 + 1)))"
    unfolding type_char_def screen_of_def [of c] case_prod_conv abs1 by (simp add: screen_of_def Let_def)
  show ?thesis
  proof (cases "ch = 0x0A")
    case True
    show ?thesis unfolding spec terminal_putchar_def s1
      using b1 fr True by (auto simp: Let_def VGA_HEIGHT_def terminal_scroll_ok con_inv_def screen_of_def lines_scroll)
  next
    case False
    let ?v = "vga_entry ch (terminal_color c)" and ?i = "80 * terminal_row c1 + terminal_column c1"
    have w: "wr (terminal_buffer c1) (int (terminal_row c1 * VGA_WIDTH + terminal_column c1)) ?v = Inr ((terminal_buffer c1)[?i := ?v])"
      using b1 wr_nat [of ?i "terminal_buffer c1" ?v] by (simp add: VGA_WIDTH_def mult.commute)
    show ?thesis unfolding spec terminal_putchar_def s1
      using b1 fr False w
      by (auto simp: Let_def VGA_WIDTH_def terminal_putentryat_def con_inv_def screen_of_def lines_update)
  qed
qed

lemma putchars_refines:
  assumes "con_inv c"
  shows "\<exists>c'. putchars chs c = Inr c' \<and> con_inv c' \<and> screen_of c' = fold (type_char (terminal_color c)) chs (screen_of c) \<and>
    terminal_color c' = terminal_color c \<and> c_out c' = c_out c \<and> c_in c' = c_in c \<and> c_reads c' = c_reads c"
  using assms
proof (induction chs arbitrary: c)
  case (Cons ch chs)
  from terminal_putchar_refines [OF Cons.prems, of ch] obtain c1 where c1: "terminal_putchar ch c = Inr c1" "con_inv c1"
    "screen_of c1 = type_char (terminal_color c) ch (screen_of c)"
    "terminal_color c1 = terminal_color c" "c_out c1 = c_out c" "c_in c1 = c_in c" "c_reads c1 = c_reads c" by blast
  with Cons.IH [OF c1(2)] show ?case by simp
qed simp

section \<open>The cursor\<close>

text \<open>The bytes a cursor move sends, and the position the display controller reads from them.\<close>

definition cursor_at :: "u8 \<Rightarrow> u8 \<Rightarrow> u16" where
  "cursor_at high low = push_bit 8 (ucast high) OR ucast low"

lemma move_cursor_out:
  obtains high low where "move_cursor pos c = c\<lparr>c_out := c_out c @ [(0x3D4, 14), (0x3D5, high), (0x3D4, 15), (0x3D5, low)]\<rparr>"
    "cursor_at high low = pos"
proof
  show "move_cursor pos c = c\<lparr>c_out := c_out c @ [(0x3D4, 14), (0x3D5, ucast (drop_bit 8 pos AND 0x00ff)), (0x3D4, 15), (0x3D5, ucast (pos AND 0x00ff))]\<rparr>"
    by (simp add: move_cursor_def send_low_def send_high_def outb_def)
qed (simp add: cursor_at_def join_bytes)

lemma show_cursor_frame:
  "screen_of (show_cursor c) = screen_of c" "con_inv (show_cursor c) = con_inv c" "c_in (show_cursor c) = c_in c"
  "c_reads (show_cursor c) = c_reads c" "terminal_color (show_cursor c) = terminal_color c"
  by (simp_all add: show_cursor_def screen_of_def con_inv_def move_cursor_def send_low_def send_high_def outb_def)

lemma terminal_write_ok:
  assumes "con_inv c" "sz \<le> length data"
  shows "\<exists>c'. terminal_write data sz c = Inr (c', sz) \<and> con_inv c' \<and>
    screen_of c' = fold (type_char (terminal_color c)) (take sz data) (screen_of c) \<and>
    (\<exists>high low. c_out c' = c_out c @ [(0x3D4, 14), (0x3D5, high), (0x3D4, 15), (0x3D5, low)] \<and>
       cursor_at high low = word_of_nat (80 * terminal_row c' + terminal_column c')) \<and>
    terminal_color c' = terminal_color c \<and> c_in c' = c_in c \<and> c_reads c' = c_reads c"
proof -
  from putchars_refines [OF assms(1), of "take sz data"] obtain c1 where c1: "putchars (take sz data) c = Inr c1" "con_inv c1"
    "screen_of c1 = fold (type_char (terminal_color c)) (take sz data) (screen_of c)"
    "terminal_color c1 = terminal_color c" "c_out c1 = c_out c" "c_in c1 = c_in c" "c_reads c1 = c_reads c" by blast
  obtain high low where m: "show_cursor c1 = c1\<lparr>c_out := c_out c1 @ [(0x3D4, 14), (0x3D5, high), (0x3D4, 15), (0x3D5, low)]\<rparr>"
    "cursor_at high low = word_of_nat (80 * terminal_row c1 + terminal_column c1)"
    unfolding show_cursor_def VGA_WIDTH_def by (rule move_cursor_out)
  have "terminal_write data sz c = Inr (show_cursor c1, sz)" using assms(2) c1(1) by (simp add: terminal_write_def)
  moreover have "c_out (show_cursor c1) = c_out c @ [(0x3D4, 14), (0x3D5, high), (0x3D4, 15), (0x3D5, low)]"
    "cursor_at high low = word_of_nat (80 * terminal_row (show_cursor c1) + terminal_column (show_cursor c1))"
    unfolding m(1) using m(2) c1(5) by simp_all
  ultimately show ?thesis using c1 show_cursor_frame [of c1] by (intro exI [of _ "show_cursor c1"]) auto
qed

section \<open>The serial line\<close>

definition line_ready :: "console \<Rightarrow> u16 \<Rightarrow> nat \<Rightarrow> bool" where
  "line_ready c com n \<longleftrightarrow> c_in c (com + 5) n AND 0x20 \<noteq> 0"

lemma wait_fifo_step:
  "wait_fifo com c = (let c' = snd (inb (com + 5) c) in if line_ready c com (c_reads c (com + 5)) then Some c' else wait_fifo com c')"
  by (subst wait_fifo.simps) (simp add: serial_is_transmit_fifo_empty_def inb_def line_ready_def Let_def)

lemma wait_fifo_ready:
  assumes "c_reads c (com + 5) \<le> m" "line_ready c com m"
  shows "\<exists>r. wait_fifo com c = Some (c\<lparr>c_reads := r\<rparr>)"
  using assms
proof (induction "m - c_reads c (com + 5)" arbitrary: c)
  case 0
  then have "c_reads c (com + 5) = m" by simp
  with 0 show ?case by (subst wait_fifo_step) (auto simp: inb_def)
next
  case (Suc k)
  let ?c = "snd (inb (com + 5) c)"
  show ?case
  proof (cases "line_ready c com (c_reads c (com + 5))")
    case True
    then show ?thesis by (subst wait_fifo_step) (auto simp: inb_def)
  next
    case False
    have "\<exists>r. wait_fifo com ?c = Some (?c\<lparr>c_reads := r\<rparr>)"
      using Suc.hyps(2) Suc.prems by (intro Suc.hyps(1)) (auto simp: inb_def line_ready_def)
    moreover have "wait_fifo com c = wait_fifo com ?c" using False by (subst wait_fifo_step) simp
    ultimately show ?thesis by (auto simp: inb_def)
  qed
qed

lemma serial_send_ok:
  assumes "\<And>n. \<exists>m \<ge> n. line_ready c com m"
  shows "\<exists>r. serial_send com ds c = Inr (c\<lparr>c_out := c_out c @ map (\<lambda>d. (com, d)) ds, c_reads := r\<rparr>)"
  using assms
proof (induction ds arbitrary: c)
  case Nil
  show ?case by (rule exI [of _ "c_reads c"]) simp
next
  case (Cons d ds)
  obtain m where "c_reads c (com + 5) \<le> m" "line_ready c com m" using Cons.prems by blast
  from wait_fifo_ready [OF this] obtain r where r: "wait_fifo com c = Some (c\<lparr>c_reads := r\<rparr>)" by blast
  let ?c = "outb com d (c\<lparr>c_reads := r\<rparr>)"
  have "\<exists>m \<ge> n. line_ready ?c com m" for n using Cons.prems by (simp add: line_ready_def outb_def)
  from Cons.IH [OF this] r show ?case by (auto simp: outb_def)
qed

lemma wait_fifo_never:
  assumes "\<And>n. \<not> line_ready c com n"
  shows "wait_fifo com c = None"
proof -
  have "wait_fifo com c = Some c' \<Longrightarrow> \<exists>n. line_ready c com n" for c c'
  proof (erule wait_fifo.raw_induct [rotated], goal_cases)
    case (1 wf com c c')
    let ?c = "c\<lparr>c_reads := (c_reads c)(com + 5 := Suc (c_reads c (com + 5)))\<rparr>"
    from 1(2) 1(1) [of com ?c c'] show ?case
      by (auto simp: serial_is_transmit_fifo_empty_def inb_def line_ready_def Let_def split: if_splits)
  qed
  with assms show ?thesis by (cases "wait_fifo com c") auto
qed

section \<open>Correctness\<close>

lemma u8_top_bit: "(w :: u8) AND 0x80 \<noteq> 0 \<longleftrightarrow> 128 \<le> unat w"
proof -
  have "w AND 0x80 = w AND 2 ^ 7" by simp
  then have "w AND 0x80 \<noteq> 0 \<longleftrightarrow> bit w 7" by (simp add: and_exp_eq_0_iff_not_bit del: power_numeral)
  also have "\<dots> \<longleftrightarrow> bit (unat w) 7" by (simp add: bit_unsigned_iff)
  also have "\<dots> \<longleftrightarrow> odd (unat w div 128)" by (simp add: bit_iff_odd)
  also have "\<dots> \<longleftrightarrow> 128 \<le> unat w" 
  proof -
    have "unat w < 256" using unsigned_less [of w] by simp
    then have "unat w div 128 < 2" by (intro less_mult_imp_div_less) simp
    then show ?thesis by (cases "128 \<le> unat w") (auto simp: less_2_cases_iff div_eq_0_iff)
  qed
  finally show ?thesis .
qed

text \<open>
  C35. \<^verbatim>\<open>terminal_write\<close> on any data, from any state of the screen: it stays inside the screen memory, reports the number
  of characters, types them one after the other on 25 lines of 80 cells (a full or ended last line scrolls
  the lines up by one), touches nothing else, and leaves the hardware cursor at the next free cell.
\<close>

theorem terminal_write_refines:
  assumes "con_inv c" "sz \<le> length data"
  shows "\<exists>c'. terminal_write data sz c = Inr (c', sz) \<and> con_inv c' \<and>
    screen_of c' = fold (type_char (terminal_color c)) (take sz data) (screen_of c) \<and>
    (\<exists>high low. c_out c' = c_out c @ [(0x3D4, 14), (0x3D5, high), (0x3D4, 15), (0x3D5, low)] \<and>
       cursor_at high low = word_of_nat (80 * terminal_row c' + terminal_column c'))"
  using terminal_write_ok [OF assms] by blast

definition console0 :: console where
  "console0 = \<lparr>terminal_row = 0, terminal_column = 0, terminal_color = 2, terminal_buffer = replicate 2000 0, c_out = [],
     c_in = (\<lambda>_ n. if even n then 0 else 0x20), c_reads = (\<lambda>_. 0)\<rparr>"

lemma console0_inv: "con_inv console0"
  by (simp add: con_inv_def console0_def)

theorem terminal_write_refines_witness:
  "\<exists>c'. con_inv console0 \<and> terminal_write (bytes ''hi'') 2 console0 = Inr (c', 2) \<and> terminal_row c' = 0 \<and> terminal_column c' = 2"
proof -
  from terminal_write_refines [OF console0_inv, of 2 "bytes ''hi''"] obtain c' where
    c': "terminal_write (bytes ''hi'') 2 console0 = Inr (c', 2)"
      "screen_of c' = fold (type_char 2) (bytes ''hi'') (screen_of console0)" by (auto simp: bytes_def console0_def)
  from c'(2) have "terminal_row c' = 0 \<and> terminal_column c' = 2"
    by (auto simp: screen_of_def type_char_def bytes_def console0_def of_char_def)
  with c'(1) console0_inv show ?thesis by blast
qed

text \<open>
  \<^verbatim>\<open>serial_write\<close> returns and sends every byte, once and in order, behind the configuration of the line, if the
  transmit queue of the port is empty again and again; if it never is, the first byte makes the call hang.
\<close>

theorem serial_write_sends:
  assumes "sz \<le> length data"
  shows "((\<forall>n. \<exists>m \<ge> n. line_ready c SERIAL_COM1_BASE m) \<longrightarrow>
      (\<exists>r. serial_write data sz c = Inr (c\<lparr>c_out := c_out c @ [(0x3FB, 0x80), (0x3F8, 0), (0x3F8, 1), (0x3FB, 3)] @
         map (\<lambda>d. (0x3F8, d)) (take sz data), c_reads := r\<rparr>, sz))) \<and>
    ((\<forall>n. \<not> line_ready c SERIAL_COM1_BASE n) \<and> 0 < sz \<longrightarrow> serial_write data sz c = Inl Hang)"
proof -
  let ?c = "serial_configure_line SERIAL_COM1_BASE (serial_configure_baud_rate SERIAL_COM1_BASE 1 c)"
  have conf: "?c = c\<lparr>c_out := c_out c @ [(0x3FB, 0x80), (0x3F8, 0), (0x3F8, 1), (0x3FB, 3)]\<rparr>"
    by (simp add: serial_configure_line_def serial_configure_baud_rate_def outb_def SERIAL_COM1_BASE_def)
  have rdy: "line_ready ?c com n = line_ready c com n" for com n by (simp add: conf line_ready_def)
  have w: "serial_write data sz c = rbind (serial_send SERIAL_COM1_BASE (take sz data) ?c) (\<lambda>c'. Inr (c', sz))"
    using assms by (simp add: serial_write_def serial_write_to_port_def)
  have "\<exists>r. serial_write data sz c = Inr (c\<lparr>c_out := c_out c @ [(0x3FB, 0x80), (0x3F8, 0), (0x3F8, 1), (0x3FB, 3)] @
         map (\<lambda>d. (0x3F8, d)) (take sz data), c_reads := r\<rparr>, sz)" if "\<forall>n. \<exists>m \<ge> n. line_ready c SERIAL_COM1_BASE m"
  proof -
    have "\<exists>m \<ge> n. line_ready ?c SERIAL_COM1_BASE m" for n using that by (simp add: rdy)
    from serial_send_ok [OF this, of "take sz data"] obtain r where
      "serial_send SERIAL_COM1_BASE (take sz data) ?c = Inr (?c\<lparr>c_out := c_out ?c @ map (\<lambda>d. (SERIAL_COM1_BASE, d)) (take sz data), c_reads := r\<rparr>)"
      by blast
    then show ?thesis unfolding w conf by (auto simp: SERIAL_COM1_BASE_def)
  qed
  moreover have "serial_write data sz c = Inl Hang" if nv: "\<forall>n. \<not> line_ready c SERIAL_COM1_BASE n" and pos: "0 < sz"
  proof -
    have "wait_fifo SERIAL_COM1_BASE ?c = None" using nv by (intro wait_fifo_never) (simp add: rdy)
    moreover obtain d ds where "take sz data = d # ds" using pos assms by (cases "take sz data") auto
    ultimately show ?thesis unfolding w by simp
  qed
  ultimately show ?thesis by blast
qed

lemma console0_ready: "\<forall>n. \<exists>m \<ge> n. line_ready console0 SERIAL_COM1_BASE m"
proof
  fix n
  have "line_ready console0 SERIAL_COM1_BASE (2 * n + 1)" by (simp add: line_ready_def console0_def)
  then show "\<exists>m \<ge> n. line_ready console0 SERIAL_COM1_BASE m" by (intro exI [of _ "2 * n + 1"]) simp
qed

theorem serial_write_sends_witness:
  "\<exists>c'. serial_write [65, 66] 2 console0 = Inr (c', 2) \<and> c_out c' = [(0x3FB, 0x80), (0x3F8, 0), (0x3F8, 1), (0x3FB, 3), (0x3F8, 65), (0x3F8, 66)]"
proof -
  have "2 \<le> length [65, 66 :: u8]" by simp
  from serial_write_sends [OF this, of console0] console0_ready obtain r where
    "serial_write [65, 66] 2 console0 = Inr (console0\<lparr>c_out := c_out console0 @ [(0x3FB, 0x80), (0x3F8, 0), (0x3F8, 1), (0x3FB, 3)] @
       map (\<lambda>d. (0x3F8, d)) (take 2 [65, 66]), c_reads := r\<rparr>, 2)" by blast
  then show ?thesis by (simp add: console0_def)
qed

lemma keyboard_irq_handler_ok:
  assumes "con_inv c" "c_in c 0x60 (c_reads c 0x60) = code"
  shows "\<exists>c'. keyboard_irq_handler c = Inr c' \<and> con_inv c' \<and> c_reads c' = (c_reads c)(0x60 := c_reads c 0x60 + 1) \<and>
    screen_of c' = (if 128 \<le> unat code then screen_of c else type_char (terminal_color c) (kbdus ! unat code) (screen_of c))"
proof -
  let ?c = "c\<lparr>c_reads := (c_reads c)(0x60 := c_reads c 0x60 + 1)\<rparr>"
  have in1: "inb 0x60 c = (code, ?c)" using assms(2) by (simp add: inb_def)
  have inv: "con_inv ?c" using assms(1) by (simp add: con_inv_def)
  have scr: "screen_of ?c = screen_of c" by (simp add: screen_of_def)
  show ?thesis
  proof (cases "128 \<le> unat code")
    case True
    then have "code AND 0x80 \<noteq> 0" by (simp add: u8_top_bit)
    with True inv scr in1 show ?thesis by (simp add: keyboard_irq_handler_def)
  next
    case False
    then have b: "code AND 0x80 = 0" using u8_top_bit [of code] by simp
    have r: "rd kbdus (uint code) = Inr (kbdus ! unat code)"
      using False rd_nat [of "unat code" kbdus] by (simp add: kbdus_length)
    from terminal_putchar_refines [OF inv, of "kbdus ! unat code"] obtain c1 where
      "terminal_putchar (kbdus ! unat code) ?c = Inr c1" "con_inv c1" "c_reads c1 = c_reads ?c"
      "screen_of c1 = type_char (terminal_color ?c) (kbdus ! unat code) (screen_of ?c)" by blast
    with False b r in1 scr show ?thesis
      by (simp add: keyboard_irq_handler_def terminal_putc_def show_cursor_frame)
  qed
qed

text \<open>
  The keyboard handler reads one scan code. A released key changes nothing on the screen; a pressed key types the
  character of the US layout table at the cursor. No scan code makes it read outside the table. (A modifier
  key has the table entry 0 and types that byte.)
\<close>

theorem keyboard_types:
  assumes "con_inv c" "c_in c 0x60 (c_reads c 0x60) = code"
  shows "\<exists>c'. keyboard_irq_handler c = Inr c' \<and> con_inv c' \<and> c_reads c' = (c_reads c)(0x60 := c_reads c 0x60 + 1) \<and>
    screen_of c' = (if 128 \<le> unat code then screen_of c else type_char (terminal_color c) (kbdus ! unat code) (screen_of c))"
  using keyboard_irq_handler_ok [OF assms] by blast

theorem keyboard_types_witness:
  "\<exists>c'. keyboard_irq_handler (console0\<lparr>c_in := (\<lambda>_ _. 0x1E)\<rparr>) = Inr c' \<and> terminal_column c' = 1 \<and> kbdus ! 0x1E = of_char (CHR ''a'')"
proof -
  let ?c = "console0\<lparr>c_in := (\<lambda>_ _. 0x1E)\<rparr>"
  have "con_inv ?c" using console0_inv by (simp add: con_inv_def)
  from keyboard_types [OF this refl] obtain c' where c': "keyboard_irq_handler ?c = Inr c'"
    "screen_of c' = type_char (terminal_color ?c) (kbdus ! 0x1E) (screen_of ?c)" by auto
  have k: "kbdus ! 0x1E = of_char (CHR ''a'')" by (simp add: kbdus_def bytes_def nth_append)
  have "terminal_column c' = 1" using c'(2) unfolding k by (auto simp: screen_of_def type_char_def console0_def of_char_def)
  with c'(1) k show ?thesis by blast
qed

end
