(* ===== verification/Kprintf.thy ===== *)
theory Kprintf
  imports Console_Spec
begin

text \<open>
  Formatted output: \<^verbatim>\<open>src/src/kernel/kernel/kprintf.c\<close> with the macros of \<^verbatim>\<open>kprintf.h\<close> and \<^verbatim>\<open>klog.h\<close>. A pointer into the
  format string is its index; the pointers the code sets to \<^verbatim>\<open>NULL\<close> are options. The variable arguments are 32-bit
  words, and \<open>strs\<close> gives the memory at an address, which \<^verbatim>\<open>%s\<close> reads. \<open>stk\<close> is what the stack holds where the
  local arrays \<^verbatim>\<open>loglevel\<close> and \<^verbatim>\<open>arg_container\<close> lie.
\<close>

section \<open>The formatter\<close>

datatype log_level = TRACE | INFO | WARN | ERR | FATAL
datatype log_target = SERIAL_PORT | FRAME_BUFFER
datatype arg_type = CHAR_t | INT_t | UNSIGNED_INT | POINTER | DOUBLE | STRING

definition is_formatter :: "u8 list \<Rightarrow> nat \<Rightarrow> bool result" where
  "is_formatter f s = rbind (rd f (int s)) (\<lambda>c.
     if c = 0x25 then rbind (rd f (int (s + 1))) (\<lambda>d. Inr (d \<noteq> 0 \<and> \<not> isspace d)) else Inr False)"

text \<open>The \<^verbatim>\<open>switch\<close> on the character behind the percent sign; other characters leave the type at \<^verbatim>\<open>INT\<close>.\<close>

definition type_at :: "u8 list \<Rightarrow> nat \<Rightarrow> arg_type result" where
  "type_at f s = rbind (rd f (int (s + 1))) (\<lambda>k.
     if k = 0x63 then Inr CHAR_t
     else if k = 0x64 then rbind (rd f (int (s + 2))) (\<lambda>u. Inr (if u = 0x75 then UNSIGNED_INT else INT_t))
     else if k = 0x70 then Inr POINTER
     else if k = 0x66 then Inr DOUBLE
     else if k = 0x73 then Inr STRING
     else Inr INT_t)"

text \<open>The type, \<^verbatim>\<open>arg_start\<close> and \<^verbatim>\<open>next_from\<close>.\<close>

function search_next_arg :: "u8 list \<Rightarrow> nat \<Rightarrow> (arg_type \<times> nat option \<times> nat option) result" where
  "search_next_arg f s = rbind (rd f (int s)) (\<lambda>c.
     if c \<noteq> 0 then
       rbind (is_formatter f s) (\<lambda>found.
         if found then rbind (type_at f s) (\<lambda>ty. Inr (ty, Some s, Some (if ty = UNSIGNED_INT then s + 3 else s + 2)))
         else search_next_arg f (s + 1))
     else Inr (INT_t, None, None))"
  by pat_completeness auto
termination
  by (relation "measure (\<lambda>(f, s). length f - s)") (auto simp: rd_Inr_iff)

declare search_next_arg.simps [simp del]

definition write_gen :: "u8 list \<Rightarrow> nat \<Rightarrow> log_target \<Rightarrow> console \<Rightarrow> (console \<times> nat) result" where
  "write_gen data sz target c =
     (case target of
        SERIAL_PORT \<Rightarrow> rbind (serial_write data sz c) (\<lambda>(c', _). Inr (c', sz))
      | FRAME_BUFFER \<Rightarrow> rbind (terminal_write data sz c) (\<lambda>(c', _). Inr (c', sz)))"

definition create_log_level_string :: "log_level \<Rightarrow> u8 list \<Rightarrow> u8 list result" where
  "create_log_level_string level buff =
     (case level of
        TRACE \<Rightarrow> strcpy buff (bytes ''TRACE '' @ [0])
      | INFO \<Rightarrow> strcpy buff (bytes ''INFO '' @ [0])
      | WARN \<Rightarrow> strcpy buff (bytes ''WARN '' @ [0])
      | ERR \<Rightarrow> strcpy buff (bytes ''ERR '' @ [0])
      | FATAL \<Rightarrow> strcpy buff (bytes ''FATAL '' @ [0]))"

text \<open>The \<^verbatim>\<open>switch\<close> that fetches an argument and writes it to \<^verbatim>\<open>arg_container\<close>.\<close>

definition convert_arg :: "(addr \<Rightarrow> u8 list) \<Rightarrow> arg_type \<Rightarrow> u32 list \<Rightarrow> u8 list \<Rightarrow> (u32 list \<times> u8 list) result" where
  "convert_arg strs ty args cont =
     (if ty = DOUBLE then Inr (args, cont)
      else case args of
        [] \<Rightarrow> Inl MissingArg
      | v # args' \<Rightarrow>
          (case ty of
             CHAR_t \<Rightarrow> rbind (wr cont 0 (ucast v)) (\<lambda>b. rbind (wr b 1 0) (\<lambda>b'. Inr (args', b')))
           | STRING \<Rightarrow> rbind (strcpy cont (strs v)) (\<lambda>b. Inr (args', b))
           | _ \<Rightarrow> rbind (itoa v cont) (\<lambda>b. Inr (args', b))))"

lemma search_next_arg_progress:
  "search_next_arg f s = Inr (ty, st, Some n) \<Longrightarrow> s < n \<and> s < length f"
proof (induction f s rule: search_next_arg.induct)
  case (1 f s)
  from 1(2) have sl: "s < length f" by (subst (asm) search_next_arg.simps) (auto simp: rbind_Inr_iff rd_Inr_iff)
  show ?case
  proof (cases "is_formatter f s = Inr False \<and> f ! s \<noteq> 0")
    case True
    with 1(2) sl have n: "search_next_arg f (s + 1) = Inr (ty, st, Some n)"
      by (subst (asm) search_next_arg.simps) (simp add: access_simps)
    then show ?thesis using 1(1) [of "f ! s" False] True sl by (simp add: access_simps)
  next
    case False
    with 1(2) sl show ?thesis
      by (subst (asm) search_next_arg.simps) (auto simp: rbind_Inr_iff rd_Inr_iff split: if_splits)
  qed
qed

function print_loop :: "log_target \<Rightarrow> (addr \<Rightarrow> u8 list) \<Rightarrow> u8 list \<Rightarrow> nat \<Rightarrow> u32 list \<Rightarrow> u8 list \<Rightarrow> nat \<Rightarrow> nat \<Rightarrow> console
    \<Rightarrow> (console \<times> nat) result" where
  "print_loop target strs f len args cont search_from written c =
     rbind (search_next_arg f search_from) (\<lambda>(ty, st, nx).
     rbind (case st of Some _ \<Rightarrow> convert_arg strs ty args cont | None \<Rightarrow> Inr (args, cont)) (\<lambda>(args', cont').
     let arg_start = (case st of Some s \<Rightarrow> s | None \<Rightarrow> len)
     in rbind (write_gen (drop search_from f) (arg_start - search_from) target c) (\<lambda>(c1, n1).
        rbind (if arg_start \<noteq> len then rbind (strlen cont') (\<lambda>m. write_gen cont' m target c1) else Inr (c1, 0)) (\<lambda>(c2, n2).
        case nx of
          None \<Rightarrow> Inr (c2, written + n1 + n2)
        | Some n \<Rightarrow> print_loop target strs f len args' cont' n (written + n1 + n2) c2))))"
  by pat_completeness auto
termination
  by (relation "measure (\<lambda>(target, strs, f, len, args, cont, from, written, c). length f - from)")
     (auto dest!: search_next_arg_progress)

declare print_loop.simps [simp del]

definition kprintf_level :: "(nat \<Rightarrow> u8) \<Rightarrow> (addr \<Rightarrow> u8 list) \<Rightarrow> log_level \<Rightarrow> log_target \<Rightarrow> bool \<Rightarrow> u8 list \<Rightarrow> u32 list \<Rightarrow> console
    \<Rightarrow> (console \<times> nat) result" where
  "kprintf_level stk strs lev target appendLogLevel format args c =
     rbind (strlen format) (\<lambda>len.
     let loglevel = map stk [0..<8]; arg_container = map stk [8..<136]
     in rbind (if appendLogLevel
               then rbind (create_log_level_string lev loglevel) (\<lambda>ll.
                    rbind (strlen ll) (\<lambda>n. rbind (write_gen ll n target c) (\<lambda>(c1, w).
                    rbind (wr arg_container 0 0) (\<lambda>cont. Inr (c1, w, cont)))))
               else Inr (c, 0, arg_container)) (\<lambda>(c1, written, cont).
        print_loop target strs format len args cont 0 written c1))"

definition kprintf :: "(nat \<Rightarrow> u8) \<Rightarrow> (addr \<Rightarrow> u8 list) \<Rightarrow> u8 list \<Rightarrow> u32 list \<Rightarrow> console \<Rightarrow> (console \<times> nat) result" where
  "kprintf stk strs format args c = kprintf_level stk strs INFO FRAME_BUFFER False format args c"

definition klog :: "(nat \<Rightarrow> u8) \<Rightarrow> (addr \<Rightarrow> u8 list) \<Rightarrow> log_level \<Rightarrow> u8 list \<Rightarrow> u32 list \<Rightarrow> console \<Rightarrow> (console \<times> nat) result" where
  "klog stk strs info format args c = kprintf_level stk strs info FRAME_BUFFER True format args c"

section \<open>What a format means\<close>

text \<open>
  The reference: the text up to the first directive, the type of the directive and the rest of the format.
\<close>

fun directive :: "u8 list \<Rightarrow> (arg_type \<times> u8 list) option" where
  "directive (p # k # r) =
     (if p = 0x25 \<and> \<not> isspace k then
        if k = 0x63 then Some (CHAR_t, r)
        else if k = 0x64 then (if r \<noteq> [] \<and> hd r = 0x75 then Some (UNSIGNED_INT, tl r) else Some (INT_t, r))
        else if k = 0x70 then Some (POINTER, r)
        else if k = 0x66 then Some (DOUBLE, r)
        else if k = 0x73 then Some (STRING, r)
        else Some (INT_t, r)
      else None)"
| "directive _ = None"

fun next_arg :: "u8 list \<Rightarrow> u8 list \<times> (arg_type \<times> u8 list) option" where
  "next_arg [] = ([], None)"
| "next_arg (p # r) =
     (case directive (p # r) of
        Some d \<Rightarrow> ([], Some d)
      | None \<Rightarrow> (let (t, d) = next_arg r in (p # t, d)))"

text \<open>The text an argument stands for; \<open>None\<close> if there is none that fits the container.\<close>

definition arg_text :: "(addr \<Rightarrow> u8 list) \<Rightarrow> arg_type \<Rightarrow> u32 \<Rightarrow> u8 list option" where
  "arg_text strs ty v =
     (case ty of
        CHAR_t \<Rightarrow> Some (if (ucast v :: u8) = 0 then [] else [ucast v])
      | STRING \<Rightarrow> if terminated (strs v) \<and> length (cstr (strs v)) < 128 then Some (cstr (strs v)) else None
      | _ \<Rightarrow> Some (digits (unat v)))"

lemma directive_length: "directive r = Some (ty, rest) \<Longrightarrow> length rest < length r"
  by (induction r rule: directive.induct) (auto split: if_splits)

lemma next_arg_length: "next_arg r = (t, Some (ty, rest)) \<Longrightarrow> length rest < length r"
proof (induction r arbitrary: t)
  case (Cons p r)
  then show ?case by (cases "directive (p # r)") (auto dest: directive_length split: prod.splits)
qed simp

text \<open>
  The whole output. A \<^verbatim>\<open>%f\<close> takes no argument and repeats the text of the directive before it (\<open>cur\<close>).
\<close>

function render :: "(addr \<Rightarrow> u8 list) \<Rightarrow> u8 list \<Rightarrow> u32 list \<Rightarrow> u8 list option \<Rightarrow> u8 list option" where
  "render strs f args cur =
     (case next_arg f of
        (t, None) \<Rightarrow> Some t
      | (t, Some (ty, rest)) \<Rightarrow>
          if ty = DOUBLE then
            (case cur of None \<Rightarrow> None | Some x \<Rightarrow> map_option (\<lambda>out. t @ x @ out) (render strs rest args cur))
          else
            (case args of
               [] \<Rightarrow> None
             | v # args' \<Rightarrow>
                 (case arg_text strs ty v of
                    None \<Rightarrow> None
                  | Some x \<Rightarrow> map_option (\<lambda>out. t @ x @ out) (render strs rest args' (Some x)))))"
  by pat_completeness auto
termination
  by (relation "measure (\<lambda>(strs, f, args, cur). length f)") (auto dest: next_arg_length [OF sym])

declare render.simps [simp del]

section \<open>The search for the next directive\<close>

text \<open>\<open>r\<close> is what remains of the format from the index \<open>s\<close> on.\<close>

definition rest_at :: "u8 list \<Rightarrow> nat \<Rightarrow> u8 list \<Rightarrow> bool" where
  "rest_at f s r \<longleftrightarrow> 0 \<notin> set r \<and> (\<exists>t. drop s f = r @ 0 # t)"

lemma rest_at_cstr: "terminated f \<Longrightarrow> rest_at f 0 (cstr f)"
  by (erule terminated_split) (auto simp: rest_at_def)

lemma rest_at_drop:
  assumes "rest_at f s r" "k \<le> length r"
  shows "rest_at f (s + k) (drop k r)"
proof -
  from assms obtain t where "drop s f = r @ 0 # t" "0 \<notin> set r" by (auto simp: rest_at_def)
  moreover have "drop (s + k) f = drop k (drop s f)" by (simp add: add.commute)
  ultimately show ?thesis using assms(2) by (auto simp: rest_at_def dest: in_set_dropD)
qed

lemma rest_at_rd:
  assumes "rest_at f s r" "k \<le> length r"
  shows "rd f (int (s + k)) = Inr (if k < length r then r ! k else 0)"
proof -
  from assms obtain t where t: "drop s f = r @ 0 # t" by (auto simp: rest_at_def)
  have "length (drop s f) = length r + 1 + length t" by (simp add: t)
  then have l: "s + k < length f" using assms(2) by simp
  have "f ! (s + k) = drop s f ! k" using l by simp
  also have "\<dots> = (if k < length r then r ! k else 0)" using assms(2) by (auto simp: t nth_append)
  finally show ?thesis using l by (subst rd_nat) simp_all
qed

lemma type_at_directive:
  assumes r: "rest_at f s r" and d: "directive r = Some (ty, rest)"
  shows "is_formatter f s = Inr True \<and> type_at f s = Inr ty \<and> rest_at f (s + (if ty = UNSIGNED_INT then 3 else 2)) rest \<and>
    (if ty = UNSIGNED_INT then 3 else 2) + length rest = length r"
proof -
  from d obtain k r' where k: "r = 0x25 # k # r'" "\<not> isspace k" by (cases r rule: directive.cases) (auto split: if_splits)
  have k0: "k \<noteq> 0" using r k(1) by (auto simp: rest_at_def)
  have rds: "rd f (int s) = Inr 0x25" "rd f (int (s + 1)) = Inr k" "rd f (int (s + 2)) = Inr (if r' \<noteq> [] then hd r' else 0)"
    using rest_at_rd [OF r, of 0] rest_at_rd [OF r, of 1] rest_at_rd [OF r, of 2] by (auto simp: k(1) hd_conv_nth)
  have dr: "rest_at f (s + 2) r'" "r' \<noteq> [] \<Longrightarrow> rest_at f (s + 3) (tl r')"
    using rest_at_drop [OF r, of 2] rest_at_drop [OF r, of 3] by (auto simp: k(1) drop_Suc numeral_eq_Suc Suc_le_eq)
  show ?thesis
    using d k0 k(2) dr unfolding is_formatter_def type_at_def rds k(1)
    by (auto split: if_splits)
qed

lemma not_formatter:
  assumes r: "rest_at f s (p # r)" and d: "directive (p # r) = None"
  shows "is_formatter f s = Inr False"
proof (cases "p = 0x25")
  case True
  have "rd f (int s) = Inr p" "rd f (int (s + 1)) = Inr (if r \<noteq> [] then hd r else 0)"
    using rest_at_rd [OF r, of 0] rest_at_rd [OF r, of 1] by (auto simp: hd_conv_nth)
  moreover have "r = [] \<or> isspace (hd r)" using d True by (cases r) (auto split: if_splits)
  ultimately show ?thesis by (auto simp: is_formatter_def)
next
  case False
  with rest_at_rd [OF r, of 0] show ?thesis by (simp add: is_formatter_def)
qed

lemma search_next_arg_ok:
  assumes "rest_at f s r" "next_arg r = (t, d)"
  shows "(case d of
      None \<Rightarrow> t = r \<and> search_next_arg f s = Inr (INT_t, None, None)
    | Some (ty, rest) \<Rightarrow> (\<exists>n. search_next_arg f s = Inr (ty, Some (s + length t), Some n) \<and> rest_at f n rest \<and> n + length rest = s + length r) \<and>
        length t < length r \<and> take (length t) r = t)"
  using assms
proof (induction r arbitrary: s t)
  case Nil
  then show ?case using rest_at_rd [OF Nil.prems(1), of 0] by (subst search_next_arg.simps) auto
next
  case (Cons p r)
  have p: "rd f (int s) = Inr p" "p \<noteq> 0" using rest_at_rd [OF Cons.prems(1), of 0] Cons.prems(1) by (auto simp: rest_at_def)
  show ?case
  proof (cases "directive (p # r)")
    case (Some e)
    then obtain ty rest where e: "directive (p # r) = Some (ty, rest)" by (cases e) auto
    from type_at_directive [OF Cons.prems(1) e] p have "search_next_arg f s = Inr (ty, Some s, Some (s + (if ty = UNSIGNED_INT then 3 else 2)))"
      by (subst search_next_arg.simps) simp
    moreover have "t = []" "d = Some (ty, rest)" using Cons.prems(2) e by auto
    ultimately show ?thesis using type_at_directive [OF Cons.prems(1) e] by auto
  next
    case None
    then obtain t' where t: "next_arg r = (t', d)" "t = p # t'" using Cons.prems(2) by (auto split: prod.splits)
    have s: "search_next_arg f s = search_next_arg f (s + 1)"
      using p not_formatter [OF Cons.prems(1) None] by (subst search_next_arg.simps) simp
    have "rest_at f (s + 1) r" using rest_at_drop [OF Cons.prems(1), of 1] by simp
    from Cons.IH [OF this t(1)] show ?thesis unfolding s t(2) by (auto split: option.splits)
  qed
qed

section \<open>Converting an argument\<close>

lemma convert_arg_ok:
  assumes len: "length cont = 128" and ty: "ty \<noteq> DOUBLE"
  shows "case args of
      [] \<Rightarrow> convert_arg strs ty args cont = Inl MissingArg
    | v # args' \<Rightarrow> (case arg_text strs ty v of
        None \<Rightarrow> convert_arg strs ty args cont = Inl OutOfBounds
      | Some x \<Rightarrow> \<exists>cont'. convert_arg strs ty args cont = Inr (args', cont') \<and> length cont' = 128 \<and> terminated cont' \<and> cstr cont' = x)"
proof (cases args)
  case Nil
  with ty show ?thesis by (simp add: convert_arg_def)
next
  case (Cons v args')
  have num: "\<exists>cont'. itoa v cont = Inr cont' \<and> length cont' = 128 \<and> terminated cont' \<and> cstr cont' = digits (unat v)"
    using itoa_eq [of v cont] digits_u32_length [of v] len digits_nonzero [of "unat v"] by (auto simp: terminated_def)
  show ?thesis
  proof (cases ty)
    case CHAR_t
    obtain a b cs where "cont = a # b # cs" using len by (cases cont; cases "tl cont") auto
    with CHAR_t Cons len show ?thesis
      by (auto simp: convert_arg_def arg_text_def wr_def cstr_def terminated_def)
  next
    case STRING
    show ?thesis
    proof (cases "terminated (strs v)")
      case True
      then obtain t where z: "0 \<notin> set (cstr (strs v))" by (rule terminated_split)
      show ?thesis
        using True STRING Cons len z strcpy_ok [OF True, of cont] strcpy_overflow [OF True, of cont]
        by (auto simp: convert_arg_def arg_text_def terminated_def split: option.splits)
    next
      case False
      then show ?thesis using STRING Cons strcpy_unterminated [OF False, of cont]
        by (simp add: convert_arg_def arg_text_def)
    qed
  qed (use Cons num ty in \<open>auto simp: convert_arg_def arg_text_def\<close>)
qed

section \<open>Writing to the screen\<close>

definition wrote :: "console \<Rightarrow> u8 list \<Rightarrow> console \<Rightarrow> bool" where
  "wrote c out c' \<longleftrightarrow> con_inv c' \<and> screen_of c' = fold (type_char (terminal_color c)) out (screen_of c) \<and>
     terminal_color c' = terminal_color c \<and> c_in c' = c_in c \<and> c_reads c' = c_reads c"

lemma wrote_trans: "wrote c a c1 \<Longrightarrow> wrote c1 b c2 \<Longrightarrow> wrote c (a @ b) c2"
  by (simp add: wrote_def)

lemma write_gen_ok:
  assumes "con_inv c" "sz \<le> length data"
  shows "\<exists>c'. write_gen data sz FRAME_BUFFER c = Inr (c', sz) \<and> wrote c (take sz data) c'"
  using terminal_write_ok [OF assms] by (auto simp: write_gen_def wrote_def)

lemma strlen_fault: "\<not> terminated buf \<Longrightarrow> strlen buf = Inl OutOfBounds"
  by (simp add: strlen_def strlen_loop_unterminated)

lemma cstr_take: "terminated buf \<Longrightarrow> length (cstr buf) \<le> length buf \<and> take (length (cstr buf)) buf = cstr buf"
  by (simp add: cstr_def length_takeWhile_le takeWhile_eq_take [symmetric])

text \<open>One round of the loop that prints a directive.\<close>

lemma print_round:
  assumes c: "con_inv c" and sr: "search_next_arg f s = Inr (ty, Some (s + k), Some n)" and k: "s + k \<noteq> len" "s + k \<le> length f"
    and cv: "convert_arg strs ty args cont = Inr (args', cont')"
  shows "if terminated cont'
    then \<exists>c2. print_loop FRAME_BUFFER strs f len args cont s w c =
        print_loop FRAME_BUFFER strs f len args' cont' n (w + k + length (cstr cont')) c2 \<and> wrote c (take k (drop s f) @ cstr cont') c2
    else print_loop FRAME_BUFFER strs f len args cont s w c = Inl OutOfBounds"
proof -
  have "k \<le> length (drop s f)" using k(2) by simp
  from write_gen_ok [OF c this] obtain c1 where c1: "write_gen (drop s f) k FRAME_BUFFER c = Inr (c1, k)"
    "wrote c (take k (drop s f)) c1" by auto
  show ?thesis
  proof (cases "terminated cont'")
    case True
    from write_gen_ok [of c1 "length (cstr cont')" cont'] c1(2) cstr_take [OF True] obtain c2 where
      c2: "write_gen cont' (length (cstr cont')) FRAME_BUFFER c1 = Inr (c2, length (cstr cont'))" "wrote c1 (cstr cont') c2"
      by (auto simp: wrote_def)
    with True c1 show ?thesis using sr cv k(1) strlen_ok [OF True] wrote_trans [OF c1(2) c2(2)]
      by (subst print_loop.simps) (auto simp: add.assoc)
  next
    case False
    with c1 sr cv k(1) strlen_fault [OF False] show ?thesis by (subst print_loop.simps) simp
  qed
qed

text \<open>The loop from position \<open>s\<close> of the format on prints \<open>res\<close>, or fails where \<open>res\<close> is undefined.\<close>

definition loop_prints :: "(addr \<Rightarrow> u8 list) \<Rightarrow> u8 list \<Rightarrow> nat \<Rightarrow> u32 list \<Rightarrow> u8 list \<Rightarrow> nat \<Rightarrow> nat \<Rightarrow> console \<Rightarrow> u8 list option \<Rightarrow> bool" where
  "loop_prints strs f len args cont s w c res \<longleftrightarrow> (case res of
      None \<Rightarrow> \<exists>e. print_loop FRAME_BUFFER strs f len args cont s w c = Inl e
    | Some out \<Rightarrow> \<exists>c'. print_loop FRAME_BUFFER strs f len args cont s w c = Inr (c', w + length out) \<and> wrote c out c')"

lemma rest_at_take:
  assumes "rest_at f s r"
  shows "take (length r) (drop s f) = r" "s + length r < length f"
proof -
  from assms obtain t where t: "drop s f = r @ 0 # t" by (auto simp: rest_at_def)
  then have "length (drop s f) = length r + 1 + length t" by simp
  then show "s + length r < length f" by simp
  show "take (length r) (drop s f) = r" by (simp add: t)
qed

lemma print_last:
  assumes r: "rest_at f s r" "s + length r = len" and c: "con_inv c" and na: "next_arg r = (t, None)"
  shows "loop_prints strs f len args cont s w c (render strs r args cur)"
proof -
  from search_next_arg_ok [OF r(1) na] have sr: "t = r" "search_next_arg f s = Inr (INT_t, None, None)" by auto
  have "length r \<le> length (drop s f)" using rest_at_take(2) [OF r(1)] by simp
  from write_gen_ok [OF c this] rest_at_take(1) [OF r(1)] obtain c1 where
    "write_gen (drop s f) (length r) FRAME_BUFFER c = Inr (c1, length r)" "wrote c r c1" by auto
  with sr na r(2) show ?thesis unfolding loop_prints_def
    by (subst print_loop.simps) (auto simp: render.simps [of strs r])
qed

lemma print_directive:
  assumes c: "con_inv c" and sr: "search_next_arg f s = Inr (ty, Some (s + length t), Some n)"
    and t: "s + length t \<noteq> len" "s + length t \<le> length f" "take (length t) (drop s f) = t"
    and cv: "convert_arg strs ty args cont = Inr (args', cont')" "terminated cont'"
    and IH: "\<And>w' c'. con_inv c' \<Longrightarrow> loop_prints strs f len args' cont' n w' c' res"
  shows "loop_prints strs f len args cont s w c (map_option (\<lambda>out. t @ cstr cont' @ out) res)"
proof -
  from print_round [OF c sr t(1,2) cv(1), of w] cv(2) t(3) obtain c2 where
    c2: "print_loop FRAME_BUFFER strs f len args cont s w c =
      print_loop FRAME_BUFFER strs f len args' cont' n (w + length t + length (cstr cont')) c2" "wrote c (t @ cstr cont') c2" by auto
  have "con_inv c2" using c2(2) by (simp add: wrote_def)
  from IH [OF this, of "w + length t + length (cstr cont')"] show ?thesis
    unfolding loop_prints_def c2(1) using wrote_trans [OF c2(2)] by (auto split: option.splits simp: add.assoc)
qed

lemma print_loop_ok:
  assumes "rest_at f s r" "s + length r = len" "con_inv c" "length cont = 128"
    and "cur = (if terminated cont then Some (cstr cont) else None)"
  shows "loop_prints strs f len args cont s w c (render strs r args cur)"
  using assms
proof (induction "length r" arbitrary: s r c cont cur args w rule: less_induct)
  case less
  obtain t d where na: "next_arg r = (t, d)" by fastforce
  note dr = rest_at_take [OF less.prems(1)]
  show ?case
  proof (cases d)
    case None
    with na print_last [OF less.prems(1-3)] show ?thesis by simp
  next
    case (Some e)
    then obtain ty rest where d: "d = Some (ty, rest)" by (cases e) auto
    from search_next_arg_ok [OF less.prems(1) na] d obtain n where n: "search_next_arg f s = Inr (ty, Some (s + length t), Some n)"
      "rest_at f n rest" "n + length rest = s + length r" "length t < length r" "take (length t) r = t" by auto
    have tt: "take (length t) (drop s f) = t" using dr n(4,5) by (metis min.absorb1 min.strict_order_iff take_take)
    have pos: "s + length t \<noteq> len" "s + length t \<le> length f" using n(4) less.prems(2) dr(2) by auto
    have lt: "length rest < length r" using next_arg_length na d by blast
    have step: "loop_prints strs f len args cont s w c (map_option (\<lambda>out. t @ cstr cont' @ out) (render strs rest args' (Some (cstr cont'))))"
      if "convert_arg strs ty args cont = Inr (args', cont')" "length cont' = 128" "terminated cont'" for args' cont'
      by (rule print_directive [OF less.prems(3) n(1) pos tt that(1,3)])
        (use less.hyps [OF lt n(2), where cont = cont'] that(2,3) n(3) less.prems(2) in simp)
    show ?thesis
    proof (cases "ty = DOUBLE")
      case True
      then have cv: "convert_arg strs ty args cont = Inr (args, cont)" by (simp add: convert_arg_def)
      have rnd: "render strs r args cur = (case cur of None \<Rightarrow> None | Some x \<Rightarrow> map_option (\<lambda>out. t @ x @ out) (render strs rest args cur))"
        using na d True by (subst render.simps) simp
      show ?thesis using step [OF cv less.prems(4)] print_round [OF less.prems(3) n(1) pos cv, of w]
        unfolding rnd unfolding less.prems(5) by (auto simp: loop_prints_def)
    next
      case False
      have rnd: "render strs r args cur = (case args of [] \<Rightarrow> None | v # args' \<Rightarrow> (case arg_text strs ty v of None \<Rightarrow> None
          | Some x \<Rightarrow> map_option (\<lambda>out. t @ x @ out) (render strs rest args' (Some x))))"
        using na d False by (subst render.simps) simp
      have err: "loop_prints strs f len args cont s w c None" if "convert_arg strs ty args cont = Inl e" for e
        using that n(1) unfolding loop_prints_def by (subst print_loop.simps) simp
      show ?thesis
        using convert_arg_ok [OF less.prems(4) False, where args = args and strs = strs] step err
        unfolding rnd by (fastforce split: list.splits option.splits)
    qed
  qed
qed

section \<open>Correctness\<close>

definition level_name :: "log_level \<Rightarrow> u8 list" where
  "level_name lev = (case lev of TRACE \<Rightarrow> bytes ''TRACE '' | INFO \<Rightarrow> bytes ''INFO '' | WARN \<Rightarrow> bytes ''WARN ''
     | ERR \<Rightarrow> bytes ''ERR '' | FATAL \<Rightarrow> bytes ''FATAL '')"

lemma level_name_props: "0 \<notin> set (level_name lev)" "length (level_name lev) < 8"
  by (cases lev; simp add: level_name_def bytes_def of_char_def)+

lemma create_log_level_string_ok:
  assumes "length buf = 8"
  shows "\<exists>ll. create_log_level_string lev buf = Inr ll \<and> terminated ll \<and> cstr ll = level_name lev"
proof -
  have e: "create_log_level_string lev buf = strcpy buf (level_name lev @ [0])"
    by (cases lev) (simp_all add: create_log_level_string_def level_name_def)
  have c: "cstr (level_name lev @ [0]) = level_name lev" using cstr_append [OF level_name_props(1), of lev "[]"] .
  have "terminated (level_name lev @ [0])" by (simp add: terminated_def)
  from strcpy_ok [OF this, of buf] c level_name_props [of lev] assms show ?thesis unfolding e
    by (auto simp: terminated_def)
qed

text \<open>The text of the last directive before the first one.\<close>

definition first_cur :: "(nat \<Rightarrow> u8) \<Rightarrow> bool \<Rightarrow> u8 list option" where
  "first_cur stk app = (if app then Some [] else if terminated (map stk [8..<136]) then Some (cstr (map stk [8..<136])) else None)"

lemma kprintf_level_ok:
  assumes c: "con_inv c" and f: "terminated f"
  shows "case render strs (cstr f) args (first_cur stk app) of
      None \<Rightarrow> \<exists>e. kprintf_level stk strs lev FRAME_BUFFER app f args c = Inl e
    | Some out \<Rightarrow> \<exists>c'. kprintf_level stk strs lev FRAME_BUFFER app f args c =
          Inr (c', length ((if app then level_name lev else []) @ out)) \<and> wrote c ((if app then level_name lev else []) @ out) c'"
proof (cases app)
  case False
  have l: "length (map stk [8..<136]) = 128" by simp
  have e: "kprintf_level stk strs lev FRAME_BUFFER app f args c =
      print_loop FRAME_BUFFER strs f (length (cstr f)) args (map stk [8..<136]) 0 0 c"
    using False unfolding kprintf_level_def Let_def strlen_ok [OF f] by (simp del: upt_rec_numeral)
  have cur: "first_cur stk app = (if terminated (map stk [8..<136]) then Some (cstr (map stk [8..<136])) else None)"
    unfolding first_cur_def using False by (simp del: upt_rec_numeral)
  from print_loop_ok [OF rest_at_cstr [OF f] _ c l cur, of "length (cstr f)" strs args 0, unfolded loop_prints_def] show ?thesis
    unfolding e using False by (auto split: option.splits simp del: upt_rec_numeral)
next
  case True
  let ?cont = "map stk [8..<136]"
  define cont where "cont = ?cont[0 := 0]"
  have l: "length ?cont = 128" "length (map stk [0..<8]) = 8" by simp_all
  have w: "wr ?cont 0 0 = Inr cont" using wr_nat [of 0 ?cont 0] l by (simp add: cont_def del: upt_rec_numeral)
  have ct: "length cont = 128" "terminated cont" "cstr cont = []"
  proof -
    obtain x xs where "?cont = x # xs" using l(1) by (cases ?cont) auto
    then have "cont = 0 # xs" by (simp add: cont_def)
    then show "terminated cont" "cstr cont = []" by (simp_all add: terminated_def cstr_def)
    show "length cont = 128" using l(1) by (simp add: cont_def del: upt_rec_numeral)
  qed
  obtain ll where ll: "create_log_level_string lev (map stk [0..<8]) = Inr ll" "terminated ll" "cstr ll = level_name lev"
    using create_log_level_string_ok [OF l(2)] by blast
  from write_gen_ok [OF c, of "length (level_name lev)" ll] cstr_take [OF ll(2)] ll(3) obtain c1 where
    c1: "write_gen ll (length (level_name lev)) FRAME_BUFFER c = Inr (c1, length (level_name lev))" "wrote c (level_name lev) c1" by auto
  have e: "kprintf_level stk strs lev FRAME_BUFFER app f args c =
      print_loop FRAME_BUFFER strs f (length (cstr f)) args cont 0 (length (level_name lev)) c1"
    using True ll c1(1) w unfolding kprintf_level_def Let_def strlen_ok [OF f] by (simp add: strlen_ok del: upt_rec_numeral)
  have inv1: "con_inv c1" using c1(2) by (simp add: wrote_def)
  have cur: "first_cur stk app = (if terminated cont then Some (cstr cont) else None)" using True ct by (simp add: first_cur_def)
  from print_loop_ok [OF rest_at_cstr [OF f] _ inv1 ct(1) cur, of "length (cstr f)" strs args "length (level_name lev)", unfolded loop_prints_def] True
  show ?thesis unfolding e using wrote_trans [OF c1(2)] by (auto split: option.splits)
qed

text \<open>
  C36. \<^verbatim>\<open>kprintf_level\<close> to the screen prints what the format means: for every terminated format string and every
  argument list it types exactly the rendered text behind the name of the level (if asked for), and returns the number
  of characters. It fails exactly when the format has no rendering: an argument is missing, or the text
  of a \<^verbatim>\<open>%s\<close> does not fit the 128 bytes of its buffer.
\<close>

theorem kprintf_level_renders:
  assumes "con_inv c" "terminated f"
  shows "case render strs (cstr f) args (first_cur stk app) of
      None \<Rightarrow> \<exists>e. kprintf_level stk strs lev FRAME_BUFFER app f args c = Inl e
    | Some out \<Rightarrow> \<exists>c'. kprintf_level stk strs lev FRAME_BUFFER app f args c =
          Inr (c', length ((if app then level_name lev else []) @ out)) \<and> wrote c ((if app then level_name lev else []) @ out) c'"
  by (rule kprintf_level_ok [OF assms])

theorem kprintf_level_renders_witness:
  "\<exists>c'. kprintf_level (\<lambda>_. 0) (\<lambda>_. []) INFO FRAME_BUFFER True (bytes ''pid %d!'' @ [0]) [42] console0 = Inr (c', 12) \<and>
     wrote console0 (bytes ''INFO pid 42!'') c'"
proof -
  have t: "terminated (bytes ''pid %d!'' @ [0])" by (simp add: terminated_def)
  have c: "cstr (bytes ''pid %d!'' @ [0]) = bytes ''pid %d!''" by (rule cstr_append) (simp add: bytes_def of_char_def)
  have r: "render (\<lambda>_. []) (bytes ''pid %d!'') [42] (Some []) = Some (bytes ''pid 42!'')"
    by (simp add: render.simps bytes_def of_char_def isspace_def arg_text_def digits_step)
  have fc: "first_cur (\<lambda>_. 0) True = Some []" by (simp add: first_cur_def)
  show ?thesis
    using kprintf_level_renders [OF console0_inv t, where strs = "\<lambda>_. []" and args = "[42]" and stk = "\<lambda>_. 0" and app = True and lev = INFO]
    unfolding c fc r by (auto simp: level_name_def bytes_def)
qed

text \<open>A format without percent sign is printed as it is.\<close>

lemma next_arg_plain: "0x25 \<notin> set r \<Longrightarrow> next_arg r = (r, None)"
proof (induction r)
  case (Cons p r)
  then have "directive (p # r) = None" by (cases r) auto
  with Cons show ?case by simp
qed simp

lemma klog_plain:
  assumes "con_inv c" "0 \<notin> set m" "0x25 \<notin> set m"
  shows "\<exists>c'. klog stk strs lev (m @ [0]) [] c = Inr (c', length (level_name lev @ m)) \<and> wrote c (level_name lev @ m) c'"
proof -
  have t: "terminated (m @ [0])" by (simp add: terminated_def)
  have "render strs (cstr (m @ [0])) [] (first_cur stk True) = Some m"
    using assms(2,3) by (subst render.simps) (simp add: next_arg_plain)
  with kprintf_level_ok [OF assms(1) t, where strs = strs and args = "[]" and stk = stk and app = True and lev = lev] show ?thesis by (simp add: klog_def)
qed

section \<open>Formats that can be printed\<close>

text \<open>The types of the directives of a format.\<close>

function kinds :: "u8 list \<Rightarrow> arg_type list" where
  "kinds f = (case next_arg f of (t, None) \<Rightarrow> [] | (t, Some (ty, rest)) \<Rightarrow> ty # kinds rest)"
  by pat_completeness auto
termination
  by (relation "measure length") (auto dest: next_arg_length [OF sym])

declare kinds.simps [simp del]

definition fits :: "(addr \<Rightarrow> u8 list) \<Rightarrow> arg_type \<Rightarrow> u32 \<Rightarrow> bool" where
  "fits strs ty v \<longleftrightarrow> ty \<noteq> DOUBLE \<and> (ty = STRING \<longrightarrow> terminated (strs v) \<and> length (cstr (strs v)) < 128)"

lemma fits_simps [simp]:
  "fits strs INT_t v" "fits strs STRING v \<longleftrightarrow> terminated (strs v) \<and> length (cstr (strs v)) < 128"
  by (simp_all add: fits_def)

lemma render_kinds: "list_all2 (fits strs) (kinds f) args \<Longrightarrow> \<exists>out. render strs f args cur = Some out"
proof (induction f arbitrary: args cur rule: kinds.induct)
  case (1 f)
  obtain t d where n: "next_arg f = (t, d)" by fastforce
  show ?case
  proof (cases d)
    case None
    then show ?thesis by (subst render.simps) (simp add: n)
  next
    case (Some x)
    obtain ty rest where x: "d = Some (ty, rest)" using Some by (cases x) simp
    from "1.prems" have "list_all2 (fits strs) (ty # kinds rest) args" by (subst (asm) kinds.simps) (simp add: n x)
    then obtain v vs where v: "args = v # vs" "fits strs ty v" "list_all2 (fits strs) (kinds rest) vs" by (auto simp: list_all2_Cons1)
    then obtain a where a: "arg_text strs ty v = Some a" by (cases ty) (auto simp: fits_def arg_text_def)
    from "1.IH" [OF n [symmetric] x refl v(3), of "Some a"] v(1,2) a show ?thesis
      by (subst render.simps) (auto simp: n x fits_def)
  qed
qed

end
