(* ===== verification/Descriptors.thy ===== *)
theory Descriptors
  imports Bodos_Prelude
begin

unbundle bit_operations_syntax

text \<open>
  Segment and interrupt descriptors: \<^verbatim>\<open>src/src/kernel/arch/i386/gdt.c\<close> and \<^verbatim>\<open>idt.c\<close>. The tables are lists with checked
  accesses; \<^verbatim>\<open>load_gdt\<close> and \<^verbatim>\<open>load_idt\<close> (\<^verbatim>\<open>gdt_load.s\<close>, \<^verbatim>\<open>isr_irq.s\<close>) copy the pointer structures to the processor's
  registers. The second half says how the processor reads the entries.
\<close>

section \<open>The tables\<close>

record gdt_entry =
  limit_low :: u16
  base_low :: u16
  base_middle :: u8
  access :: u8
  granularity :: u8
  base_high :: u8

record idt_entry =
  low_addr :: u16
  selector :: u16
  idt_zero :: u8
  type_attr :: u8
  high_addr :: u16

record dtr =
  dtr_limit :: u16
  dtr_base :: u32

record desc =
  gdt :: "gdt_entry list"
  gp :: dtr
  cpu_gdtr :: dtr
  idt :: "idt_entry list"
  idtptr :: dtr
  cpu_idtr :: dtr

text \<open>The descriptor \<^verbatim>\<open>gdt_set_gate\<close> leaves in its slot.\<close>

definition gdt_gate :: "gdt_entry \<Rightarrow> u32 \<Rightarrow> u32 \<Rightarrow> u8 \<Rightarrow> u8 \<Rightarrow> gdt_entry" where
  "gdt_gate e base limit acc gran =
     (let e1 = e\<lparr>base_low := ucast (base AND 0xFFFF),
                 base_middle := ucast (drop_bit 16 base AND 0xFF),
                 base_high := ucast (drop_bit 24 base AND 0xFF),
                 limit_low := ucast (limit AND 0xFFFF),
                 granularity := ucast (drop_bit 16 limit AND 0x0F)\<rparr>
      in e1\<lparr>granularity := granularity e1 OR (gran AND 0xF0), access := acc\<rparr>)"

definition gdt_set_gate :: "nat \<Rightarrow> u32 \<Rightarrow> u32 \<Rightarrow> u8 \<Rightarrow> u8 \<Rightarrow> desc \<Rightarrow> desc result" where
  "gdt_set_gate num base limit acc gran d =
     rbind (rd (gdt d) (int num)) (\<lambda>e. rbind (wr (gdt d) (int num) (gdt_gate e base limit acc gran)) (\<lambda>g. Inr (d\<lparr>gdt := g\<rparr>)))"

definition load_gdt :: "desc \<Rightarrow> desc" where
  "load_gdt d = d\<lparr>cpu_gdtr := gp d\<rparr>"

text \<open>\<open>addr_gdt\<close> is the address of the table.\<close>

definition gdt_install :: "u32 \<Rightarrow> desc \<Rightarrow> desc result" where
  "gdt_install addr_gdt d =
     (let d0 = d\<lparr>gp := \<lparr>dtr_limit = 8 * 3 - 1, dtr_base = addr_gdt\<rparr>\<rparr>
      in rbind (gdt_set_gate 0 0 0 0 0 d0) (\<lambda>d1.
         rbind (gdt_set_gate 1 0 0xFFFFFFFF 0x9A 0xCF d1) (\<lambda>d2.
         rbind (gdt_set_gate 2 0 0xFFFFFFFF 0x92 0xCF d2) (\<lambda>d3. Inr (load_gdt d3)))))"

definition set_address :: "idt_entry \<Rightarrow> u32 \<Rightarrow> idt_entry" where
  "set_address e handler = e\<lparr>low_addr := ucast (handler AND 0x0000ffff), high_addr := ucast (drop_bit 16 handler)\<rparr>"

definition set_selector :: "idt_entry \<Rightarrow> u16 \<Rightarrow> idt_entry" where
  "set_selector e v = e\<lparr>selector := v\<rparr>"

definition set_attributes :: "idt_entry \<Rightarrow> u8 \<Rightarrow> idt_entry" where
  "set_attributes e v = e\<lparr>type_attr := v\<rparr>"

definition set_zero :: "idt_entry \<Rightarrow> idt_entry" where
  "set_zero e = e\<lparr>idt_zero := 0\<rparr>"

text \<open>\<open>e0\<close> is the content of the uninitialised local entry.\<close>

definition create_idt_entry :: "idt_entry \<Rightarrow> nat \<Rightarrow> u32 \<Rightarrow> u16 \<Rightarrow> u8 \<Rightarrow> desc \<Rightarrow> desc result" where
  "create_idt_entry e0 index handler sel attr d =
     (let entry = set_attributes (set_zero (set_selector (set_address e0 handler) sel)) attr
      in rbind (wr (idt d) (int index) entry) (\<lambda>t. Inr (d\<lparr>idt := t\<rparr>)))"

definition load_idt :: "desc \<Rightarrow> desc" where
  "load_idt d = d\<lparr>cpu_idtr := idtptr d\<rparr>"

definition null_idt_entry :: idt_entry where
  "null_idt_entry = \<lparr>low_addr = 0, selector = 0, idt_zero = 0, type_attr = 0, high_addr = 0\<rparr>"

definition idt_install :: "u32 \<Rightarrow> desc \<Rightarrow> desc" where
  "idt_install addr_idt d =
     load_idt (d\<lparr>idt := map (\<lambda>_. null_idt_entry) (idt d), idtptr := \<lparr>dtr_limit = 256 * 8 - 1, dtr_base = addr_idt\<rparr>\<rparr>)"

section \<open>How the processor reads them\<close>

definition seg_base :: "gdt_entry \<Rightarrow> u32" where
  "seg_base e = ucast (base_low e) OR push_bit 16 (ucast (base_middle e)) OR push_bit 24 (ucast (base_high e))"

definition seg_limit :: "gdt_entry \<Rightarrow> u32" where
  "seg_limit e =
     (let lim = ucast (limit_low e) OR push_bit 16 (ucast (granularity e AND 0x0F))
      in if bit (granularity e) 7 then push_bit 12 lim OR 0xFFF else lim)"

definition gate_offset :: "idt_entry \<Rightarrow> u32" where
  "gate_offset e = ucast (low_addr e) OR push_bit 16 (ucast (high_addr e))"

text \<open>A present 32-bit interrupt gate of ring 0 has the attribute byte \<open>0x8E\<close>.\<close>

definition gate_of :: "desc \<Rightarrow> nat \<Rightarrow> (u16 \<times> u32) option" where
  "gate_of d v = (if v < length (idt d) \<and> type_attr (idt d ! v) = 0x8E then Some (selector (idt d ! v), gate_offset (idt d ! v)) else None)"

section \<open>Encoding and decoding\<close>

lemma seg_base_gate [simp]: "seg_base (gdt_gate e base limit acc gran) = base"
proof (rule bit_word_eqI)
  fix n assume "n < LENGTH(32)"
  then show "bit (seg_base (gdt_gate e base limit acc gran)) n = bit base n"
    by (cases "n < 24") (auto simp: seg_base_def gdt_gate_def masks bit_simps)
qed

lemma f0_mask: "(0xF0 :: u8) = push_bit 4 (mask 4)"
  by (simp add: mask_eq_exp_minus_1 push_bit_eq_mult)

lemma gate_granularity:
  "granularity (gdt_gate e base limit acc gran) AND 0x0F = ucast (drop_bit 16 limit AND 0x0F)"
  "granularity (gdt_gate e base limit acc gran) AND 0xF0 = gran AND 0xF0"
  by (rule bit_word_eqI; auto simp: gdt_gate_def masks f0_mask bit_simps)+

lemma gate_granularity_bit: "bit (granularity (gdt_gate e base limit acc gran)) 7 = bit gran 7"
  by (auto simp: gdt_gate_def masks f0_mask bit_simps)

lemma seg_limit_gate:
  "seg_limit (gdt_gate e base limit acc gran) = (let lim = limit AND 0xFFFFF in if bit gran 7 then push_bit 12 lim OR 0xFFF else lim)"
proof -
  have m: "(0xFFFFF :: u32) = mask 20" by (simp add: mask_eq_exp_minus_1)
  have "ucast (limit_low (gdt_gate e base limit acc gran)) OR push_bit 16 (ucast (granularity (gdt_gate e base limit acc gran) AND 0x0F)) = (limit AND 0xFFFFF :: u32)"
    unfolding gate_granularity(1)
  proof (rule bit_word_eqI)
    fix n assume "n < LENGTH(32)"
    then show "bit (ucast (limit_low (gdt_gate e base limit acc gran)) OR push_bit 16 (ucast (ucast (drop_bit 16 limit AND 0x0F) :: u8)) :: u32) n = bit (limit AND 0xFFFFF) n"
      by (cases "n < 20") (auto simp: gdt_gate_def masks m bit_simps)
  qed
  then show ?thesis by (simp add: seg_limit_def gate_granularity_bit)
qed

lemma gate_offset_entry:
  "gate_offset (set_attributes (set_zero (set_selector (set_address e handler) sel)) attr) = handler"
  by (rule bit_word_eqI)
     (auto simp: gate_offset_def set_attributes_def set_zero_def set_selector_def set_address_def masks bit_simps)

lemma create_idt_entry_ok:
  assumes "index < length (idt d)"
  shows "\<exists>d'. create_idt_entry e0 index handler sel attr d = Inr d' \<and> length (idt d') = length (idt d) \<and>
    gate_of d' index = (if attr = 0x8E then Some (sel, handler) else None) \<and> (\<forall>v. v \<noteq> index \<longrightarrow> gate_of d' v = gate_of d v) \<and>
    gdt d' = gdt d \<and> gp d' = gp d \<and> cpu_gdtr d' = cpu_gdtr d \<and> idtptr d' = idtptr d \<and> cpu_idtr d' = cpu_idtr d"
proof -
  define e where "e = set_attributes (set_zero (set_selector (set_address e0 handler) sel)) attr"
  let ?d = "d\<lparr>idt := (idt d)[index := e]\<rparr>"
  have "create_idt_entry e0 index handler sel attr d = Inr ?d" using assms by (simp add: create_idt_entry_def access_simps Let_def e_def)
  moreover have "type_attr e = attr" "selector e = sel" "gate_offset e = handler"
    by (simp_all only: e_def gate_offset_entry) (simp_all add: set_attributes_def set_zero_def set_selector_def set_address_def)
  ultimately show ?thesis using assms by (intro exI [of _ ?d]) (simp add: gate_of_def)
qed

section \<open>Correctness\<close>

text \<open>
  Decoding a segment descriptor as the processor does gives back what \<^verbatim>\<open>gdt_set_gate\<close> was told: the base
  address, the low 20 bits of the limit scaled by the granularity bit, the flags and the access byte, whatever the
  slot held before.
\<close>

theorem gdt_gate_roundtrip:
  assumes "num < length (gdt d)"
  shows "\<exists>d'. gdt_set_gate num base limit acc gran d = Inr d' \<and> seg_base (gdt d' ! num) = base \<and>
    seg_limit (gdt d' ! num) = (let lim = limit AND 0xFFFFF in if bit gran 7 then push_bit 12 lim OR 0xFFF else lim) \<and>
    granularity (gdt d' ! num) AND 0xF0 = gran AND 0xF0 \<and> access (gdt d' ! num) = acc \<and>
    (\<forall>i. i \<noteq> num \<longrightarrow> gdt d' ! i = gdt d ! i) \<and> length (gdt d') = length (gdt d)"
proof -
  let ?e = "gdt_gate (gdt d ! num) base limit acc gran"
  have "gdt_set_gate num base limit acc gran d = Inr (d\<lparr>gdt := (gdt d)[num := ?e]\<rparr>)"
    using assms by (simp add: gdt_set_gate_def access_simps)
  moreover have "access ?e = acc" by (simp add: gdt_gate_def)
  ultimately show ?thesis using assms by (simp add: seg_limit_gate gate_granularity)
qed

definition desc0 :: desc where
  "desc0 = \<lparr>gdt = replicate 3 \<lparr>limit_low = 7, base_low = 7, base_middle = 7, access = 7, granularity = 7, base_high = 7\<rparr>,
     gp = \<lparr>dtr_limit = 0, dtr_base = 0\<rparr>, cpu_gdtr = \<lparr>dtr_limit = 0, dtr_base = 0\<rparr>,
     idt = replicate 256 null_idt_entry, idtptr = \<lparr>dtr_limit = 0, dtr_base = 0\<rparr>, cpu_idtr = \<lparr>dtr_limit = 0, dtr_base = 0\<rparr>\<rparr>"

theorem gdt_gate_roundtrip_witness:
  "\<exists>d'. gdt_set_gate 1 0x12345678 0xABCDE 0x9A 0x4F desc0 = Inr d' \<and> seg_base (gdt d' ! 1) = 0x12345678 \<and> seg_limit (gdt d' ! 1) = 0xABCDE"
  using gdt_gate_roundtrip [of 1 desc0 "0x12345678" "0xABCDE" "0x9A" "0x4F"] by (auto simp: desc0_def Let_def)

text \<open>After \<^verbatim>\<open>gdt_install\<close> code and data segment cover the whole address space.\<close>

lemma gdt_set_gate_eq:
  "num < length (gdt d) \<Longrightarrow> gdt_set_gate num base limit acc gran d = Inr (d\<lparr>gdt := (gdt d)[num := gdt_gate (gdt d ! num) base limit acc gran]\<rparr>)"
  by (simp add: gdt_set_gate_def access_simps)

lemma gdt_install_flat:
  assumes "length (gdt d) = 3"
  shows "\<exists>d'. gdt_install a d = Inr d' \<and> (\<forall>i \<in> {1, 2}. seg_base (gdt d' ! i) = 0 \<and> seg_limit (gdt d' ! i) = 0xFFFFFFFF) \<and>
    access (gdt d' ! 1) = 0x9A \<and> access (gdt d' ! 2) = 0x92 \<and> seg_base (gdt d' ! 0) = 0 \<and> seg_limit (gdt d' ! 0) = 0 \<and>
    cpu_gdtr d' = \<lparr>dtr_limit = 23, dtr_base = a\<rparr> \<and> length (gdt d') = 3 \<and> idt d' = idt d"
proof -
  have "(0xFFFFFFFF :: u32) AND 0xFFFFF = 0xFFFFF" "bit (0xCF :: u8) 7" "push_bit 12 (0xFFFFF :: u32) OR 0xFFF = 0xFFFFFFFF" by simp_all
  with assms show ?thesis
    by (simp add: gdt_install_def Let_def gdt_set_gate_eq load_gdt_def seg_limit_gate) (simp add: gdt_gate_def)
qed

end
