(* ===== verification/Interrupts.thy ===== *)
theory Interrupts
  imports Console_Spec Descriptors
begin

unbundle bit_operations_syntax

text \<open>
  Hardware interrupts: \<^verbatim>\<open>src/src/kernel/arch/i386/irq.c\<close> and the timer (\<^verbatim>\<open>timer.cpp\<close>, \<^verbatim>\<open>timer.h\<close>). A function pointer is a
  value of some type of handlers, and \<open>call\<close> says what calling it does to the state; the state of the code that
  dispatches is a parameter, of which the dispatcher uses the port output and the timer object only.
\<close>

section \<open>Dispatch of hardware interrupts\<close>

definition irq_install_handler :: "int \<Rightarrow> 'h \<Rightarrow> 'h option list \<Rightarrow> 'h option list result" where
  "irq_install_handler irq handler routines = wr routines irq (Some handler)"

definition irq_uninstall_handler :: "int \<Rightarrow> 'h option list \<Rightarrow> 'h option list result" where
  "irq_uninstall_handler irq routines = wr routines irq None"

definition irq_remap :: "console \<Rightarrow> console" where
  "irq_remap c = fold (\<lambda>(port, data). outb port data)
     [(0x20, 0x11), (0xA0, 0x11), (0x21, 0x20), (0xA1, 0x28), (0x21, 0x04), (0xA1, 0x02), (0x21, 0x01), (0xA1, 0x01), (0x21, 0x0), (0xA1, 0x0)] c"

text \<open>The sixteen calls of \<^verbatim>\<open>create_idt_entry\<close>; \<open>routine i\<close> is the address of \<^verbatim>\<open>irq_routine_i\<close>.\<close>

fun install_gates :: "idt_entry \<Rightarrow> (nat \<Rightarrow> u32) \<Rightarrow> nat list \<Rightarrow> desc \<Rightarrow> desc result" where
  "install_gates e0 routine [] d = Inr d"
| "install_gates e0 routine (i # is) d =
     rbind (create_idt_entry e0 (32 + i) (routine i) 0x08 0x8E d) (install_gates e0 routine is)"

definition irq_install :: "idt_entry \<Rightarrow> (nat \<Rightarrow> u32) \<Rightarrow> console \<Rightarrow> desc \<Rightarrow> (console \<times> desc) result" where
  "irq_install e0 routine c d = rbind (install_gates e0 routine [0..<16] d) (\<lambda>d'. Inr (irq_remap c, d'))"

definition irq_handler :: "('h \<Rightarrow> u32 \<Rightarrow> 's \<Rightarrow> 's result) \<Rightarrow> (u16 \<Rightarrow> u8 \<Rightarrow> 's \<Rightarrow> 's) \<Rightarrow> 'h option list \<Rightarrow> u32 \<Rightarrow> 's \<Rightarrow> 's result" where
  "irq_handler call out routines int_no s =
     (let s1 = (if int_no = 32 then out 0x20 0x20 s else s)
      in rbind (rd routines (uint (int_no - 32))) (\<lambda>handler.
         rbind (case handler of None \<Rightarrow> Inr s1 | Some h \<Rightarrow> call h int_no s1) (\<lambda>s2.
         let s3 = (if int_no \<ge> 40 then out 0xA0 0x20 s2 else s2)
         in Inr (if int_no \<noteq> 32 then out 0x20 0x20 s3 else s3))))"

section \<open>The timer\<close>

record 'o timer =
  t_observers :: "'o option list"
  t_observerCount :: int

definition TIMER_OBSERVER_MAX :: nat where
  "TIMER_OBSERVER_MAX = 5"

definition Timer_new :: "'o timer" where
  "Timer_new = \<lparr>t_observers = replicate TIMER_OBSERVER_MAX None, t_observerCount = 0\<rparr>"

definition timer_install :: "'h \<Rightarrow> 'o timer \<Rightarrow> 'h option list \<Rightarrow> ('o timer \<times> 'h option list) result" where
  "timer_install timer_irq t routines =
     rbind (irq_install_handler 0 timer_irq routines) (\<lambda>rs. Inr (t\<lparr>t_observerCount := 0\<rparr>, rs))"

definition registerObserver :: "'o \<Rightarrow> 'o timer \<Rightarrow> ('o timer \<times> bool) result" where
  "registerObserver handler t =
     (if t_observerCount t < 5
      then rbind (wr (t_observers t) (t_observerCount t) (Some handler))
             (\<lambda>os. Inr (\<lparr>t_observers = os, t_observerCount = t_observerCount t + 1\<rparr>, True))
      else Inr (t, False))"

text \<open>The loop over the observers reads the timer object anew for every index.\<close>

fun run_observers :: "('o \<Rightarrow> 's \<Rightarrow> 's result) \<Rightarrow> ('s \<Rightarrow> 'o timer) \<Rightarrow> nat list \<Rightarrow> 's \<Rightarrow> 's result" where
  "run_observers call get [] s = Inr s"
| "run_observers call get (i # is) s =
     rbind (rd (t_observers (get s)) (int i)) (\<lambda>ob.
     rbind (case ob of None \<Rightarrow> Inr s | Some h \<Rightarrow> call h s) (run_observers call get is))"

definition timer_irq_handler :: "('s \<Rightarrow> 's) \<Rightarrow> ('o \<Rightarrow> 's \<Rightarrow> 's result) \<Rightarrow> ('s \<Rightarrow> 'o timer) \<Rightarrow> 's \<Rightarrow> 's result" where
  "timer_irq_handler count_tick call get s = run_observers call get [0..<TIMER_OBSERVER_MAX] (count_tick s)"

section \<open>The interrupt controllers\<close>

text \<open>
  How an 8259 controller reads what is written to it: a command with bit 4 starts the initialisation, whose next
  data bytes are the vector base, the cascade wiring and the mode; other data bytes are the interrupt mask.
\<close>

record pic =
  pic_stage :: nat
  pic_base :: u8
  pic_mask :: u8

definition pic_command :: "u8 \<Rightarrow> pic \<Rightarrow> pic" where
  "pic_command v p = (if bit v 4 then p\<lparr>pic_stage := 1, pic_mask := 0\<rparr> else p)"

definition pic_data :: "u8 \<Rightarrow> pic \<Rightarrow> pic" where
  "pic_data v p =
     (if pic_stage p = 1 then p\<lparr>pic_base := v, pic_stage := 2\<rparr>
      else if pic_stage p = 2 then p\<lparr>pic_stage := 3\<rparr>
      else if pic_stage p = 3 then p\<lparr>pic_stage := 0\<rparr>
      else p\<lparr>pic_mask := v\<rparr>)"

definition pic_write :: "u16 \<times> u8 \<Rightarrow> pic \<times> pic \<Rightarrow> pic \<times> pic" where
  "pic_write = (\<lambda>(port, v) (m, s).
     if port = 0x20 then (pic_command v m, s)
     else if port = 0x21 then (pic_data v m, s)
     else if port = 0xA0 then (m, pic_command v s)
     else if port = 0xA1 then (m, pic_data v s)
     else (m, s))"

text \<open>The interrupt vector of line \<open>n\<close>.\<close>

definition irq_vector :: "pic \<times> pic \<Rightarrow> nat \<Rightarrow> nat" where
  "irq_vector ps n = (if n < 8 then unat (pic_base (fst ps)) + n else unat (pic_base (snd ps)) + (n - 8))"

section \<open>Routing\<close>

lemma install_gates_ok:
  assumes "length (idt d) = 256" "\<forall>i \<in> set is. i < 16" "distinct is"
  shows "\<exists>d'. install_gates e0 routine is d = Inr d' \<and> length (idt d') = 256 \<and>
    (\<forall>i \<in> set is. gate_of d' (32 + i) = Some (0x08, routine i)) \<and> (\<forall>v. v \<notin> (+) 32 ` set is \<longrightarrow> gate_of d' v = gate_of d v) \<and>
    gdt d' = gdt d \<and> cpu_gdtr d' = cpu_gdtr d \<and> cpu_idtr d' = cpu_idtr d"
  using assms
proof (induction "is" arbitrary: d)
  case (Cons i "is")
  from create_idt_entry_ok [of "32 + i" d e0 "routine i" "0x08" "0x8E"] Cons.prems obtain d1 where
    d1: "create_idt_entry e0 (32 + i) (routine i) 0x08 0x8E d = Inr d1" "length (idt d1) = 256"
      "gate_of d1 (32 + i) = Some (0x08, routine i)" "\<forall>v. v \<noteq> 32 + i \<longrightarrow> gate_of d1 v = gate_of d v"
      "gdt d1 = gdt d" "cpu_gdtr d1 = cpu_gdtr d" "cpu_idtr d1 = cpu_idtr d" by auto
  from Cons.IH [OF d1(2)] Cons.prems obtain d' where
    d': "install_gates e0 routine is d1 = Inr d'" "length (idt d') = 256"
      "\<forall>i \<in> set is. gate_of d' (32 + i) = Some (0x08, routine i)" "\<forall>v. v \<notin> (+) 32 ` set is \<longrightarrow> gate_of d' v = gate_of d1 v"
      "gdt d' = gdt d1" "cpu_gdtr d' = cpu_gdtr d1" "cpu_idtr d' = cpu_idtr d1" by auto
  have "32 + i \<notin> (+) 32 ` set is" using Cons.prems(3) by auto
  then have "gate_of d' (32 + i) = Some (0x08, routine i)" using d'(4) d1(3) by simp
  with d1 d' show ?case by (intro exI [of _ d']) auto
qed auto

lemma irq_remap_out:
  "irq_remap c = c\<lparr>c_out := c_out c @ [(0x20, 0x11), (0xA0, 0x11), (0x21, 0x20), (0xA1, 0x28), (0x21, 0x04), (0xA1, 0x02),
     (0x21, 0x01), (0xA1, 0x01), (0x21, 0x0), (0xA1, 0x0)]\<rparr>"
  by (simp add: irq_remap_def outb_def)

text \<open>
  \<^verbatim>\<open>irq_install\<close> routes the sixteen interrupt lines: it programs the two controllers, whatever their state was,
  such that line \<open>n\<close> raises vector \<open>32 + n\<close> with no line masked, and the gate of that vector leads to
  \<^verbatim>\<open>irq_routine_n\<close> in the kernel code segment; the other gates stay as they are.
\<close>

theorem irq_install_routes:
  assumes "length (idt d) = 256"
  shows "\<exists>c' d' outs. irq_install e0 routine c d = Inr (c', d') \<and> c_out c' = c_out c @ outs \<and>
    (let ps' = fold pic_write outs ps
     in (\<forall>n < 16. irq_vector ps' n = 32 + n \<and> gate_of d' (irq_vector ps' n) = Some (0x08, routine n)) \<and>
        pic_mask (fst ps') = 0 \<and> pic_mask (snd ps') = 0 \<and> pic_stage (fst ps') = 0 \<and> pic_stage (snd ps') = 0) \<and>
    (\<forall>v. v < 32 \<or> 48 \<le> v \<longrightarrow> gate_of d' v = gate_of d v)"
proof -
  let ?outs = "[(0x20, 0x11), (0xA0, 0x11), (0x21, 0x20), (0xA1, 0x28), (0x21, 0x04), (0xA1, 0x02), (0x21, 0x01), (0xA1, 0x01), (0x21, 0x0), (0xA1, 0x0)] :: (u16 \<times> u8) list"
  let ?ps = "fold pic_write ?outs ps"
  obtain m s where ps: "ps = (m, s)" by (cases ps)
  have pm: "?ps = (m\<lparr>pic_stage := 0, pic_base := 0x20, pic_mask := 0\<rparr>, s\<lparr>pic_stage := 0, pic_base := 0x28, pic_mask := 0\<rparr>)"
    unfolding ps by (simp add: pic_write_def pic_command_def pic_data_def)
  have "\<forall>i \<in> set [0..<16]. i < 16" "distinct [0..<16]" by (simp_all del: upt_rec_numeral)
  from install_gates_ok [OF assms this, of e0 routine] obtain d' where d': "install_gates e0 routine [0..<16] d = Inr d'"
    "\<forall>i \<in> set [0..<16]. gate_of d' (32 + i) = Some (0x08, routine i)" "\<forall>v. v \<notin> (+) 32 ` set [0..<16] \<longrightarrow> gate_of d' v = gate_of d v" by blast
  have "irq_install e0 routine c d = Inr (irq_remap c, d')" using d'(1) by (simp add: irq_install_def del: upt_rec_numeral)
  moreover have "irq_vector ?ps n = 32 + n" if "n < 16" for n using that by (simp only: pm) (simp add: irq_vector_def)
  moreover have "gate_of d' v = gate_of d v" if "v < 32 \<or> 48 \<le> v" for v using d'(3) that by (auto simp del: upt_rec_numeral)
  moreover have "gate_of d' (32 + n) = Some (0x08, routine n)" if "n < 16" for n using d'(2) that by (auto simp del: upt_rec_numeral)
  moreover have "pic_mask (fst ?ps) = 0" "pic_mask (snd ?ps) = 0" "pic_stage (fst ?ps) = 0" "pic_stage (snd ?ps) = 0"
    by (simp_all only: pm) simp_all
  ultimately show ?thesis
    by (intro exI [of _ "irq_remap c"] exI [of _ d'] exI [of _ ?outs]) (simp only: irq_remap_out Let_def, simp)
qed

theorem irq_install_routes_witness:
  "\<exists>c' d'. irq_install null_idt_entry (\<lambda>i. 0xC0101000 + 16 * word_of_nat i) console0 desc0 = Inr (c', d') \<and>
     gate_of d' 33 = Some (0x08, 0xC0101010)"
proof -
  have l: "length (idt desc0) = 256" by (simp add: desc0_def)
  define ps :: "pic \<times> pic" where "ps = (\<lparr>pic_stage = 0, pic_base = 8, pic_mask = 255\<rparr>, \<lparr>pic_stage = 0, pic_base = 112, pic_mask = 255\<rparr>)"
  from irq_install_routes [OF l, of null_idt_entry "\<lambda>i. 0xC0101000 + 16 * word_of_nat i" console0 ps, unfolded Let_def]
  obtain c' d' outs where r: "irq_install null_idt_entry (\<lambda>i. 0xC0101000 + 16 * word_of_nat i) console0 desc0 = Inr (c', d')"
    "\<forall>n < 16. irq_vector (fold pic_write outs ps) n = 32 + n \<and> gate_of d' (irq_vector (fold pic_write outs ps) n) = Some (0x08, 0xC0101000 + 16 * word_of_nat n)"
    by blast
  have "gate_of d' 33 = Some (0x08, 0xC0101010)" using r(2) [rule_format, of 1] by auto
  with r(1) show ?thesis by blast
qed

section \<open>Acknowledging interrupts\<close>

text \<open>
  The end-of-interrupt commands around a handler: before it for the timer, after it for the other lines, and to both
  controllers for the lines of the second.
\<close>

definition acks_before :: "u32 \<Rightarrow> (u16 \<times> u8) list" where
  "acks_before n = (if n = 32 then [(0x20, 0x20)] else [])"

definition acks_after :: "u32 \<Rightarrow> (u16 \<times> u8) list" where
  "acks_after n = (if n \<ge> 40 then [(0xA0, 0x20)] else []) @ (if n \<noteq> 32 then [(0x20, 0x20)] else [])"

definition on_line :: "'h option list \<Rightarrow> u32 \<Rightarrow> 'h option" where
  "on_line routines n = routines ! (unat n - 32)"

definition send :: "(u16 \<Rightarrow> u8 \<Rightarrow> 's \<Rightarrow> 's) \<Rightarrow> (u16 \<times> u8) list \<Rightarrow> 's \<Rightarrow> 's" where
  "send out cmds s = fold (\<lambda>(port, v). out port v) cmds s"

lemma irq_handler_eq:
  assumes len: "length routines = 16" and n: "32 \<le> unat n" "unat n < 48"
  shows "irq_handler call out routines n s =
    rbind (case on_line routines n of None \<Rightarrow> Inr (send out (acks_before n) s) | Some h \<Rightarrow> call h n (send out (acks_before n) s))
      (\<lambda>s2. Inr (send out (acks_after n) s2))"
proof -
  have u: "uint (n - 32) = int (unat n - 32)"
  proof -
    have "unat (n - 32) = unat n - 32" using n(1) by (subst unat_sub) (simp_all add: word_le_nat_alt)
    then show ?thesis by (metis of_nat_unat)
  qed
  have r: "rd routines (uint (n - 32)) = Inr (on_line routines n)"
    unfolding u on_line_def using len n by (intro rd_nat) simp
  have s1: "(if n = 32 then out 0x20 0x20 s else s) = send out (acks_before n) s"
    by (simp add: send_def acks_before_def)
  show ?thesis unfolding irq_handler_def r s1 Let_def by (simp add: send_def acks_after_def)
qed

lemma send_outb: "send outb cmds c = c\<lparr>c_out := c_out c @ cmds\<rparr>"
  by (induction cmds arbitrary: c) (auto simp: send_def outb_def)

text \<open>
  C38. \<^verbatim>\<open>irq_handler\<close> for a vector of one of the sixteen lines runs the installed handler, if there is one, exactly once, and
  sends each controller involved exactly one end-of-interrupt command: the first controller before the handler for the
  timer (whose handler may switch to another thread) and after it for the other lines, the second controller
  after the handler for lines 8 to 15 only.
\<close>

theorem irq_handler_acks:
  assumes len: "length routines = 16" and n: "32 \<le> unat n" "unat n < 48"
    and run: "case on_line routines n of
        None \<Rightarrow> c' = c\<lparr>c_out := c_out c @ acks_before n\<rparr>
      | Some h \<Rightarrow> call h n (c\<lparr>c_out := c_out c @ acks_before n\<rparr>) = Inr c'"
  shows "irq_handler call outb routines n c = Inr (c'\<lparr>c_out := c_out c' @ acks_after n\<rparr>)"
  using run unfolding irq_handler_eq [OF len n] send_outb by (cases "on_line routines n") auto

theorem irq_handler_acks_witness:
  "irq_handler (\<lambda>h n c. Inr (outb 0x60 (h + ucast n) c)) outb ((replicate 16 None)[9 := Some 1]) 41 (console0 :: console) =
   Inr (console0\<lparr>c_out := [(0x60, 42), (0xA0, 0x20), (0x20, 0x20)]\<rparr>)"
proof -
  have o: "on_line ((replicate 16 None)[9 := Some (1 :: u8)]) 41 = Some 1" by (simp add: on_line_def)
  have "case on_line ((replicate 16 None)[9 := Some (1 :: u8)]) 41 of
      None \<Rightarrow> console0\<lparr>c_out := [(0x60, 42)]\<rparr> = console0\<lparr>c_out := c_out console0 @ acks_before 41\<rparr>
    | Some h \<Rightarrow> Inr (outb 0x60 (h + ucast (41 :: u32)) (console0\<lparr>c_out := c_out console0 @ acks_before 41\<rparr>)) = Inr (console0\<lparr>c_out := [(0x60, 42)]\<rparr>)"
    unfolding o by (simp add: outb_def acks_before_def console0_def)
  with irq_handler_acks [where routines = "(replicate 16 None)[9 := Some (1 :: u8)]" and n = 41 and c = console0 and
      call = "\<lambda>h n c. Inr (outb 0x60 (h + ucast n) c)" and c' = "console0\<lparr>c_out := [(0x60, 42)]\<rparr>"]
  show ?thesis by (simp add: acks_after_def)
qed

section \<open>What the dispatcher asks of the handlers\<close>

text \<open>
  The contract between the dispatcher and the handlers it calls: a state predicate that every handler and every port
  output keep. Then interrupts in any number and order are served without a fault.
\<close>

fun serve_all :: "('h \<Rightarrow> u32 \<Rightarrow> 's \<Rightarrow> 's result) \<Rightarrow> (u16 \<Rightarrow> u8 \<Rightarrow> 's \<Rightarrow> 's) \<Rightarrow> ('s \<Rightarrow> 'h option list) \<Rightarrow> u32 list \<Rightarrow> 's \<Rightarrow> 's result" where
  "serve_all call out routines [] s = Inr s"
| "serve_all call out routines (n # ns) s = rbind (irq_handler call out (routines s) n s) (serve_all call out routines ns)"

locale irq_service =
  fixes call :: "'h \<Rightarrow> u32 \<Rightarrow> 's \<Rightarrow> 's result" and out :: "u16 \<Rightarrow> u8 \<Rightarrow> 's \<Rightarrow> 's" and routines :: "'s \<Rightarrow> 'h option list" and inv :: "'s \<Rightarrow> bool"
  assumes call_keeps: "inv s \<Longrightarrow> \<exists>s'. call h n s = Inr s' \<and> inv s'"
    and out_keeps: "inv s \<Longrightarrow> inv (out port v s)"
    and sixteen: "inv s \<Longrightarrow> length (routines s) = 16"
begin

lemma send_keeps: "inv s \<Longrightarrow> inv (send out cmds s)"
  by (induction cmds arbitrary: s) (auto simp: send_def out_keeps)

lemma dispatch_keeps:
  assumes "inv s" "32 \<le> unat n" "unat n < 48"
  shows "\<exists>s'. irq_handler call out (routines s) n s = Inr s' \<and> inv s'"
proof (cases "on_line (routines s) n")
  case None
  then show ?thesis using assms by (simp add: irq_handler_eq [OF sixteen] send_keeps)
next
  case (Some h)
  obtain s' where "call h n (send out (acks_before n) s) = Inr s'" "inv s'" using call_keeps send_keeps assms(1) by blast
  with Some show ?thesis using assms by (simp add: irq_handler_eq [OF sixteen] send_keeps)
qed

lemma serve_all_keeps:
  assumes "inv s" "\<forall>n \<in> set ns. 32 \<le> unat n \<and> unat n < 48"
  shows "\<exists>s'. serve_all call out routines ns s = Inr s' \<and> inv s'"
  using assms
proof (induction ns arbitrary: s)
  case (Cons n ns)
  then obtain s1 where "irq_handler call out (routines s) n s = Inr s1" "inv s1" using dispatch_keeps [of s n] by auto
  with Cons.IH [of s1] Cons.prems(2) show ?case by simp
qed simp

end

section \<open>Timer observers\<close>

fun register_all :: "'o list \<Rightarrow> 'o timer \<Rightarrow> ('o timer \<times> bool list) result" where
  "register_all [] t = Inr (t, [])"
| "register_all (h # hs) t = rbind (registerObserver h t) (\<lambda>(t', ok). rbind (register_all hs t') (\<lambda>(t'', oks). Inr (t'', ok # oks)))"

fun call_all :: "('o \<Rightarrow> 's \<Rightarrow> 's result) \<Rightarrow> 'o list \<Rightarrow> 's \<Rightarrow> 's result" where
  "call_all call [] s = Inr s"
| "call_all call (h # hs) s = rbind (call h s) (call_all call hs)"

text \<open>The observers registered so far, in order.\<close>

definition timer_rep :: "'o timer \<Rightarrow> 'o list \<Rightarrow> bool" where
  "timer_rep t hs \<longleftrightarrow> length hs \<le> 5 \<and> t_observers t = map Some hs @ replicate (5 - length hs) None \<and> t_observerCount t = int (length hs)"

lemma timer_rep_new: "timer_rep Timer_new []"
  by (simp add: timer_rep_def Timer_new_def TIMER_OBSERVER_MAX_def)

lemma registerObserver_ok:
  assumes "timer_rep t hs"
  shows "if length hs < 5 then \<exists>t'. registerObserver h t = Inr (t', True) \<and> timer_rep t' (hs @ [h])
    else registerObserver h t = Inr (t, False)"
proof (cases "length hs < 5")
  case True
  obtain k where k: "5 - length hs = Suc k" using True by (metis Suc_diff_Suc)
  have "wr (t_observers t) (int (length hs)) (Some h) = Inr (map Some (hs @ [h]) @ replicate k None)"
    using assms k by (subst wr_nat) (auto simp: timer_rep_def list_update_append)
  with True assms k show ?thesis by (auto simp: registerObserver_def timer_rep_def)
qed (use assms in \<open>auto simp: registerObserver_def timer_rep_def\<close>)

lemma register_all_ok:
  assumes "timer_rep t hs"
  shows "\<exists>t'. register_all os t = Inr (t', map (\<lambda>i. i < 5) [length hs..<length hs + length os]) \<and> timer_rep t' (take 5 (hs @ os))"
  using assms
proof (induction os arbitrary: t hs)
  case Nil
  then show ?case by (simp add: timer_rep_def)
next
  case (Cons h os)
  show ?case
  proof (cases "length hs < 5")
    case True
    with registerObserver_ok [OF Cons.prems, of h] obtain t1 where t1: "registerObserver h t = Inr (t1, True)" "timer_rep t1 (hs @ [h])" by auto
    from Cons.IH [OF t1(2)] obtain t' where t': "register_all os t1 = Inr (t', map (\<lambda>i. i < 5) [Suc (length hs)..<length hs + Suc (length os)])"
      "timer_rep t' (take 5 (hs @ h # os))" by auto
    have "[length hs..<length hs + length (h # os)] = length hs # [Suc (length hs)..<length hs + Suc (length os)]"
      using upt_conv_Cons [of "length hs" "length hs + length (h # os)"] by (simp only: list.size) simp
    with t1(1) t' True show ?thesis by (simp only: register_all.simps) simp
  next
    case False
    then have e: "length hs = 5" using Cons.prems by (simp add: timer_rep_def)
    with registerObserver_ok [OF Cons.prems, of h] have r: "registerObserver h t = Inr (t, False)" by simp
    from Cons.IH [OF Cons.prems] obtain t' where t': "register_all os t = Inr (t', map (\<lambda>i. i < 5) [5..<5 + length os])" "timer_rep t' (take 5 (hs @ os))"
      by (auto simp: e)
    have "map (\<lambda>i. i < (5::nat)) [5..<5 + n] = replicate n False" for n by (auto intro: nth_equalityI)
    from this [of "length os"] this [of "Suc (length os)"] show ?thesis using r t' by (simp add: e)
  qed
qed

lemma run_observers_rep:
  assumes keep: "\<And>h s s'. get s = t \<Longrightarrow> call h s = Inr s' \<Longrightarrow> get s' = t"
    and obs: "t_observers t = map Some hs @ replicate m None" and s: "get s = t" and k: "k \<le> length hs + m"
  shows "run_observers call get [k..<length hs + m] s = call_all call (drop k hs) s"
  using s k
proof (induction "length hs + m - k" arbitrary: k s)
  case (Suc d)
  then have k: "k < length hs + m" by simp
  have ob: "rd (t_observers (get s)) (int k) = Inr (if k < length hs then Some (hs ! k) else None)"
    using k Suc.prems(1) by (subst rd_nat) (auto simp: obs nth_append)
  have IH: "run_observers call get [k + 1..<length hs + m] s' = call_all call (drop (k + 1) hs) s'" if "get s' = t" for s'
    using Suc.hyps(2) that k by (intro Suc.hyps(1)) auto
  have "[k..<length hs + m] = k # [k + 1..<length hs + m]" using k by (simp add: upt_conv_Cons)
  then have "run_observers call get [k..<length hs + m] s =
      rbind (if k < length hs then call (hs ! k) s else Inr s) (run_observers call get [k + 1..<length hs + m])"
    using ob by simp
  also have "\<dots> = call_all call (drop k hs) s"
  proof (cases "k < length hs")
    case True
    then have dr: "drop k hs = hs ! k # drop (k + 1) hs" by (simp add: Cons_nth_drop_Suc)
    from True show ?thesis unfolding dr using IH keep [OF Suc.prems(1), of "hs ! k"] by (cases "call (hs ! k) s") auto
  qed (use IH Suc.prems(1) in simp)
  finally show ?case .
qed simp

text \<open>
  Up to five observers can be registered with a timer; further ones are refused. Every timer interrupt counts a
  tick and then calls the registered observers, each once, in the order of registration (as long as they leave the
  timer object alone).
\<close>

theorem timer_calls_observers:
  assumes "\<And>h s s'. get s = t \<Longrightarrow> call h s = Inr s' \<Longrightarrow> get s' = t"
    and "register_all hs Timer_new = Inr (t, oks)" and "get (count_tick s) = t"
  shows "oks = map (\<lambda>i. i < 5) [0..<length hs] \<and> timer_irq_handler count_tick call get s = call_all call (take 5 hs) (count_tick s)"
proof -
  from register_all_ok [OF timer_rep_new, of hs] assms(2) have r: "oks = map (\<lambda>i. i < 5) [0..<length hs]" "timer_rep t (take 5 hs)" by auto
  have n: "length (take 5 hs) + (5 - length (take 5 hs)) = 5" by simp
  from run_observers_rep [where get = get and call = call and hs = "take 5 hs" and m = "5 - length (take 5 hs)" and s = "count_tick s" and k = 0, OF assms(1)] r(2) assms(3)
  have "run_observers call get [0..<5] (count_tick s) = call_all call (take 5 hs) (count_tick s)"
    unfolding n by (simp add: timer_rep_def del: upt_rec_numeral)
  with r(1) show ?thesis by (simp add: timer_irq_handler_def TIMER_OBSERVER_MAX_def del: upt_rec_numeral)
qed

theorem timer_calls_observers_witness:
  "\<exists>t. register_all [3, 4, 5 :: nat] Timer_new = Inr (t, [True, True, True]) \<and>
     timer_irq_handler Suc (\<lambda>h s. Inr (10 * s + h)) (\<lambda>_. t) 0 = Inr 1345"
proof -
  from register_all_ok [OF timer_rep_new, of "[3, 4, 5 :: nat]"] obtain t where t: "register_all [3, 4, 5 :: nat] Timer_new = Inr (t, [True, True, True])"
    by (auto simp del: register_all.simps)
  from timer_calls_observers [where get = "\<lambda>_. t" and call = "\<lambda>h s. Inr (10 * s + h)", OF _ t, of Suc 0] t show ?thesis by auto
qed

end
