(* ===== verification/Kernel_Random.thy ===== *)
theory Kernel_Random
  imports Bodos_Prelude
begin

unbundle bit_operations_syntax

text \<open>
  Random numbers: \<^verbatim>\<open>src/src/kernel/kernel/utils/random.cpp\<close> with \<^verbatim>\<open>rdtsc\<close> of \<^verbatim>\<open>arch/i386/utils/rdtsc.h\<close>. What the time stamp
  counter shows is a parameter.
\<close>

section \<open>Random numbers\<close>

text \<open>\<open>lo\<close> and \<open>hi\<close> are the registers the instruction \<^verbatim>\<open>rdtsc\<close> fills.\<close>

definition rdtsc :: "u32 \<Rightarrow> u32 \<Rightarrow> u64" where
  "rdtsc lo hi = ucast lo OR push_bit 32 (ucast hi)"

definition rand :: "u32 \<Rightarrow> u32 \<Rightarrow> u64 \<Rightarrow> u32 result" where
  "rand lo hi limit = (if limit = 0 then Inl DivByZero else Inr (ucast (rdtsc lo hi mod limit)))"

section \<open>Correctness\<close>

lemma rdtsc_value: "unat (rdtsc lo hi) = unat lo + 2 ^ 32 * unat hi"
proof -
  have d: "ucast lo AND push_bit 32 (ucast hi) = (0 :: u64)" by (rule bit_word_eqI) (auto simp: bit_simps dest: bit_imp_le_length)
  have "rdtsc lo hi = ucast lo + push_bit 32 (ucast hi)" unfolding rdtsc_def using d by (simp add: disjunctive_add_eq_or)
  have "unat lo < 2 ^ 32" "unat hi < 2 ^ 32" using unsigned_less [of lo] unsigned_less [of hi] by simp_all
  have u64: "unat (ucast w :: u64) = unat w" for w :: u32
    unfolding unsigned_ucast_eq by (rule take_bit_nat_eq_self, rule less_trans, rule unsigned_less) simp
  note u = u64 [of lo] u64 [of hi]
  have "unat (push_bit 32 (ucast hi :: u64)) = 2 ^ 32 * unat hi"
    unfolding unsigned_push_bit_eq u(2) using \<open>unat hi < _\<close> by (simp add: take_bit_eq_mod push_bit_eq_mult mult.commute)
  note u = u this
  have lt: "a + 2 ^ 32 * b < 2 ^ LENGTH(64)" if "a < 2 ^ 32" "b < 2 ^ 32" for a b :: nat using that by simp
  from lt [OF \<open>unat lo < _\<close> \<open>unat hi < _\<close>]
  show ?thesis unfolding \<open>rdtsc lo hi = _\<close> by (subst unat_add_lem [THEN iffD1]) (simp_all only: u)
qed

lemma rand_value:
  assumes "unat limit \<le> 2 ^ 32"
  shows "(case rand lo hi limit of
      Inl f \<Rightarrow> limit = 0 \<and> f = DivByZero
    | Inr r \<Rightarrow> unat r < unat limit \<and> unat r = (unat lo + 2 ^ 32 * unat hi) mod unat limit)"
proof (cases "limit = 0")
  case False
  then have pos: "0 < unat limit" by (simp add: unat_gt_0)
  let ?r = "(unat lo + 2 ^ 32 * unat hi) mod unat limit"
  have lt: "?r < unat limit" using pos by simp
  have "unat (ucast (rdtsc lo hi mod limit) :: u32) = ?r mod 2 ^ 32"
    by (simp add: unat_mod_distrib rdtsc_value unsigned_ucast_eq take_bit_eq_mod)
  also have "\<dots> = ?r" using lt assms by (intro mod_less) linarith
  finally show ?thesis using False lt by (simp add: rand_def)
qed (simp add: rand_def)

text \<open>
  \<^verbatim>\<open>rand(limit)\<close> with a limit of at most \<open>2 ^ 32\<close> is the time stamp counter reduced modulo the limit, hence below it;
  a limit of 0 divides by zero.
\<close>

theorem rand_bounded:
  assumes "unat limit \<le> 2 ^ 32"
  shows "(case rand lo hi limit of
      Inl f \<Rightarrow> limit = 0 \<and> f = DivByZero
    | Inr r \<Rightarrow> unat r < unat limit \<and> unat r = (unat lo + 2 ^ 32 * unat hi) mod unat limit)"
  by (rule rand_value [OF assms])

theorem rand_bounded_witness: "rand 7 3 10 = Inr 5"
proof -
  have "unat (10 :: u64) \<le> 2 ^ 32" by simp
  from rand_bounded [OF this, of 7 3] have "case rand 7 3 10 of Inl f \<Rightarrow> False | Inr r \<Rightarrow> unat r = 5" by (auto split: sum.splits)
  then show ?thesis by (auto simp: word_unat_eq_iff split: sum.splits)
qed

section \<open>A sequence of calls\<close>

text \<open>\<open>tsc p\<close> is what the instruction returns at its \<open>p\<close>-th execution.\<close>

type_synonym tsc = "nat \<Rightarrow> u32 \<times> u32"

definition stamp :: "tsc \<Rightarrow> nat \<Rightarrow> nat" where
  "stamp ts p = unat (fst (ts p)) + 2 ^ 32 * unat (snd (ts p))"

definition rand_at :: "tsc \<Rightarrow> nat \<Rightarrow> u64 \<Rightarrow> u32 result" where
  "rand_at ts p limit = rand (fst (ts p)) (snd (ts p)) limit"

text \<open>Every remainder modulo \<open>n\<close> comes up again and again.\<close>

definition fair :: "tsc \<Rightarrow> nat \<Rightarrow> bool" where
  "fair ts n \<longleftrightarrow> (\<forall>p. \<forall>i < n. \<exists>q \<ge> p. stamp ts q mod n = i)"

lemma rand_at_value:
  assumes "0 < n" "n \<le> 2 ^ 32"
  shows "\<exists>r. rand_at ts p (word_of_nat n) = Inr r \<and> unat r = stamp ts p mod n"
proof -
  have "n < 2 ^ 64" using assms(2) by simp
  then have n: "unat (word_of_nat n :: u64) = n" by (simp add: unat_of_nat)
  from rand_value [of "word_of_nat n" "fst (ts p)" "snd (ts p)"] assms show ?thesis
    unfolding n rand_at_def stamp_def by (auto simp: rand_def split: sum.splits if_splits) (metis n neq0_conv unat_0)
qed

end
