(* ===== verification/Kernel_Utils.thy ===== *)
theory Kernel_Utils
  imports Kprintf Interrupts Kernel_Random
begin

unbundle bit_operations_syntax

text \<open>
  Small services of the kernel: \<^verbatim>\<open>mem_printable\<close> of
  \<^verbatim>\<open>kernel/debug.c\<close>, the busy wait of \<^verbatim>\<open>arch/i386/timer.cpp\<close>, and the handler of software interrupts of
  \<^verbatim>\<open>arch/i386/isr.c\<close> with the register frame of \<^verbatim>\<open>include/kernel/system.h\<close>, and two functions of \<^verbatim>\<open>arch/i386/init.cpp\<close>.
\<close>

section \<open>Bytes of memory\<close>

text \<open>A \<^verbatim>\<open>char\<close> is signed: it is extended with its sign before the mask is applied.\<close>

definition mem_printable :: "u8 \<Rightarrow> u32" where
  "mem_printable v = (let res = (0x00000000 :: u32) in res OR (scast v AND 0x000000ff))"

section \<open>Waiting for the clock\<close>

text \<open>\<open>obs i\<close> is the value of \<^verbatim>\<open>timer_ticks\<close> at its \<open>i\<close>-th reading; the result is the number of the last one.\<close>

partial_function (option) wait_ticks :: "(nat \<Rightarrow> u64) \<Rightarrow> u64 \<Rightarrow> nat \<Rightarrow> nat option" where
  "wait_ticks obs eticks i = (if obs i < eticks then wait_ticks obs eticks (i + 1) else Some i)"

definition timer_wait :: "(nat \<Rightarrow> u64) \<Rightarrow> u64 \<Rightarrow> nat option" where
  "timer_wait obs ticks = (let eticks = obs 0 + ticks in wait_ticks obs eticks 1)"

section \<open>Software interrupts\<close>

record regs =
  r_gs :: u32  r_fs :: u32  r_es :: u32  r_ds :: u32
  r_edi :: u32  r_esi :: u32  r_ebp :: u32  r_esp :: u32  r_ebx :: u32  r_edx :: u32  r_ecx :: u32  r_eax :: u32
  r_int_no :: u32  r_err_code :: u32
  r_eip :: u32  r_cs :: u32  r_eflags :: u32  r_useresp :: u32  r_ss :: u32

definition interrupt_format :: "u8 list" where
  "interrupt_format = bytes ''Interrupt handler - interrupt num: %d and err code: %d gs: %d ds: %d cs: %d eax: %d ebp: %d esp: %d ebp - esp: %d, eip: %d'' @ [0x0A, 0]"

definition interrupt_handler :: "(nat \<Rightarrow> u8) \<Rightarrow> (addr \<Rightarrow> u8 list) \<Rightarrow> regs \<Rightarrow> console \<Rightarrow> console result" where
  "interrupt_handler stk strs r c =
     rbind (klog stk strs INFO interrupt_format
       [r_int_no r, r_err_code r, r_gs r, r_ds r, r_cs r, r_eax r, r_ebp r, r_esp r, r_ebp r - r_esp r, r_eip r] c) (\<lambda>(c', _). Inr c')"

section \<open>Correctness\<close>

lemma mem_printable_byte: "mem_printable v = ucast v"
proof -
  have "bit (scast v AND 0xff :: u32) i = bit (ucast v :: u32) i" for i
    by (cases "i = 7") (auto simp: masks bit_simps min_def dest: bit_imp_le_length)
  then show ?thesis by (simp add: mem_printable_def bit_eq_iff)
qed

lemma wait_ticks_first:
  assumes "i \<le> k" "\<not> obs k < eticks" "\<forall>j. i \<le> j \<and> j < k \<longrightarrow> obs j < eticks"
  shows "wait_ticks obs eticks i = Some k"
  using assms
proof (induction "k - i" arbitrary: i)
  case 0
  then show ?case by (subst wait_ticks.simps) simp
next
  case (Suc d)
  then have "obs i < eticks" "wait_ticks obs eticks (i + 1) = Some k" by auto
  then show ?case by (subst wait_ticks.simps) simp
qed

lemma wait_ticks_Some: "wait_ticks obs eticks i = Some k \<Longrightarrow> i \<le> k \<and> \<not> obs k < eticks"
proof (erule wait_ticks.raw_induct [rotated], goal_cases)
  case (1 w obs eticks i k)
  from 1(2) 1(1) [of obs eticks "i + 1" k] show ?case by (auto split: if_splits)
qed

text \<open>
  \<^verbatim>\<open>timer_wait\<close> returns at the first reading of the clock that shows at least \<open>ticks\<close> more than at the start, and never
  returns if the clock does not get there, provided the end time fits 64 bits. If it does not, the sum wraps around and a
  clock that does not run backwards makes it return at once.
\<close>

theorem timer_wait_returns:
  assumes "\<forall>i. obs 0 \<le> obs i"
  shows "timer_wait obs ticks =
    (if unat (obs 0) + unat ticks < 2 ^ 64 then
       (if \<exists>i > 0. unat (obs 0) + unat ticks \<le> unat (obs i)
        then Some (LEAST i. 0 < i \<and> unat (obs 0) + unat ticks \<le> unat (obs i)) else None)
     else Some 1)"
proof (cases "unat (obs 0) + unat ticks < 2 ^ 64")
  case True
  let ?P = "\<lambda>i. 0 < i \<and> unat (obs 0) + unat ticks \<le> unat (obs i)"
  have e: "unat (obs 0 + ticks) = unat (obs 0) + unat ticks" using True by (simp add: unat_plus_if_size word_size)
  have lt: "obs i < obs 0 + ticks \<longleftrightarrow> unat (obs i) < unat (obs 0) + unat ticks" for i by (simp add: word_less_nat_alt e)
  show ?thesis
  proof (cases "\<exists>i. ?P i")
    case ex: True
    then have L: "?P (LEAST i. ?P i)" by (rule LeastI_ex)
    moreover have "\<not> ?P j" if "j < (LEAST i. ?P i)" for j using that by (rule not_less_Least)
    ultimately have "wait_ticks obs (obs 0 + ticks) 1 = Some (LEAST i. ?P i)"
      by (intro wait_ticks_first) (auto simp: lt not_less Suc_le_eq not_le)
    with True ex show ?thesis by (auto simp: timer_wait_def Let_def)
  next
    case False
    have "wait_ticks obs (obs 0 + ticks) 1 = None"
    proof (cases "wait_ticks obs (obs 0 + ticks) 1")
      case (Some a)
      from wait_ticks_Some [OF this] have "?P a" by (simp add: lt)
      with False show ?thesis by blast
    qed
    with True False show ?thesis by (auto simp: timer_wait_def Let_def)
  qed
next
  case False
  then have "unat (obs 0 + ticks) = unat (obs 0) + unat ticks - 2 ^ 64" by (simp add: unat_plus_if_size word_size)
  moreover have "unat ticks < 2 ^ 64" using unsigned_less [of ticks] by simp
  ultimately have "obs 0 + ticks \<le> obs 0" by (simp add: word_le_nat_alt)
  from order.trans [OF this assms [rule_format, of 1]] have "\<not> obs 1 < obs 0 + ticks" by (simp only: not_less)
  then have "wait_ticks obs (obs 0 + ticks) 1 = Some 1" by (intro wait_ticks_first) auto
  with False show ?thesis by (simp add: timer_wait_def Let_def)
qed

theorem timer_wait_returns_witness: "timer_wait (\<lambda>i. 100 + word_of_nat (min i 7)) 3 = Some 3"
proof -
  define obs :: "nat \<Rightarrow> u64" where "obs = (\<lambda>i. 100 + word_of_nat (min i 7))"
  have u: "unat (obs i) = 100 + min i 7" for i by (simp add: obs_def unat_plus_if_size word_size unsigned_of_nat take_bit_eq_mod)
  then have m: "\<forall>i. obs 0 \<le> obs i" by (simp add: word_le_nat_alt)
  have "(LEAST i. 0 < i \<and> unat (obs 0) + unat (3 :: u64) \<le> unat (obs i)) = 3" by (rule Least_equality) (auto simp: u)
  moreover have "\<exists>i > 0. unat (obs 0) + unat (3 :: u64) \<le> unat (obs i)" by (intro exI [of _ 3]) (simp add: u)
  ultimately show ?thesis using timer_wait_returns [OF m, of 3] by (simp add: u obs_def [symmetric])
qed

section \<open>The report of a software interrupt\<close>

text \<open>One decimal directive behind plain text.\<close>

lemma next_arg_int:
  assumes "0x25 \<notin> set t" "r = [] \<or> hd r \<noteq> 0x75"
  shows "next_arg (t @ 0x25 # 0x64 # r) = (t, Some (INT_t, r))"
  using assms(1)
proof (induction t)
  case Nil
  with assms(2) show ?case by (auto simp: isspace_def)
next
  case (Cons p t)
  then have "directive (p # t @ 0x25 # 0x64 # r) = None" by (cases t) auto
  with Cons show ?case by simp
qed

lemma render_int:
  assumes "0x25 \<notin> set t" "r = [] \<or> hd r \<noteq> 0x75"
  shows "render strs (t @ 0x25 # 0x64 # r) (v # args) cur =
    map_option (\<lambda>out. t @ digits (unat v) @ out) (render strs r args (Some (digits (unat v))))"
  by (subst render.simps) (simp add: next_arg_int [OF assms] arg_text_def)

lemma render_plain: "0x25 \<notin> set t \<Longrightarrow> render strs t [] cur = Some t"
  by (subst render.simps) (simp add: next_arg_plain)

text \<open>Text and decimal numbers, one after the other, and text at the end.\<close>

fun pieces :: "(u8 list \<times> u32) list \<Rightarrow> u8 list \<Rightarrow> u8 list" where
  "pieces [] e = e"
| "pieces ((t, _) # ps) e = t @ 0x25 # 0x64 # pieces ps e"

fun filled :: "(u8 list \<times> u32) list \<Rightarrow> u8 list \<Rightarrow> u8 list" where
  "filled [] e = e"
| "filled ((t, v) # ps) e = t @ digits (unat v) @ filled ps e"

text \<open>Text of a format: no zero byte, no percent sign, and no letter u at its start, which would change the directive before it.\<close>

definition plain :: "u8 list \<Rightarrow> bool" where
  "plain t \<longleftrightarrow> 0 \<notin> set t \<and> 0x25 \<notin> set t \<and> (t = [] \<or> hd t \<noteq> 0x75)"

lemma pieces_start: "\<forall>(t, v) \<in> set ps. plain t \<Longrightarrow> plain e \<Longrightarrow> pieces ps e = [] \<or> hd (pieces ps e) \<noteq> 0x75"
  by (cases ps) (auto simp: plain_def hd_append split: if_splits)

lemma render_pieces:
  assumes "\<forall>(t, v) \<in> set ps. plain t" "plain e"
  shows "render strs (pieces ps e) (map snd ps) cur = Some (filled ps e)"
  using assms(1)
proof (induction ps arbitrary: cur)
  case Nil
  show ?case using assms(2) by (simp add: render_plain plain_def)
next
  case (Cons p ps)
  obtain t v where p: "p = (t, v)" by (cases p)
  with Cons pieces_start [of ps e] assms(2) show ?case by (simp add: render_int plain_def)
qed

text \<open>Printing such a format types the texts and the numbers.\<close>

lemma kprintf_pieces:
  assumes "con_inv c" "\<forall>(t, v) \<in> set ps. plain t" "plain e"
  shows "\<exists>c' n. kprintf_level stk strs lev FRAME_BUFFER app (pieces ps e @ [0]) (map snd ps) c = Inr (c', n) \<and>
    wrote c ((if app then level_name lev else []) @ filled ps e) c'"
proof -
  have t: "terminated (pieces ps e @ [0])" by (simp add: terminated_def)
  have "0 \<notin> set (pieces ps e)" using assms(2,3) by (induction ps) (auto simp: plain_def)
  then have c: "cstr (pieces ps e @ [0]) = pieces ps e" by simp
  from kprintf_level_ok [OF assms(1) t, where strs = strs and args = "map snd ps" and stk = stk and app = app and lev = lev]
  show ?thesis unfolding c render_pieces [OF assms(2,3)] by auto
qed

definition interrupt_pieces :: "regs \<Rightarrow> (u8 list \<times> u32) list" where
  "interrupt_pieces r =
     [(bytes ''Interrupt handler - interrupt num: '', r_int_no r), (bytes '' and err code: '', r_err_code r), (bytes '' gs: '', r_gs r),
      (bytes '' ds: '', r_ds r), (bytes '' cs: '', r_cs r), (bytes '' eax: '', r_eax r), (bytes '' ebp: '', r_ebp r),
      (bytes '' esp: '', r_esp r), (bytes '' ebp - esp: '', r_ebp r - r_esp r), (bytes '', eip: '', r_eip r)]"

lemma interrupt_format_pieces: "interrupt_format = pieces (interrupt_pieces r) [0x0A] @ [0]"
  by (simp add: interrupt_format_def interrupt_pieces_def bytes_def of_char_def)

text \<open>
  The handler of software interrupts types one line with the register values of the interrupted code, in decimal and
  in the order of the format, changes nothing else on the screen and returns, whatever the registers hold.
\<close>

theorem interrupt_handler_reports:
  assumes "con_inv c"
  shows "\<exists>c'. interrupt_handler stk strs r c = Inr c' \<and> wrote c (bytes ''INFO '' @ filled (interrupt_pieces r) [0x0A]) c'"
proof -
  have ok: "\<forall>(t, v) \<in> set (interrupt_pieces r). plain t" "plain [0x0A]"
    by (simp_all add: interrupt_pieces_def plain_def bytes_def of_char_def)
  have a: "[r_int_no r, r_err_code r, r_gs r, r_ds r, r_cs r, r_eax r, r_ebp r, r_esp r, r_ebp r - r_esp r, r_eip r] = map snd (interrupt_pieces r)"
    by (simp add: interrupt_pieces_def)
  from kprintf_pieces [OF assms ok, of stk strs INFO True] show ?thesis
    by (auto simp: interrupt_handler_def a klog_def level_name_def interrupt_format_pieces [of r])
qed

theorem interrupt_handler_reports_witness:
  "\<exists>c'. con_inv console0 \<and>
     interrupt_handler (\<lambda>_. 0) (\<lambda>_. []) \<lparr>r_gs = 16, r_fs = 16, r_es = 16, r_ds = 16, r_edi = 0, r_esi = 0, r_ebp = 64, r_esp = 32, r_ebx = 0,
       r_edx = 0, r_ecx = 0, r_eax = 28, r_int_no = 28, r_err_code = 0, r_eip = 4096, r_cs = 8, r_eflags = 0, r_useresp = 0, r_ss = 0\<rparr> console0 = Inr c' \<and>
     con_inv c'"
  using interrupt_handler_reports [OF console0_inv] console0_inv by (fastforce simp: wrote_def)

section \<open>Two functions of the start\<close>

text \<open>
  \<^verbatim>\<open>dummy\<close> and \<^verbatim>\<open>__cxa_pure_virtual\<close> of \<^verbatim>\<open>arch/i386/init.cpp\<close>. \<open>a\<close> is the address of the local array, \<open>buff0\<close> what it held before; the second
  function never returns.
\<close>

definition dummy :: "(nat \<Rightarrow> u8) \<Rightarrow> (addr \<Rightarrow> u8 list) \<Rightarrow> addr \<Rightarrow> u8 list \<Rightarrow> console \<Rightarrow> console result" where
  "dummy stk strs a buff0 c =
     rbind (strcpy buff0 (bytes ''Things still work!'' @ [0])) (\<lambda>buff.
     rbind (klog stk (strs(a := buff)) INFO (bytes ''Message: %s'' @ [0x0A, 0]) [a] c) (\<lambda>(c', _). Inr c'))"

definition cxa_pure_virtual :: "(nat \<Rightarrow> u8) \<Rightarrow> (addr \<Rightarrow> u8 list) \<Rightarrow> console \<Rightarrow> console result" where
  "cxa_pure_virtual stk strs c =
     rbind (klog stk strs FATAL (bytes ''__cxa_pure_virtual() has been called!! Fatal error! Looping forever...'' @ [0x0A, 0]) [] c) (\<lambda>_. Inl Hang)"

lemma next_arg_string:
  assumes "0x25 \<notin> set t"
  shows "next_arg (t @ 0x25 # 0x73 # r) = (t, Some (STRING, r))"
  using assms
proof (induction t)
  case Nil
  show ?case by (simp add: isspace_def)
next
  case (Cons p t)
  then have "directive (p # t @ 0x25 # 0x73 # r) = None" by (cases t) auto
  with Cons show ?case by simp
qed

lemma dummy_types:
  assumes c: "con_inv c" and b: "length buff0 = 256"
  shows "\<exists>c'. dummy stk strs a buff0 c = Inr c' \<and> wrote c (bytes ''INFO Message: Things still work!'' @ [0x0A]) c'"
proof -
  let ?t = "bytes ''Things still work!''" and ?m = "bytes ''Message: ''"
  let ?b = "?t @ 0 # drop 19 buff0"
  have t: "0 \<notin> set ?t" "length ?t = 18" "0x25 \<notin> set ?m" "0 \<notin> set ?m" by (simp_all add: bytes_def of_char_def)
  have s: "strcpy buff0 (?t @ [0]) = Inr ?b" using strcpy_ok [of "?t @ [0]" buff0] t b by (simp add: terminated_def)
  have "arg_text (strs(a := ?b)) STRING a = Some ?t" using t by (simp add: arg_text_def terminated_def)
  then have "render (strs(a := ?b)) (?m @ 0x25 # 0x73 # [0x0A]) [a] cur = Some (?m @ ?t @ [0x0A])" for cur
    using t(3) by (subst render.simps) (simp add: next_arg_string render_plain)
  moreover have f: "bytes ''Message: %s'' @ [0x0A, 0] = (?m @ 0x25 # 0x73 # [0x0A]) @ 0 # []" by (simp add: bytes_def of_char_def)
  moreover have z: "0 \<notin> set (?m @ 0x25 # 0x73 # [0x0A])" using t(4) by simp
  moreover have "terminated ((?m @ 0x25 # 0x73 # [0x0A]) @ 0 # [])" by (simp add: terminated_def)
  moreover have o: "bytes ''INFO Message: Things still work!'' = bytes ''INFO '' @ ?m @ ?t" by (simp add: bytes_def)
  ultimately show ?thesis using kprintf_level_ok [OF c, where f = "(?m @ 0x25 # 0x73 # [0x0A]) @ 0 # []" and strs = "strs(a := ?b)" and args = "[a]"
      and stk = stk and app = True and lev = INFO]
    unfolding cstr_append [OF z] dummy_def s rbind_simps klog_def f o by (auto simp: level_name_def)
qed

lemma cxa_pure_virtual_hangs:
  assumes "con_inv c"
  shows "cxa_pure_virtual stk strs c = Inl Hang"
proof -
  let ?m = "bytes ''__cxa_pure_virtual() has been called!! Fatal error! Looping forever...'' @ [0x0A]"
  have "0 \<notin> set ?m" "0x25 \<notin> set ?m" by (simp_all add: bytes_def of_char_def)
  from klog_plain [OF assms this, of stk strs FATAL] show ?thesis by (auto simp: cxa_pure_virtual_def)
qed

end
