(* ===== verification/Boot.thy ===== *)
theory Boot
  imports Kprintf Interrupts Paging_Spec Process_Spec
begin

unbundle bit_operations_syntax

text \<open>
  The machine as a whole: the start of the kernel (\<^verbatim>\<open>init\<close> of \<^verbatim>\<open>src/src/kernel/kernel/kernel.cpp\<close>, \<^verbatim>\<open>arch/i386/init.cpp\<close>,
  \<^verbatim>\<open>memory::init\<close>, \<^verbatim>\<open>processes::init\<close>, \<^verbatim>\<open>scheduler::init\<close>) and the hardware interrupts it serves afterwards. The
  state puts the states of the components side by side; addresses the linker chooses, the content of
  uninitialised memory and the address of the running code are the environment.
\<close>

section \<open>The machine\<close>

datatype irq_fn = TimerIrq | KeyboardIrq
datatype observer = SchedulerObserver

record machine =
  m_con :: console
  m_desc :: desc
  m_irq :: "irq_fn option list"
  m_timer :: "observer timer"
  timer_ticks :: u64
  m_paging :: paging
  m_kernel :: kernel

record env =
  e_gdt :: u32
  e_idt :: u32
  e_isr0 :: u32
  e_irq :: "nat \<Rightarrow> u32"
  e_bpt :: addr
  e_kpt :: addr
  e_userret :: addr
  e_nullproc :: addr
  e_stk :: "nat \<Rightarrow> u8"
  e_entry :: idt_entry
  e_strs :: "addr \<Rightarrow> u8 list"
  e_junk :: junk
  e_cnt0 :: int

definition log_msg :: "env \<Rightarrow> string \<Rightarrow> u32 list \<Rightarrow> machine \<Rightarrow> machine result" where
  "log_msg e msg args m = rbind (klog (e_stk e) (e_strs e) INFO (bytes msg @ [0x0A, 0]) args (m_con m)) (\<lambda>(c, _). Inr (m\<lparr>m_con := c\<rparr>))"

section \<open>Initialisation\<close>

definition keyboard_install :: "irq_fn option list \<Rightarrow> irq_fn option list result" where
  "keyboard_install routines = irq_install_handler 1 KeyboardIrq routines"

definition setup_irq_handlers :: "machine \<Rightarrow> machine result" where
  "setup_irq_handlers m =
     rbind (timer_install TimerIrq (m_timer m) (m_irq m)) (\<lambda>(t, rs).
     rbind (keyboard_install rs) (\<lambda>rs'. Inr (m\<lparr>m_timer := t, m_irq := rs'\<rparr>)))"

text \<open>\<^verbatim>\<open>irq_remap\<close> ends with both interrupt masks at 0; \<^verbatim>\<open>sti\<close> sets the interrupt flag.\<close>

definition setup_irq :: "env \<Rightarrow> machine \<Rightarrow> machine result" where
  "setup_irq e m =
     rbind (irq_install (e_entry e) (e_irq e) (m_con m) (m_desc m)) (\<lambda>(c, d).
     let m1 = m\<lparr>m_con := c, m_desc := d, m_kernel := (m_kernel m)\<lparr>k_intr := (k_intr (m_kernel m))\<lparr>imr := 0\<rparr>\<rparr>\<rparr>
     in rbind (log_msg e ''IRQ has been installed.'' [] m1) (\<lambda>m2.
        rbind (setup_irq_handlers m2) (\<lambda>m3.
        Inr (m3\<lparr>m_kernel := (m_kernel m3)\<lparr>k_intr := (k_intr (m_kernel m3))\<lparr>iflag := True\<rparr>\<rparr>\<rparr>))))"

definition setup_idt :: "env \<Rightarrow> machine \<Rightarrow> machine result" where
  "setup_idt e m =
     rbind (log_msg e ''IDT has been installed.'' [] (m\<lparr>m_desc := idt_install (e_idt e) (m_desc m)\<rparr>)) (\<lambda>m1.
     rbind (create_idt_entry (e_entry e) 0x80 (e_isr0 e) 0x0008 0x8E (m_desc m1)) (\<lambda>d. Inr (m1\<lparr>m_desc := d\<rparr>)))"

definition start_paging :: "env \<Rightarrow> machine \<Rightarrow> machine result" where
  "start_paging e m =
     rbind (log_msg e ''Initializing paging.'' [] m) (\<lambda>m1.
     log_msg e ''Paging has been initialized.'' [] (m1\<lparr>m_paging := paging_init (e_bpt e) (e_kpt e) (m_paging m1)\<rparr>))"

definition arch_specific_init :: "env \<Rightarrow> machine \<Rightarrow> machine result" where
  "arch_specific_init e m =
     rbind (gdt_install (e_gdt e) (m_desc m)) (\<lambda>d.
     rbind (log_msg e ''GDT has been installed.'' [] (m\<lparr>m_desc := d\<rparr>)) (\<lambda>m1.
     rbind (setup_idt e m1) (\<lambda>m2.
     rbind (setup_irq e m2) (start_paging e))))"

text \<open>\<^verbatim>\<open>memory::init\<close> with \<^verbatim>\<open>Heap::init\<close>: the heap takes its block from the page allocator.\<close>

definition start_memory :: "machine \<Rightarrow> machine result" where
  "start_memory m =
     rbind (alloc_pages (m_paging m) NUM_PAGES_HEAP) (\<lambda>(p, a).
     Inr (m\<lparr>m_paging := p, m_kernel := (m_kernel m)\<lparr>k_heap := memory_init (k_heap (m_kernel m)) a\<rparr>\<rparr>))"

text \<open>The messages do not touch the state of the processes; the ones of the constructor are typed first here.\<close>

definition start_processes :: "env \<Rightarrow> machine \<Rightarrow> machine result" where
  "start_processes e m =
     rbind (log_msg e ''Inside ProcEntryTable ctor'' [] m) (\<lambda>m1.
     rbind (log_msg e ''ProcEntryTable has been constructed.'' [] m1) (\<lambda>m2.
     rbind (processes_init (e_junk e) (e_cnt0 e) (e_userret e) (e_nullproc e) (m_kernel m2)) (\<lambda>k.
     log_msg e ''Main thread pid: %d'' [1] (m2\<lparr>m_kernel := k\<rparr>))))"

definition scheduler_init :: "machine \<Rightarrow> machine result" where
  "scheduler_init m = rbind (registerObserver SchedulerObserver (m_timer m)) (\<lambda>(t, _). Inr (m\<lparr>m_timer := t\<rparr>))"

definition kernel_init :: "env \<Rightarrow> machine \<Rightarrow> machine result" where
  "kernel_init e m =
     rbind (terminal_initialize (m_con m)) (\<lambda>c.
     rbind (log_msg e ''Terminal has been initialized.'' [] (m\<lparr>m_con := c\<rparr>)) (\<lambda>m1.
     rbind (arch_specific_init e m1) (\<lambda>m2.
     rbind (start_memory m2) (\<lambda>m3.
     rbind (log_msg e ''Heap has been initialized.'' [] m3) (\<lambda>m4.
     rbind (start_processes e m4) (\<lambda>m5.
     rbind (log_msg e ''Processes has been initialized.'' [] m5) (\<lambda>m6.
     rbind (scheduler_init m6) (log_msg e ''Scheduler has been initialized.'' []))))))))"

section \<open>Serving an interrupt\<close>

text \<open>
  What a call of \<^verbatim>\<open>resched\<close> writes to the controllers' mask ports: \<^verbatim>\<open>disable\<close> masks everything, \<^verbatim>\<open>restore\<close> writes the two halves of the
  mask \<open>i\<close>. A call into the process management writes them if it has called \<^verbatim>\<open>resched\<close>, and once then.
\<close>

definition mask_writes :: "intr \<Rightarrow> (u16 \<times> u8) list" where
  "mask_writes i = [(0xA1, 0xff), (0x21, 0xff), (0x21, ucast (imr i)), (0xA1, ucast (drop_bit 8 (imr i)))]"

definition after_call :: "kernel \<Rightarrow> machine \<Rightarrow> machine" where
  "after_call k m = m\<lparr>m_kernel := k, m_con := (m_con m)\<lparr>c_out := c_out (m_con m) @
     (if resched_counter k = resched_counter (m_kernel m) then [] else mask_writes (k_intr k))\<rparr>\<rparr>"

text \<open>\<open>sp\<close> is the stack pointer of the interrupted thread, which a context switch saves.\<close>

definition call_observer :: "env \<Rightarrow> addr \<Rightarrow> observer \<Rightarrow> machine \<Rightarrow> machine result" where
  "call_observer e sp ob m = (case ob of SchedulerObserver \<Rightarrow> rbind (timerObserver (e_junk e) sp (m_kernel m)) (\<lambda>k. Inr (after_call k m)))"

definition call_irq :: "env \<Rightarrow> addr \<Rightarrow> irq_fn \<Rightarrow> u32 \<Rightarrow> machine \<Rightarrow> machine result" where
  "call_irq e sp f n m =
     (case f of
        TimerIrq \<Rightarrow> timer_irq_handler (\<lambda>m. m\<lparr>timer_ticks := timer_ticks m + 1\<rparr>) (call_observer e sp) m_timer m
      | KeyboardIrq \<Rightarrow> rbind (keyboard_irq_handler (m_con m)) (\<lambda>c. Inr (m\<lparr>m_con := c\<rparr>)))"

definition out_m :: "u16 \<Rightarrow> u8 \<Rightarrow> machine \<Rightarrow> machine" where
  "out_m port v m = m\<lparr>m_con := outb port v (m_con m)\<rparr>"

definition serve_irq :: "env \<Rightarrow> addr \<Rightarrow> u32 \<Rightarrow> machine \<Rightarrow> machine result" where
  "serve_irq e sp n m = irq_handler (call_irq e sp) out_m (m_irq m) n m"

section \<open>Logging during the start\<close>

lemma log_plain:
  assumes "con_inv (m_con m)" "0 \<notin> set (bytes msg)" "0x25 \<notin> set (bytes msg)"
  shows "\<exists>c. log_msg e msg [] m = Inr (m\<lparr>m_con := c\<rparr>) \<and> con_inv c"
proof -
  have "0 \<notin> set (bytes msg @ [0x0A])" "0x25 \<notin> set (bytes msg @ [0x0A])" using assms by auto
  from klog_plain [OF assms(1) this, of "e_stk e" "e_strs e" INFO] show ?thesis by (auto simp: log_msg_def wrote_def)
qed

lemmas bytes_plain = bytes_def of_char_def

lemma log_pid:
  assumes "con_inv (m_con m)"
  shows "\<exists>c. log_msg e ''Main thread pid: %d'' [1] m = Inr (m\<lparr>m_con := c\<rparr>) \<and> con_inv c"
proof -
  let ?f = "bytes ''Main thread pid: %d'' @ [0x0A, 0]"
  have t: "terminated ?f" by (simp add: terminated_def)
  have c: "cstr ?f = bytes ''Main thread pid: %d'' @ [0x0A]"
    using cstr_append [of "bytes ''Main thread pid: %d'' @ [0x0A]" "[]"] by (simp add: bytes_plain)
  have r: "render (e_strs e) (bytes ''Main thread pid: %d'' @ [0x0A]) [1] (first_cur (e_stk e) True) = Some (bytes ''Main thread pid: 1'' @ [0x0A])"
    by (simp add: render.simps bytes_plain isspace_def arg_text_def digits_step)
  have "\<exists>c'. klog (e_stk e) (e_strs e) INFO ?f [1] (m_con m) = Inr (c', length (level_name INFO @ bytes ''Main thread pid: 1'' @ [0x0A])) \<and> con_inv c'"
    using kprintf_level_ok [OF assms t, where strs = "e_strs e" and args = "[1]" and stk = "e_stk e" and app = True and lev = INFO]
    unfolding c r klog_def wrote_def by auto
  then show ?thesis by (auto simp: log_msg_def)
qed

section \<open>The steps of the start\<close>

lemma terminal_initialize_ok:
  assumes "length (terminal_buffer c) = 2000"
  shows "\<exists>c'. terminal_initialize c = Inr c' \<and> con_inv c' \<and> c_out c' = c_out c"
proof -
  have "cells 0 VGA_HEIGHT = [0..<2000]" using cells_eq [of 0 25] by (simp add: VGA_HEIGHT_def del: upt_rec_numeral)
  then show ?thesis
    using fill_cells_upt [of 0 2000 "terminal_buffer c"] assms
    by (simp add: terminal_initialize_def Let_def con_inv_def del: upt_rec_numeral)
qed

lemma setup_idt_ok:
  assumes "con_inv (m_con m)" "length (idt (m_desc m)) = 256"
  shows "\<exists>c d. setup_idt e m = Inr (m\<lparr>m_con := c, m_desc := d\<rparr>) \<and> con_inv c \<and> length (idt d) = 256 \<and>
    gate_of d 0x80 = Some (0x08, e_isr0 e) \<and> gdt d = gdt (m_desc m) \<and> cpu_gdtr d = cpu_gdtr (m_desc m) \<and>
    cpu_idtr d = \<lparr>dtr_limit = 2047, dtr_base = e_idt e\<rparr>"
proof -
  let ?d = "idt_install (e_idt e) (m_desc m)"
  have d: "length (idt ?d) = 256" "gdt ?d = gdt (m_desc m)" "cpu_gdtr ?d = cpu_gdtr (m_desc m)" "cpu_idtr ?d = \<lparr>dtr_limit = 2047, dtr_base = e_idt e\<rparr>"
    using assms(2) by (simp_all add: idt_install_def load_idt_def)
  obtain c where c: "log_msg e ''IDT has been installed.'' [] (m\<lparr>m_desc := ?d\<rparr>) = Inr (m\<lparr>m_desc := ?d, m_con := c\<rparr>)" "con_inv c"
    using log_plain [of "m\<lparr>m_desc := ?d\<rparr>" "''IDT has been installed.''" e] assms(1) by (auto simp: bytes_plain)
  have "0x80 < length (idt ?d)" using d(1) by simp
  from create_idt_entry_ok [OF this, of "e_entry e" "e_isr0 e" "0x0008" "0x8E"] d obtain d' where
    d': "create_idt_entry (e_entry e) 0x80 (e_isr0 e) 0x0008 0x8E ?d = Inr d'" "length (idt d') = 256"
      "gate_of d' 0x80 = Some (0x08, e_isr0 e)" "gdt d' = gdt (m_desc m)" "cpu_gdtr d' = cpu_gdtr (m_desc m)"
      "cpu_idtr d' = \<lparr>dtr_limit = 2047, dtr_base = e_idt e\<rparr>" by auto
  have "setup_idt e m = Inr (m\<lparr>m_con := c, m_desc := d'\<rparr>)" using c(1) d'(1) by (simp add: setup_idt_def)
  with c(2) d' show ?thesis by blast
qed

lemma setup_irq_handlers_ok:
  assumes "length (m_irq m) = 16"
  shows "setup_irq_handlers m = Inr (m\<lparr>m_timer := (m_timer m)\<lparr>t_observerCount := 0\<rparr>, m_irq := (m_irq m)[0 := Some TimerIrq, 1 := Some KeyboardIrq]\<rparr>)"
  using assms by (simp add: setup_irq_handlers_def timer_install_def keyboard_install_def irq_install_handler_def wr_def)

lemma setup_irq_ok:
  assumes "con_inv (m_con m)" "length (idt (m_desc m)) = 256" "length (m_irq m) = 16"
  shows "\<exists>c d. setup_irq e m = Inr (m\<lparr>m_con := c, m_desc := d, m_timer := (m_timer m)\<lparr>t_observerCount := 0\<rparr>,
      m_irq := (m_irq m)[0 := Some TimerIrq, 1 := Some KeyboardIrq], m_kernel := (m_kernel m)\<lparr>k_intr := \<lparr>imr = 0, iflag = True\<rparr>\<rparr>\<rparr>) \<and>
    con_inv c \<and> (\<forall>i < 16. gate_of d (32 + i) = Some (0x08, e_irq e i)) \<and> gate_of d 0x80 = gate_of (m_desc m) 0x80 \<and>
    gdt d = gdt (m_desc m) \<and> cpu_gdtr d = cpu_gdtr (m_desc m) \<and> cpu_idtr d = cpu_idtr (m_desc m)"
proof -
  have "\<forall>i \<in> set [0..<16]. i < 16" "distinct [0..<16]" by (simp_all del: upt_rec_numeral)
  from install_gates_ok [OF assms(2) this, of "e_entry e" "e_irq e"] obtain d where
    d: "install_gates (e_entry e) (e_irq e) [0..<16] (m_desc m) = Inr d" "\<forall>i \<in> set [0..<16]. gate_of d (32 + i) = Some (0x08, e_irq e i)"
      "\<forall>v. v \<notin> (+) 32 ` set [0..<16] \<longrightarrow> gate_of d v = gate_of (m_desc m) v"
      "gdt d = gdt (m_desc m)" "cpu_gdtr d = cpu_gdtr (m_desc m)" "cpu_idtr d = cpu_idtr (m_desc m)" by blast
  have g80: "gate_of d 0x80 = gate_of (m_desc m) 0x80" using d(3) by (auto simp del: upt_rec_numeral)
  let ?m = "m\<lparr>m_con := irq_remap (m_con m), m_desc := d, m_kernel := (m_kernel m)\<lparr>k_intr := (k_intr (m_kernel m))\<lparr>imr := 0\<rparr>\<rparr>\<rparr>"
  have "con_inv (m_con ?m)" using assms(1) by (simp add: irq_remap_out con_inv_def)
  from log_plain [OF this, of "''IRQ has been installed.''" e] obtain c where
    c: "log_msg e ''IRQ has been installed.'' [] ?m = Inr (?m\<lparr>m_con := c\<rparr>)" "con_inv c" by (auto simp: bytes_plain)
  have i: "irq_install (e_entry e) (e_irq e) (m_con m) (m_desc m) = Inr (irq_remap (m_con m), d)"
    using d(1) by (simp add: irq_install_def del: upt_rec_numeral)
  have "setup_irq e m = Inr (m\<lparr>m_con := c, m_desc := d, m_timer := (m_timer m)\<lparr>t_observerCount := 0\<rparr>,
      m_irq := (m_irq m)[0 := Some TimerIrq, 1 := Some KeyboardIrq], m_kernel := (m_kernel m)\<lparr>k_intr := \<lparr>imr = 0, iflag = True\<rparr>\<rparr>\<rparr>)"
    using c(1) assms(3) unfolding setup_irq_def i by (simp add: setup_irq_handlers_ok)
  moreover have "\<forall>i < 16. gate_of d (32 + i) = Some (0x08, e_irq e i)" using d(2) by (simp del: upt_rec_numeral)
  ultimately show ?thesis using c(2) d(4-6) g80 by blast
qed

lemma start_paging_ok:
  assumes "con_inv (m_con m)"
  shows "\<exists>c. start_paging e m = Inr (m\<lparr>m_con := c, m_paging := paging_init (e_bpt e) (e_kpt e) (m_paging m)\<rparr>) \<and> con_inv c"
proof -
  obtain c1 where c1: "log_msg e ''Initializing paging.'' [] m = Inr (m\<lparr>m_con := c1\<rparr>)" "con_inv c1"
    using log_plain [OF assms, of "''Initializing paging.''" e] by (auto simp: bytes_plain)
  let ?m = "m\<lparr>m_con := c1, m_paging := paging_init (e_bpt e) (e_kpt e) (m_paging m)\<rparr>"
  have "con_inv (m_con ?m)" using c1(2) by simp
  from log_plain [OF this, of "''Paging has been initialized.''" e] obtain c2 where
    c2: "log_msg e ''Paging has been initialized.'' [] ?m = Inr (?m\<lparr>m_con := c2\<rparr>)" "con_inv c2" by (auto simp: bytes_plain)
  have "start_paging e m = Inr (?m\<lparr>m_con := c2\<rparr>)" using c1(1) c2(1) by (simp add: start_paging_def)
  then show ?thesis using c2(2) by (intro exI [of _ c2]) simp
qed

lemma start_memory_ok:
  assumes "m_paging m = paging_init bpt kpt st"
  shows "\<exists>p h. start_memory m = Inr (m\<lparr>m_paging := p, m_kernel := (m_kernel m)\<lparr>k_heap := h\<rparr>\<rparr>) \<and>
    h = memory_init (k_heap (m_kernel m)) 0xC2000000 \<and> heap_rel h [(2 ^ 28 - 16, False)]"
proof -
  have n: "unat NUM_PAGES_HEAP = 65536" by (simp add: NUM_PAGES_HEAP_def)
  have r: "first_run (pdi (m_paging m)) (unat NUM_PAGES_HEAP) base_page"
    unfolding assms n by (rule fresh_first_run) (simp_all add: base_page_def num_pages_def FIRST_PDE_def)
  obtain p where p: "alloc_pages (m_paging m) NUM_PAGES_HEAP = Inr (p, 0xC2000000)"
    using alloc_pages_first_run [OF _ r] skips_ok_nonfull [OF paging_init_fresh(2) [of bpt kpt st]] n
    by (auto simp: assms base_page_def FIRST_PDE_def)
  have h: "heap_rel (memory_init b 0xC2000000) [(2 ^ 28 - 16, False)]" for b
    using block_init_rel [of "0xC2000000" "2 ^ 28" b] by (simp add: memory_init_def heap_init_def heap_size)
  with p show ?thesis by (auto simp: start_memory_def)
qed

text \<open>What the self tests rely on: only the first two processes exist, and how much room there is.\<close>

definition fresh_table :: "block \<Rightarrow> kernel \<Rightarrow> bool" where
  "fresh_table h k \<longleftrightarrow> t_taken (k_table k) = True # True # replicate 1022 False \<and> pq_size (ready_queue k) \<le> 5 \<and>
     slack h \<le> slack (k_heap k) + boot_room"

lemma start_processes_ok:
  assumes "con_inv (m_con m)" "heap_rel (k_heap (m_kernel m)) [(N, False)]" "100000 < N" "e_cnt0 e = 0"
  shows "\<exists>c k. start_processes e m = Inr (m\<lparr>m_con := c, m_kernel := k\<rparr>) \<and> con_inv c \<and> proc_inv k \<and> k_curr k = 1 \<and>
    runnable k = {0} \<and> readyCount (k_table k) = 1 \<and> fresh_table (k_heap (m_kernel m)) k"
proof -
  obtain c1 where c1: "log_msg e ''Inside ProcEntryTable ctor'' [] m = Inr (m\<lparr>m_con := c1\<rparr>)" "con_inv c1"
    using log_plain [OF assms(1), of "''Inside ProcEntryTable ctor''" e] by (auto simp: bytes_plain)
  have "con_inv (m_con (m\<lparr>m_con := c1\<rparr>))" using c1(2) by simp
  from log_plain [OF this, of "''ProcEntryTable has been constructed.''" e] obtain c2 where
    c2: "log_msg e ''ProcEntryTable has been constructed.'' [] (m\<lparr>m_con := c1\<rparr>) = Inr (m\<lparr>m_con := c2\<rparr>)" "con_inv c2"
    by (auto simp: bytes_plain)
  from processes_init_inv [OF assms(2,3), of "e_junk e" "e_userret e" "e_nullproc e"] obtain k where
    k: "processes_init (e_junk e) 0 (e_userret e) (e_nullproc e) (m_kernel m) = Inr k" "proc_inv k" "k_curr k = 1" "runnable k = {0}"
      "readyCount (k_table k) = 1" "fresh_table (k_heap (m_kernel m)) k" unfolding fresh_table_def by auto
  have "con_inv (m_con (m\<lparr>m_con := c2, m_kernel := k\<rparr>))" using c2(2) by simp
  from log_pid [OF this, of e] obtain c3 where
    c3: "log_msg e ''Main thread pid: %d'' [1] (m\<lparr>m_con := c2, m_kernel := k\<rparr>) = Inr (m\<lparr>m_con := c2, m_kernel := k, m_con := c3\<rparr>)" "con_inv c3" by blast
  have e: "m\<lparr>m_con := c2, m_kernel := k, m_con := c3\<rparr> = m\<lparr>m_con := c3, m_kernel := k\<rparr>" by simp
  have "start_processes e m = Inr (m\<lparr>m_con := c3, m_kernel := k\<rparr>)"
    using c1(1) c2(1) k(1) c3(1) [unfolded e] assms(4) by (simp add: start_processes_def)
  with c3(2) k show ?thesis by blast
qed

section \<open>The machine after the start\<close>

text \<open>What interrupts rely on, and keep.\<close>

definition machine_inv :: "machine \<Rightarrow> bool" where
  "machine_inv m \<longleftrightarrow> con_inv (m_con m) \<and> proc_inv (m_kernel m) \<and> timer_rep (m_timer m) [SchedulerObserver] \<and>
     m_irq m = (replicate 16 None)[0 := Some TimerIrq, 1 := Some KeyboardIrq]"

text \<open>What the processor is told: flat segments, the gates of the interrupt lines and of the software interrupt.\<close>

definition cpu_ready :: "env \<Rightarrow> desc \<Rightarrow> bool" where
  "cpu_ready e d \<longleftrightarrow> (\<forall>i \<in> {1, 2}. seg_base (gdt d ! i) = 0 \<and> seg_limit (gdt d ! i) = 0xFFFFFFFF) \<and>
     cpu_gdtr d = \<lparr>dtr_limit = 23, dtr_base = e_gdt e\<rparr> \<and> cpu_idtr d = \<lparr>dtr_limit = 2047, dtr_base = e_idt e\<rparr> \<and>
     (\<forall>i < 16. gate_of d (32 + i) = Some (0x08, e_irq e i)) \<and> gate_of d 0x80 = Some (0x08, e_isr0 e)"

text \<open>The machine as the boot loader leaves it: the kernel's objects have their initial values.\<close>

definition loaded :: "env \<Rightarrow> machine \<Rightarrow> bool" where
  "loaded e m \<longleftrightarrow> length (terminal_buffer (m_con m)) = 2000 \<and> length (gdt (m_desc m)) = 3 \<and> length (idt (m_desc m)) = 256 \<and>
     m_irq m = replicate 16 None \<and> m_timer m = Timer_new \<and> e_cnt0 e = 0"

lemma arch_specific_init_ok:
  assumes "con_inv (m_con m)" "length (gdt (m_desc m)) = 3" "length (idt (m_desc m)) = 256" "m_irq m = replicate 16 None" "m_timer m = Timer_new"
  shows "\<exists>c d. arch_specific_init e m = Inr (m\<lparr>m_con := c, m_desc := d, m_irq := (replicate 16 None)[0 := Some TimerIrq, 1 := Some KeyboardIrq],
      m_kernel := (m_kernel m)\<lparr>k_intr := \<lparr>imr = 0, iflag = True\<rparr>\<rparr>, m_paging := paging_init (e_bpt e) (e_kpt e) (m_paging m)\<rparr>) \<and>
    con_inv c \<and> cpu_ready e d"
proof -
  from gdt_install_flat [OF assms(2), of "e_gdt e"] assms(3) obtain d where d: "gdt_install (e_gdt e) (m_desc m) = Inr d"
    "\<forall>i \<in> {1, 2}. seg_base (gdt d ! i) = 0 \<and> seg_limit (gdt d ! i) = 0xFFFFFFFF" "cpu_gdtr d = \<lparr>dtr_limit = 23, dtr_base = e_gdt e\<rparr>"
    "length (idt d) = 256" by auto
  let ?m1 = "m\<lparr>m_desc := d\<rparr>"
  have "con_inv (m_con ?m1)" using assms(1) by simp
  from log_plain [OF this, of "''GDT has been installed.''" e] obtain c1 where
    c1: "log_msg e ''GDT has been installed.'' [] ?m1 = Inr (?m1\<lparr>m_con := c1\<rparr>)" "con_inv c1" by (auto simp: bytes_plain)
  from setup_idt_ok [of "?m1\<lparr>m_con := c1\<rparr>" e] c1(2) d(4) obtain c2 d2 where
    d2: "setup_idt e (?m1\<lparr>m_con := c1\<rparr>) = Inr (m\<lparr>m_con := c2, m_desc := d2\<rparr>)" "con_inv c2" "length (idt d2) = 256"
      "gate_of d2 0x80 = Some (0x08, e_isr0 e)" "gdt d2 = gdt d" "cpu_gdtr d2 = cpu_gdtr d" "cpu_idtr d2 = \<lparr>dtr_limit = 2047, dtr_base = e_idt e\<rparr>" by auto
  let ?m2 = "m\<lparr>m_con := c2, m_desc := d2\<rparr>"
  have t: "Timer_new\<lparr>t_observerCount := 0\<rparr> = (Timer_new :: observer timer)" by (simp add: Timer_new_def)
  from setup_irq_ok [of ?m2 e] d2 assms(4,5) obtain c3 d3 where
    d3: "setup_irq e ?m2 = Inr (?m2\<lparr>m_con := c3, m_desc := d3, m_timer := Timer_new,
      m_irq := (replicate 16 None)[0 := Some TimerIrq, 1 := Some KeyboardIrq], m_kernel := (m_kernel m)\<lparr>k_intr := \<lparr>imr = 0, iflag = True\<rparr>\<rparr>\<rparr>)"
      "con_inv c3" "\<forall>i < 16. gate_of d3 (32 + i) = Some (0x08, e_irq e i)" "gate_of d3 0x80 = gate_of d2 0x80"
      "gdt d3 = gdt d2" "cpu_gdtr d3 = cpu_gdtr d2" "cpu_idtr d3 = cpu_idtr d2" by (auto simp: t)
  let ?m3 = "?m2\<lparr>m_con := c3, m_desc := d3, m_timer := Timer_new,
      m_irq := (replicate 16 None)[0 := Some TimerIrq, 1 := Some KeyboardIrq], m_kernel := (m_kernel m)\<lparr>k_intr := \<lparr>imr = 0, iflag = True\<rparr>\<rparr>\<rparr>"
  have "con_inv (m_con ?m3)" using d3(2) by simp
  from start_paging_ok [OF this, of e] obtain c4 where
    c4: "start_paging e ?m3 = Inr (?m3\<lparr>m_con := c4, m_paging := paging_init (e_bpt e) (e_kpt e) (m_paging m)\<rparr>)" "con_inv c4" by auto
  have "m\<lparr>m_timer := Timer_new\<rparr> = m" using assms(5) by simp
  then have e: "?m3\<lparr>m_con := c4, m_paging := paging_init (e_bpt e) (e_kpt e) (m_paging m)\<rparr> =
      m\<lparr>m_con := c4, m_desc := d3, m_irq := (replicate 16 None)[0 := Some TimerIrq, 1 := Some KeyboardIrq],
        m_kernel := (m_kernel m)\<lparr>k_intr := \<lparr>imr = 0, iflag = True\<rparr>\<rparr>, m_paging := paging_init (e_bpt e) (e_kpt e) (m_paging m)\<rparr>"
    by (cases m) simp
  have "arch_specific_init e m = start_paging e ?m3"
    unfolding arch_specific_init_def d(1) rbind_simps c1(1) d2(1) d3(1) ..
  moreover have "cpu_ready e d3" using d d2 d3 by (simp add: cpu_ready_def)
  ultimately show ?thesis using c4 [unfolded e] by (intro exI [of _ c4] exI [of _ d3] conjI) (rule trans, assumption+)
qed

lemma kernel_init_ok:
  assumes "loaded e m"
  shows "\<exists>m'. kernel_init e m = Inr m' \<and> machine_inv m' \<and> cpu_ready e (m_desc m') \<and> k_curr (m_kernel m') = 1 \<and>
    runnable (m_kernel m') = {0} \<and> readyCount (k_table (m_kernel m')) = 1 \<and> timer_ticks m' = timer_ticks m \<and>
    (\<exists>h. slack h = 2 ^ 28 - 16 \<and> fresh_table h (m_kernel m'))"
proof -
  from terminal_initialize_ok assms obtain c0 where c0: "terminal_initialize (m_con m) = Inr c0" "con_inv c0" by (auto simp: loaded_def)
  from log_plain [of "m\<lparr>m_con := c0\<rparr>" "''Terminal has been initialized.''" e] c0(2) obtain c1 where
    c1: "log_msg e ''Terminal has been initialized.'' [] (m\<lparr>m_con := c0\<rparr>) = Inr (m\<lparr>m_con := c1\<rparr>)" "con_inv c1" by (auto simp: bytes_plain)
  from arch_specific_init_ok [of "m\<lparr>m_con := c1\<rparr>" e] c1(2) assms obtain m2 where
    m2: "arch_specific_init e (m\<lparr>m_con := c1\<rparr>) = Inr m2" "con_inv (m_con m2)" "cpu_ready e (m_desc m2)" "m_timer m2 = Timer_new"
      "m_irq m2 = (replicate 16 None)[0 := Some TimerIrq, 1 := Some KeyboardIrq]"
      "m_paging m2 = paging_init (e_bpt e) (e_kpt e) (m_paging m)" "timer_ticks m2 = timer_ticks m" by (auto simp: loaded_def)
  from start_memory_ok [OF m2(6)] obtain p h where
    m3: "start_memory m2 = Inr (m2\<lparr>m_paging := p, m_kernel := (m_kernel m2)\<lparr>k_heap := h\<rparr>\<rparr>)" "heap_rel h [(2 ^ 28 - 16, False)]" by blast
  have sl: "slack h = 2 ^ 28 - 16" using slack_rel [OF m3(2)] by (simp add: slack_of_def)
  let ?m3 = "m2\<lparr>m_paging := p, m_kernel := (m_kernel m2)\<lparr>k_heap := h\<rparr>\<rparr>"
  from log_plain [of ?m3 "''Heap has been initialized.''" e] m2(2) obtain c4 where
    c4: "log_msg e ''Heap has been initialized.'' [] ?m3 = Inr (?m3\<lparr>m_con := c4\<rparr>)" "con_inv c4" by (auto simp: bytes_plain)
  from start_processes_ok [of "?m3\<lparr>m_con := c4\<rparr>" "2 ^ 28 - 16" e] c4(2) m3(2) assms obtain c5 k where
    c5: "start_processes e (?m3\<lparr>m_con := c4\<rparr>) = Inr (?m3\<lparr>m_con := c4, m_con := c5, m_kernel := k\<rparr>)" "con_inv c5" "proc_inv k" "k_curr k = 1"
      "runnable k = {0}" "readyCount (k_table k) = 1" "fresh_table h k" by (auto simp: loaded_def)
  let ?m5 = "?m3\<lparr>m_con := c4, m_con := c5, m_kernel := k\<rparr>"
  have "con_inv (m_con ?m5)" using c5(2) by simp
  from log_plain [OF this, of "''Processes has been initialized.''" e] obtain c6 where
    c6: "log_msg e ''Processes has been initialized.'' [] ?m5 = Inr (?m5\<lparr>m_con := c6\<rparr>)" "con_inv c6" by (auto simp: bytes_plain)
  from registerObserver_ok [OF timer_rep_new, of SchedulerObserver] obtain t where
    t: "registerObserver SchedulerObserver Timer_new = Inr (t, True)" "timer_rep t [SchedulerObserver]" by auto
  let ?m7 = "?m5\<lparr>m_con := c6, m_timer := t\<rparr>"
  have "con_inv (m_con ?m7)" using c6(2) by simp
  from log_plain [OF this, of "''Scheduler has been initialized.''" e] obtain c8 where
    c8: "log_msg e ''Scheduler has been initialized.'' [] ?m7 = Inr (?m7\<lparr>m_con := c8\<rparr>)" "con_inv c8" by (auto simp: bytes_plain)
  have s: "scheduler_init (?m5\<lparr>m_con := c6\<rparr>) = Inr ?m7" using t(1) m2(4) by (simp add: scheduler_init_def)
  have "kernel_init e m = Inr (?m7\<lparr>m_con := c8\<rparr>)"
    unfolding kernel_init_def c0(1) rbind_simps c1(1) m2(1) m3(1) c4(1) c5(1) c6(1) s by (rule c8(1))
  moreover have "machine_inv (?m7\<lparr>m_con := c8\<rparr>)" using c8(2) c5(3) t(2) m2(5) by (simp add: machine_inv_def)
  ultimately show ?thesis using m2(3,7) c5(4-7) sl by (intro exI [of _ "?m7\<lparr>m_con := c8\<rparr>"]) auto
qed

section \<open>Interrupts after the start\<close>

lemma send_out_m: "send out_m cmds m = m\<lparr>m_con := (m_con m)\<lparr>c_out := c_out (m_con m) @ cmds\<rparr>\<rparr>"
  by (induction cmds arbitrary: m) (auto simp: send_def out_m_def outb_def)

lemma con_inv_out [simp]: "con_inv (c\<lparr>c_out := out\<rparr>) = con_inv c"
  by (simp add: con_inv_def)

lemma timer_irq_handler_eq:
  assumes "timer_rep (m_timer m) [SchedulerObserver]"
  shows "timer_irq_handler (\<lambda>m. m\<lparr>timer_ticks := timer_ticks m + 1\<rparr>) (call_observer e sp) m_timer m =
    call_observer e sp SchedulerObserver (m\<lparr>timer_ticks := timer_ticks m + 1\<rparr>)"
proof -
  let ?m = "m\<lparr>timer_ticks := timer_ticks m + 1\<rparr>"
  have keep: "m_timer s' = m_timer m" if "m_timer s = m_timer m" "call_observer e sp h s = Inr s'" for h s s'
    using that by (cases h) (auto simp: call_observer_def after_call_def rbind_Inr_iff)
  have obs: "t_observers (m_timer m) = map Some [SchedulerObserver] @ replicate 4 None" using assms by (simp add: timer_rep_def)
  have "m_timer ?m = m_timer m" "0 \<le> length [SchedulerObserver] + 4" by simp_all
  from run_observers_rep [where get = m_timer and t = "m_timer m" and call = "call_observer e sp" and s = ?m, OF keep obs this]
  have "run_observers (call_observer e sp) m_timer [0..<TIMER_OBSERVER_MAX] ?m = call_all (call_observer e sp) [SchedulerObserver] ?m"
    by (simp add: TIMER_OBSERVER_MAX_def del: upt_rec_numeral)
  then show ?thesis unfolding timer_irq_handler_def by (simp add: rbind_def split: sum.splits)
qed

lemma call_irq_ok:
  assumes "machine_inv m"
  shows "\<exists>m'. call_irq e sp f n m = Inr m' \<and> machine_inv m' \<and> m_desc m' = m_desc m \<and>
    (case f of TimerIrq \<Rightarrow> timer_ticks m' = timer_ticks m + 1 \<and> timerObserver (e_junk e) sp (m_kernel m) = Inr (m_kernel m') \<and>
                 m_con m' = (m_con m)\<lparr>c_out := c_out (m_con m) @ mask_writes (k_intr (m_kernel m'))\<rparr>
             | KeyboardIrq \<Rightarrow> timer_ticks m' = timer_ticks m \<and> m_kernel m' = m_kernel m \<and> keyboard_irq_handler (m_con m) = Inr (m_con m'))"
proof (cases f)
  case TimerIrq
  from assms have i: "proc_inv (m_kernel m)" "timer_rep (m_timer m) [SchedulerObserver]" by (auto simp: machine_inv_def)
  from timerObserver_inv [OF i(1), of "e_junk e" sp] obtain k where k: "timerObserver (e_junk e) sp (m_kernel m) = Inr k" "proc_inv k" by blast
  have c: "resched_counter k \<noteq> resched_counter (m_kernel m)"
    using k(1) resched_counts [of "e_junk e" sp "(m_kernel m)\<lparr>timerFired := timerFired (m_kernel m) + 1\<rparr>" k] by (simp add: timerObserver_def)
  have "call_irq e sp f n m = Inr (m\<lparr>timer_ticks := timer_ticks m + 1, m_kernel := k,
      m_con := (m_con m)\<lparr>c_out := c_out (m_con m) @ mask_writes (k_intr k)\<rparr>\<rparr>)"
    using k(1) c by (simp add: TimerIrq call_irq_def timer_irq_handler_eq [OF i(2)] call_observer_def after_call_def)
  with k assms show ?thesis by (simp add: TimerIrq machine_inv_def)
next
  case KeyboardIrq
  from assms keyboard_irq_handler_ok [OF _ refl, of "m_con m"] obtain c where "keyboard_irq_handler (m_con m) = Inr c" "con_inv c"
    by (auto simp: machine_inv_def)
  with assms show ?thesis by (simp add: KeyboardIrq call_irq_def machine_inv_def)
qed

interpretation ks: irq_service "call_irq e sp" out_m m_irq "\<lambda>m. machine_inv m \<and> m_desc m = d" for e sp d
proof unfold_locales
  fix m f n assume "machine_inv m \<and> m_desc m = d"
  with call_irq_ok [of m e sp f n] show "\<exists>m'. call_irq e sp f n m = Inr m' \<and> machine_inv m' \<and> m_desc m' = d" by auto
qed (auto simp: machine_inv_def out_m_def outb_def)

lemma serve_irq_ok:
  assumes "machine_inv m" "32 \<le> unat n" "unat n < 48"
  shows "\<exists>m'. serve_irq e sp n m = Inr m' \<and> machine_inv m' \<and> m_desc m' = m_desc m"
  using ks.dispatch_keeps [of m "m_desc m" n e sp] assms by (simp add: serve_irq_def)

section \<open>Every state of the running machine\<close>

text \<open>
  After the start the machine serves interrupts of any of the sixteen lines, threads call into the process
  management, and threads write to the terminal.
\<close>

inductive machine_reach :: "env \<Rightarrow> machine \<Rightarrow> bool" for e where
  boot: "loaded e m0 \<Longrightarrow> kernel_init e m0 = Inr m \<Longrightarrow> machine_reach e m"
| irq: "machine_reach e m \<Longrightarrow> 32 \<le> unat n \<Longrightarrow> unat n < 48 \<Longrightarrow> serve_irq e sp n m = Inr m' \<Longrightarrow> machine_reach e m'"
| thread: "machine_reach e m \<Longrightarrow> proc_step (e_junk e) (e_userret e) (m_kernel m) k \<Longrightarrow> machine_reach e (after_call k m)"
| out: "machine_reach e m \<Longrightarrow> sz \<le> length data \<Longrightarrow> terminal_write data sz (m_con m) = Inr (c, r) \<Longrightarrow> machine_reach e (m\<lparr>m_con := c\<rparr>)"

lemma machine_reach_inv:
  assumes "machine_reach e m"
  shows "machine_inv m \<and> cpu_ready e (m_desc m)"
  using assms
proof (induction rule: machine_reach.induct)
  case (boot m0 m)
  with kernel_init_ok show ?case by fastforce
next
  case (irq m n sp m')
  with serve_irq_ok [of m n e sp] show ?case by auto
next
  case (thread m k)
  with proc_step_inv show ?case by (auto simp: machine_inv_def after_call_def)
next
  case (out m sz data c r)
  with terminal_write_ok [of "m_con m" sz data] show ?case by (auto simp: machine_inv_def)
qed

lemma serve_timer:
  assumes "machine_inv m"
  shows "\<exists>m'. serve_irq e sp 32 m = Inr m' \<and> timer_ticks m' = timer_ticks m + 1 \<and>
    timerObserver (e_junk e) sp (m_kernel m) = Inr (m_kernel m') \<and> c_out (m_con m') = c_out (m_con m) @ (0x20, 0x20) # mask_writes (k_intr (m_kernel m'))"
proof -
  let ?m = "send out_m (acks_before 32) m"
  have len: "length (m_irq m) = 16" and o: "on_line (m_irq m) 32 = Some TimerIrq" and inv: "machine_inv ?m"
    using assms by (simp_all add: machine_inv_def send_out_m on_line_def)
  from call_irq_ok [OF inv, of e sp TimerIrq 32] obtain m' where "call_irq e sp TimerIrq 32 ?m = Inr m'" "timer_ticks m' = timer_ticks ?m + 1"
    "m_con m' = (m_con ?m)\<lparr>c_out := c_out (m_con ?m) @ mask_writes (k_intr (m_kernel m'))\<rparr>" "timerObserver (e_junk e) sp (m_kernel ?m) = Inr (m_kernel m')" by auto
  then show ?thesis using irq_handler_eq [OF len, of 32 "call_irq e sp" out_m m]
    by (simp add: serve_irq_def o acks_after_def send_out_m) (simp add: acks_before_def)
qed

section \<open>A concrete machine\<close>

definition env0 :: env where
  "env0 = \<lparr>e_gdt = 0xC0105000, e_idt = 0xC0106000, e_isr0 = 0xC0101000, e_irq = (\<lambda>i. 0xC0101100 + 16 * word_of_nat i),
     e_bpt = 0xC0108000, e_kpt = 0xC0110000, e_userret = 0xC0102000, e_nullproc = 0xC0103000, e_stk = (\<lambda>_. 0),
     e_entry = null_idt_entry, e_strs = (\<lambda>_. [0]), e_junk = no_kv, e_cnt0 = 0\<rparr>"

definition machine0 :: machine where
  "machine0 = \<lparr>m_con = console0, m_desc = desc0, m_irq = replicate 16 None, m_timer = Timer_new, timer_ticks = 0,
     m_paging = \<lparr>pd_entries = (\<lambda>_. 0), kpts = (\<lambda>_ _. 0), pdi = (\<lambda>_. \<lparr>pt_table = NULL, pt_free = 0, pt_taken = (\<lambda>_. False)\<rparr>)\<rparr>,
     m_kernel = kernel0\<rparr>"

lemma machine0_loaded: "loaded env0 machine0"
  by (simp add: loaded_def env0_def machine0_def console0_def desc0_def)

end
