(* ===== verification/Heap_Bytes.thy ===== *)
theory Heap_Bytes
  imports Heap_Spec
begin

text \<open>
  The bytes behind the kernel heap. The heap model keeps the headers as records at their addresses; here the same memory
  is seen as bytes. A heap operation may store into every header of the heap, before and after it; nothing is assumed about the sixteen
  bytes of any of them. The content of live blocks survives every allocation and every release of another block.
\<close>

section \<open>Memory as bytes\<close>

type_synonym bmem = "addr \<Rightarrow> u8"

definition header_at :: "block \<Rightarrow> addr \<Rightarrow> bool" where
  "header_at h z \<longleftrightarrow> unat z \<in> set (haddrs (unat (b_start h)) (chunks h))"

text \<open>
  The bytes after the heap \<open>h\<close> became \<open>h'\<close>: those of every header of either chain, and of any record stored elsewhere, are whatever
  \<open>enc\<close> says, be it what was there, the fields the compiler stores or its padding.
\<close>

definition stored_header :: "block \<Rightarrow> block \<Rightarrow> addr \<Rightarrow> bool" where
  "stored_header h h' z \<longleftrightarrow> header_at h z \<or> header_at h' z \<or> b_mem h' z \<noteq> b_mem h z"

definition header_writes :: "bmem \<Rightarrow> block \<Rightarrow> block \<Rightarrow> bmem \<Rightarrow> bmem" where
  "header_writes enc h h' bm = (\<lambda>x. if \<exists>i \<in> set [0..<16]. stored_header h h' (x - word_of_nat i) then enc x else bm x)"

text \<open>Writing and reading inside a block that was handed out; anything else is a fault.\<close>

definition in_block :: "block \<Rightarrow> addr \<Rightarrow> nat \<Rightarrow> bool" where
  "in_block h a n \<longleftrightarrow> (case live h a of None \<Rightarrow> False | Some s \<Rightarrow> n \<le> s)"

definition put_bytes :: "block \<Rightarrow> addr \<Rightarrow> u8 list \<Rightarrow> bmem \<Rightarrow> bmem result" where
  "put_bytes h a ds bm =
     (if in_block h a (length ds)
      then Inr (\<lambda>x. if unat a \<le> unat x \<and> unat x < unat a + length ds then ds ! (unat x - unat a) else bm x)
      else Inl OutOfBounds)"

definition get_byte :: "block \<Rightarrow> addr \<Rightarrow> nat \<Rightarrow> bmem \<Rightarrow> u8 result" where
  "get_byte h a i bm = (if in_block h a (Suc i) then Inr (bm (a + word_of_nat i)) else Inl OutOfBounds)"

definition put_byte :: "block \<Rightarrow> addr \<Rightarrow> nat \<Rightarrow> u8 \<Rightarrow> bmem \<Rightarrow> bmem result" where
  "put_byte h a i v bm = (if in_block h a (Suc i) then Inr (bm(a + word_of_nat i := v)) else Inl OutOfBounds)"

text \<open>The content of a block.\<close>

definition bytes_at :: "bmem \<Rightarrow> addr \<Rightarrow> nat \<Rightarrow> u8 list" where
  "bytes_at bm a n = map (\<lambda>i. bm (a + word_of_nat i)) [0..<n]"

section \<open>Headers and payloads do not overlap\<close>

lemma payload_no_header:
  assumes "(y, s) \<in> set (payloads a cs)" "z \<in> set (haddrs a cs)"
  shows "z + 16 \<le> y \<or> y + s \<le> z"
  using assms
proof (induction a cs rule: payloads.induct)
  case (2 a s' t cs)
  with payloads_bounds [of y s "a + 16 + s'" cs] haddrs_bounds [of z "a + 16 + s'" cs] show ?case
    by (auto split: if_splits)
qed simp

lemma live_no_header:
  assumes "heap_inv h" "live h a = Some s" "header_at h z"
  shows "unat z + 16 \<le> unat a \<or> unat a + s \<le> unat z"
  using payload_no_header [OF live_bounds(2) [OF assms(1,2)]] assms(3) by (simp add: header_at_def)

section \<open>Which headers an operation writes\<close>

text \<open>The links of the headers in \<open>H\<close> lead to headers in \<open>H\<close> or nowhere.\<close>

definition linked :: "addr set \<Rightarrow> hmem \<Rightarrow> bool" where
  "linked H m \<longleftrightarrow> (\<forall>z \<in> H. hnext (m z) \<in> insert NULL H \<and> hprev (m z) \<in> insert NULL H)"

lemma chain_links:
  assumes "chain m p a cs nx" "x \<in> set (haddrs a cs)"
  shows "hnext (m (word_of_nat x)) \<in> insert (word_of_nat nx) (word_of_nat ` set (haddrs a cs)) \<and>
    hprev (m (word_of_nat x)) \<in> insert (word_of_nat p) (word_of_nat ` set (haddrs a cs))"
  using assms
proof (induction m p a cs nx rule: chain.induct)
  case (2 m p a s t cs nx)
  have hd: "cs \<noteq> [] \<Longrightarrow> a + 16 + s \<in> set (haddrs (a + 16 + s) cs)" by (cases cs) auto
  show ?case
  proof (cases "x = a")
    case True
    with "2.prems"(1) imageI [OF hd, of word_of_nat] show ?thesis by (auto simp del: of_nat_add)
  next
    case False
    with 2 have IH: "hnext (m (word_of_nat x)) \<in> insert (word_of_nat nx) (word_of_nat ` set (haddrs (a + 16 + s) cs))"
      "hprev (m (word_of_nat x)) \<in> insert (word_of_nat a) (word_of_nat ` set (haddrs (a + 16 + s) cs))" by auto
    then show ?thesis by (simp del: of_nat_add) blast
  qed
qed simp

definition headers :: "block \<Rightarrow> addr set" where
  "headers h = word_of_nat ` set (haddrs (unat (b_start h)) (chunks h))"

lemma headers_linked:
  assumes "heap_inv h"
  shows "linked (headers h) (b_mem h)"
proof -
  have "chain (b_mem h) 0 (unat (b_start h)) (chunks h) 0" using assms by (simp add: heap_inv_def heap_rel_def)
  from chain_links [OF this] show ?thesis by (auto simp: linked_def headers_def)
qed

lemma header_at_iff:
  assumes "heap_inv h"
  shows "header_at h z \<longleftrightarrow> z \<in> headers h"
proof -
  have b: "x < 2 ^ 32" if "x \<in> set (haddrs (unat (b_start h)) (chunks h))" for x
    using haddrs_bounds [OF that] assms by (auto simp: heap_inv_def heap_rel_def)
  show ?thesis
  proof
    assume "header_at h z"
    then show "z \<in> headers h" unfolding header_at_def headers_def by (intro image_eqI [of _ _ "unat z"]) simp_all
  next
    assume "z \<in> headers h"
    then show "header_at h z" using b by (auto simp: header_at_def headers_def unat_word32_of_nat simp del: of_nat_add)
  qed
qed

lemma merge_linked:
  assumes "linked H m" "f \<in> H" "s \<in> H"
  shows "linked H (fst (merge m f s))" "fst (merge m f s) z \<noteq> m z \<Longrightarrow> z \<in> H"
  using assms by (auto simp: linked_def merge_def Let_def split: if_splits)

lemma free_mem_linked:
  assumes l: "linked H m" and c: "c \<in> H" and z: "free_mem m c z \<noteq> m z"
  shows "z \<in> H"
proof (rule ccontr)
  assume nz: "z \<notin> H"
  define m0 where "m0 = m(c := (m c)\<lparr>htaken := False\<rparr>)"
  have 0: "linked H m0" "m0 z = m z" using l c nz by (auto simp: m0_def linked_def)
  have "hnext (m0 c) \<in> H" if "isFree m0 (hnext (m0 c))" using 0(1) c that by (auto simp: linked_def isFree_def)
  then have 1: "linked H (merge_next m0 c)" "merge_next m0 c z = m0 z"
    using merge_linked [OF 0(1) c] 0(1) nz by (auto simp: merge_next_def)
  have "hprev (merge_next m0 c c) = hprev (m0 c) \<or> hprev (merge_next m0 c c) = c"
    by (auto simp: merge_next_def merge_def Let_def)
  then have "hprev (merge_next m0 c c) \<in> H" if "isFree m0 (hprev (m0 c))" using 0(1) c that by (auto simp: linked_def isFree_def)
  then have "free_mem m c z = m0 z"
    using merge_linked(2) [OF 1(1) _ c, of _ z] 1(2) nz by (auto simp: free_mem_def Let_def m0_def [symmetric])
  with 0(2) z show False by simp
qed

lemma kfree_header_writes:
  assumes inv: "heap_inv h" and a: "live h a = Some s" and z: "b_mem (kfree h a) z \<noteq> b_mem h z"
  shows "header_at h z"
proof -
  have rel: "heap_rel h (chunks h)" using inv by (simp add: heap_inv_def)
  obtain i where i: "i < length (chunks h)" "chunks h ! i = (s, True)" "a = word_of_nat (unat (b_start h) + span (take i (chunks h)) + 16)"
    by (rule live_index [OF rel a])
  obtain xs ys where cs: "chunks h = xs @ (s, True) # ys" "take i (chunks h) = xs" using i by (auto elim: split_at)
  have "a - sizeof_Header = word_of_nat (unat (b_start h) + span xs)" by (simp add: i(3) cs(2) sizeof_Header_def)
  moreover have "unat (b_start h) + span xs \<in> set (haddrs (unat (b_start h)) (chunks h))" by (simp add: cs(1))
  ultimately have "a - sizeof_Header \<in> headers h" unfolding headers_def by (simp only: image_eqI)
  from free_mem_linked [OF headers_linked [OF inv] this] z show ?thesis
    by (simp add: kfree_eq block_free_mem header_at_iff [OF inv])
qed

lemma kmalloc_header_writes:
  assumes inv: "heap_inv h" and n: "unat n + 24 < slack h" and k: "kmalloc h n = Inr (h', a)" and z: "b_mem h' z \<noteq> b_mem h z"
  shows "header_at h z \<or> header_at h' z"
proof -
  define cs where "cs = chunks h"
  define st where "st = unat (b_start h)"
  have rel: "heap_rel h cs" using inv by (simp add: cs_def heap_inv_def)
  then have "cs \<noteq> []" by (simp add: heap_rel_def)
  from slack_serves [OF this] n rel obtain i where i: "first_fit (unat n) cs = Some i" "fits_safely (unat n) cs" by (auto simp: slack_rel)
  from first_fit_nth [OF i(1)] obtain s where nth: "i < length cs" "cs ! i = (s, False)" and ns: "unat n \<le> s" by (cases "cs ! i") auto
  obtain xs ys where cs: "cs = xs @ (s, False) # ys" "length xs = i" "take i cs = xs" "drop (Suc i) cs = ys" by (rule split_at [OF nth])
  have rel': "heap_rel h' (occupy (unat n) i cs)" "b_start h' = b_start h"
    using block_allocate_Some [OF rel i] k by (auto simp: kmalloc_eq)
  then have inv': "heap_inv h'" and ch': "chunks h' = xs @ cut (unat n) s @ ys"
    using cs nth by (auto simp: heap_inv_iff heap_rel_chunks occupy_def)
  define c where "c = st + span xs"
  define C :: addr where "C = word_of_nat c"
  have c: "C \<in> headers h" "hsize (b_mem h C) = word_of_nat s" using rel
    by (auto simp: C_def headers_def cs_def [symmetric] cs(1) c_def st_def heap_rel_def chain_append)
  have fc: "\<exists>p. find_chunk (b_mem h) n NULL (b_chunckList h) = Some (p, C)"
    using find_chunk_chain [of "b_mem h" 0 st cs "unat n"] rel i(1) cs(3)
    unfolding heap_rel_def C_def c_def st_def by simp
  then obtain p where p: "b_mem h' = take_chunk (b_mem h) p C n"
    using k z by (auto simp: kmalloc_eq block_allocate_def split: if_splits)
  show ?thesis
  proof (cases "sizeof_Header + minChunkSize < hsize (b_mem h C) - n")
    case False
    then have "z = C" using z unfolding p take_chunk_def by (auto split: if_splits)
    then show ?thesis using c(1) header_at_iff [OF inv] by simp
  next
    case True
    have "word_of_nat s - n = (word_of_nat (s - unat n) :: u32)" using ns by (simp add: of_nat_diff)
    moreover have "s - unat n < 2 ^ 32" using rel cs(1) by (auto simp: heap_rel_def)
    ultimately have "24 < s - unat n"
      using True c(2) word32_of_nat_less_iff [of 24 "s - unat n"] by (simp add: sizeof_Header_def minChunkSize_def)
    then have sec: "C + sizeof_Header + n \<in> headers h'"
      unfolding headers_def rel'(2) ch' cut_def by (auto simp: C_def c_def st_def sizeof_Header_def)
    have "z \<in> {C, C + sizeof_Header + n} \<union> (if hnext (b_mem h C) = NULL then {} else {hnext (b_mem h C)})"
      using z True unfolding p take_chunk_def by (auto simp: split_chunk_def Let_def split: if_splits)
    moreover have "hnext (b_mem h C) \<in> insert NULL (headers h)" using headers_linked [OF inv] c(1) by (auto simp: linked_def)
    ultimately show ?thesis
      using sec c(1) header_at_iff [OF inv] header_at_iff [OF inv'] by (auto split: if_splits)
  qed
qed

section \<open>The content of live blocks\<close>

lemma header_writes_keeps:
  assumes inv: "heap_inv h" "heap_inv h'" and a: "live h a = Some s" "live h' a = Some s"
    and ch: "\<And>z. b_mem h' z \<noteq> b_mem h z \<Longrightarrow> header_at h z \<or> header_at h' z"
    and x: "unat a \<le> unat x" "unat x < unat a + s"
  shows "header_writes enc h h' bm x = bm x"
proof -
  have "\<not> stored_header h h' (x - word_of_nat i)" if i: "i < 16" for i
  proof
    assume "stored_header h h' (x - word_of_nat i)"
    then have "header_at h (x - word_of_nat i) \<or> header_at h' (x - word_of_nat i)" using ch by (auto simp: stored_header_def)
    with live_no_header [OF inv(1) a(1)] live_no_header [OF inv(2) a(2)]
    have d: "unat (x - word_of_nat i) + 16 \<le> unat a \<or> unat a + s \<le> unat (x - word_of_nat i)" by blast
    have "16 \<le> unat a" using live_bounds(1) [OF inv(1) a(1)] by simp
    then have "(word_of_nat i :: u32) \<le> x" using i x(1) by (simp add: word_le_nat_alt unat_word32_of_nat)
    then have "unat (x - word_of_nat i) = unat x - i" using i by (subst unat_sub) (simp_all add: unat_word32_of_nat)
    with d x i show False by linarith
  qed
  then show ?thesis by (auto simp: header_writes_def simp del: upt_rec_numeral)
qed

lemma content_cong:
  assumes "heap_inv h" "live h a = Some s" "n \<le> s" "\<And>x. unat a \<le> unat x \<Longrightarrow> unat x < unat a + s \<Longrightarrow> bm' x = bm x"
  shows "bytes_at bm' a n = bytes_at bm a n"
proof -
  have "unat (a + word_of_nat i) = unat a + i" if "i < n" for i
  proof -
    have "i < 2 ^ 32" using live_end [OF assms(1,2)] that assms(3) by simp
    then show ?thesis using live_field [OF assms(1,2), of "word_of_nat i"] that assms(3) by (simp add: unat_word32_of_nat)
  qed
  then show ?thesis using assms(3,4) by (simp add: bytes_at_def)
qed

lemma kmalloc_content:
  assumes "heap_inv h" "unat n + 24 < slack h" "kmalloc h n = Inr (h', p)" "live h a = Some s" "k \<le> s"
  shows "bytes_at (header_writes enc h h' bm) a k = bytes_at bm a k"
proof -
  from kmalloc_slack [OF assms(1,2)] assms(3,4) have "heap_inv h'" "live h' a = Some s" by auto
  note keeps = header_writes_keeps [OF assms(1) this(1) assms(4) this(2) kmalloc_header_writes [OF assms(1-3)]]
  show ?thesis by (rule content_cong [OF assms(1,4,5)]) (rule keeps)
qed

lemma kfree_content:
  assumes "heap_inv h" "live h p = Some r" "live h a = Some s" "a \<noteq> p" "k \<le> s"
  shows "bytes_at (header_writes enc h (kfree h p) bm) a k = bytes_at bm a k"
proof -
  have f: "heap_inv (kfree h p)" "live (kfree h p) a = Some s" using kfree_live [OF assms(1,2)] assms(3,4) by auto
  have "header_at h z \<or> header_at (kfree h p) z" if "b_mem (kfree h p) z \<noteq> b_mem h z" for z
    using kfree_header_writes [OF assms(1,2) that] by blast
  note keeps = header_writes_keeps [OF assms(1) f(1) assms(3) f(2) this]
  show ?thesis by (rule content_cong [OF assms(1,3,5)]) (rule keeps)
qed

text \<open>Writing into a block does not touch the other blocks, and is read back.\<close>

lemma put_bytes_ok:
  assumes inv: "heap_inv h" and a: "live h a = Some s" and n: "length ds \<le> s"
  shows "\<exists>bm'. put_bytes h a ds bm = Inr bm' \<and> bytes_at bm' a (length ds) = ds \<and>
    (\<forall>b r k. live h b = Some r \<and> b \<noteq> a \<and> k \<le> r \<longrightarrow> bytes_at bm' b k = bytes_at bm b k)"
proof -
  define bm' where "bm' = (\<lambda>x. if unat a \<le> unat x \<and> unat x < unat a + length ds then ds ! (unat x - unat a) else bm x)"
  have u: "unat (a + word_of_nat i) = unat a + i" if "i < length ds" for i
  proof -
    have "i < 2 ^ 32" using live_end [OF inv a] that n by simp
    then show ?thesis using live_field [OF inv a, of "word_of_nat i"] that n by (simp add: unat_word32_of_nat)
  qed
  have "put_bytes h a ds bm = Inr bm'" using a n by (simp add: put_bytes_def in_block_def bm'_def)
  moreover have "bytes_at bm' a (length ds) = ds" by (rule nth_equalityI) (simp_all add: bytes_at_def bm'_def u)
  moreover have "bytes_at bm' b k = bytes_at bm b k" if "live h b = Some r" "b \<noteq> a" "k \<le> r" for b r k
    using live_disjoint [OF inv a that(1)] that(2) n by (intro content_cong [OF inv that(1,3)]) (auto simp: bm'_def)
  ultimately show ?thesis by blast
qed

lemma put_byte_ok:
  assumes inv: "heap_inv h" and a: "live h a = Some s" and i: "i < s"
  shows "\<exists>bm'. put_byte h a i v bm = Inr bm' \<and> bytes_at bm' a (Suc i) = bytes_at bm a i @ [v] \<and>
    (\<forall>b r k. live h b = Some r \<and> b \<noteq> a \<and> k \<le> r \<longrightarrow> bytes_at bm' b k = bytes_at bm b k)"
proof -
  have u: "unat (a + word_of_nat j) = unat a + j" if "j \<le> i" for j
  proof -
    have "j < 2 ^ 32" using live_end [OF inv a] that i by simp
    then show ?thesis using live_field [OF inv a, of "word_of_nat j"] that i by (simp add: unat_word32_of_nat)
  qed
  then have "a + word_of_nat j \<noteq> a + word_of_nat i" if "j < i" for j
    using that u [of i] u [of j] by (intro notI) (drule arg_cong [of _ _ unat], simp)
  then have "bytes_at (bm(a + word_of_nat i := v)) a (Suc i) = bytes_at bm a i @ [v]" by (simp add: bytes_at_def)
  moreover have "bytes_at (bm(a + word_of_nat i := v)) b k = bytes_at bm b k" if "live h b = Some r" "b \<noteq> a" "k \<le> r" for b r k
    using live_disjoint [OF inv a that(1)] that(2) i u [of i] by (intro content_cong [OF inv that(1,3)]) auto
  ultimately show ?thesis using a i by (simp add: put_byte_def in_block_def)
qed

lemma get_byte_ok:
  assumes "live h a = Some s" "i < n" "n \<le> s"
  shows "get_byte h a i bm = Inr (bytes_at bm a n ! i)"
  using assms by (simp add: get_byte_def in_block_def bytes_at_def)

text \<open>
  What can happen between a client's write into its block \<open>p\<close> and its reading it back: allocations where there is slack, releases of other
  blocks and writes into other blocks, in any number and order; every step may leave other bytes in the headers.
\<close>

inductive heap_run :: "addr \<Rightarrow> block \<times> bmem \<Rightarrow> block \<times> bmem \<Rightarrow> bool" for p where
  start: "heap_run p (h, bm) (h, bm)"
| alloc: "heap_run p st (h, bm) \<Longrightarrow> unat n + 24 < slack h \<Longrightarrow> kmalloc h n = Inr (h', b) \<Longrightarrow> heap_run p st (h', header_writes enc h h' bm)"
| free: "heap_run p st (h, bm) \<Longrightarrow> live h b \<noteq> None \<Longrightarrow> b \<noteq> p \<Longrightarrow> heap_run p st (kfree h b, header_writes enc h (kfree h b) bm)"
| store: "heap_run p st (h, bm) \<Longrightarrow> b \<noteq> p \<Longrightarrow> put_bytes h b ds bm = Inr bm' \<Longrightarrow> heap_run p st (h, bm')"
| store_one: "heap_run p st (h, bm) \<Longrightarrow> b \<noteq> p \<Longrightarrow> put_byte h b i v bm = Inr bm' \<Longrightarrow> heap_run p st (h, bm')"

lemma in_block_live: "in_block h b n \<Longrightarrow> \<exists>s. live h b = Some s \<and> n \<le> s"
  by (auto simp: in_block_def split: option.splits)

lemma heap_run_keeps:
  assumes "heap_run p st st'" "heap_inv (fst st)" "live (fst st) p = Some s"
  shows "heap_inv (fst st') \<and> live (fst st') p = Some s \<and> (\<forall>k \<le> s. bytes_at (snd st') p k = bytes_at (snd st) p k)"
  using assms
proof (induction rule: heap_run.induct)
  case (alloc st h bm n h' b enc)
  then have i: "heap_inv h" "live h p = Some s" by simp_all
  from kmalloc_slack [OF i(1) alloc.hyps(2)] alloc.hyps(3) i(2) have "heap_inv h'" "live h' p = Some s" by auto
  with kmalloc_content [OF i(1) alloc.hyps(2,3) i(2)] alloc show ?case by simp
next
  case (free st h bm b enc)
  then have i: "heap_inv h" "live h p = Some s" by simp_all
  obtain r where r: "live h b = Some r" using free.hyps(2) by blast
  from kfree_live [OF i(1) r] i(2) free.hyps(3) have "heap_inv (kfree h b)" "live (kfree h b) p = Some s" by auto
  with kfree_content [OF i(1) r i(2)] free show ?case by simp
next
  case (store st h bm b ds bm')
  then have i: "heap_inv h" "live h p = Some s" by simp_all
  have "in_block h b (length ds)" using store.hyps(3) by (auto simp: put_bytes_def split: if_splits)
  with put_bytes_ok [OF i(1), of b _ ds bm] store i show ?case by (auto dest!: in_block_live)
next
  case (store_one st h bm b j v bm')
  then have i: "heap_inv h" "live h p = Some s" by simp_all
  have "in_block h b (Suc j)" using store_one.hyps(3) by (auto simp: put_byte_def split: if_splits)
  then obtain r where r: "live h b = Some r" "j < r" by (auto dest!: in_block_live)
  with put_byte_ok [OF i(1) r, of v bm] store_one i show ?case by auto
qed simp

text \<open>
  C10. What a client writes into its block it reads back, whatever the heap and its other clients do in between: allocations (as long as the free
  chunk at the end of the heap can serve them), releases of other blocks and writes into other blocks, in any number and
  order. The block stays in use with its size, and every byte is the one written, although the headers around it are rewritten.
\<close>

theorem heap_contents_survive:
  assumes "heap_inv h" "live h p = Some s" "length ds \<le> s"
  shows "\<exists>bm1. put_bytes h p ds bm = Inr bm1 \<and>
    (\<forall>h2 bm2. heap_run p (h, bm1) (h2, bm2) \<longrightarrow> heap_inv h2 \<and> live h2 p = Some s \<and> bytes_at bm2 p (length ds) = ds \<and>
       (\<forall>i < length ds. get_byte h2 p i bm2 = Inr (ds ! i)))"
proof -
  from put_bytes_ok [OF assms, of bm] obtain bm1 where bm1: "put_bytes h p ds bm = Inr bm1" "bytes_at bm1 p (length ds) = ds" by blast
  have "heap_inv h2 \<and> live h2 p = Some s \<and> bytes_at bm2 p (length ds) = ds \<and> (\<forall>i < length ds. get_byte h2 p i bm2 = Inr (ds ! i))"
    if r: "heap_run p (h, bm1) (h2, bm2)" for h2 bm2
  proof -
    from heap_run_keeps [OF r] assms have k: "heap_inv h2" "live h2 p = Some s" "bytes_at bm2 p (length ds) = ds" by (simp_all add: bm1(2))
    with get_byte_ok [OF k(2) _ assms(3), of _ bm2] show ?thesis by simp
  qed
  with bm1(1) show ?thesis by blast
qed

theorem heap_contents_survive_witness:
  "\<exists>h a bm1 h1 b bm2. kmalloc demo_heap 40 = Inr (h, a) \<and> put_bytes h a [1, 2, 3] (\<lambda>_. 7) = Inr bm1 \<and> kmalloc h 8 = Inr (h1, b) \<and>
     put_bytes h1 b [9] (header_writes (\<lambda>_. 5) h h1 bm1) = Inr bm2 \<and>
     get_byte (kfree h1 b) a 2 (header_writes (\<lambda>_. 6) h1 (kfree h1 b) bm2) = Inr 3"
proof -
  from kmalloc_slack [OF demo_heap_inv(1), of 40] obtain h a s where h: "kmalloc demo_heap 40 = Inr (h, a)" "heap_inv h"
    "live h a = Some s" "40 \<le> s" "200 \<le> slack h + 40 + 16" by (auto simp: demo_heap_inv)
  have l: "length [1, 2, 3 :: u8] \<le> s" using h(4) by simp
  from heap_contents_survive [OF h(2,3) l, of "\<lambda>_. 7"] obtain bm1 where bm1: "put_bytes h a [1, 2, 3] (\<lambda>_. 7) = Inr bm1"
    "\<And>h2 bm2. heap_run a (h, bm1) (h2, bm2) \<Longrightarrow> \<forall>i < 3. get_byte h2 a i bm2 = Inr ([1, 2, 3] ! i)" by auto
  have r: "unat (8 :: u32) + 24 < slack h" using h(5) by simp
  from kmalloc_slack [OF h(2) r] obtain h1 b t where h1: "kmalloc h 8 = Inr (h1, b)" "heap_inv h1" "live h b = None"
    "live h1 = (live h)(b \<mapsto> t)" "8 \<le> t" by auto
  then have b: "live h1 b = Some t" "b \<noteq> a" using h(3) by auto
  have "length [9 :: u8] \<le> t" using h1(5) by simp
  from put_bytes_ok [OF h1(2) b(1) this, of "header_writes (\<lambda>_. 5) h h1 bm1"] obtain bm2 where
    bm2: "put_bytes h1 b [9] (header_writes (\<lambda>_. 5) h h1 bm1) = Inr bm2" by blast
  have "heap_run a (h, bm1) (h1, header_writes (\<lambda>_. 5) h h1 bm1)" by (rule heap_run.alloc [OF heap_run.start r h1(1)])
  from heap_run.store [OF this b(2) bm2] have "heap_run a (h, bm1) (kfree h1 b, header_writes (\<lambda>_. 6) h1 (kfree h1 b) bm2)"
    by (rule heap_run.free) (use b in auto)
  from bm1(2) [OF this, rule_format, of 2] h(1) bm1(1) h1(1) bm2 show ?thesis by auto
qed

end
