(* ===== verification/Interrupt_Stubs.thy ===== *)
theory Interrupt_Stubs
  imports Boot Kernel_Utils Context_Switch
begin

unbundle bit_operations_syntax

text \<open>
  From an interrupt to the C code and back: the routines of \<^verbatim>\<open>src/src/kernel/arch/i386/isr_irq.s\<close> behind the gates of
  the interrupt descriptor table, and \<^verbatim>\<open>interrupt\<close> of \<^verbatim>\<open>interrupt_x86.s\<close>, which raises vector 0x80. One model instruction
  per machine instruction, on the registers of \<open>Context_Switch\<close> with the segment registers added. Arithmetic flags are left
  out: \<^verbatim>\<open>iret\<close> overwrites the only ones an instruction here changes.
\<close>

section \<open>The instructions\<close>

record icpu = cpu +
  seg_cs :: u16
  seg_ds :: u16
  seg_es :: u16
  seg_fs :: u16
  seg_gs :: u16

text \<open>
  Pushing a segment register moves the stack pointer by four bytes. Depending on the processor the word is
  zero-extended (\<open>z\<close>) or only its lower half is written.
\<close>

definition seg_word :: "bool \<Rightarrow> u32 \<Rightarrow> u16 \<Rightarrow> u32" where
  "seg_word z old sel = (if z then 0 else old AND 0xFFFF0000) OR ucast sel"

definition push_seg :: "bool \<Rightarrow> u16 \<Rightarrow> icpu \<Rightarrow> icpu" where
  "push_seg z sel s = push (seg_word z (mem s (esp s - 4)) sel) s"

definition iret :: "icpu \<Rightarrow> icpu" where
  "iret s = (let (v_eip, s1) = pop s; (v_cs, s2) = pop s1; (v_fl, s3) = pop s2 in s3\<lparr>eip := v_eip, seg_cs := ucast v_cs, eflags := v_fl\<rparr>)"

text \<open>
  What the processor does when it takes an interrupt in the kernel: flags, code segment and instruction pointer go to the stack; an
  interrupt gate clears the flags IF, TF, NT, RF and VM.
\<close>

definition deliver :: "bool \<Rightarrow> desc \<Rightarrow> nat \<Rightarrow> icpu \<Rightarrow> icpu result" where
  "deliver z d v s = (case gate_of d v of
     None \<Rightarrow> Inl OutOfBounds
   | Some (sel, a) \<Rightarrow> Inr ((push (eip s) (push_seg z (seg_cs s) (push (eflags s) s)))\<lparr>seg_cs := sel, eip := a, eflags := eflags s AND NOT 0x34300\<rparr>))"

section \<open>The stubs\<close>

text \<open>The words \<^verbatim>\<open>struct regs\<close> names, at address \<open>p\<close>.\<close>

definition regs_at :: "wmem \<Rightarrow> addr \<Rightarrow> regs" where
  "regs_at m p = \<lparr>r_gs = m p, r_fs = m (p + 4), r_es = m (p + 8), r_ds = m (p + 12), r_edi = m (p + 16), r_esi = m (p + 20),
     r_ebp = m (p + 24), r_esp = m (p + 28), r_ebx = m (p + 32), r_edx = m (p + 36), r_ecx = m (p + 40), r_eax = m (p + 44),
     r_int_no = m (p + 48), r_err_code = m (p + 52), r_eip = m (p + 56), r_cs = m (p + 60), r_eflags = m (p + 64),
     r_useresp = m (p + 68), r_ss = m (p + 72)\<rparr>"

definition stub_save :: "bool \<Rightarrow> icpu \<Rightarrow> icpu" where
  "stub_save z s0 =
     (let s1 = pusha s0;
          s2 = push_seg z (seg_ds s1) s1;
          s3 = push_seg z (seg_es s2) s2;
          s4 = push_seg z (seg_fs s3) s3;
          s5 = push_seg z (seg_gs s4) s4;
          s6 = s5\<lparr>eax := (eax s5 AND 0xFFFF0000) OR 0x10\<rparr>;
          s7 = s6\<lparr>seg_ds := ucast (eax s6)\<rparr>;
          s8 = s7\<lparr>seg_es := ucast (eax s7)\<rparr>;
          s9 = s8\<lparr>seg_fs := ucast (eax s8)\<rparr>;
          s10 = s9\<lparr>seg_gs := ucast (eax s9)\<rparr>;
          s11 = s10\<lparr>eax := esp s10\<rparr>
      in push (eax s11) s11)"

definition stub_restore :: "icpu \<Rightarrow> icpu" where
  "stub_restore s0 =
     (let (v_eax, s1) = pop s0;
          s2 = s1\<lparr>eax := v_eax\<rparr>;
          (v_gs, s3) = pop s2;
          s4 = s3\<lparr>seg_gs := ucast v_gs\<rparr>;
          (v_fs, s5) = pop s4;
          s6 = s5\<lparr>seg_fs := ucast v_fs\<rparr>;
          (v_es, s7) = pop s6;
          s8 = s7\<lparr>seg_es := ucast v_es\<rparr>;
          (v_ds, s9) = pop s8;
          s10 = s9\<lparr>seg_ds := ucast v_ds\<rparr>;
          s11 = popa s10;
          s12 = s11\<lparr>esp := esp s11 + 8\<rparr>
      in iret s12)"

text \<open>
  A call of a C function with the pointer on top of the stack as its argument: \<open>body\<close> is what the function does with
  the state of the kernel, \<open>cc\<close> what its compiled code does with processor and stack, its \<^verbatim>\<open>ret\<close> included; \<open>ra\<close> is the return address.
\<close>

definition call_handler :: "(regs \<Rightarrow> 'm \<Rightarrow> 'm result) \<Rightarrow> (icpu \<Rightarrow> icpu) \<Rightarrow> addr \<Rightarrow> icpu \<times> 'm \<Rightarrow> (icpu \<times> 'm) result" where
  "call_handler body cc ra = (\<lambda>(s, m). rbind (body (regs_at (mem s) (mem s (esp s))) m) (\<lambda>m'. Inr (cc (push ra s), m')))"

definition irq_common_stub :: "bool \<Rightarrow> (regs \<Rightarrow> 'm \<Rightarrow> 'm result) \<Rightarrow> (icpu \<Rightarrow> icpu) \<Rightarrow> addr \<Rightarrow> icpu \<times> 'm \<Rightarrow> (icpu \<times> 'm) result" where
  "irq_common_stub z body cc ra = (\<lambda>(s, m). rbind (call_handler body cc ra (stub_save z s, m)) (\<lambda>(s', m'). Inr (stub_restore s', m')))"

definition isr_common_stub :: "bool \<Rightarrow> (regs \<Rightarrow> 'm \<Rightarrow> 'm result) \<Rightarrow> (icpu \<Rightarrow> icpu) \<Rightarrow> addr \<Rightarrow> icpu \<times> 'm \<Rightarrow> (icpu \<times> 'm) result" where
  "isr_common_stub z body cc ra = (\<lambda>(s, m). rbind (call_handler body cc ra (stub_save z s, m)) (\<lambda>(s', m'). Inr (stub_restore s', m')))"

definition irq_entry :: "u32 \<Rightarrow> icpu \<Rightarrow> icpu" where
  "irq_entry num s = (let s1 = s\<lparr>eflags := eflags s AND NOT 0x200\<rparr>; s2 = push 0 s1 in push (num + 32) s2)"

definition irq_routine :: "bool \<Rightarrow> (regs \<Rightarrow> 'm \<Rightarrow> 'm result) \<Rightarrow> (icpu \<Rightarrow> icpu) \<Rightarrow> addr \<Rightarrow> u32 \<Rightarrow> icpu \<times> 'm \<Rightarrow> (icpu \<times> 'm) result" where
  "irq_routine z body cc ra num = (\<lambda>(s, m). irq_common_stub z body cc ra (irq_entry num s, m))"

definition no_error_code_entry :: "icpu \<Rightarrow> icpu" where
  "no_error_code_entry s = (let s1 = s\<lparr>eax := mem s (esp s + 20)\<rparr>; s2 = push 0 s1 in push (eax s2) s2)"

definition no_error_code_interrupt_handler :: "bool \<Rightarrow> (regs \<Rightarrow> 'm \<Rightarrow> 'm result) \<Rightarrow> (icpu \<Rightarrow> icpu) \<Rightarrow> addr \<Rightarrow> icpu \<times> 'm \<Rightarrow> (icpu \<times> 'm) result" where
  "no_error_code_interrupt_handler z body cc ra = (\<lambda>(s, m). isr_common_stub z body cc ra (no_error_code_entry s, m))"

definition error_code_interrupt_handler :: "bool \<Rightarrow> (regs \<Rightarrow> 'm \<Rightarrow> 'm result) \<Rightarrow> (icpu \<Rightarrow> icpu) \<Rightarrow> addr \<Rightarrow> u32 \<Rightarrow> icpu \<times> 'm \<Rightarrow> (icpu \<times> 'm) result" where
  "error_code_interrupt_handler z body cc ra num = (\<lambda>(s, m). isr_common_stub z body cc ra (push num s, m))"

text \<open>\<^verbatim>\<open>interrupt\<close>: \<open>ri\<close> is the address behind its \<^verbatim>\<open>int\<close> instruction. Vector 0x80 leads to \<^verbatim>\<open>interrupt_handler_0\<close>.\<close>

definition interrupt_raise :: "icpu \<Rightarrow> icpu" where
  "interrupt_raise s = (let s1 = s\<lparr>eax := mem s (esp s + 4)\<rparr> in push (eax s1) s1)"

definition interrupt_end :: "icpu \<Rightarrow> icpu" where
  "interrupt_end s = (let (v_eax, s1) = pop s; (ret, s2) = pop (s1\<lparr>eax := v_eax\<rparr>) in s2\<lparr>eip := ret\<rparr>)"

definition interrupt :: "bool \<Rightarrow> (regs \<Rightarrow> 'm \<Rightarrow> 'm result) \<Rightarrow> (icpu \<Rightarrow> icpu) \<Rightarrow> addr \<Rightarrow> addr \<Rightarrow> desc \<Rightarrow> icpu \<times> 'm \<Rightarrow> (icpu \<times> 'm) result" where
  "interrupt z body cc ra ri d = (\<lambda>(s, m).
     rbind (deliver z d 0x80 ((interrupt_raise s)\<lparr>eip := ri\<rparr>)) (\<lambda>s1.
     rbind (no_error_code_interrupt_handler z body cc ra (s1, m)) (\<lambda>(s2, m'). Inr (interrupt_end s2, m'))))"

section \<open>What the stubs do\<close>

lemma seg_word_low [simp]: "ucast (seg_word z old sel) = sel"
proof -
  have m: "(0xFFFF0000 :: u32) = push_bit 16 (mask 16)" by (simp add: mask_eq_exp_minus_1 push_bit_eq_mult)
  have "bit (ucast (seg_word z old sel) :: u16) i = bit sel i" for i
    unfolding seg_word_def m by (auto simp: bit_simps dest: bit_imp_le_length)
  then show ?thesis by (simp add: bit_eq_iff)
qed

lemmas stub_simps = push_def pop_def pusha_def popa_def push_seg_def iret_def stub_save_def stub_restore_def Let_def

lemma stub_save_esp: "esp (stub_save z s) = esp s - 52"
  by (simp add: stub_simps)

lemma stub_save_mem:
  "mem (stub_save z s) = (mem s)(esp s - 4 := eax s, esp s - 8 := ecx s, esp s - 12 := edx s, esp s - 16 := ebx s,
     esp s - 20 := esp s, esp s - 24 := ebp s, esp s - 28 := esi s, esp s - 32 := edi s,
     esp s - 36 := seg_word z (mem s (esp s - 36)) (seg_ds s), esp s - 40 := seg_word z (mem s (esp s - 40)) (seg_es s),
     esp s - 44 := seg_word z (mem s (esp s - 44)) (seg_fs s), esp s - 48 := seg_word z (mem s (esp s - 48)) (seg_gs s),
     esp s - 52 := esp s - 48)"
  by (simp add: stub_simps)

lemma stub_restore_result:
  assumes "sp = esp s"
  shows "stub_restore s = s\<lparr>eax := mem s (sp + 48), ecx := mem s (sp + 44), edx := mem s (sp + 40), ebx := mem s (sp + 36),
    esp := sp + 72, ebp := mem s (sp + 28), esi := mem s (sp + 24), edi := mem s (sp + 20), eflags := mem s (sp + 68), eip := mem s (sp + 60),
    seg_cs := ucast (mem s (sp + 64)), seg_ds := ucast (mem s (sp + 16)), seg_es := ucast (mem s (sp + 12)),
    seg_fs := ucast (mem s (sp + 8)), seg_gs := ucast (mem s (sp + 4))\<rparr>"
  using assms by (simp add: stub_simps ac_simps)

text \<open>
  The calling convention of C: the function takes its return address from the stack, and the words of the caller's frame that
  hold the saved registers are as before (neither handler writes to \<^verbatim>\<open>*r\<close>).
\<close>

definition regs_words :: "addr \<Rightarrow> addr set" where
  "regs_words p = {p, p + 4, p + 8, p + 12, p + 16, p + 20, p + 24, p + 28, p + 32, p + 36, p + 40, p + 44, p + 48, p + 52, p + 56,
     p + 60, p + 64, p + 68, p + 72}"

definition c_handler :: "(icpu \<Rightarrow> icpu) \<Rightarrow> bool" where
  "c_handler cc \<longleftrightarrow> (\<forall>s. esp (cc s) = esp s + 4 \<and> (\<forall>x \<in> regs_words (esp s + 8). mem (cc s) x = mem s x))"

text \<open>What a stub makes of the state \<open>t\<close> it is entered in, when the handler returns in \<open>u\<close>.\<close>

definition resumed :: "icpu \<Rightarrow> icpu \<Rightarrow> icpu" where
  "resumed t u = t\<lparr>esp := esp t + 20, eip := mem t (esp t + 8), seg_cs := ucast (mem t (esp t + 12)), eflags := mem t (esp t + 16), mem := mem u\<rparr>"

lemma stub_restore_frame:
  fixes t u :: icpu
  assumes e: "esp u = esp t - 52" and m: "\<forall>x \<in> regs_words (esp t - 48). mem u x = mem (push ra (stub_save z t)) x"
  shows "stub_restore u = resumed t u"
proof -
  have w: "mem u (esp t - 4) = eax t" "mem u (esp t - 8) = ecx t" "mem u (esp t - 12) = edx t" "mem u (esp t - 16) = ebx t"
    "mem u (esp t - 24) = ebp t" "mem u (esp t - 28) = esi t" "mem u (esp t - 32) = edi t"
    "ucast (mem u (esp t - 36)) = seg_ds t" "ucast (mem u (esp t - 40)) = seg_es t" "ucast (mem u (esp t - 44)) = seg_fs t"
    "ucast (mem u (esp t - 48)) = seg_gs t"
    "mem u (esp t + 8) = mem t (esp t + 8)" "mem u (esp t + 12) = mem t (esp t + 12)" "mem u (esp t + 16) = mem t (esp t + 16)"
    by (subst m [rule_format], simp add: regs_words_def, simp add: push_def stub_save_esp stub_save_mem)+
  have o: "esp t - 52 + 48 = esp t - 4" "esp t - 52 + 44 = esp t - 8" "esp t - 52 + 40 = esp t - 12" "esp t - 52 + 36 = esp t - 16"
    "esp t - 52 + 28 = esp t - 24" "esp t - 52 + 24 = esp t - 28" "esp t - 52 + 20 = esp t - 32" "esp t - 52 + 16 = esp t - 36"
    "esp t - 52 + 12 = esp t - 40" "esp t - 52 + 8 = esp t - 44" "esp t - 52 + 4 = esp t - 48" "esp t - 52 + 60 = esp t + 8"
    "esp t - 52 + 64 = esp t + 12" "esp t - 52 + 68 = esp t + 16" "esp t - 52 + 72 = esp t + 20" by simp_all
  show ?thesis unfolding stub_restore_result [OF e [symmetric]] o w resumed_def by (cases u, cases t) simp
qed

lemma call_frame: "esp (push ra (stub_save z t)) = esp t - 56" "esp (push ra (stub_save z t)) + 8 = esp t - 48"
  by (simp_all add: push_def stub_save_esp)

lemma regs_words_kept:
  assumes "c_handler cc" "x \<in> regs_words (esp t - 48)"
  shows "mem (cc (push ra (stub_save z t))) x = mem (push ra (stub_save z t)) x"
  using assms call_frame(2) [of ra z t] unfolding c_handler_def by metis

lemma stub_roundtrip:
  assumes "c_handler cc"
  shows "stub_restore (cc (push ra (stub_save z t))) = resumed t (cc (push ra (stub_save z t)))"
  using assms regs_words_kept [OF assms]
  by (intro stub_restore_frame [where ra = ra and z = z]) (simp_all add: c_handler_def call_frame)

lemma stub_regs:
  "regs_at (mem (stub_save z t)) (mem (stub_save z t) (esp (stub_save z t))) =
     \<lparr>r_gs = seg_word z (mem t (esp t - 48)) (seg_gs t), r_fs = seg_word z (mem t (esp t - 44)) (seg_fs t),
      r_es = seg_word z (mem t (esp t - 40)) (seg_es t), r_ds = seg_word z (mem t (esp t - 36)) (seg_ds t),
      r_edi = edi t, r_esi = esi t, r_ebp = ebp t, r_esp = esp t, r_ebx = ebx t, r_edx = edx t, r_ecx = ecx t, r_eax = eax t,
      r_int_no = mem t (esp t), r_err_code = mem t (esp t + 4), r_eip = mem t (esp t + 8), r_cs = mem t (esp t + 12),
      r_eflags = mem t (esp t + 16), r_useresp = mem t (esp t + 20), r_ss = mem t (esp t + 24)\<rparr>"
  unfolding regs_at_def stub_save_esp by (simp add: stub_save_mem add.commute [of "esp t"])

lemma common_stub_result:
  assumes "c_handler cc"
  shows "irq_common_stub z body cc ra (t, m) =
    rbind (body (regs_at (mem (stub_save z t)) (mem (stub_save z t) (esp (stub_save z t)))) m)
      (\<lambda>m'. Inr (resumed t (cc (push ra (stub_save z t))), m'))"
    "isr_common_stub z body cc ra (t, m) = irq_common_stub z body cc ra (t, m)"
  by (simp_all add: irq_common_stub_def isr_common_stub_def call_handler_def stub_roundtrip [OF assms] rbind_def split: sum.splits)

lemma deliver_result:
  assumes "gate_of d v = Some (sel, a)"
  shows "deliver z d v s = Inr (s\<lparr>esp := esp s - 12, eip := a, seg_cs := sel, eflags := eflags s AND NOT 0x34300,
     mem := (mem s)(esp s - 4 := eflags s, esp s - 8 := seg_word z (mem s (esp s - 8)) (seg_cs s), esp s - 12 := eip s)\<rparr>)"
  using assms by (simp add: deliver_def push_seg_def push_def)

text \<open>An interrupt of a line leads back to the interrupted instruction with every register as it was.\<close>

lemma irq_entry_resumed:
  assumes "deliver z d v s = Inr s1"
  shows "resumed (irq_entry n s1) u = s\<lparr>mem := mem u\<rparr>" "mem (irq_entry n s1) (esp s - 20) = n + 32"
    "esp (irq_entry n s1) = esp s - 20"
    "\<forall>x \<in> - {esp s - 4, esp s - 8, esp s - 12, esp s - 16, esp s - 20}. mem (irq_entry n s1) x = mem s x"
proof -
  obtain sel a where g: "gate_of d v = Some (sel, a)" using assms by (auto simp: deliver_def split: option.splits)
  then have s1: "s1 = s\<lparr>esp := esp s - 12, eip := a, seg_cs := sel, eflags := eflags s AND NOT 0x34300,
     mem := (mem s)(esp s - 4 := eflags s, esp s - 8 := seg_word z (mem s (esp s - 8)) (seg_cs s), esp s - 12 := eip s)\<rparr>"
    using assms by (simp add: deliver_result)
  show "resumed (irq_entry n s1) u = s\<lparr>mem := mem u\<rparr>" by (cases s) (simp add: s1 resumed_def irq_entry_def push_def)
  show "mem (irq_entry n s1) (esp s - 20) = n + 32" "esp (irq_entry n s1) = esp s - 20"
    "\<forall>x \<in> - {esp s - 4, esp s - 8, esp s - 12, esp s - 16, esp s - 20}. mem (irq_entry n s1) x = mem s x"
    by (simp_all add: s1 irq_entry_def push_def)
qed

text \<open>
  \<^verbatim>\<open>error_code_interrupt_handler 7\<close>: the processor pushes no error code for vector 7 (device not available), so the frame is one word short
  and the handler returns to the address that is the saved code segment.
\<close>

lemma error_code_handler_derails:
  assumes "deliver z d v s = Inr s1" "c_handler cc" "\<And>r. body r m = Inr m'"
  shows "\<exists>s'. error_code_interrupt_handler z body cc ra 7 (s1, m) = Inr (s', m') \<and> eip s' = seg_word z (mem s (esp s - 8)) (seg_cs s)"
proof -
  obtain sel a where g: "gate_of d v = Some (sel, a)" using assms(1) by (auto simp: deliver_def split: option.splits)
  show ?thesis using assms(1) [unfolded deliver_result [OF g]] assms(3)
    by (auto simp: error_code_interrupt_handler_def common_stub_result [OF assms(2)] resumed_def push_def)
qed

section \<open>Properties\<close>

definition stub_words :: "addr \<Rightarrow> addr set" where
  "stub_words sp = (\<lambda>k. sp - 4 * word_of_nat k) ` {1..19}"

text \<open>
  C22. A hardware interrupt is transparent to the code it interrupts: the gate leads to the routine of its line, \<^verbatim>\<open>irq_handler\<close> is
  called with 32 plus the number of the line, and when it returns, the interrupted code continues at its
  instruction with every register, flag and segment register as before. Besides what the handler writes, only the nineteen
  words below the stack pointer have changed.
\<close>

theorem irq_stub_transparent:
  assumes "machine_inv m" "cpu_ready e (m_desc m)" "line < 16" "c_handler cc"
  shows "\<exists>s1 m' t. deliver z (m_desc m) (32 + line) s = Inr s1 \<and> eip s1 = e_irq e line \<and>
    serve_irq e sp (word_of_nat (32 + line)) m = Inr m' \<and> machine_inv m' \<and>
    irq_routine z (\<lambda>r. serve_irq e sp (r_int_no r)) cc ra (word_of_nat line) (s1, m) = Inr (s\<lparr>mem := mem (cc t)\<rparr>, m') \<and>
    (\<forall>x. x \<notin> stub_words (esp s) \<longrightarrow> mem t x = mem s x)"
proof -
  from assms(2,3) have g: "gate_of (m_desc m) (32 + line) = Some (0x08, e_irq e line)" by (simp add: cpu_ready_def)
  from deliver_result [OF g, of z s] obtain s1 where s1: "deliver z (m_desc m) (32 + line) s = Inr s1" "eip s1 = e_irq e line" by simp
  let ?n = "word_of_nat line :: u32"
  let ?t = "irq_entry ?n s1"
  let ?c = "push ra (stub_save z ?t)"
  have n: "unat (?n + 32) = line + 32" using assms(3) by (simp add: unat_plus_if_size word_size unsigned_of_nat take_bit_eq_mod)
  then have "32 \<le> unat (?n + 32)" "unat (?n + 32) < 48" using assms(3) by simp_all
  from serve_irq_ok [OF assms(1) this, of e sp] obtain m' where m': "serve_irq e sp (?n + 32) m = Inr m'" "machine_inv m'" by blast
  have "irq_routine z (\<lambda>r. serve_irq e sp (r_int_no r)) cc ra ?n (s1, m) = Inr (s\<lparr>mem := mem (cc ?c)\<rparr>, m')"
    by (simp add: irq_routine_def common_stub_result [OF assms(4)] stub_regs irq_entry_resumed [OF s1(1)] m'(1))
  moreover have "mem ?c x = mem s x" if "x \<notin> stub_words (esp s)" for x
  proof -
    have k: "x \<noteq> esp s - 4 * word_of_nat k" if "k \<in> {1..19}" for k using \<open>x \<notin> stub_words (esp s)\<close> that by (auto simp: stub_words_def)
    from k [of 1] k [of 2] k [of 3] k [of 4] k [of 5] irq_entry_resumed(4) [OF s1(1), of ?n] have "mem ?t x = mem s x" by simp
    with k [of 6] k [of 7] k [of 8] k [of 9] k [of 10] k [of 11] k [of 12] k [of 13] k [of 14] k [of 15] k [of 16] k [of 17] k [of 18] k [of 19]
    show ?thesis by (simp add: push_def stub_save_esp stub_save_mem irq_entry_resumed(3) [OF s1(1)])
  qed
  moreover have "word_of_nat (32 + line) = ?n + 32" by simp
  ultimately show ?thesis using s1 m' by metis
qed

definition handler_code :: "icpu \<Rightarrow> icpu" where
  "handler_code s = s\<lparr>eax := 7, ecx := 0, edx := 9, esp := esp s + 4, eip := mem s (esp s), mem := (mem s)(esp s - 4 := ebp s, esp s - 8 := 99)\<rparr>"

lemma handler_code_ok: "c_handler handler_code"
  by (simp add: c_handler_def handler_code_def regs_words_def)

definition icpu0 :: icpu where
  "icpu0 = \<lparr>eax = 1, ecx = 2, edx = 3, ebx = 4, esp = 0xC0200000, ebp = 0xC0200100, esi = 5, edi = 6, eflags = 0x202, eip = 0xC0104000,
     mem = (\<lambda>_. 0), seg_cs = 0x08, seg_ds = 0x10, seg_es = 0x10, seg_fs = 0x10, seg_gs = 0x10\<rparr>"

theorem irq_stub_transparent_witness:
  "\<exists>m s1 m' t. kernel_init env0 machine0 = Inr m \<and> deliver False (m_desc m) (32 + 1) icpu0 = Inr s1 \<and> eip s1 = e_irq env0 1 \<and>
     irq_routine False (\<lambda>r. serve_irq env0 0 (r_int_no r)) handler_code 0xC0104444 (word_of_nat 1) (s1, m) = Inr (icpu0\<lparr>mem := mem (handler_code t)\<rparr>, m')"
proof -
  obtain m where m: "kernel_init env0 machine0 = Inr m" "machine_inv m" "cpu_ready env0 (m_desc m)"
    using kernel_init_ok [OF machine0_loaded] by blast
  from irq_stub_transparent [OF m(2,3) _ handler_code_ok, of 1 False icpu0 0 "0xC0104444"] m(1) show ?thesis by fastforce
qed

section \<open>Preemption of a thread\<close>

text \<open>
  The timer interrupt leads to \<^verbatim>\<open>resched\<close>, which calls \<^verbatim>\<open>ctxswitch\<close>: the compiled code of the handler consists of what runs before this call
  (\<open>pre\<close>, entered with the frame of the stub above its stack) and what runs when the call returns (\<open>post\<close>). The calling convention: \<open>pre\<close>
  leaves the saved registers alone, and \<open>post\<close> finds its way back by the registers and the stack that \<open>pre\<close> left.
\<close>

definition switch_code :: "(icpu \<Rightarrow> icpu) \<Rightarrow> (icpu \<Rightarrow> icpu) \<Rightarrow> bool" where
  "switch_code pre post \<longleftrightarrow>
     (\<forall>s. \<forall>x \<in> regs_words (esp s + 8). mem (pre s) x = mem s x) \<and>
     (\<forall>s u. esp u = esp (pre s) + 4 \<and> ebp u = ebp (pre s) \<and> ebx u = ebx (pre s) \<and> esi u = esi (pre s) \<and> edi u = edi (pre s) \<longrightarrow>
        esp (post u) = esp s + 4 \<and> (\<forall>x \<in> regs_words (esp s + 8). mem (post u) x = mem u x))"

text \<open>The words on a preempted thread's stack that its return needs.\<close>

definition thread_words :: "icpu \<Rightarrow> icpu \<Rightarrow> addr set" where
  "thread_words c t = frame_words (esp t - 40) \<union> regs_words (esp c + 8)"

text \<open>
  C23. A thread that the timer preempts continues later as if nothing had happened. It is interrupted in \<open>s\<close>; the stub and the handler run on its stack
  up to the call of \<^verbatim>\<open>ctxswitch\<close> in state \<open>t\<close>; other threads run; one of them, in state \<open>s2\<close>, calls \<^verbatim>\<open>ctxswitch\<close> for the stack pointer saved in
  \<open>t\<close>. If the words the thread needs are as they were and \<^verbatim>\<open>ctxswitch\<close> in \<open>s2\<close> does not save on top of them, then the handler returns, and the thread is at
  the interrupted instruction with every register, flag and segment register of \<open>s\<close>.
\<close>

theorem preempted_thread_resumes:
  assumes int: "deliver z d v s = Inr s1" and code: "switch_code pre post"
    and t: "c = push ra (stub_save z (irq_entry n s1))" "t = pre c"
    and own: "frame_words (esp t - 40) \<inter> regs_words (esp c + 8) = {}" and cell: "mem t (esp t + 4) \<notin> thread_words c t"
    and kept: "\<forall>x \<in> thread_words c t. mem s2 x = mem (ctx_save t) x"
    and target: "mem s2 (mem s2 (esp s2 + 8)) = esp t - 40"
    and apart: "save_writes s2 \<inter> (thread_words c t \<union> {esp s2 + 8, mem s2 (esp s2 + 8)}) = {}"
  shows "stub_restore (post (ctxswitch s2)) = s\<lparr>mem := mem (post (ctxswitch s2))\<rparr>"
proof -
  let ?u = "ctxswitch s2"
  have rs: "esp ?u = esp t + 4 \<and> ebp ?u = ebp t \<and> ebx ?u = ebx t \<and> esi ?u = esi t \<and> edi ?u = edi t"
    using ctxswitch_back [of t s2] cell kept target apart unfolding thread_words_def by blast
  have a: "esp s2 + 8 \<notin> save_writes s2" "mem s2 (esp s2 + 8) \<notin> save_writes s2" using apart by auto
  have mu: "mem ?u = mem (ctx_save s2)" unfolding ctxswitch_result [OF a target [symmetric]] by simp
  have st: "save_writes t \<subseteq> insert (mem t (esp t + 4)) (frame_words (esp t - 40))" by (auto simp: save_writes_def frame_words_def)
  have m: "mem ?u x = mem c x" if x: "x \<in> regs_words (esp c + 8)" for x
  proof -
    have "x \<notin> save_writes s2" "x \<in> thread_words c t" "x \<notin> save_writes t" using x apart own cell st by (auto simp: thread_words_def)
    then have "mem ?u x = mem t x" using kept by (simp add: mu ctx_save_other)
    then show ?thesis using code x unfolding switch_code_def t(2) by auto
  qed
  have p: "esp (post ?u) = esp c + 4" "\<forall>x \<in> regs_words (esp c + 8). mem (post ?u) x = mem ?u x"
    using code rs unfolding switch_code_def t(2) by blast+
  let ?t = "irq_entry n s1"
  have "esp (post ?u) = esp ?t - 52" using p(1) call_frame(1) [of ra z ?t] by (simp add: t(1))
  moreover have "\<forall>x \<in> regs_words (esp ?t - 48). mem (post ?u) x = mem (push ra (stub_save z ?t)) x"
    using p(2) m call_frame(2) [of ra z ?t] by (simp add: t(1))
  ultimately have "stub_restore (post ?u) = resumed ?t (post ?u)" by (rule stub_restore_frame)
  then show ?thesis by (simp add: irq_entry_resumed [OF int])
qed

text \<open>
  A handler that reserves sixteen bytes, pushes the addresses 0x500 and 0x600 of the two saved stack pointers and the return address; the
  other thread calls \<^verbatim>\<open>ctxswitch\<close> from a stack at 0x9000 to go back.
\<close>

definition demo_pre :: "icpu \<Rightarrow> icpu" where
  "demo_pre s = s\<lparr>esp := esp s - 28, eax := 9, mem := (mem s)(esp s - 20 := 0x600, esp s - 24 := 0x500, esp s - 28 := 0xC0104700)\<rparr>"

definition demo_post :: "icpu \<Rightarrow> icpu" where
  "demo_post u = u\<lparr>esp := esp u + 28, eip := mem u (esp u + 24)\<rparr>"

lemma demo_code: "switch_code demo_pre demo_post"
  by (simp add: switch_code_def demo_pre_def demo_post_def regs_words_def)

definition demo_call :: icpu where
  "demo_call = push 0xC0104444 (stub_save True (irq_entry 0 (icpu0\<lparr>esp := 0xC01FFFF4, eip := 0xC0101100, eflags := 2,
     mem := (\<lambda>_. 0)(0xC01FFFFC := 0x202, 0xC01FFFF8 := 8, 0xC01FFFF4 := 0xC0104000)\<rparr>)))"

definition demo_other :: icpu where
  "demo_other = icpu0\<lparr>esp := 0x9000, mem := (mem (ctx_save (demo_pre demo_call)))(0x9000 := 0x77, 0x9004 := 0x600, 0x9008 := 0x500)\<rparr>"

lemma demo_frames: "esp demo_call = 0xC01FFFB4" "esp (demo_pre demo_call) = 0xC01FFF98" "mem (demo_pre demo_call) 0xC01FFF9C = 0x500"
  by (simp_all add: demo_call_def demo_pre_def irq_entry_def push_def stub_save_esp stub_save_mem icpu0_def)

theorem preempted_thread_resumes_witness:
  "stub_restore (demo_post (ctxswitch demo_other)) = icpu0\<lparr>mem := mem (demo_post (ctxswitch demo_other))\<rparr>"
proof -
  define d where "d = desc0\<lparr>idt := (idt desc0)[32 := null_idt_entry\<lparr>low_addr := 0x1100, high_addr := 0xC010, selector := 8, type_attr := 0x8E\<rparr>]\<rparr>"
  let ?t = "demo_pre demo_call"
  have g: "gate_of d 32 = Some (8, 0xC0101100)" by (simp add: gate_of_def gate_offset_def d_def desc0_def push_bit_eq_mult)
  have i: "deliver True d 32 icpu0 = Inr (icpu0\<lparr>esp := 0xC01FFFF4, eip := 0xC0101100, eflags := 2,
     mem := (\<lambda>_. 0)(0xC01FFFFC := 0x202, 0xC01FFFF8 := 8, 0xC01FFFF4 := 0xC0104000)\<rparr>)"
    unfolding deliver_result [OF g] by (simp add: icpu0_def seg_word_def)
  have own: "frame_words (esp ?t - 40) \<inter> regs_words (esp demo_call + 8) = {}" by (simp add: demo_frames frame_words_def regs_words_def)
  have cell: "mem ?t (esp ?t + 4) \<notin> thread_words demo_call ?t" by (simp add: demo_frames thread_words_def frame_words_def regs_words_def)
  have kept: "\<forall>x \<in> thread_words demo_call ?t. mem demo_other x = mem (ctx_save ?t) x"
    by (simp add: demo_other_def demo_frames thread_words_def frame_words_def regs_words_def)
  have sp: "mem (ctx_save ?t) 0x500 = esp ?t - 40" by (simp add: ctx_save_mem demo_frames)
  then have target: "mem demo_other (mem demo_other (esp demo_other + 8)) = esp ?t - 40" by (simp add: demo_other_def)
  have apart: "save_writes demo_other \<inter> (thread_words demo_call ?t \<union> {esp demo_other + 8, mem demo_other (esp demo_other + 8)}) = {}"
    by (simp add: save_writes_def demo_other_def demo_frames thread_words_def frame_words_def regs_words_def)
  show ?thesis by (rule preempted_thread_resumes [OF i demo_code demo_call_def refl own cell kept target apart])
qed

section \<open>Software interrupts\<close>

text \<open>The C function \<^verbatim>\<open>_interrupt_handler\<close> on the machine.\<close>

definition isr_report :: "env \<Rightarrow> regs \<Rightarrow> machine \<Rightarrow> machine result" where
  "isr_report e r m = rbind (interrupt_handler (e_stk e) (e_strs e) r (m_con m)) (\<lambda>c. Inr (m\<lparr>m_con := c\<rparr>))"

lemma interrupt_result:
  assumes g: "gate_of d 0x80 = Some (sel, a)" and cc: "c_handler cc"
  shows "\<exists>r u. interrupt z body cc ra ri d (s, m) = rbind (body r m) (\<lambda>m'.
      Inr (s\<lparr>eax := mem s (esp s + 4), esp := esp s + 4, eip := mem s (esp s), mem := mem (cc u)\<rparr>, m')) \<and>
    r_int_no r = mem s (esp s + 4) \<and> r_err_code r = 0 \<and> r_eip r = ri \<and> r_ebp r = ebp s \<and> r_esp r = esp s - 24 \<and> r_eflags r = eflags s \<and>
    (\<forall>x. x \<notin> (\<lambda>k. esp s - 4 * word_of_nat k) ` {1..20} \<longrightarrow> mem u x = mem s x)"
proof -
  let ?n = "mem s (esp s + 4)"
  define t where "t = s\<lparr>eax := ?n, esp := esp s - 24, eip := a, seg_cs := sel, eflags := eflags s AND NOT 0x34300,
     mem := (mem s)(esp s - 4 := ?n, esp s - 8 := eflags s, esp s - 12 := seg_word z (mem s (esp s - 12)) (seg_cs s),
       esp s - 16 := ri, esp s - 20 := 0, esp s - 24 := ?n)\<rparr>"
  let ?c = "push ra (stub_save z t)"
  let ?r = "regs_at (mem (stub_save z t)) (mem (stub_save z t) (esp (stub_save z t)))"
  obtain s1 where s1: "deliver z d 0x80 ((interrupt_raise s)\<lparr>eip := ri\<rparr>) = Inr s1" "no_error_code_entry s1 = t"
    unfolding deliver_result [OF g] by (simp add: interrupt_raise_def no_error_code_entry_def push_def t_def Let_def add.commute [of 4])
  have k: "mem (cc ?c) (esp s - 4) = ?n" "mem (cc ?c) (esp s) = mem s (esp s)"
    by (subst regs_words_kept [OF cc], simp add: regs_words_def t_def, simp add: push_def stub_save_esp stub_save_mem t_def)+
  have e: "interrupt_end (resumed t (cc ?c)) = s\<lparr>eax := ?n, esp := esp s + 4, eip := mem s (esp s), mem := mem (cc ?c)\<rparr>"
    using k by (cases s) (simp add: interrupt_end_def resumed_def pop_def t_def)
  have i: "interrupt z body cc ra ri d (s, m) = rbind (body ?r m) (\<lambda>m'.
      Inr (s\<lparr>eax := ?n, esp := esp s + 4, eip := mem s (esp s), mem := mem (cc ?c)\<rparr>, m'))"
    by (simp add: interrupt_def s1 no_error_code_interrupt_handler_def common_stub_result [OF cc] rbind_def e split: sum.splits)
  have w: "mem ?c x = mem s x" if "x \<notin> (\<lambda>k. esp s - 4 * word_of_nat k) ` {1..20}" for x
  proof -
    have k: "x \<noteq> esp s - 4 * word_of_nat k" if "k \<in> {1..20}" for k using \<open>x \<notin> _ ` _\<close> that by blast
    from k [of 1] k [of 2] k [of 3] k [of 4] k [of 5] k [of 6] have "mem t x = mem s x" by (simp add: t_def)
    with k [of 7] k [of 8] k [of 9] k [of 10] k [of 11] k [of 12] k [of 13] k [of 14] k [of 15] k [of 16] k [of 17] k [of 18] k [of 19] k [of 20]
    show ?thesis by (simp add: push_def stub_save_esp stub_save_mem t_def)
  qed
  have r: "r_int_no ?r = ?n" "r_err_code ?r = 0" "r_eip ?r = ri" "r_ebp ?r = ebp s" "r_esp ?r = esp s - 24" "r_eflags ?r = eflags s"
    unfolding stub_regs by (simp_all add: t_def)
  show ?thesis using i r w by blast
qed

text \<open>
  \<^verbatim>\<open>interrupt(n)\<close> returns to its caller with the registers C code relies on unchanged, and in between exactly one line is
  typed, the report of \<^verbatim>\<open>_interrupt_handler\<close> on a frame that names \<open>n\<close> as the interrupt and 0 as its error code: the argument
  is found through the frame of the call although neither the processor nor \<^verbatim>\<open>int\<close> passes it on.
\<close>

theorem interrupt_reports_number:
  assumes "machine_inv m" "cpu_ready e (m_desc m)" "c_handler cc"
  shows "\<exists>r u c. interrupt z (isr_report e) cc ra ri (m_desc m) (s, m) =
      Inr (s\<lparr>eax := mem s (esp s + 4), esp := esp s + 4, eip := mem s (esp s), mem := mem (cc u)\<rparr>, m\<lparr>m_con := c\<rparr>) \<and>
    r_int_no r = mem s (esp s + 4) \<and> r_err_code r = 0 \<and> r_eip r = ri \<and> r_ebp r = ebp s \<and> r_esp r = esp s - 24 \<and>
    wrote (m_con m) (bytes ''INFO '' @ filled (interrupt_pieces r) [0x0A]) c \<and> machine_inv (m\<lparr>m_con := c\<rparr>)"
proof -
  have g: "gate_of (m_desc m) 0x80 = Some (0x08, e_isr0 e)" using assms(2) by (simp add: cpu_ready_def)
  from interrupt_result [OF g assms(3), of z "isr_report e" ra ri s m] obtain r u where
    r: "interrupt z (isr_report e) cc ra ri (m_desc m) (s, m) = rbind (isr_report e r m) (\<lambda>m'.
      Inr (s\<lparr>eax := mem s (esp s + 4), esp := esp s + 4, eip := mem s (esp s), mem := mem (cc u)\<rparr>, m'))"
    "r_int_no r = mem s (esp s + 4)" "r_err_code r = 0" "r_eip r = ri" "r_ebp r = ebp s" "r_esp r = esp s - 24" by blast
  have "con_inv (m_con m)" using assms(1) by (simp add: machine_inv_def)
  from interrupt_handler_reports [OF this, of "e_stk e" "e_strs e" r] obtain c where
    c: "interrupt_handler (e_stk e) (e_strs e) r (m_con m) = Inr c" "wrote (m_con m) (bytes ''INFO '' @ filled (interrupt_pieces r) [0x0A]) c" by blast
  then have "con_inv c" by (simp add: wrote_def)
  with c r assms(1) show ?thesis by (fastforce simp: isr_report_def machine_inv_def)
qed

end
