(* ===== verification/Memory_Tester.thy ===== *)
theory Memory_Tester
  imports Heap_Bytes Kernel_Random
begin

text \<open>
  The memory self test of the kernel: \<^verbatim>\<open>src/src/kernel/include/kernel/tests/MemoryTester.h\<close>. It allocates and releases blocks at
  random, places guard blocks of 90 letters P between them and finally checks that the guards are intact. The time
  stamp counter behind \<^verbatim>\<open>rand\<close> is a parameter; the messages before an endless loop are left out.
\<close>

section \<open>The test\<close>

record mem_tester =
  mt_heap :: block
  mt_bytes :: bmem
  mt_calls :: nat
  mt_allocs :: "addr list"
  mt_guards :: "addr list"
  mt_guardAllocCount :: int
  mt_allocCount :: int
  mt_iters :: int

definition SIZE :: nat where "SIZE = 100"
definition ITER_COUNT :: nat where "ITER_COUNT = 100000"
definition GUARD_COUNT :: nat where "GUARD_COUNT = 700"
definition GUARD_STRING_SIZE :: nat where "GUARD_STRING_SIZE = 90"

definition MemoryTester_new :: "block \<Rightarrow> bmem \<Rightarrow> nat \<Rightarrow> mem_tester" where
  "MemoryTester_new h bm calls = \<lparr>mt_heap = h, mt_bytes = bm, mt_calls = calls, mt_allocs = replicate SIZE NULL,
     mt_guards = replicate GUARD_COUNT NULL, mt_guardAllocCount = 0, mt_allocCount = 0, mt_iters = 0\<rparr>"

definition mt_rand :: "tsc \<Rightarrow> u64 \<Rightarrow> mem_tester \<Rightarrow> (u32 \<times> mem_tester) result" where
  "mt_rand ts limit st = rbind (rand_at ts (mt_calls st) limit) (\<lambda>r. Inr (r, st\<lparr>mt_calls := mt_calls st + 1\<rparr>))"

text \<open>\<^verbatim>\<open>kmalloc\<close> and \<^verbatim>\<open>kfree\<close> with the bytes of the headers they write.\<close>

definition mt_kmalloc :: "bmem \<Rightarrow> u32 \<Rightarrow> mem_tester \<Rightarrow> (addr \<times> mem_tester) result" where
  "mt_kmalloc enc n st = rbind (kmalloc (mt_heap st) n) (\<lambda>(h, p).
     Inr (p, st\<lparr>mt_heap := h, mt_bytes := header_writes enc (mt_heap st) h (mt_bytes st)\<rparr>))"

definition mt_kfree :: "bmem \<Rightarrow> addr \<Rightarrow> mem_tester \<Rightarrow> mem_tester" where
  "mt_kfree enc p st = st\<lparr>mt_heap := kfree (mt_heap st) p,
     mt_bytes := header_writes enc (mt_heap st) (kfree (mt_heap st) p) (mt_bytes st)\<rparr>"

definition maybeAllocGuard :: "tsc \<Rightarrow> bmem \<Rightarrow> u32 \<Rightarrow> mem_tester \<Rightarrow> mem_tester result" where
  "maybeAllocGuard ts enc thresholdPercent st =
     rbind (mt_rand ts 100 st) (\<lambda>(r, st1).
     if r + 1 > thresholdPercent \<and> mt_guardAllocCount st1 < int GUARD_COUNT then
       let idx = mt_guardAllocCount st1; st2 = st1\<lparr>mt_guardAllocCount := idx + 1\<rparr>
       in rbind (mt_kmalloc enc (word_of_nat (GUARD_STRING_SIZE + 1)) st2) (\<lambda>(p, st3).
          rbind (wr (mt_guards st3) idx p) (\<lambda>gs.
          rbind (put_bytes (mt_heap st3) p (replicate GUARD_STRING_SIZE 0x50) (mt_bytes st3)) (\<lambda>bm1.
          rbind (put_byte (mt_heap st3) p GUARD_STRING_SIZE 0 bm1) (\<lambda>bm2.
          Inr (st3\<lparr>mt_guards := gs, mt_bytes := bm2\<rparr>)))))
     else Inr st1)"

text \<open>The loop that stores a pointer in the first empty slot.\<close>

fun store_first :: "addr \<Rightarrow> addr list \<Rightarrow> addr list" where
  "store_first p [] = []"
| "store_first p (x # xs) = (if x = NULL then p # xs else x # store_first p xs)"

fun mt_allocate :: "tsc \<Rightarrow> bmem \<Rightarrow> nat \<Rightarrow> u32 \<Rightarrow> u32 \<Rightarrow> mem_tester \<Rightarrow> mem_tester result" where
  "mt_allocate ts enc 0 minSize maxSize st = Inr st"
| "mt_allocate ts enc (Suc cnt) minSize maxSize st =
     (let diff = maxSize - minSize
      in if mt_allocCount st \<ge> int SIZE then Inr st
         else rbind (mt_rand ts (ucast diff) st) (\<lambda>(r, st1).
              let numBytes = minSize + r
              in rbind (mt_kmalloc enc numBytes st1) (\<lambda>(p, st2).
                 if p = NULL then Inl Hang
                 else mt_allocate ts enc cnt minSize maxSize
                        (st2\<lparr>mt_allocCount := mt_allocCount st2 + 1, mt_allocs := store_first p (mt_allocs st2)\<rparr>))))"

text \<open>The loop of \<^verbatim>\<open>free\<close> that draws indices until it hits a used slot.\<close>

partial_function (option) pick_slot :: "tsc \<Rightarrow> addr list \<Rightarrow> nat \<Rightarrow> ((int \<times> nat) result) option" where
  "pick_slot ts slots calls =
     (case rbind (rand_at ts calls 100) (\<lambda>idx. rbind (rd slots (uint idx)) (\<lambda>p. Inr (idx, p))) of
        Inl e \<Rightarrow> Some (Inl e)
      | Inr (idx, p) \<Rightarrow> if p \<noteq> NULL then Some (Inr (uint idx, calls + 1)) else pick_slot ts slots (calls + 1))"

fun mt_free :: "tsc \<Rightarrow> bmem \<Rightarrow> nat \<Rightarrow> mem_tester \<Rightarrow> mem_tester result" where
  "mt_free ts enc 0 st = Inr st"
| "mt_free ts enc (Suc cnt) st =
     (if mt_allocCount st = 0 then Inr st
      else rbind (case pick_slot ts (mt_allocs st) (mt_calls st) of None \<Rightarrow> Inl Hang | Some r \<Rightarrow> r) (\<lambda>(idx, calls).
           let st1 = st\<lparr>mt_calls := calls\<rparr>
           in rbind (rd (mt_allocs st1) idx) (\<lambda>p.
              let st2 = mt_kfree enc p st1
              in rbind (wr (mt_allocs st2) idx NULL) (\<lambda>as.
                 mt_free ts enc cnt (st2\<lparr>mt_allocs := as, mt_allocCount := mt_allocCount st2 - 1\<rparr>)))))"

text \<open>One round of \<^verbatim>\<open>test\<close>.\<close>

definition mt_round :: "tsc \<Rightarrow> bmem \<Rightarrow> mem_tester \<Rightarrow> mem_tester result" where
  "mt_round ts enc st =
     rbind (mt_rand ts 10 st) (\<lambda>(r, st1).
     let likelihood = r + 1; st2 = st1\<lparr>mt_iters := mt_iters st1 + 1\<rparr>
     in if likelihood > 3 then
          rbind (mt_rand ts 7 st2) (\<lambda>(c, st3).
          rbind (mt_allocate ts enc (unat (c + 1)) 3 34 st3) (\<lambda>st4.
          if mt_iters st4 mod 100 = 0 then maybeAllocGuard ts enc 30 st4 else Inr st4))
        else
          rbind (mt_rand ts 3 st2) (\<lambda>(_, st3).
          rbind (mt_free ts enc 1 st3) (\<lambda>st4.
          if mt_iters st4 mod 200 = 0 then maybeAllocGuard ts enc 20 st4 else Inr st4)))"

fun mt_rounds :: "tsc \<Rightarrow> bmem \<Rightarrow> nat \<Rightarrow> mem_tester \<Rightarrow> mem_tester result" where
  "mt_rounds ts enc 0 st = Inr st"
| "mt_rounds ts enc (Suc n) st = rbind (mt_round ts enc st) (mt_rounds ts enc n)"

text \<open>Whether the bytes from index \<open>j\<close> on of a guard are as they were written.\<close>

fun guard_intact :: "block \<Rightarrow> bmem \<Rightarrow> addr \<Rightarrow> nat list \<Rightarrow> bool result" where
  "guard_intact h bm g [] = rbind (get_byte h g GUARD_STRING_SIZE bm) (\<lambda>c. Inr (c = 0))"
| "guard_intact h bm g (j # js) = rbind (get_byte h g j bm) (\<lambda>c. if c \<noteq> 0x50 then Inr False else guard_intact h bm g js)"

fun check_guards :: "mem_tester \<Rightarrow> nat list \<Rightarrow> bool result" where
  "check_guards st [] = Inr True"
| "check_guards st (i # is) =
     rbind (rd (mt_guards st) (int i)) (\<lambda>g.
     rbind (guard_intact (mt_heap st) (mt_bytes st) g [0..<GUARD_STRING_SIZE]) (\<lambda>good.
     if good then check_guards st is else Inr False))"

definition checkGuards :: "mem_tester \<Rightarrow> bool result" where
  "checkGuards st = check_guards st [0..<nat (mt_guardAllocCount st)]"

definition memory_test :: "tsc \<Rightarrow> bmem \<Rightarrow> mem_tester \<Rightarrow> mem_tester result" where
  "memory_test ts enc st =
     rbind (mt_rounds ts enc ITER_COUNT st) (\<lambda>st'.
     rbind (checkGuards st') (\<lambda>good. if good then Inr st' else Inl Hang))"

section \<open>The invariant of the test\<close>

definition mt_blocks :: "mem_tester \<Rightarrow> addr list" where
  "mt_blocks st = filter (\<lambda>p. p \<noteq> NULL) (mt_allocs st)"

definition mt_guarded :: "mem_tester \<Rightarrow> addr list" where
  "mt_guarded st = take (nat (mt_guardAllocCount st)) (mt_guards st)"

definition guard_string :: "u8 list" where
  "guard_string = replicate GUARD_STRING_SIZE 0x50 @ [0]"

text \<open>\<open>L\<close> are the blocks that were in use before the test, with the content \<open>bm0\<close>.\<close>

definition mt_inv :: "(addr \<rightharpoonup> nat) \<Rightarrow> bmem \<Rightarrow> mem_tester \<Rightarrow> bool" where
  "mt_inv L bm0 st \<longleftrightarrow> heap_inv (mt_heap st) \<and> length (mt_allocs st) = SIZE \<and> length (mt_guards st) = GUARD_COUNT \<and>
     0 \<le> mt_guardAllocCount st \<and> mt_guardAllocCount st \<le> int GUARD_COUNT \<and> mt_allocCount st = int (length (mt_blocks st)) \<and>
     distinct (mt_blocks st @ mt_guarded st) \<and>
     (\<forall>a \<in> set (mt_blocks st @ mt_guarded st). live (mt_heap st) a \<noteq> None \<and> L a = None) \<and>
     (\<forall>a \<in> set (mt_guarded st). \<exists>s > GUARD_STRING_SIZE. live (mt_heap st) a = Some s \<and> bytes_at (mt_bytes st) a (GUARD_STRING_SIZE + 1) = guard_string) \<and>
     (\<forall>a s. L a = Some s \<longrightarrow> live (mt_heap st) a = Some s \<and> bytes_at (mt_bytes st) a s = bytes_at bm0 a s)"

lemma mt_inv_frame:
  assumes "mt_inv L bm0 st" "mt_heap st' = mt_heap st" "mt_bytes st' = mt_bytes st" "mt_allocs st' = mt_allocs st"
    "mt_guards st' = mt_guards st" "mt_guardAllocCount st' = mt_guardAllocCount st" "mt_allocCount st' = mt_allocCount st"
  shows "mt_inv L bm0 st'"
  using assms by (simp add: mt_inv_def mt_blocks_def mt_guarded_def)

text \<open>Only the block at \<open>p\<close> comes or goes.\<close>

lemma mt_inv_change:
  assumes inv: "mt_inv L bm0 st" and hi: "heap_inv (mt_heap st')" and Lp: "L p = None"
    and keep: "\<And>a r k. live (mt_heap st) a = Some r \<Longrightarrow> a \<noteq> p \<Longrightarrow> k \<le> r \<Longrightarrow>
      live (mt_heap st') a = Some r \<and> bytes_at (mt_bytes st') a k = bytes_at (mt_bytes st) a k"
    and old: "\<And>a. a \<in> set (mt_guarded st') \<Longrightarrow> a \<noteq> p \<Longrightarrow> a \<in> set (mt_guarded st)"
      "\<And>a. a \<in> set (mt_blocks st') \<Longrightarrow> a \<noteq> p \<Longrightarrow> a \<in> set (mt_blocks st)"
    and new: "p \<in> set (mt_guarded st') \<Longrightarrow> \<exists>s > GUARD_STRING_SIZE. live (mt_heap st') p = Some s \<and> bytes_at (mt_bytes st') p (GUARD_STRING_SIZE + 1) = guard_string"
      "p \<notin> set (mt_blocks st')"
    and size: "length (mt_allocs st') = SIZE" "length (mt_guards st') = GUARD_COUNT" "0 \<le> mt_guardAllocCount st'" "mt_guardAllocCount st' \<le> int GUARD_COUNT"
      "mt_allocCount st' = int (length (mt_blocks st'))" "distinct (mt_blocks st' @ mt_guarded st')"
  shows "mt_inv L bm0 st'"
proof -
  have "\<exists>s > GUARD_STRING_SIZE. live (mt_heap st') a = Some s \<and> bytes_at (mt_bytes st') a (GUARD_STRING_SIZE + 1) = guard_string"
    if g: "a \<in> set (mt_guarded st')" for a
  proof (cases "a = p")
    case False
    obtain r where r: "GUARD_STRING_SIZE < r" "live (mt_heap st) a = Some r" "bytes_at (mt_bytes st) a (GUARD_STRING_SIZE + 1) = guard_string"
      using inv old(1) [OF g False] unfolding mt_inv_def by blast
    with keep [OF r(2) False, of "GUARD_STRING_SIZE + 1"] show ?thesis by auto
  qed (use new(1) g in blast)
  moreover have "live (mt_heap st') a = Some r \<and> bytes_at (mt_bytes st') a r = bytes_at bm0 a r" if "L a = Some r" for a r
  proof -
    have "live (mt_heap st) a = Some r" "bytes_at (mt_bytes st) a r = bytes_at bm0 a r" using inv that unfolding mt_inv_def by blast+
    with keep [of a r r] that Lp show ?thesis by (cases "a = p") auto
  qed
  moreover have "live (mt_heap st') a \<noteq> None \<and> L a = None" if a: "a \<in> set (mt_blocks st' @ mt_guarded st')" for a
  proof (cases "a = p")
    case False
    with a old have "a \<in> set (mt_blocks st @ mt_guarded st)" by auto
    then have "live (mt_heap st) a \<noteq> None" "L a = None" using inv unfolding mt_inv_def by blast+
    then show ?thesis using keep [OF _ False, of _ 0] by auto
  qed (use new a Lp in auto)
  ultimately show ?thesis using hi size unfolding mt_inv_def by blast
qed

lemma mt_rand_ok:
  assumes "mt_inv L bm0 st" "0 < n" "n \<le> 2 ^ 32"
  shows "\<exists>r. mt_rand ts (word_of_nat n) st = Inr (r, st\<lparr>mt_calls := mt_calls st + 1\<rparr>) \<and> unat r < n \<and>
    mt_inv L bm0 (st\<lparr>mt_calls := mt_calls st + 1\<rparr>)"
  using rand_at_value [OF assms(2,3), of ts "mt_calls st"] mt_inv_frame [OF assms(1), of "st\<lparr>mt_calls := mt_calls st + 1\<rparr>"] assms(2)
  by (auto simp: mt_rand_def)

lemma mt_kmalloc_ok:
  assumes inv: "mt_inv L bm0 st" and n: "unat n + 24 < slack (mt_heap st)"
  shows "\<exists>p h bm s. mt_kmalloc enc n st = Inr (p, st\<lparr>mt_heap := h, mt_bytes := bm\<rparr>) \<and> mt_inv L bm0 (st\<lparr>mt_heap := h, mt_bytes := bm\<rparr>) \<and>
    p \<noteq> NULL \<and> L p = None \<and> p \<notin> set (mt_blocks st @ mt_guarded st) \<and> live h p = Some s \<and> unat n \<le> s \<and>
    slack (mt_heap st) \<le> slack h + unat n + 16 \<and> kmalloc (mt_heap st) n = Inr (h, p) \<and> bm = header_writes enc (mt_heap st) h (mt_bytes st)"
proof -
  have hi: "heap_inv (mt_heap st)" using inv by (simp add: mt_inv_def)
  from kmalloc_slack [OF hi n] obtain h p s where h: "kmalloc (mt_heap st) n = Inr (h, p)" "heap_inv h" "p \<noteq> NULL"
    "live (mt_heap st) p = None" "live h = (live (mt_heap st))(p \<mapsto> s)" "unat n \<le> s" "slack (mt_heap st) \<le> slack h + unat n + 16" by blast
  define bm where "bm = header_writes enc (mt_heap st) h (mt_bytes st)"
  have keep: "bytes_at bm a k = bytes_at (mt_bytes st) a k" if "live (mt_heap st) a = Some r" "k \<le> r" for a r k
    unfolding bm_def by (rule kmalloc_content [OF hi n h(1) that])
  have "live (mt_heap st) a \<noteq> None" if "a \<in> set (mt_blocks st @ mt_guarded st)" for a using inv that unfolding mt_inv_def by blast
  then have fresh: "p \<notin> set (mt_blocks st @ mt_guarded st)" "L p = None" using inv h(4) by (blast, fastforce simp: mt_inv_def)
  let ?st = "st\<lparr>mt_heap := h, mt_bytes := bm\<rparr>"
  have same: "mt_blocks ?st = mt_blocks st" "mt_guarded ?st = mt_guarded st" by (simp_all add: mt_blocks_def mt_guarded_def)
  have "\<exists>s > GUARD_STRING_SIZE. live h a = Some s \<and> bytes_at bm a (GUARD_STRING_SIZE + 1) = guard_string" if g: "a \<in> set (mt_guarded st)" for a
  proof -
    obtain r where r: "GUARD_STRING_SIZE < r" "live (mt_heap st) a = Some r" "bytes_at (mt_bytes st) a (GUARD_STRING_SIZE + 1) = guard_string"
      using inv g unfolding mt_inv_def by blast
    with keep [OF r(2), of "GUARD_STRING_SIZE + 1"] h(4,5) show ?thesis by auto
  qed
  moreover have "live h a = Some r \<and> bytes_at bm a r = bytes_at bm0 a r" if "L a = Some r" for a r
  proof -
    have "live (mt_heap st) a = Some r" "bytes_at (mt_bytes st) a r = bytes_at bm0 a r" using inv that unfolding mt_inv_def by blast+
    with keep [of a r r] h(4,5) show ?thesis by auto
  qed
  moreover have "live h a \<noteq> None \<and> L a = None" if "a \<in> set (mt_blocks st @ mt_guarded st)" for a
    using inv that h(5) unfolding mt_inv_def by auto
  ultimately have "mt_inv L bm0 ?st" using inv h(2) unfolding mt_inv_def same by simp
  moreover have "mt_kmalloc enc n st = Inr (p, st\<lparr>mt_heap := h, mt_bytes := bm\<rparr>)" by (simp add: mt_kmalloc_def h(1) bm_def)
  moreover have "live h p = Some s" by (simp add: h(5))
  ultimately show ?thesis using h(1,3,6,7) fresh bm_def by blast
qed

section \<open>The steps keep the invariant\<close>

lemma blocks_store_first:
  "\<exists>x \<in> set xs. x = NULL \<Longrightarrow> p \<noteq> NULL \<Longrightarrow>
   mset (filter (\<lambda>p. p \<noteq> NULL) (store_first p xs)) = add_mset p (mset (filter (\<lambda>p. p \<noteq> NULL) xs))"
  by (induction xs) auto

lemma has_empty: "length (filter (\<lambda>p. p \<noteq> NULL) xs) < length xs \<Longrightarrow> NULL \<in> set xs"
  by (induction xs) (auto split: if_splits)

lemma length_store_first [simp]: "length (store_first p xs) = length xs"
  by (induction xs) auto

lemma mt_inv_add_block:
  assumes inv: "mt_inv L bm0 st" and p: "p \<noteq> NULL" "L p = None" "p \<notin> set (mt_blocks st @ mt_guarded st)" "live (mt_heap st) p \<noteq> None"
    and room: "mt_allocCount st < int SIZE"
  shows "mt_inv L bm0 (st\<lparr>mt_allocCount := mt_allocCount st + 1, mt_allocs := store_first p (mt_allocs st)\<rparr>)" (is "mt_inv _ _ ?st")
proof -
  have "length (mt_blocks st) < length (mt_allocs st)" using inv room by (simp add: mt_inv_def)
  then have "\<exists>x \<in> set (mt_allocs st). x = NULL" 
    using has_empty by (auto simp: mt_blocks_def)
  from blocks_store_first [OF this p(1)] have m: "mset (mt_blocks ?st) = add_mset p (mset (mt_blocks st))" by (simp add: mt_blocks_def)
  have "set (mt_blocks ?st) = insert p (set (mt_blocks st))" "length (mt_blocks ?st) = Suc (length (mt_blocks st))"
    using arg_cong [OF m, of set_mset] arg_cong [OF m, of size] by simp_all
  moreover have "distinct (mt_blocks ?st)"
    using mset_eq_imp_distinct_iff [of "mt_blocks ?st" "p # mt_blocks st"] m inv p(3) by (simp add: mt_inv_def)
  moreover have "mt_guarded ?st = mt_guarded st" by (simp add: mt_guarded_def)
  ultimately show ?thesis using inv p unfolding mt_inv_def by simp
qed

lemma mt_allocate_ok:
  assumes "mt_inv L bm0 st" "49 * cnt + 9 < slack (mt_heap st)"
  shows "\<exists>st'. mt_allocate ts enc cnt 3 34 st = Inr st' \<and> mt_inv L bm0 st' \<and> slack (mt_heap st) \<le> slack (mt_heap st') + 49 * cnt"
  using assms
proof (induction cnt arbitrary: st)
  case (Suc cnt)
  show ?case
  proof (cases "mt_allocCount st \<ge> int SIZE")
    case False
    have "(0::nat) < 31" "(31::nat) \<le> 2 ^ 32" by simp_all
    from mt_rand_ok [OF Suc.prems(1) this, of ts] obtain r where
      r: "mt_rand ts 31 st = Inr (r, st\<lparr>mt_calls := mt_calls st + 1\<rparr>)" "unat r < 31" "mt_inv L bm0 (st\<lparr>mt_calls := mt_calls st + 1\<rparr>)" by auto
    let ?st = "st\<lparr>mt_calls := mt_calls st + 1\<rparr>"
    have u: "unat (3 + r) = 3 + unat r" using r(2) by (simp add: unat_plus_if_size word_size)
    have "unat (3 + r) + 24 < slack (mt_heap ?st)" using Suc.prems(2) r(2) u by simp
    from mt_kmalloc_ok [OF r(3) this, of enc] obtain p h bm s where k: "mt_kmalloc enc (3 + r) ?st = Inr (p, ?st\<lparr>mt_heap := h, mt_bytes := bm\<rparr>)"
      "mt_inv L bm0 (?st\<lparr>mt_heap := h, mt_bytes := bm\<rparr>)" "p \<noteq> NULL" "L p = None" "p \<notin> set (mt_blocks ?st @ mt_guarded ?st)"
      "live h p = Some s" "slack (mt_heap st) \<le> slack h + unat (3 + r) + 16" by auto
    let ?st1 = "?st\<lparr>mt_heap := h, mt_bytes := bm\<rparr>"
    let ?st2 = "?st1\<lparr>mt_allocCount := mt_allocCount ?st1 + 1, mt_allocs := store_first p (mt_allocs ?st1)\<rparr>"
    have i2: "mt_inv L bm0 ?st2"
      by (rule mt_inv_add_block [OF k(2-4)]) (use k False in \<open>auto simp: mt_blocks_def mt_guarded_def\<close>)
    have "49 * cnt + 9 < slack (mt_heap ?st2)" using Suc.prems(2) k(7) u r(2) by simp
    from Suc.IH [OF i2 this] obtain st' where st': "mt_allocate ts enc cnt 3 34 ?st2 = Inr st'" "mt_inv L bm0 st'"
      "slack h \<le> slack (mt_heap st') + 49 * cnt" by auto
    have "mt_allocate ts enc (Suc cnt) 3 34 st = mt_allocate ts enc cnt 3 34 ?st2"
      using False r(1) k(1,3) by (simp add: Let_def)
    with st' k(7) u r(2) show ?thesis by auto
  qed (use Suc.prems in simp)
qed simp

lemma pick_slot_hits:
  assumes len: "length slots = 100" and f: "fair ts 100" and used: "\<exists>x \<in> set slots. x \<noteq> NULL"
  shows "\<exists>i calls'. pick_slot ts slots calls = Some (Inr (int i, calls')) \<and> i < 100 \<and> slots ! i \<noteq> NULL"
proof -
  obtain j where j: "j < 100" "slots ! j \<noteq> NULL" using used len by (metis in_set_conv_nth)
  then obtain q where q: "calls \<le> q" "stamp ts q mod 100 = j" using f unfolding fair_def by blast
  from q(1) show ?thesis
  proof (induction "q - calls" arbitrary: calls rule: less_induct)
    case less
    have "(0::nat) < 100" "(100::nat) \<le> 2 ^ 32" by simp_all
    from rand_at_value [OF this, of ts calls] obtain r where r: "rand_at ts calls 100 = Inr r" "unat r = stamp ts calls mod 100" by auto
    have lt: "unat r < 100" using r(2) by simp
    have "rd slots (int (unat r)) = Inr (slots ! unat r)" using lt len by (intro rd_nat) simp
    then have step: "pick_slot ts slots calls = (if slots ! unat r \<noteq> NULL then Some (Inr (int (unat r), calls + 1)) else pick_slot ts slots (calls + 1))"
      using r(1) by (subst pick_slot.simps) simp
    show ?case
    proof (cases "slots ! unat r \<noteq> NULL")
      case False
      then have "calls \<noteq> q" using j(2) q(2) r(2) by auto
      with less.prems have "q - (calls + 1) < q - calls" "calls + 1 \<le> q" by auto
      from less.hyps [OF this] False step show ?thesis by simp
    qed (use step lt in \<open>auto intro!: exI [of _ "unat r"]\<close>)
  qed
qed

text \<open>Whatever the clock does: a search that ends has found a used slot.\<close>

lemma pick_slot_found:
  assumes "pick_slot ts slots calls = Some y" "length slots = 100"
  shows "\<exists>i calls'. y = Inr (int i, calls') \<and> i < 100 \<and> slots ! i \<noteq> NULL"
proof -
  from assms(1) have "length slots = 100 \<longrightarrow> (\<exists>i calls'. y = Inr (int i, calls') \<and> i < 100 \<and> slots ! i \<noteq> NULL)"
  proof (rule pick_slot.raw_induct [rotated], goal_cases)
    case (1 f ts slots calls y)
    show ?case
    proof
      assume len: "length slots = 100"
      have "(0::nat) < 100" "(100::nat) \<le> 2 ^ 32" by simp_all
      from rand_at_value [OF this, of ts calls] obtain r where r: "rand_at ts calls 100 = Inr r" "unat r < 100" by auto
      have "rd slots (int (unat r)) = Inr (slots ! unat r)" using r(2) len by (intro rd_nat) simp
      with 1(2) r(1) have "(if slots ! unat r \<noteq> NULL then Some (Inr (int (unat r), calls + 1)) else f ts slots (calls + 1)) = Some y"
        by (simp split: if_splits)
      with 1(1) len r(2) show "\<exists>i calls'. y = Inr (int i, calls') \<and> i < 100 \<and> slots ! i \<noteq> NULL"
        by (cases "slots ! unat r = NULL") (auto intro!: exI [where x = "unat r" and P = "\<lambda>i. uint r = int i \<and> _ i"])
    qed
  qed
  with assms(2) show ?thesis by blast
qed

lemma filter_update:
  assumes "i < length xs" "xs ! i \<noteq> NULL"
  shows "mset (filter (\<lambda>p. p \<noteq> NULL) xs) = add_mset (xs ! i) (mset (filter (\<lambda>p. p \<noteq> NULL) (xs[i := NULL])))"
proof -
  have xs: "xs = take i xs @ xs ! i # drop (Suc i) xs" using assms(1) by (rule id_take_nth_drop)
  have "mset (filter (\<lambda>p. p \<noteq> NULL) (take i xs @ xs ! i # drop (Suc i) xs)) =
      add_mset (xs ! i) (mset (filter (\<lambda>p. p \<noteq> NULL) (take i xs @ NULL # drop (Suc i) xs)))" using assms(2) by simp
  then show ?thesis using xs assms(1) by (simp add: upd_conv_take_nth_drop)
qed

lemma mt_free_one:
  assumes inv: "mt_inv L bm0 st"
  shows "(\<exists>st'. mt_free ts enc 1 st = Inr st' \<and> mt_inv L bm0 st' \<and> slack (mt_heap st) \<le> slack (mt_heap st')) \<or>
    (mt_free ts enc 1 st = Inl Hang \<and> \<not> fair ts 100)"
proof (cases "mt_allocCount st = 0 \<or> pick_slot ts (mt_allocs st) (mt_calls st) = None")
  case False
  have len: "length (mt_allocs st) = 100" using inv by (simp add: mt_inv_def SIZE_def)
  obtain i calls where
    i: "pick_slot ts (mt_allocs st) (mt_calls st) = Some (Inr (int i, calls))" "i < 100" "mt_allocs st ! i \<noteq> NULL"
    using False pick_slot_found [OF _ len, of ts "mt_calls st"] by auto
  define p where "p = mt_allocs st ! i"
  define st' where "st' = (mt_kfree enc p (st\<lparr>mt_calls := calls\<rparr>))\<lparr>mt_allocs := (mt_allocs st)[i := NULL], mt_allocCount := mt_allocCount st - 1\<rparr>"
  have m: "mset (mt_blocks st) = add_mset p (mset (mt_blocks st'))"
    using filter_update [of i "mt_allocs st"] i len by (simp add: mt_blocks_def st'_def p_def)
  have bl: "set (mt_blocks st) = insert p (set (mt_blocks st'))" "length (mt_blocks st) = Suc (length (mt_blocks st'))"
    using arg_cong [OF m, of set_mset] arg_cong [OF m, of size] by simp_all
  have dist: "distinct (mt_blocks st')" "p \<notin> set (mt_blocks st')"
    using mset_eq_imp_distinct_iff [of "mt_blocks st" "p # mt_blocks st'"] m inv by (auto simp: mt_inv_def)
  have gd: "mt_guarded st' = mt_guarded st" by (simp add: mt_guarded_def st'_def mt_kfree_def)
  have pin: "p \<in> set (mt_blocks st @ mt_guarded st)" using bl(1) by simp
  then obtain s where s: "live (mt_heap st) p = Some s" and Lp: "L p = None" using inv unfolding mt_inv_def by fast
  have hi: "heap_inv (mt_heap st)" using inv by (simp add: mt_inv_def)
  have h': "mt_heap st' = kfree (mt_heap st) p" by (simp add: st'_def mt_kfree_def)
  have fr: "heap_inv (mt_heap st')" "live (mt_heap st') = (live (mt_heap st))(p := None)" "slack (mt_heap st) \<le> slack (mt_heap st')"
    using kfree_live [OF hi s] by (simp_all add: h')
  have keep: "bytes_at (mt_bytes st') a k = bytes_at (mt_bytes st) a k" if "live (mt_heap st) a = Some r" "a \<noteq> p" "k \<le> r" for a r k
    using kfree_content [OF hi s that] by (simp add: st'_def mt_kfree_def)
  have npg: "p \<notin> set (mt_guarded st)" using inv bl(1) by (auto simp: mt_inv_def)
  have "mt_inv L bm0 st'"
  proof (rule mt_inv_change [OF inv fr(1) Lp])
    show "live (mt_heap st') a = Some r \<and> bytes_at (mt_bytes st') a k = bytes_at (mt_bytes st) a k"
      if "live (mt_heap st) a = Some r" "a \<noteq> p" "k \<le> r" for a r k using that keep fr(2) by simp
    show "distinct (mt_blocks st' @ mt_guarded st')" using inv dist bl(1) by (auto simp: mt_inv_def gd)
    show "0 \<le> mt_guardAllocCount st'" "mt_guardAllocCount st' \<le> int GUARD_COUNT" "length (mt_allocs st') = SIZE"
      "length (mt_guards st') = GUARD_COUNT" "mt_allocCount st' = int (length (mt_blocks st'))"
      using inv bl(2) by (simp_all add: st'_def mt_inv_def mt_kfree_def)
  qed (use npg gd dist(2) bl(1) in auto)
  moreover have "rd (mt_allocs st) (int i) = Inr p" "wr (mt_allocs st) (int i) NULL = Inr ((mt_allocs st)[i := NULL])"
    using i(2) len by (simp_all add: p_def rd_nat wr_nat)
  then have "mt_free ts enc 1 st = Inr st'" using False i(1) by (simp add: st'_def mt_kfree_def One_nat_def)
  ultimately show ?thesis using fr(3) by blast
next
  case True
  show ?thesis
  proof (cases "mt_allocCount st = 0")
    case False
    with True have n: "pick_slot ts (mt_allocs st) (mt_calls st) = None" by simp
    have len: "length (mt_allocs st) = 100" using inv by (simp add: mt_inv_def SIZE_def)
    have "mt_blocks st \<noteq> []" using False inv by (auto simp: mt_inv_def)
    then have "\<exists>x \<in> set (mt_allocs st). x \<noteq> NULL" by (auto simp: mt_blocks_def filter_empty_conv)
    from pick_slot_hits [OF len _ this, of ts "mt_calls st"] n have "\<not> fair ts 100" by auto
    with n False show ?thesis by (simp add: One_nat_def)
  qed (use inv in \<open>simp add: One_nat_def\<close>)
qed

lemma maybeAllocGuard_ok:
  assumes inv: "mt_inv L bm0 st" and sl: "115 < slack (mt_heap st)"
  shows "\<exists>st'. maybeAllocGuard ts enc thr st = Inr st' \<and> mt_inv L bm0 st' \<and> slack (mt_heap st) \<le> slack (mt_heap st') + 107"
proof -
  let ?st1 = "st\<lparr>mt_calls := mt_calls st + 1\<rparr>"
  have "(0::nat) < 100" "(100::nat) \<le> 2 ^ 32" by simp_all
  from mt_rand_ok [OF inv this, of ts] obtain r where r: "mt_rand ts 100 st = Inr (r, ?st1)" "mt_inv L bm0 ?st1" by auto
  show ?thesis
  proof (cases "r + 1 > thr \<and> mt_guardAllocCount ?st1 < int GUARD_COUNT")
    case False
    then have "maybeAllocGuard ts enc thr st = Inr ?st1" using r(1) by (auto simp: maybeAllocGuard_def)
    then show ?thesis using r(2) by simp
  next
    case True
    define g where "g = nat (mt_guardAllocCount st)"
    have g: "mt_guardAllocCount st = int g" "g < GUARD_COUNT" using inv True by (auto simp: g_def mt_inv_def)
    have glen: "length (mt_guards st) = GUARD_COUNT" using inv by (simp add: mt_inv_def)
    have "unat (91 :: u32) + 24 < slack (mt_heap ?st1)" using sl by simp
    from mt_kmalloc_ok [OF r(2) this, of enc] obtain p h bm s where k: "mt_kmalloc enc 91 ?st1 = Inr (p, ?st1\<lparr>mt_heap := h, mt_bytes := bm\<rparr>)"
      "mt_inv L bm0 (?st1\<lparr>mt_heap := h, mt_bytes := bm\<rparr>)" "L p = None" "p \<notin> set (mt_blocks st @ mt_guarded st)"
      "live h p = Some s" "91 \<le> s" "slack (mt_heap st) \<le> slack h + 107" "kmalloc (mt_heap st) 91 = Inr (h, p)"
      "bm = header_writes enc (mt_heap st) h (mt_bytes st)" by (auto simp: mt_blocks_def mt_guarded_def)
    have hi: "heap_inv h" using k(2) by (simp add: mt_inv_def)
    have "length (replicate GUARD_STRING_SIZE (0x50 :: u8)) \<le> s" using k(6) by (simp add: GUARD_STRING_SIZE_def)
    from put_bytes_ok [OF hi k(5) this, of bm] obtain bm1 where b1: "put_bytes h p (replicate GUARD_STRING_SIZE 0x50) bm = Inr bm1"
      "bytes_at bm1 p GUARD_STRING_SIZE = replicate GUARD_STRING_SIZE 0x50"
      "\<forall>b r k. live h b = Some r \<and> b \<noteq> p \<and> k \<le> r \<longrightarrow> bytes_at bm1 b k = bytes_at bm b k" by auto
    have "GUARD_STRING_SIZE < s" using k(6) by (simp add: GUARD_STRING_SIZE_def)
    from put_byte_ok [OF hi k(5) this, of 0 bm1] obtain bm2 where b2: "put_byte h p GUARD_STRING_SIZE 0 bm1 = Inr bm2"
      "bytes_at bm2 p (Suc GUARD_STRING_SIZE) = guard_string"
      "\<forall>b r k. live h b = Some r \<and> b \<noteq> p \<and> k \<le> r \<longrightarrow> bytes_at bm2 b k = bytes_at bm1 b k" by (auto simp: guard_string_def b1(2))
    have keep: "bytes_at bm2 b n = bytes_at bm b n" if "live h b = Some r" "b \<noteq> p" "n \<le> r" for b r n using b1(3) b2(3) that by simp
    define st' where "st' = ?st1\<lparr>mt_heap := h, mt_bytes := bm2, mt_guardAllocCount := int g + 1, mt_guards := (mt_guards st)[g := p]\<rparr>"
    have fields: "mt_heap st' = h" "mt_bytes st' = bm2" "mt_blocks st' = mt_blocks st" "mt_allocCount st' = mt_allocCount st"
        "mt_allocs st' = mt_allocs st" "length (mt_guards st') = GUARD_COUNT" "mt_guardAllocCount st' = int g + 1"
      using glen by (simp_all add: st'_def mt_blocks_def)
    have gd: "mt_guarded st' = mt_guarded st @ [p]"
      using g glen by (simp add: mt_guarded_def st'_def nat_add_distrib take_Suc_conv_app_nth)
    have bg: "mt_blocks (?st1\<lparr>mt_heap := h, mt_bytes := bm\<rparr>) = mt_blocks st" "mt_guarded (?st1\<lparr>mt_heap := h, mt_bytes := bm\<rparr>) = mt_guarded st"
      by (simp_all add: mt_blocks_def mt_guarded_def)
    have "mt_inv L bm0 st'"
    proof (rule mt_inv_change [OF k(2) _ k(3)])
      show "\<exists>s > GUARD_STRING_SIZE. live (mt_heap st') p = Some s \<and> bytes_at (mt_bytes st') p (GUARD_STRING_SIZE + 1) = guard_string"
        using k(5) \<open>GUARD_STRING_SIZE < s\<close> b2(2) by (simp add: fields)
      show "distinct (mt_blocks st' @ mt_guarded st')" using k(4) inv unfolding mt_inv_def fields gd by auto
      show "0 \<le> mt_guardAllocCount st'" "mt_guardAllocCount st' \<le> int GUARD_COUNT" "length (mt_allocs st') = SIZE"
        "length (mt_guards st') = GUARD_COUNT" "mt_allocCount st' = int (length (mt_blocks st'))"
        using inv g(2) by (simp_all add: mt_inv_def fields)
    qed (use hi keep gd k(4) in \<open>auto simp: bg [simplified] fields\<close>)
    moreover have "wr (mt_guards st) (int g) p = Inr ((mt_guards st)[g := p])" using g glen by (simp add: wr_nat)
    then have "maybeAllocGuard ts enc thr st = Inr st'"
      using True r(1) k(8) g(1) b1(1) b2(1) unfolding k(9)
      by (simp add: maybeAllocGuard_def Let_def GUARD_STRING_SIZE_def mt_kmalloc_def st'_def)
    ultimately show ?thesis using k(7) fields(1) by auto
  qed
qed

lemma mt_round_ok:
  assumes inv: "mt_inv L bm0 st" and sl: "460 < slack (mt_heap st)"
  shows "(\<exists>st'. mt_round ts enc st = Inr st' \<and> mt_inv L bm0 st' \<and> slack (mt_heap st) \<le> slack (mt_heap st') + 450) \<or>
    (mt_round ts enc st = Inl Hang \<and> \<not> fair ts 100)"
proof -
  have lim: "(0::nat) < 10" "(10::nat) \<le> 2 ^ 32" "(0::nat) < 7" "(7::nat) \<le> 2 ^ 32" "(0::nat) < 3" "(3::nat) \<le> 2 ^ 32" by simp_all
  from mt_rand_ok [OF inv lim(1,2), of ts] obtain r where r: "mt_rand ts 10 st = Inr (r, st\<lparr>mt_calls := mt_calls st + 1\<rparr>)" by auto
  define st2 where "st2 = st\<lparr>mt_calls := mt_calls st + 1, mt_iters := mt_iters st + 1\<rparr>"
  have i2: "mt_inv L bm0 st2" "mt_heap st2 = mt_heap st" using mt_inv_frame [OF inv, of st2] by (simp_all add: st2_def)
  define st3 where "st3 = st2\<lparr>mt_calls := mt_calls st2 + 1\<rparr>"
  have h3: "mt_heap st3 = mt_heap st" by (simp add: st3_def st2_def)
  note guard = maybeAllocGuard_ok [of L bm0 _ ts enc]
  show ?thesis
  proof (cases "r + 1 > 3")
    case True
    from mt_rand_ok [OF i2(1) lim(3,4), of ts] obtain c where c: "mt_rand ts 7 st2 = Inr (c, st3)" "unat c < 7" "mt_inv L bm0 st3"
      by (auto simp: st3_def)
    have u: "unat (c + 1) = unat c + 1" using c(2) by (simp add: unat_plus_if_size word_size)
    have "49 * unat (c + 1) + 9 < slack (mt_heap st3)" using sl c(2) by (simp add: u h3)
    from mt_allocate_ok [OF c(3) this, of ts enc] obtain st4 where st4: "mt_allocate ts enc (unat (c + 1)) 3 34 st3 = Inr st4" "mt_inv L bm0 st4"
      "slack (mt_heap st) \<le> slack (mt_heap st4) + 49 * (unat c + 1)" by (auto simp: u h3)
    have s4: "slack (mt_heap st) \<le> slack (mt_heap st4) + 343" 
    proof -
      have "49 * (unat c + 1) \<le> 49 * 7" using c(2) by (intro mult_le_mono2) simp
      with st4(3) show ?thesis by linarith
    qed
    then have "115 < slack (mt_heap st4)" using sl by linarith
    with s4 guard [OF st4(2) this, of 30] r c(1) st4(1,2) True show ?thesis
      by (cases "mt_iters st4 mod 100 = 0") (auto simp: mt_round_def Let_def st2_def)
  next
    case False
    from mt_rand_ok [OF i2(1) lim(5,6), of ts] obtain c where c: "mt_rand ts 3 st2 = Inr (c, st3)" "mt_inv L bm0 st3"
      by (auto simp: st3_def)
    show ?thesis
    proof (cases "mt_free ts enc 1 st3")
      case (Inl x)
      with mt_free_one [OF c(2), of ts enc] have "x = Hang" "\<not> fair ts 100" by auto
      with Inl r c(1) False show ?thesis by (auto simp: mt_round_def Let_def st2_def)
    next
      case (Inr st4)
      with mt_free_one [OF c(2), of ts enc] have st4: "mt_inv L bm0 st4" "slack (mt_heap st) \<le> slack (mt_heap st4)" by (auto simp: h3)
      have "115 < slack (mt_heap st4)" using st4(2) sl by linarith
      with guard [OF st4(1) this, of 20] r c(1) st4 Inr False show ?thesis
        by (cases "mt_iters st4 mod 200 = 0") (auto simp: mt_round_def Let_def st2_def)
    qed
  qed
qed

lemma mt_rounds_ok:
  assumes "mt_inv L bm0 st" "450 * n + 460 < slack (mt_heap st)"
  shows "(\<exists>st'. mt_rounds ts enc n st = Inr st' \<and> mt_inv L bm0 st' \<and> slack (mt_heap st) \<le> slack (mt_heap st') + 450 * n) \<or>
    (mt_rounds ts enc n st = Inl Hang \<and> \<not> fair ts 100)"
  using assms
proof (induction n arbitrary: st)
  case (Suc n)
  then have "460 < slack (mt_heap st)" by simp
  note round = mt_round_ok [OF Suc.prems(1) this, of ts enc]
  show ?case
  proof (cases "mt_round ts enc st")
    case (Inr st1)
    with round have st1: "mt_inv L bm0 st1" "slack (mt_heap st) \<le> slack (mt_heap st1) + 450" by auto
    then have "450 * n + 460 < slack (mt_heap st1)" using Suc.prems(2) by simp
    from Suc.IH [OF st1(1) this] Inr st1(2) show ?thesis by fastforce
  qed (use round in auto)
qed simp

lemma guard_intact_ok:
  assumes "live h g = Some s" "GUARD_STRING_SIZE < s" "bytes_at bm g (GUARD_STRING_SIZE + 1) = guard_string" "\<forall>j \<in> set js. j < GUARD_STRING_SIZE"
  shows "guard_intact h bm g js = Inr True"
proof -
  have b: "get_byte h g j bm = Inr (guard_string ! j)" if "j \<le> GUARD_STRING_SIZE" for j
    using get_byte_ok [OF assms(1), of j "GUARD_STRING_SIZE + 1" bm] assms(2,3) that by simp
  have p: "guard_string ! j = 0x50" if "j < GUARD_STRING_SIZE" for j using that by (simp add: guard_string_def nth_append)
  have z: "guard_string ! GUARD_STRING_SIZE = 0" by (simp add: guard_string_def nth_append)
  from assms(4) show ?thesis by (induction js) (simp_all add: b p z)
qed

lemma checkGuards_ok:
  assumes "mt_inv L bm0 st"
  shows "checkGuards st = Inr True"
proof -
  have ok: "check_guards st is = Inr True" if "\<forall>i \<in> set is. i < nat (mt_guardAllocCount st)" for "is"
    using that
  proof (induction "is")
    case (Cons i "is")
    have i: "i < length (mt_guards st)" "i < nat (mt_guardAllocCount st)" using Cons.prems assms by (auto simp: mt_inv_def)
    then have "mt_guards st ! i \<in> set (mt_guarded st)" by (auto simp: mt_guarded_def in_set_conv_nth)
    then obtain s where "GUARD_STRING_SIZE < s" "live (mt_heap st) (mt_guards st ! i) = Some s"
      "bytes_at (mt_bytes st) (mt_guards st ! i) (GUARD_STRING_SIZE + 1) = guard_string" using assms unfolding mt_inv_def by blast
    from guard_intact_ok [OF this(2,1,3), of "[0..<GUARD_STRING_SIZE]"] i(1) Cons show ?case
      by (simp add: rd_nat del: upt_rec_numeral)
  qed simp
  show ?thesis unfolding checkGuards_def by (rule ok) simp
qed

lemma mt_inv_new:
  assumes "heap_inv h"
  shows "mt_inv (live h) bm (MemoryTester_new h bm calls)"
  using assms by (simp add: mt_inv_def MemoryTester_new_def mt_blocks_def mt_guarded_def)

lemma memory_test_ok:
  assumes "heap_inv h" "45000460 < slack h"
  shows "(\<exists>st. memory_test ts enc (MemoryTester_new h bm calls) = Inr st \<and> mt_inv (live h) bm st \<and> slack h \<le> slack (mt_heap st) + 45000000) \<or>
    (memory_test ts enc (MemoryTester_new h bm calls) = Inl Hang \<and> \<not> fair ts 100)"
proof -
  have "450 * ITER_COUNT + 460 < slack (mt_heap (MemoryTester_new h bm calls))"
    using assms(2) by (simp add: ITER_COUNT_def MemoryTester_new_def)
  from mt_rounds_ok [OF mt_inv_new [OF assms(1)] this, of ts enc] show ?thesis
  proof (elim disjE exE conjE)
    fix st assume "mt_rounds ts enc ITER_COUNT (MemoryTester_new h bm calls) = Inr st" "mt_inv (live h) bm st"
      "slack (mt_heap (MemoryTester_new h bm calls)) \<le> slack (mt_heap st) + 450 * ITER_COUNT"
    then show ?thesis using checkGuards_ok by (simp add: memory_test_def ITER_COUNT_def MemoryTester_new_def)
  qed (simp add: memory_test_def)
qed

text \<open>
  C13. The memory self test finds no fault of the heap. On every heap with 45 MB of slack (the kernel's has 256 MB) and for every
  sequence of clock readings no allocation of its hundred thousand rounds fails, no access leaves its block, and no guard is
  ever found damaged: if it runs to its end, it has passed, and the blocks that were in use before are still in use and hold the bytes
  they held. Only one thing can keep it from its end, the search for a used slot by random numbers: it goes on forever only if
  from some reading on the clock never again shows one of the hundred remainders modulo 100.
\<close>

theorem memory_test_passes:
  assumes "heap_inv h" "45000460 < slack h"
  shows "case memory_test ts enc (MemoryTester_new h bm calls) of
      Inr st \<Rightarrow> heap_inv (mt_heap st) \<and> checkGuards st = Inr True \<and>
        (\<forall>a s. live h a = Some s \<longrightarrow> live (mt_heap st) a = Some s \<and> bytes_at (mt_bytes st) a s = bytes_at bm a s)
    | Inl f \<Rightarrow> f = Hang \<and> (\<exists>p i. i < 100 \<and> (\<forall>q \<ge> p. stamp ts q mod 100 \<noteq> i))"
proof -
  have ok: "heap_inv (mt_heap st) \<and> checkGuards st = Inr True \<and>
      (\<forall>a s. live h a = Some s \<longrightarrow> live (mt_heap st) a = Some s \<and> bytes_at (mt_bytes st) a s = bytes_at bm a s)" if "mt_inv (live h) bm st" for st
    using that checkGuards_ok [OF that] unfolding mt_inv_def by blast
  have "\<not> fair ts 100 \<Longrightarrow> \<exists>p i. i < 100 \<and> (\<forall>q \<ge> p. stamp ts q mod 100 \<noteq> i)" unfolding fair_def by blast
  with memory_test_ok [OF assms, of ts enc bm calls] ok show ?thesis by (auto split: sum.split)
qed

text \<open>A clock that ticks between any two readings.\<close>

definition steady :: tsc where
  "steady p = (word_of_nat p, 0)"

lemma steady_fair: "fair steady 100"
  unfolding fair_def
proof (intro allI impI)
  fix p i :: nat assume i: "i < 100"
  define q where "q = 2 ^ 32 * (100 * p) + i"
  have "i < 2 ^ 32" using i by simp
  then have "q mod 2 ^ 32 = i" unfolding q_def by (simp only: mod_mult_self4 mod_less)
  then have "unat (word_of_nat q :: u32) = i" by (simp add: unat_of_nat)
  then have "stamp steady q = i" by (simp add: stamp_def steady_def)
  moreover have "p \<le> q" by (simp add: q_def)
  ultimately show "\<exists>q \<ge> p. stamp steady q mod 100 = i" using i by (intro exI [of _ q]) simp
qed

theorem memory_test_passes_witness:
  "\<exists>st. memory_test steady (\<lambda>_. 1) (MemoryTester_new (memory_init demo_heap 0xC2000000) (\<lambda>_. 0) 0) = Inr st \<and> heap_inv (mt_heap st)"
proof -
  let ?h = "memory_init demo_heap 0xC2000000"
  have rel: "heap_rel ?h [(2 ^ 28 - 16, False)]"
    using block_init_rel [of "0xC2000000" "2 ^ 28" demo_heap] by (simp add: memory_init_def heap_init_def heap_size)
  then have "heap_inv ?h" "slack ?h = 2 ^ 28 - 16" using slack_rel [OF rel] by (auto simp: heap_inv_iff slack_of_def)
  moreover have "\<not> (\<exists>p i. i < 100 \<and> (\<forall>q \<ge> p. stamp steady q mod 100 \<noteq> i))" using steady_fair unfolding fair_def by blast
  ultimately show ?thesis using memory_test_passes [where h = ?h and ts = steady and enc = "\<lambda>_. 1" and bm = "\<lambda>_. 0" and calls = 0] by (auto split: sum.splits)
qed

end
