(* ===== verification/Container_Tester.thy ===== *)
theory Container_Tester
  imports Prio_Queue_Spec Hash_Map Kernel_Random
begin

text \<open>
  The container self tests of the kernel: \<^verbatim>\<open>src/src/kernel/include/kernel/tests/ContainerTester.h\<close>. Every test builds its container
  on the kernel heap, checks what the operations return and destroys the container at the end of its scope. A failed
  assertion prints a message, which is left out, and loops forever.
\<close>

section \<open>The tests\<close>

definition assert_eq :: "'a \<Rightarrow> 'a \<Rightarrow> unit result" where
  "assert_eq left right = (if left = right then Inr () else Inl Hang)"

definition assert_neq :: "'a \<Rightarrow> 'a \<Rightarrow> unit result" where
  "assert_neq left right = (if left \<noteq> right then Inr () else Inl Hang)"

subsection \<open>The priority queue\<close>

definition heap_eraseTest :: "(nat \<Rightarrow> (int, int) key_val) \<Rightarrow> block \<Rightarrow> block result" where
  "heap_eraseTest junk h = (let v = 56 in
     rbind (pq_new_default junk h) (\<lambda>(h, pq).
     rbind (pq_insert_kv junk h pq 5 1) (\<lambda>(h, pq).
     rbind (pq_insert_kv junk h pq 5 1) (\<lambda>(h, pq).
     rbind (pq_insert_kv junk h pq 4 v) (\<lambda>(h, pq).
     rbind (pq_insert_kv junk h pq 5 1) (\<lambda>(h, pq).
     rbind (pq_insert_kv junk h pq 1 v) (\<lambda>(h, pq).
     rbind (pq_insert_kv junk h pq 2 v) (\<lambda>(h, pq).
     rbind (pq_insert_kv junk h pq 5 1) (\<lambda>(h, pq).
     rbind (pq_top pq) (\<lambda>e. rbind (assert_eq 5 (key e)) (\<lambda>_.
     rbind (pq_erase junk h pq 1) (\<lambda>(h, pq, ec).
     rbind (assert_eq 4 ec) (\<lambda>_.
     rbind (pq_top pq) (\<lambda>e. rbind (assert_eq 4 (key e)) (\<lambda>_.
     rbind (assert_eq 3 (pq_length pq)) (\<lambda>_.
     rbind (pq_insert_kv junk h pq 34 4) (\<lambda>(h, pq).
     rbind (pq_top pq) (\<lambda>e. rbind (assert_eq 34 (key e)) (\<lambda>_.
     rbind (pq_insert_kv junk h pq 34 4) (\<lambda>(h, pq).
     rbind (pq_insert_kv junk h pq 34 4) (\<lambda>(h, pq).
     rbind (pq_erase junk h pq 4) (\<lambda>(h, pq, ec).
     rbind (assert_eq 3 ec) (\<lambda>_.
     Inr (fst (pq_destroy h pq)))))))))))))))))))))))))"

text \<open>The two loops of \<^verbatim>\<open>correctness\<close>; \<open>p\<close> counts the calls of \<^verbatim>\<open>rand\<close>.\<close>

fun fill_heap :: "tsc \<Rightarrow> (nat \<Rightarrow> (u32, u32) key_val) \<Rightarrow> nat \<Rightarrow> nat \<Rightarrow> block \<Rightarrow> (u32, u32) priority_queue
    \<Rightarrow> (block \<times> (u32, u32) priority_queue \<times> nat) result" where
  "fill_heap ts junk 0 p h pq = Inr (h, pq, p)"
| "fill_heap ts junk (Suc i) p h pq =
     rbind (rand_at ts p 1000) (\<lambda>r.
     rbind (rand_at ts (p + 1) 400) (\<lambda>v.
     rbind (pq_insert_kv junk h pq r v) (\<lambda>(h, pq). fill_heap ts junk i (p + 2) h pq)))"

fun drain_heap :: "nat \<Rightarrow> u32 \<Rightarrow> (u32, u32) priority_queue \<Rightarrow> (u32, u32) priority_queue result" where
  "drain_heap 0 prev pq = Inr pq"
| "drain_heap (Suc i) prev pq =
     rbind (pq_dequeue pq) (\<lambda>(kv, pq).
     let k = key kv
     in rbind (is_correct pq) (\<lambda>_. if k > prev then Inl Hang else drain_heap i k pq))"

definition heap_correctness :: "tsc \<Rightarrow> (nat \<Rightarrow> (u32, u32) key_val) \<Rightarrow> nat \<Rightarrow> block \<Rightarrow> (block \<times> nat) result" where
  "heap_correctness ts junk p h =
     rbind (pq_new_default junk h) (\<lambda>(h, pq).
     rbind (fill_heap ts junk 2000 p h pq) (\<lambda>(h, pq, p).
     rbind (is_correct pq) (\<lambda>_.
     rbind (drain_heap 2000 1000 pq) (\<lambda>pq.
     Inr (fst (pq_destroy h pq), p)))))"

fun times_result :: "nat \<Rightarrow> ('a \<Rightarrow> 'a result) \<Rightarrow> 'a \<Rightarrow> 'a result" where
  "times_result 0 f x = Inr x"
| "times_result (Suc n) f x = rbind (f x) (times_result n f)"

definition MaxHeapTester_run :: "tsc \<Rightarrow> (nat \<Rightarrow> (u32, u32) key_val) \<Rightarrow> (nat \<Rightarrow> (int, int) key_val) \<Rightarrow> nat \<Rightarrow> block \<Rightarrow> (block \<times> nat) result" where
  "MaxHeapTester_run ts junk junki p h =
     rbind (heap_correctness ts junk p h) (\<lambda>(h, p).
     rbind (times_result 200 (heap_eraseTest junki) h) (\<lambda>h. Inr (h, p)))"

subsection \<open>The linked queue\<close>

text \<open>A \<^verbatim>\<open>Node\<close> of \<^verbatim>\<open>queue<int>\<close> has 8 bytes, one of \<^verbatim>\<open>queue<pair<int,int>>\<close> 12.\<close>

definition queue_insertTest :: "block \<Rightarrow> int nodes \<Rightarrow> (block \<times> int nodes) result" where
  "queue_insertTest h s =
     rbind (queue_insert 8 h s queue_new 1) (\<lambda>(h, s, q, _).
     rbind (queue_insert 8 h s q 2) (\<lambda>(h, s, q, _).
     rbind (assert_eq 1 (queue_top 0 s q)) (\<lambda>_.
     rbind (queue_insert 8 h s q 0) (\<lambda>(h, s, q, _).
     let (h, q, v) = queue_dequeue 0 h s q in
     rbind (assert_eq 1 v) (\<lambda>_.
     rbind (assert_eq 2 (queue_size q)) (\<lambda>_.
     rbind (assert_eq 2 (queue_top 0 s q)) (\<lambda>_.
     rbind (queue_insert 8 h s q 1) (\<lambda>(h, s, q, _).
     let (h, q, v) = queue_dequeue 0 h s q in
     rbind (queue_insert 8 h s q v) (\<lambda>(h, s, q, _).
     rbind (assert_eq 2 v) (\<lambda>_.
     let (h, q, v) = queue_dequeue 0 h s q in
     rbind (assert_eq 1 (queue_top 0 s q)) (\<lambda>_.
     rbind (assert_eq 2 (queue_size q)) (\<lambda>_.
     rbind (queue_insert 8 h s q v) (\<lambda>(h, s, q, _).
     rbind (assert_eq 3 (queue_size q)) (\<lambda>_.
     rbind (assert_eq 1 (queue_top 0 s q)) (\<lambda>_.
     rbind (queue_destroy h s q) (\<lambda>h. Inr (h, s)))))))))))))))))"

definition queue_eraseTest :: "block \<Rightarrow> int nodes \<Rightarrow> (block \<times> int nodes) result" where
  "queue_eraseTest h s =
     rbind (erase_item h s queue_new 3) (\<lambda>(h, s, q, c).
     rbind (assert_eq 0 c) (\<lambda>_.
     rbind (queue_insert 8 h s q 5) (\<lambda>(h, s, q, _).
     rbind (queue_insert 8 h s q 5) (\<lambda>(h, s, q, _).
     rbind (queue_insert 8 h s q 5) (\<lambda>(h, s, q, _).
     rbind (erase_item h s q 5) (\<lambda>(h, s, q, cnt).
     rbind (assert_eq 3 cnt) (\<lambda>_.
     rbind (assert_eq 0 (queue_size q)) (\<lambda>_.
     rbind (queue_insert 8 h s q 5) (\<lambda>(h, s, q, _).
     rbind (queue_insert 8 h s q 4) (\<lambda>(h, s, q, _).
     rbind (queue_insert 8 h s q 5) (\<lambda>(h, s, q, _).
     rbind (queue_insert 8 h s q 6) (\<lambda>(h, s, q, _).
     rbind (queue_insert 8 h s q 5) (\<lambda>(h, s, q, _).
     rbind (erase_item h s q 5) (\<lambda>(h, s, q, cnt).
     rbind (assert_eq 3 cnt) (\<lambda>_.
     rbind (assert_eq 2 (queue_size q)) (\<lambda>_.
     rbind (queue_destroy h s q) (\<lambda>h. Inr (h, s))))))))))))))))))"

definition queue_eraseTest2 :: "block \<Rightarrow> int nodes \<Rightarrow> (block \<times> int nodes) result" where
  "queue_eraseTest2 h s =
     rbind (erase_idx h s queue_new 0) (\<lambda>(h, s, q, ok).
     rbind (assert_eq False ok) (\<lambda>_.
     rbind (erase_item h s q 5) (\<lambda>(h, s, q, c).
     rbind (assert_eq 0 c) (\<lambda>_.
     rbind (queue_insert 8 h s q 4) (\<lambda>(h, s, q, _).
     rbind (queue_insert 8 h s q 5) (\<lambda>(h, s, q, _).
     rbind (erase_idx h s q 0) (\<lambda>(h, s, q, ok).
     rbind (assert_eq True ok) (\<lambda>_.
     rbind (assert_eq 5 (queue_top 0 s q)) (\<lambda>_.
     rbind (erase_idx h s q 0) (\<lambda>(h, s, q, ok).
     rbind (assert_eq True ok) (\<lambda>_.
     rbind (queue_insert 8 h s q 6) (\<lambda>(h, s, q, _).
     rbind (queue_insert 8 h s q 7) (\<lambda>(h, s, q, _).
     rbind (erase_idx h s q 2) (\<lambda>(h, s, q, ok).
     rbind (assert_eq False ok) (\<lambda>_.
     rbind (erase_idx h s q 1) (\<lambda>(h, s, q, ok).
     rbind (assert_eq True ok) (\<lambda>_.
     rbind (assert_eq 6 (queue_top 0 s q)) (\<lambda>_.
     rbind (queue_destroy h s q) (\<lambda>h. Inr (h, s))))))))))))))))))))"

definition queue_findTest :: "block \<Rightarrow> (32 word, int) pairs \<Rightarrow> (block \<times> (32 word, int) pairs) result" where
  "queue_findTest h s =
     rbind (queue_insert 12 h s queue_new (make_pair 3 10)) (\<lambda>(h, s, q, _).
     rbind (queue_find_if s q (\<lambda>elem. first elem = 3)) (\<lambda>res.
     rbind (assert_neq NULL res) (\<lambda>_.
     rbind (assert_eq 3 (first (nvalue (s res)))) (\<lambda>_.
     rbind (queue_find_if s q (\<lambda>elem. first elem = 2)) (\<lambda>res.
     rbind (assert_eq NULL res) (\<lambda>_.
     rbind (erase_idx h s q 0) (\<lambda>(h, s, q, ok).
     rbind (assert_eq True ok) (\<lambda>_.
     rbind (queue_find_if s q (\<lambda>elem. first elem = 2)) (\<lambda>res.
     rbind (assert_eq NULL res) (\<lambda>_.
     rbind (queue_destroy h s q) (\<lambda>h. Inr (h, s))))))))))))"

definition QueueTester_run :: "block \<Rightarrow> int nodes \<Rightarrow> (32 word, int) pairs \<Rightarrow> (block \<times> int nodes \<times> (32 word, int) pairs) result" where
  "QueueTester_run h s t =
     rbind (queue_insertTest h s) (\<lambda>(h, s).
     rbind (queue_eraseTest h s) (\<lambda>(h, s).
     rbind (queue_eraseTest2 h s) (\<lambda>(h, s).
     rbind (queue_findTest h t) (\<lambda>(h, t). Inr (h, s, t)))))"

subsection \<open>The hash map\<close>

text \<open>\<^verbatim>\<open>*map.find(k)\<close>; the value lies 4 bytes behind the start of the node.\<close>

definition deref_value :: "(32 word, int) pairs \<Rightarrow> addr \<Rightarrow> int result" where
  "deref_value s p = (if p = NULL then Inl NullAccess else Inr (second (nvalue (s (p - 4)))))"

definition insertEraseTest :: "block \<Rightarrow> (32 word, int) pairs \<Rightarrow> (block \<times> (32 word, int) pairs) result" where
  "insertEraseTest h s =
     rbind (umap_new h 8) (\<lambda>(h, m).
     rbind (assert_eq 0 (sint (umap_size m))) (\<lambda>_.
     rbind (umap_insert hash_int h s m 10 123) (\<lambda>(h, s, m, _).
     rbind (umap_insert hash_int h s m 4 50) (\<lambda>(h, s, m, _).
     rbind (assert_eq 2 (sint (umap_size m))) (\<lambda>_.
     rbind (umap_find hash_int s m 11) (\<lambda>p. rbind (assert_eq NULL p) (\<lambda>_.
     rbind (umap_find hash_int s m 4) (\<lambda>p. rbind (deref_value s p) (\<lambda>v. rbind (assert_eq 50 v) (\<lambda>_.
     rbind (umap_find hash_int s m 10) (\<lambda>p. rbind (deref_value s p) (\<lambda>v. rbind (assert_eq 123 v) (\<lambda>_.
     rbind (umap_insert hash_int h s m 10 149) (\<lambda>(h, s, m, ok). rbind (assert_eq False ok) (\<lambda>_.
     rbind (umap_erase hash_int h s m 10) (\<lambda>(h, s, m, ok). rbind (assert_eq True ok) (\<lambda>_.
     rbind (assert_eq 1 (sint (umap_size m))) (\<lambda>_.
     rbind (umap_find hash_int s m 10) (\<lambda>p. rbind (assert_eq NULL p) (\<lambda>_.
     rbind (umap_erase hash_int h s m 4) (\<lambda>(h, s, m, ok). rbind (assert_eq True ok) (\<lambda>_.
     rbind (assert_eq 0 (sint (umap_size m))) (\<lambda>_.
     rbind (umap_destroy h s m) (\<lambda>h. Inr (h, s)))))))))))))))))))))))))"

subsection \<open>All of them\<close>

text \<open>
  \<open>s\<close> holds the nodes of the queues of integers, \<open>t\<close> those of the queues of pairs, which the buckets of the map also are.
\<close>

definition ContainerTester_run :: "tsc \<Rightarrow> (nat \<Rightarrow> (u32, u32) key_val) \<Rightarrow> (nat \<Rightarrow> (int, int) key_val) \<Rightarrow> nat \<Rightarrow> block \<Rightarrow>
    int nodes \<Rightarrow> (32 word, int) pairs \<Rightarrow> (block \<times> nat \<times> int nodes \<times> (32 word, int) pairs) result" where
  "ContainerTester_run ts junk junki p h s t =
     rbind (MaxHeapTester_run ts junk junki p h) (\<lambda>(h, p).
     rbind (QueueTester_run h s t) (\<lambda>(h, s, t).
     rbind (insertEraseTest h t) (\<lambda>(h, t). Inr (h, p, s, t))))"

lemma assert_yields [simp]:
  "yields (assert_eq a b) P \<longleftrightarrow> a = b \<and> P ()" "yields (assert_neq a b) P \<longleftrightarrow> a \<noteq> b \<and> P ()"
  by (simp_all add: assert_eq_def assert_neq_def)

section \<open>Following a queue through a test\<close>

text \<open>
  The queue holds \<open>xs\<close>, every block of the heap that is not one of its nodes was there in \<open>h0\<close>, and at most \<open>B\<close> bytes of the
  free space at the end of the heap are gone.
\<close>

definition queue_in :: "block \<Rightarrow> nat \<Rightarrow> u32 \<Rightarrow> block \<times> 'v nodes \<times> lqueue \<Rightarrow> 'v list \<Rightarrow> bool" where
  "queue_in h0 B sz = (\<lambda>(h, s, q) xs. \<exists>as. queue_state sz h s q as \<and> nvals s as = xs \<and>
     live h0 = (\<lambda>a. if a \<in> set as then None else live h a) \<and> slack h0 \<le> slack h + B)"

lemma queue_in_new: "heap_inv h \<Longrightarrow> queue_in h 0 sz (h, s, queue_new) []"
  using queue_state_new [of h sz s] by (auto simp: queue_in_def intro!: exI [of _ "[]"])

lemma queue_in_insert:
  assumes q: "queue_in h0 B sz (h, s, q) xs" and room: "B + unat sz + 24 < slack h0"
    and P: "\<And>h' s' q'. queue_in h0 (B + unat sz + 16) sz (h', s', q') (xs @ [e]) \<Longrightarrow> P (h', s', q', True)"
  shows "yields (queue_insert sz h s q e) P"
proof -
  from q obtain as where as: "queue_state sz h s q as" "nvals s as = xs"
    "live h0 = (\<lambda>a. if a \<in> set as then None else live h a)" "slack h0 \<le> slack h + B" by (auto simp: queue_in_def)
  from queue_insert_ok [OF as(1), of e] as(4) room obtain h' s' q' a n where r: "queue_insert sz h s q e = Inr (h', s', q', True)"
    "queue_state sz h' s' q' (as @ [a])" "nvals s' (as @ [a]) = nvals s as @ [e]" "live h a = None" "live h' = (live h)(a \<mapsto> n)"
    "slack h \<le> slack h' + unat sz + 16" by auto
  have "live h0 = (\<lambda>x. if x \<in> set (as @ [a]) then None else live h' x)" using as(3) r(4,5) by (auto simp: fun_eq_iff)
  with as r have "queue_in h0 (B + unat sz + 16) sz (h', s', q') (xs @ [e])"
    unfolding queue_in_def by (simp del: nvals_simps) (intro exI [of _ "as @ [a]"], simp)
  from P [OF this] r(1) show ?thesis by simp
qed

lemma queue_in_dequeue:
  assumes q: "queue_in h0 B sz (h, s, q) (x # xs)"
    and P: "\<And>h' q'. queue_in h0 B sz (h', s, q') xs \<Longrightarrow> P (h', q', x)"
  shows "P (queue_dequeue d h s q)"
proof -
  from q obtain a as where as: "queue_state sz h s q (a # as)" "nvalue (s a) = x" "nvals s as = xs"
    "live h0 = (\<lambda>y. if y \<in> set (a # as) then None else live h y)" "slack h0 \<le> slack h + B" by (auto simp: queue_in_def nvals_def)
  from queue_dequeue_ok [OF as(1), of d] obtain q' where r: "queue_dequeue d h s q = (kfree h a, q', nvalue (s a))"
    "queue_state sz (kfree h a) s q' as" "live (kfree h a) = (live h)(a := None)" "slack h \<le> slack (kfree h a)" by blast
  have "live h0 = (\<lambda>y. if y \<in> set as then None else live (kfree h a) y)" using as(4) r(3) by (auto simp: fun_eq_iff)
  with as r have "queue_in h0 B sz (kfree h a, s, q') xs" by (auto simp: queue_in_def)
  from P [OF this] r(1) as(2) show ?thesis by simp
qed

lemma queue_in_size: "queue_in h0 B sz (h, s, q) xs \<Longrightarrow> queue_size q = int (length xs)"
  by (auto simp: queue_in_def queue_state_def queue_size_def nvals_def)

lemma queue_in_top: "queue_in h0 B sz (h, s, q) (x # xs) \<Longrightarrow> queue_top d s q = x"
  by (auto simp: queue_in_def queue_state_def queue_top_def nvals_def)

lemma queue_in_erase_item:
  assumes q: "queue_in h0 B sz (h, s, q) xs"
    and P: "\<And>h' s' q'. queue_in h0 B sz (h', s', q') (filter (\<lambda>v. v \<noteq> e) xs) \<Longrightarrow> P (h', s', q', int (length (filter (\<lambda>v. v = e) xs)))"
  shows "yields (erase_item h s q e) P"
proof -
  from q obtain as where as: "queue_state sz h s q as" "nvals s as = xs"
    "live h0 = (\<lambda>a. if a \<in> set as then None else live h a)" "slack h0 \<le> slack h + B" by (auto simp: queue_in_def)
  let ?as = "filter (\<lambda>a. nvalue (s a) \<noteq> e) as"
  from erase_item_ok [OF as(1), of e] obtain h' s' q' where r:
    "erase_item h s q e = Inr (h', s', q', int (length (filter (\<lambda>a. nvalue (s a) = e) as)))"
    "queue_state sz h' s' q' ?as" "live h' = (\<lambda>a. if a \<in> set as \<and> nvalue (s a) = e then None else live h a)"
    "\<forall>a. nvalue (s' a) = nvalue (s a)" "slack h \<le> slack h'" by blast
  have "nvals s' ?as = filter (\<lambda>v. v \<noteq> e) xs"
    using r(4) as(2) filter_nvals [of s "\<lambda>v. v \<noteq> e" as] nvals_cong [of ?as s' s] by simp
  moreover have "length (filter (\<lambda>a. nvalue (s a) = e) as) = length (filter (\<lambda>v. v = e) xs)"
    unfolding as(2) [symmetric] by (simp add: nvals_def filter_map o_def)
  moreover have "live h0 = (\<lambda>a. if a \<in> set ?as then None else live h' a)" using as(3) r(3) by (auto simp: fun_eq_iff)
  ultimately have "queue_in h0 B sz (h', s', q') (filter (\<lambda>v. v \<noteq> e) xs)"
    using r(2,5) as(4) unfolding queue_in_def by (simp del: set_filter) (intro exI [of _ ?as], simp)
  from P [OF this] r(1) \<open>length _ = length _\<close> show ?thesis by simp
qed

lemma queue_in_erase_idx:
  assumes q: "queue_in h0 B sz (h, s, q) xs"
    and P: "\<And>h' s' q'. queue_in h0 B sz (h', s', q') (if unat i < length xs then drop_nth (unat i) xs else xs) \<Longrightarrow>
      P (h', s', q', unat i < length xs)"
  shows "yields (erase_idx h s q i) P"
proof -
  from q obtain as where as: "queue_state sz h s q as" "nvals s as = xs"
    "live h0 = (\<lambda>a. if a \<in> set as then None else live h a)" "slack h0 \<le> slack h + B" by (auto simp: queue_in_def)
  have len: "length as = length xs" using as(2) by (auto simp: nvals_def)
  show ?thesis
  proof (cases "unat i < length xs")
    case False
    with erase_idx_out_of_range [OF as(1), of i] len P [of h s q] q show ?thesis by simp
  next
    case True
    let ?a = "as ! unat i"
    from erase_idx_ok [OF as(1), of i] True len obtain s' q' where r: "erase_idx h s q i = Inr (kfree h ?a, s', q', True)"
      "queue_state sz (kfree h ?a) s' q' (drop_nth (unat i) as)" "live (kfree h ?a) = (live h)(?a := None)"
      "\<forall>a. nvalue (s' a) = nvalue (s a)" by auto
    have inv: "heap_inv h" and lv: "live h ?a \<noteq> None" using as(1) True len by (auto simp: queue_state_def)
    then have sl: "slack h \<le> slack (kfree h ?a)" using kh.free_ok [OF inv] by auto
    have split: "as = take (unat i) as @ ?a # drop (Suc (unat i)) as" using True len by (simp add: id_take_nth_drop)
    have "insert ?a (set (drop_nth (unat i) as)) = set as"
      using arg_cong [OF split, of set] by (auto simp: drop_nth_def)
    then have "live h0 = (\<lambda>a. if a \<in> set (drop_nth (unat i) as) then None else live (kfree h ?a) a)"
      using as(3) r(3) by (auto simp: fun_eq_iff)
    moreover have "nvals s' (drop_nth (unat i) as) = drop_nth (unat i) xs"
      using r(4) nvals_cong [of "drop_nth (unat i) as" s' s] drop_nth_nvals [of s "unat i" as] as(2) by simp
    ultimately have "queue_in h0 B sz (kfree h ?a, s', q') (drop_nth (unat i) xs)"
      using r(2) sl as(4) by (auto simp: queue_in_def)
    with P [of "kfree h ?a" s' q'] True r(1) show ?thesis by simp
  qed
qed

lemma queue_in_find:
  assumes q: "queue_in h0 B sz (h, s, q) xs"
    and P: "\<And>a. case List.find Q xs of None \<Rightarrow> a = NULL | Some v \<Rightarrow> a \<noteq> NULL \<and> nvalue (s a) = v \<Longrightarrow> P a"
  shows "yields (queue_find_if s q Q) P"
proof -
  from q obtain as where as: "queue_state sz h s q as" "nvals s as = xs" by (auto simp: queue_in_def)
  then have path: "lpath s (q_head q) as" by (simp add: queue_state_def)
  have "case List.find Q (nvals s as) of None \<Rightarrow> List.find (\<lambda>a. Q (nvalue (s a))) as = None
      | Some v \<Rightarrow> \<exists>a \<in> set as. List.find (\<lambda>a. Q (nvalue (s a))) as = Some a \<and> nvalue (s a) = v"
    by (induction as) (auto simp: split: option.splits)
  with find_node_ok [OF path, of Q] lseg_nonnull [OF path] as(2) P show ?thesis
    by (auto simp: queue_find_if_def split: option.splits)
qed

lemma queue_in_destroy:
  assumes q: "queue_in h0 B sz (h, s, q) xs"
    and P: "\<And>h'. heap_inv h' \<Longrightarrow> live h' = live h0 \<Longrightarrow> slack h0 \<le> slack h' + B \<Longrightarrow> P h'"
  shows "yields (queue_destroy h s q) P"
proof -
  from q obtain as where as: "queue_state sz h s q as" "live h0 = (\<lambda>a. if a \<in> set as then None else live h a)"
    "slack h0 \<le> slack h + B" by (auto simp: queue_in_def)
  then have "lpath s (q_head q) as" "heap_inv h" "distinct as" "\<forall>a \<in> set as. live h a \<noteq> None" by (auto simp: queue_state_def)
  from destroy_loop_ok [OF this] obtain h' where h': "destroy_loop s h (q_head q) = Some h'" "heap_inv h'"
    "live h' = (\<lambda>a. if a \<in> set as then None else live h a)" "slack h \<le> slack h'" by blast
  with as P [of h'] show ?thesis by (simp add: queue_destroy_def)
qed

text \<open>One statement of a test after the other.\<close>

lemma queue_insertTest_ok:
  assumes "heap_inv h0" "200 < slack h0"
  shows "yields (queue_insertTest h0 s) (\<lambda>(h', s'). heap_inv h' \<and> live h' = live h0 \<and> slack h0 \<le> slack h' + 200)"
  unfolding queue_insertTest_def Let_def yields_simps
  apply (insert assms)
  apply (rule queue_in_insert [OF queue_in_new]; simp?)
  apply (rule queue_in_insert, assumption; simp add: queue_in_top)
  apply (rule queue_in_insert, assumption; simp)
  apply (rule queue_in_dequeue, assumption; simp add: queue_in_top queue_in_size)
  apply (rule queue_in_insert, assumption; simp)
  apply (rule queue_in_dequeue, assumption; simp)
  apply (rule queue_in_insert, assumption; simp)
  apply (rule queue_in_dequeue, assumption; simp add: queue_in_top queue_in_size)
  apply (rule queue_in_insert, assumption; simp add: queue_in_top queue_in_size)
  apply (rule queue_in_destroy, assumption; simp)
  done

lemma queue_eraseTest_ok:
  assumes "heap_inv h0" "250 < slack h0"
  shows "yields (queue_eraseTest h0 s) (\<lambda>(h', s'). heap_inv h' \<and> live h' = live h0 \<and> slack h0 \<le> slack h' + 200)"
  unfolding queue_eraseTest_def yields_simps
  apply (insert assms)
  apply (rule queue_in_erase_item [OF queue_in_new]; simp?)
  apply (rule queue_in_insert, assumption; simp)+
  apply (rule queue_in_erase_item, assumption; simp add: queue_in_size)
  apply (rule queue_in_insert, assumption; simp)+
  apply (rule queue_in_erase_item, assumption; simp add: queue_in_size)
  apply (rule queue_in_destroy, assumption; simp)
  done

lemma queue_eraseTest2_ok:
  assumes "heap_inv h0" "200 < slack h0"
  shows "yields (queue_eraseTest2 h0 s) (\<lambda>(h', s'). heap_inv h' \<and> live h' = live h0 \<and> slack h0 \<le> slack h' + 200)"
  unfolding queue_eraseTest2_def yields_simps
  apply (insert assms)
  apply (rule queue_in_erase_idx [OF queue_in_new]; simp?)
  apply (rule queue_in_erase_item, assumption; simp)
  apply (rule queue_in_insert, assumption; simp)+
  apply (rule queue_in_erase_idx, assumption; simp add: queue_in_top drop_nth_def)+
  apply (rule queue_in_insert, assumption; simp)+
  apply (rule queue_in_erase_idx, assumption; simp add: queue_in_top drop_nth_def)+
  apply (rule queue_in_destroy, assumption; simp)
  done

lemma queue_findTest_ok:
  assumes "heap_inv h0" "200 < slack h0"
  shows "yields (queue_findTest h0 s) (\<lambda>(h', s'). heap_inv h' \<and> live h' = live h0 \<and> slack h0 \<le> slack h' + 200)"
  unfolding queue_findTest_def yields_simps
  apply (insert assms)
  apply (rule queue_in_insert [OF queue_in_new]; simp add: make_pair_def)
  apply (rule queue_in_find, assumption; simp)+
  apply (rule queue_in_erase_idx, assumption; simp add: drop_nth_def)
  apply (rule queue_in_find, assumption; simp)
  apply (rule queue_in_destroy, assumption; simp)
  done

lemma QueueTester_run_ok:
  assumes "heap_inv h" "1000 < slack h"
  shows "yields (QueueTester_run h s t) (\<lambda>(h', s', t'). heap_inv h' \<and> live h' = live h \<and> slack h \<le> slack h' + 800)"
  unfolding QueueTester_run_def yields_simps
  apply (insert assms)
  apply (rule yields_weaken [OF queue_insertTest_ok]; clarsimp)
  apply (rule yields_weaken [OF queue_eraseTest_ok]; clarsimp)
  apply (rule yields_weaken [OF queue_eraseTest2_ok]; clarsimp)
  apply (rule yields_weaken [OF queue_findTest_ok]; clarsimp)
  done

section \<open>Following a priority queue through a test\<close>

text \<open>The small queues of \<^verbatim>\<open>eraseTest\<close>: never more than 15 elements.\<close>

definition pq_in :: "block \<Rightarrow> nat \<Rightarrow> block \<times> ('k::linorder, 'v) priority_queue \<Rightarrow> ('k, 'v) key_val multiset \<Rightarrow> bool" where
  "pq_in h0 B = (\<lambda>(h, q) M. pq_state h q \<and> others h q = live h0 \<and> pq_mset q = M \<and> pq_size q \<le> 30 \<and> slack h0 \<le> slack h + B)"

lemma pq_in_new:
  assumes "heap_inv h0" "64 < slack h0" and P: "\<And>h q. pq_in h0 56 (h, q) {#} \<Longrightarrow> P (h, q)"
  shows "yields (pq_new_default junk h0) P"
proof -
  from pq_new_ok [OF assms(1), of 5 junk] assms(2) obtain h q where "pq_new junk h0 5 = Inr (h, q)" "pq_state h q"
    "pq_size q = 5" "pq_mset q = {#}" "others h q = live h0" "slack h0 \<le> slack h + 56" by auto
  with P [of h q] show ?thesis by (simp add: pq_new_default_def pq_in_def)
qed

lemma pq_in_size: "pq_in h0 B (h, q) M \<Longrightarrow> pq_length q = int (size M)"
  using pq_mset_size [of q] by (auto simp: pq_in_def pq_length_def pq_state_def)

lemma pq_in_insert:
  assumes q: "pq_in h0 B (h, q) M" and room: "size M < 15" "B + 504 < slack h0"
    and P: "\<And>h' q'. pq_in h0 (B + 496) (h', q') (add_mset \<lparr>key = k, val = v\<rparr> M) \<Longrightarrow> P (h', q')"
  shows "yields (pq_insert_kv junk h q k v) P"
proof -
  have cnt: "pq_count q < 15" using pq_in_size [OF q] room(1) by (simp add: pq_length_def)
  have q': "pq_state h q" "others h q = live h0" "pq_mset q = M" "pq_size q \<le> 30" "slack h0 \<le> slack h + B"
    using q by (auto simp: pq_in_def)
  then have "16 * nat (pq_size q) + 24 < slack h" using room(2) by linarith
  from pq_insert_ok [OF q'(1) this, of junk "\<lparr>key = k, val = v\<rparr>"] obtain h' q'' where r:
    "pq_insert junk h q \<lparr>key = k, val = v\<rparr> = Inr (h', q'')" "pq_state h' q''" "pq_size q'' \<le> max (pq_size q) (2 * pq_count q)"
    "pq_mset q'' = add_mset \<lparr>key = k, val = v\<rparr> M" "others h' q'' = live h0" "slack h \<le> slack h' + 16 * nat (pq_size q) + 16"
    using q' by auto
  have "pq_in h0 (B + 496) (h', q'') (add_mset \<lparr>key = k, val = v\<rparr> M)" using r q' cnt by (auto simp: pq_in_def)
  from P [OF this] r(1) show ?thesis by (simp add: pq_insert_kv_def)
qed

lemma pq_in_top:
  assumes q: "pq_in h0 B (h, q) M" and k: "k \<in># image_mset key M" "\<forall>e \<in># M. key e \<le> k" and P: "\<And>e. key e = k \<Longrightarrow> P e"
  shows "yields (pq_top q) P"
proof -
  have inv: "pq_inv q" and M: "pq_mset q = M" using q by (auto simp: pq_in_def pq_state_def)
  have "M \<noteq> {#}" using k(1) by auto
  then have "0 < pq_count q" using pq_mset_size [OF inv] M by (simp add: nonempty_has_size)
  note top = pq_top_max [OF inv this]
  have "key (pq_mem q ! 0) \<le> k" using top(2) k(2) M by simp
  moreover obtain e where "e \<in># M" "key e = k" using k(1) by auto
  then have "k \<le> key (pq_mem q ! 0)" using top(3) [of e] M by simp
  ultimately show ?thesis using top(1) P by simp
qed

lemma pq_in_erase:
  assumes q: "pq_in h0 B (h, q) M" and room: "size M \<le> 7" "B + 3300 < slack h0"
    and P: "\<And>h' q'. pq_in h0 (B + 3300) (h', q') (filter_mset (\<lambda>e. val e \<noteq> v) M) \<Longrightarrow>
      P (h', q', int (size M) - int (size (filter_mset (\<lambda>e. val e \<noteq> v) M)))"
  shows "yields (pq_erase junk h q v) P"
proof -
  have q': "pq_state h q" "others h q = live h0" "pq_mset q = M" "slack h0 \<le> slack h + B"
    using q by (auto simp: pq_in_def)
  have cnt: "pq_count q = int (size M)" using pq_in_size [OF q] by (simp add: pq_length_def)
  have "erase_room (size M) \<le> erase_room 7" unfolding erase_room_def using room(1) by (intro add_mono mult_mono) auto
  then have e: "erase_room (nat (pq_count q)) \<le> 3300" using cnt by (simp add: erase_room_def)
  with room(2) q'(4) have "erase_room (nat (pq_count q)) < slack h" by simp
  from pq_erase_ok [OF q'(1) this, of junk v] obtain h' q'' where r: "pq_erase junk h q v = Inr (h', q'', pq_count q - pq_count q'')"
    "pq_state h' q''" "others h' q'' = live h0" "pq_mset q'' = filter_mset (\<lambda>e. val e \<noteq> v) M" "pq_size q'' \<le> 10 + 2 * pq_count q"
    "slack h \<le> slack h' + erase_room (nat (pq_count q))" using q' by auto
  have "pq_in h0 (B + 3300) (h', q'') (filter_mset (\<lambda>e. val e \<noteq> v) M)" using r q' cnt room e by (auto simp: pq_in_def)
  from P [OF this] r(1) pq_in_size [OF this] cnt show ?thesis by (simp add: pq_length_def)
qed

lemma pq_in_destroy:
  assumes "pq_in h0 B (h, q) M" "B \<le> C"
  shows "heap_inv (fst (pq_destroy h q)) \<and> live (fst (pq_destroy h q)) = live h0 \<and> slack h0 \<le> slack (fst (pq_destroy h q)) + C"
  using pq_destroy_ok [of h q] assms by (auto simp: pq_in_def)

lemma heap_eraseTest_ok:
  assumes "heap_inv h0" "12000 < slack h0"
  shows "yields (heap_eraseTest junk h0) (\<lambda>h'. heap_inv h' \<and> live h' = live h0 \<and> slack h0 \<le> slack h' + 12000)"
  unfolding heap_eraseTest_def Let_def yields_simps
  apply (insert assms)
  apply (rule pq_in_new; simp?)
  apply (rule pq_in_insert, assumption; simp)+
  apply (rule pq_in_top [where k = 5], assumption; simp)
  apply (rule pq_in_erase, assumption; simp)
  apply (rule pq_in_top [where k = 4], assumption; simp add: pq_in_size)
  apply (rule pq_in_insert, assumption; simp)
  apply (rule pq_in_top [where k = 34], assumption; simp)
  apply (rule pq_in_insert, assumption; simp)+
  apply (rule pq_in_erase, assumption; simp)
  apply (rule pq_in_destroy, assumption, simp)
  done

lemma times_eraseTest_ok:
  "heap_inv h \<Longrightarrow> 12000 * n < slack h \<Longrightarrow>
   yields (times_result n (heap_eraseTest junk) h) (\<lambda>h'. heap_inv h' \<and> live h' = live h \<and> slack h \<le> slack h' + 12000 * n)"
proof (induction n arbitrary: h)
  case (Suc n)
  have "12000 < slack h" if "n = 0" using Suc.prems that by simp
  moreover have "12000 < slack h" if "n \<noteq> 0" using Suc.prems that by (cases n) auto
  ultimately have r: "12000 < slack h" by blast
  show ?case unfolding times_result.simps yields_simps
    by (rule yields_weaken [OF heap_eraseTest_ok [OF Suc.prems(1) r]], rule yields_weaken [OF Suc.IH]) (use Suc.prems in auto)
qed simp

subsection \<open>Filling and draining\<close>

text \<open>A queue of at most 2000 random keys below 1000; \<open>S\<close> bounds the free space the heap had when the queue was made.\<close>

definition filling :: "(addr \<rightharpoonup> nat) \<Rightarrow> nat \<Rightarrow> block \<Rightarrow> (u32, u32) priority_queue \<Rightarrow> bool" where
  "filling L S h q \<longleftrightarrow> pq_state h q \<and> others h q = L \<and> 5 \<le> pq_size q \<and> pq_size q \<le> 4000 \<and>
     S \<le> slack h + 32 * nat (pq_size q) \<and> (\<forall>e \<in># pq_mset q. unat (key e) < 1000)"

lemma filling_insert:
  assumes f: "filling L S h q" and c: "pq_count q < 2000" and S: "200000 < S" and k: "unat k < 1000"
  shows "\<exists>h' q'. pq_insert_kv junk h q k v = Inr (h', q') \<and> filling L S h' q' \<and> pq_count q' = pq_count q + 1"
proof -
  have q: "pq_state h q" "others h q = L" "5 \<le> pq_size q" "pq_size q \<le> 4000" "S \<le> slack h + 32 * nat (pq_size q)"
    "\<forall>e \<in># pq_mset q. unat (key e) < 1000" using f by (auto simp: filling_def)
  have "16 * nat (pq_size q) + 24 < slack h" using q(4,5) S by linarith
  from pq_insert_ok [OF q(1) this, of junk "\<lparr>key = k, val = v\<rparr>"] obtain h' q' where r:
    "pq_insert junk h q \<lparr>key = k, val = v\<rparr> = Inr (h', q')" "pq_state h' q'" "pq_count q' = pq_count q + 1"
    "pq_size q' \<le> max (pq_size q) (2 * pq_count q)" "pq_mset q' = add_mset \<lparr>key = k, val = v\<rparr> (pq_mset q)"
    "others h' q' = others h q" "slack h + 32 * nat (pq_size q) \<le> slack h' + 32 * nat (pq_size q')" by blast
  have "5 \<le> pq_size q'" using r(2,3) q(3) pq_grows [OF r(1)] by auto
  then have "filling L S h' q'" using r q c k by (auto simp: filling_def)
  with r(1,3) show ?thesis by (simp add: pq_insert_kv_def)
qed

lemma fill_heap_ok:
  "filling L S h q \<Longrightarrow> pq_count q + int n \<le> 2000 \<Longrightarrow> 200000 < S \<Longrightarrow>
   \<exists>h' q' p'. fill_heap ts junk n p h q = Inr (h', q', p') \<and> filling L S h' q' \<and> pq_count q' = pq_count q + int n"
proof (induction n arbitrary: h q p)
  case (Suc n)
  have "(0::nat) < 1000" "(1000::nat) \<le> 2 ^ 32" "(0::nat) < 400" "(400::nat) \<le> 2 ^ 32" by simp_all
  from rand_at_value [OF this(1,2), of ts p] rand_at_value [OF this(3,4), of ts "p + 1"] obtain k v where
    kv: "rand_at ts p 1000 = Inr k" "unat k < 1000" "rand_at ts (p + 1) 400 = Inr v" by auto
  have "pq_count q < 2000" using Suc.prems(2) by simp
  from filling_insert [OF Suc.prems(1) this Suc.prems(3) kv(2), of junk v] obtain h1 q1 where
    1: "pq_insert_kv junk h q k v = Inr (h1, q1)" "filling L S h1 q1" "pq_count q1 = pq_count q + 1" by blast
  from Suc.IH [OF 1(2), of "p + 2"] 1(3) Suc.prems(2,3) obtain h' q' p' where
    "fill_heap ts junk n (p + 2) h1 q1 = Inr (h', q', p')" "filling L S h' q'" "pq_count q' = pq_count q1 + int n" by auto
  with 1 kv show ?case by simp
qed simp

lemma drain_heap_ok:
  "filling L S h q \<Longrightarrow> pq_count q = int n \<Longrightarrow> \<forall>e \<in># pq_mset q. key e \<le> prev \<Longrightarrow>
   \<exists>q'. drain_heap n prev q = Inr q' \<and> filling L S h q'"
proof (induction n arbitrary: q prev)
  case (Suc n)
  have inv: "pq_inv q" and pos: "0 < pq_count q" and sz: "2 \<le> pq_size q" using Suc.prems by (auto simp: filling_def pq_state_def)
  from pq_dequeue_correct [OF inv pos] obtain q1 where d: "pq_dequeue q = Inr (pq_mem q ! 0, q1)" "pq_inv q1"
    "pq_ptr q1 = pq_ptr q" "pq_size q1 = pq_size q" "pq_count q1 = pq_count q - 1" "pq_mset q1 = pq_mset q - {#pq_mem q ! 0#}" by blast
  note top = pq_top_max [OF inv pos]
  have f: "filling L S h q1" using Suc.prems(1) d by (auto simp: filling_def pq_state_def others_def dest: in_diffD)
  have le: "\<forall>e \<in># pq_mset q1. key e \<le> key (pq_mem q ! 0)" using top(3) d(6) by (auto dest: in_diffD)
  have "key (pq_mem q ! 0) \<le> prev" using Suc.prems(3) top(2) by simp
  with Suc.IH [OF f _ le] d(1,5) Suc.prems(2) dequeue_is_correct [OF inv sz d(1)] show ?case by (simp add: Let_def)
qed simp

lemma heap_correctness_ok:
  assumes inv: "heap_inv h" and room: "300000 < slack h"
  shows "yields (heap_correctness ts junk p h) (\<lambda>(h', p'). heap_inv h' \<and> live h' = live h \<and> slack h \<le> slack h' + 130000)"
proof -
  from pq_new_ok [OF inv, of 5 junk] room obtain h1 q1 where 1: "pq_new_default junk h = Inr (h1, q1)" "pq_state h1 q1"
    "pq_count q1 = 0" "pq_size q1 = 5" "pq_mset q1 = {#}" "others h1 q1 = live h" "slack h \<le> slack h1 + 56"
    by (auto simp: pq_new_default_def)
  have f1: "filling (live h) (slack h - 56) h1 q1" using 1 by (auto simp: filling_def)
  have "pq_count q1 + int 2000 \<le> 2000" "200000 < slack h - 56" using 1(3) room by simp_all
  from fill_heap_ok [OF f1 this, of ts junk p] 1(3) obtain h2 q2 p2 where
    2: "fill_heap ts junk 2000 p h1 q1 = Inr (h2, q2, p2)" "filling (live h) (slack h - 56) h2 q2" "pq_count q2 = int 2000" by auto
  have "is_correct q2 = Inr ()"
    using is_correct_eq [OF 2(3)] 2(2,3) by (auto simp: filling_def pq_state_def pq_inv_def)
  moreover have "\<forall>e \<in># pq_mset q2. key e \<le> 1000" using 2(2) by (auto simp: filling_def word_le_nat_alt)
  from drain_heap_ok [OF 2(2,3) this] obtain q3 where 3: "drain_heap 2000 1000 q2 = Inr q3" "filling (live h) (slack h - 56) h2 q3" by blast
  ultimately have "heap_correctness ts junk p h = Inr (fst (pq_destroy h2 q3), p2)"
    using 1(1) 2(1) unfolding heap_correctness_def by (simp del: fill_heap.simps drain_heap.simps)
  moreover have "pq_state h2 q3" "others h2 q3 = live h" "slack h - 56 \<le> slack h2 + 128000" using 3(2) by (auto simp: filling_def)
  ultimately show ?thesis using pq_destroy_ok [of h2 q3] by auto
qed

lemma MaxHeapTester_run_ok:
  assumes "heap_inv h" "2600000 < slack h"
  shows "yields (MaxHeapTester_run ts junk junki p h) (\<lambda>(h', p'). heap_inv h' \<and> live h' = live h \<and> slack h \<le> slack h' + 2530000)"
  unfolding MaxHeapTester_run_def yields_simps
  apply (insert assms)
  apply (rule yields_weaken [OF heap_correctness_ok]; clarsimp)
  apply (rule yields_weaken [OF times_eraseTest_ok]; clarsimp)
  done

section \<open>Following a map through a test\<close>

definition umap_in :: "block \<Rightarrow> nat \<Rightarrow> block \<times> (32 word, int) pairs \<times> umap \<Rightarrow> (32 word \<rightharpoonup> int) \<Rightarrow> bool" where
  "umap_in h0 B = (\<lambda>(h, s, m) mp. umap_owns hash_int (live h0) (h, s, m) mp \<and> slack h0 \<le> slack h + B)"

lemma umap_in_new:
  assumes "heap_inv h0" "100 < slack h0" and P: "\<And>h m. umap_in h0 84 (h, s, m) Map.empty \<Longrightarrow> P (h, m)"
  shows "yields (umap_new h0 8) P"
proof -
  from umap_new_owns [OF assms(1), of 8 hash_int s] assms(2) obtain h m where
    "umap_new h0 8 = Inr (h, m)" "umap_owns hash_int (live h0) (h, s, m) Map.empty" "slack h0 \<le> slack h + 84" by auto
  with P [of h m] show ?thesis by (simp add: umap_in_def)
qed

lemma umap_in_rep: "umap_in h0 B (h, s, m) mp \<Longrightarrow> umap_rep hash_int (h, s, m) mp"
  by (auto simp: umap_in_def umap_rep_owns)

lemma umap_in_size: "umap_in h0 B (h, s, m) mp \<Longrightarrow> card (dom mp) < 2 ^ 31 \<Longrightarrow> sint (umap_size m) = int (card (dom mp))"
  using umap_size_rep(2) [OF umap_in_rep] sint_u32_small [of "umap_size m"] by simp

lemma umap_in_insert:
  assumes m: "umap_in h0 B (h, s, m) mp" and room: "B + 36 < slack h0"
    and P: "\<And>h' s' m'. umap_in h0 (B + 28) (h', s', m') (case mp k of None \<Rightarrow> mp(k \<mapsto> v) | Some w \<Rightarrow> mp) \<Longrightarrow> P (h', s', m', mp k = None)"
  shows "yields (umap_insert hash_int h s m k v) P"
proof (cases "mp k")
  case None
  have "36 < slack h" "umap_owns hash_int (live h0) (h, s, m) mp" using m room by (auto simp: umap_in_def)
  from umap_insert_owns [OF this(2) None this(1), of v] obtain h' s' m' where "umap_insert hash_int h s m k v = Inr (h', s', m', True)"
    "umap_owns hash_int (live h0) (h', s', m') (mp(k \<mapsto> v))" "slack h \<le> slack h' + 28" by blast
  with m P [of h' s' m'] None show ?thesis by (simp add: umap_in_def)
next
  case (Some w)
  from um.ins_dup [OF umap_in_rep [OF m], of k v] Some have "umap_insert hash_int h s m k v = Inr (h, s, m, False)"
    by (auto simp: um_ins_def rbind_Inr_iff)
  with P [of h s m] m Some show ?thesis by (auto simp: umap_in_def)
qed

lemma umap_in_erase:
  assumes m: "umap_in h0 B (h, s, m) mp" and P: "\<And>h' s' m'. umap_in h0 B (h', s', m') (mp(k := None)) \<Longrightarrow> P (h', s', m', mp k \<noteq> None)"
  shows "yields (umap_erase hash_int h s m k) P"
proof -
  from m umap_erase_owns [of hash_int "live h0" h s m mp k] obtain h' s' m' where
    "umap_erase hash_int h s m k = Inr (h', s', m', mp k \<noteq> None)" "umap_owns hash_int (live h0) (h', s', m') (mp(k := None))"
    "slack h \<le> slack h'" by (auto simp: umap_in_def)
  with m P [of h' s' m'] show ?thesis by (simp add: umap_in_def)
qed

text \<open>\<^verbatim>\<open>find\<close> of a key that is not there, and reading the value of one that is.\<close>

lemma umap_in_find:
  assumes m: "umap_in h0 B (h, s, m) mp"
  shows "mp k = None \<Longrightarrow> P NULL \<Longrightarrow> yields (umap_find hash_int s m k) P"
    and "mp k \<noteq> None \<Longrightarrow> Q (the (mp k)) \<Longrightarrow> yields (umap_find hash_int s m k) (\<lambda>p. yields (deref_value s p) Q)"
  using umap_get_rep [OF umap_in_rep [OF m], of k]
  by (auto simp: umap_get_def yields_iff deref_value_def rbind_Inr_iff split: if_splits)

lemma umap_in_destroy:
  assumes m: "umap_in h0 B (h, s, m) mp"
    and P: "\<And>h'. heap_inv h' \<Longrightarrow> live h' = live h0 \<Longrightarrow> slack h0 \<le> slack h' + B \<Longrightarrow> P h'"
  shows "yields (umap_destroy h s m) P"
proof -
  from m obtain ass where "umap_state hash_int h s m ass" "umap_rest h m ass = live h0" "slack h0 \<le> slack h + B"
    by (auto simp: umap_in_def umap_owns_def)
  with umap_destroy_ok [of hash_int h s m ass] P show ?thesis by (auto simp: yields_iff)
qed

lemma insertEraseTest_ok:
  assumes "heap_inv h0" "300 < slack h0"
  shows "yields (insertEraseTest h0 s) (\<lambda>(h', s'). heap_inv h' \<and> live h' = live h0 \<and> slack h0 \<le> slack h' + 300)"
  unfolding insertEraseTest_def yields_simps
  apply (insert assms)
  apply (rule umap_in_new [where s = s]; simp add: umap_in_size)
  apply (rule umap_in_insert, assumption; simp)
  apply (rule umap_in_insert, assumption; simp add: umap_in_size)
  apply (rule umap_in_find(1), assumption; simp)
  apply (rule umap_in_find(2), assumption; simp)
  apply (rule umap_in_find(2), assumption; simp)
  apply (rule umap_in_insert, assumption; simp)
  apply (rule umap_in_erase, assumption; simp add: umap_in_size)
  apply (rule umap_in_find(1), assumption; simp)
  apply (rule umap_in_erase, assumption; simp add: umap_in_size)
  apply (rule umap_in_destroy, assumption; simp)
  done

section \<open>The tests pass\<close>

lemma ContainerTester_run_ok:
  assumes "heap_inv h" "2700000 < slack h"
  shows "yields (ContainerTester_run ts junk junki p h s t)
    (\<lambda>(h', p', s', t'). heap_inv h' \<and> live h' = live h \<and> slack h \<le> slack h' + 2700000)"
  unfolding ContainerTester_run_def yields_simps
  apply (insert assms)
  apply (rule yields_weaken [OF MaxHeapTester_run_ok]; clarsimp)
  apply (rule yields_weaken [OF QueueTester_run_ok]; clarsimp)
  apply (rule yields_weaken [OF insertEraseTest_ok]; clarsimp)
  done

text \<open>
  C14. On a sound heap with 2.7 MB of free space at its end the container self tests of the kernel pass, whatever the time stamp
  counter shows: no assertion fails, no self-check of a queue hangs, no access goes wrong, and the destructors release
  every block the tests allocated. This contradicts the comment at the loop of \<^verbatim>\<open>MaxHeapTester\<close> (``I am getting memory allocation
  problems after running this test''): neither the test nor the allocator causes them.
\<close>

theorem container_tests_pass:
  assumes "heap_inv h" "2700000 < slack h"
  shows "\<exists>h' p' s' t'. ContainerTester_run ts junk junki p h s t = Inr (h', p', s', t') \<and> heap_inv h' \<and> live h' = live h"
  using ContainerTester_run_ok [OF assms, of ts junk junki p s t] by (auto simp: yields_iff)

theorem container_tests_pass_witness:
  "\<exists>h' p' s' t'. ContainerTester_run (\<lambda>i. (word_of_nat i, 7)) (\<lambda>_. \<lparr>key = 0, val = 0\<rparr>) (\<lambda>_. \<lparr>key = 0, val = 0\<rparr>) 0 roomy_heap
     no_nodes (\<lambda>_. \<lparr>nvalue = make_pair 0 0, nnext = NULL\<rparr>) = Inr (h', p', s', t') \<and> live h' = live roomy_heap"
  using container_tests_pass [OF roomy_heap_inv(1)] roomy_heap_inv(2) by fastforce

end
