(* ===== verification/Scheduler_Tester.thy ===== *)
theory Scheduler_Tester
  imports Process_Spec
begin

text \<open>
  The scheduler self test of the kernel: \<^verbatim>\<open>src/src/kernel/include/kernel/tests/SchedulerTester.h\<close>. The boot thread (pid 1) creates
  threads, waits until they are gone, creates two more and calls \<^verbatim>\<open>suspend\<close> and \<^verbatim>\<open>ready\<close> while they run. A timer tick can come
  between any two statements; the calls of the kernel themselves count as one step. Log messages are left out.
\<close>

section \<open>What the threads compute\<close>

fun longCalculation_loop :: "nat \<Rightarrow> u64 \<Rightarrow> u64" where
  "longCalculation_loop 0 acc = acc"
| "longCalculation_loop (Suc i) acc = longCalculation_loop i (acc + (acc + 1))"

definition longCalculation :: "u64 \<Rightarrow> u64" where
  "longCalculation cnt = longCalculation_loop (unat cnt) 1"

text \<open>The bodies of the threads, as the lists of results they compute before they return.\<close>

function procedureOne :: "int \<Rightarrow> u64 list" where
  "procedureOne counter =
     longCalculation (push_bit 18 1) # (if counter + 1 > 20 then [] else procedureOne (counter + 1))"
  by pat_completeness auto
termination by (relation "measure (\<lambda>c. nat (21 - c))") auto

function procedureTwo :: "int \<Rightarrow> u64 list" where
  "procedureTwo counter =
     (if counter + 1 > 5 then [] else longCalculation (push_bit 18 1) # procedureTwo (counter + 1))"
  by pat_completeness auto
termination by (relation "measure (\<lambda>c. nat (6 - c))") auto

function small_function :: "int \<Rightarrow> u64 list" where
  "small_function counter =
     longCalculation (push_bit 8 1) # (if counter + 1 > 5 then [] else small_function (counter + 1))"
  by pat_completeness auto
termination by (relation "measure (\<lambda>c. nat (6 - c))") auto

declare procedureOne.simps [simp del] procedureTwo.simps [simp del] small_function.simps [simp del]

section \<open>The boot thread\<close>

text \<open>
  Where the boot thread is: creating the \<open>i\<close>-th thread of \<^verbatim>\<open>spawnLots\<close>, waiting for them, creating the two threads of \<^verbatim>\<open>simple\<close>,
  and in \<^verbatim>\<open>mainProc\<close> before the calculation, the calls for pid 2, the call for pid 3 and the check of the ready list. The two
  arguments are \<^verbatim>\<open>c\<close> and \<^verbatim>\<open>suspendedPidTwo\<close>.
\<close>

datatype sched_phase = Spawn nat | SpawnWait | CreateOne | CreateTwo
  | MainCalc int bool | MainTwo int bool | MainThree int bool | MainSize int bool | TestDone

definition readylist_size :: "kernel \<Rightarrow> int" where
  "readylist_size k = pq_length (rl_queue (t_ready (k_table k)))"

definition spawnLots :: "junk \<Rightarrow> addr \<Rightarrow> addr \<Rightarrow> nat \<Rightarrow> nat \<Rightarrow> kernel \<Rightarrow> (sched_phase \<times> kernel) result" where
  "spawnLots junk initret smallf cnt i k =
     (if i < cnt
      then rbind (kthread_create junk initret NULL k smallf (4 * PAGE_SIZE) 10 PR_RUNNABLE False [word_of_nat i, word_of_nat i, word_of_nat i])
             (\<lambda>(k', _). Inr (Spawn (i + 1), k'))
      else Inr (SpawnWait, k))"

definition spawn_wait :: "kernel \<Rightarrow> sched_phase \<times> kernel" where
  "spawn_wait k = (let r = longCalculation (push_bit 18 1) in if readylist_size k = 1 then (CreateOne, k) else (SpawnWait, k))"

definition create_one :: "junk \<Rightarrow> addr \<Rightarrow> addr \<Rightarrow> kernel \<Rightarrow> (sched_phase \<times> kernel) result" where
  "create_one junk initret one k =
     rbind (kthread_create junk initret NULL k one (8 * PAGE_SIZE) 10 PR_RUNNABLE False [34, 56, 67]) (\<lambda>(k', _). Inr (CreateTwo, k'))"

definition create_two :: "junk \<Rightarrow> addr \<Rightarrow> addr \<Rightarrow> kernel \<Rightarrow> (sched_phase \<times> kernel) result" where
  "create_two junk initret two k =
     rbind (kthread_create junk initret NULL k two (8 * PAGE_SIZE) 10 PR_RUNNABLE False [89, 435, 3434, 23]) (\<lambda>(k', _). Inr (MainCalc 0 False, k'))"

definition mainProc_calc :: "int \<Rightarrow> bool \<Rightarrow> sched_phase" where
  "mainProc_calc c suspended =
     (let c = c + 1; res = longCalculation (push_bit 18 1)
      in if c smod 10 = 0 then MainTwo c suspended else MainSize c suspended)"

definition mainProc_two :: "junk \<Rightarrow> int \<Rightarrow> bool \<Rightarrow> kernel \<Rightarrow> (sched_phase \<times> kernel) result" where
  "mainProc_two junk c suspended k =
     (if \<not> suspended then rbind (suspend junk k 2) (\<lambda>(k', _). Inr (MainThree c True, k'))
      else rbind (ready junk k 2) (\<lambda>(k', _). Inr (MainThree c False, k')))"

definition mainProc_three :: "junk \<Rightarrow> int \<Rightarrow> bool \<Rightarrow> kernel \<Rightarrow> (sched_phase \<times> kernel) result" where
  "mainProc_three junk c suspended k =
     rbind (ready junk k 3) (\<lambda>(k', status). if status = PROC_NEX then Inr (MainSize c suspended, k') else Inl Hang)"

definition mainProc_size :: "int \<Rightarrow> bool \<Rightarrow> kernel \<Rightarrow> sched_phase \<times> kernel" where
  "mainProc_size c suspended k = (if readylist_size k = 1 then (TestDone, k) else (MainCalc c suspended, k))"

fun sched_main :: "junk \<Rightarrow> addr \<Rightarrow> addr \<Rightarrow> addr \<Rightarrow> addr \<Rightarrow> sched_phase \<Rightarrow> kernel \<Rightarrow> (sched_phase \<times> kernel) result" where
  "sched_main junk initret smallf one two (Spawn i) k = spawnLots junk initret smallf 30 i k"
| "sched_main junk initret smallf one two SpawnWait k = Inr (spawn_wait k)"
| "sched_main junk initret smallf one two CreateOne k = create_one junk initret one k"
| "sched_main junk initret smallf one two CreateTwo k = create_two junk initret two k"
| "sched_main junk initret smallf one two (MainCalc c s) k = Inr (mainProc_calc c s, k)"
| "sched_main junk initret smallf one two (MainTwo c s) k = mainProc_two junk c s k"
| "sched_main junk initret smallf one two (MainThree c s) k = mainProc_three junk c s k"
| "sched_main junk initret smallf one two (MainSize c s) k = Inr (mainProc_size c s k)"
| "sched_main junk initret smallf one two TestDone k = Inr (TestDone, k)"

text \<open>
  The stack size and the number of arguments of the thread the boot thread creates next, if it does; \<open>spared\<close> says that the initial
  stack of that thread will not lie over a header of the heap, the process table or the ready list.
\<close>

fun next_create :: "sched_phase \<Rightarrow> (u32 \<times> nat) option" where
  "next_create (Spawn i) = (if i < 30 then Some (4 * PAGE_SIZE, 3) else None)"
| "next_create CreateOne = Some (8 * PAGE_SIZE, 3)"
| "next_create CreateTwo = Some (8 * PAGE_SIZE, 4)"
| "next_create _ = None"

definition spared :: "sched_phase \<Rightarrow> kernel \<Rightarrow> bool" where
  "spared ph k = (case next_create ph of None \<Rightarrow> True | Some (sz, n) \<Rightarrow> stack_clear k sz n)"

text \<open>
  The test with everything that can interleave: a tick of the timer, a step of the boot thread when it is the current process, and
  the return of a thread from its function, which leads to \<^verbatim>\<open>userret\<close>.
\<close>

inductive sched_test :: "junk \<Rightarrow> addr \<Rightarrow> addr \<Rightarrow> addr \<Rightarrow> addr \<Rightarrow> sched_phase \<times> kernel \<Rightarrow> sched_phase \<times> kernel \<Rightarrow> bool"
  for junk initret smallf one two where
  tick: "timerObserver junk sp k = Inr k' \<Longrightarrow> sched_test junk initret smallf one two (ph, k) (ph, k')"
| main: "k_curr k = 1 \<Longrightarrow> sched_main junk initret smallf one two ph k = Inr (ph', k') \<Longrightarrow>
    sched_test junk initret smallf one two (ph, k) (ph', k')"
| return: "1 < k_curr k \<Longrightarrow> userret junk sp k = Inr (k', r) \<Longrightarrow> sched_test junk initret smallf one two (ph, k) (ph, k')"

text \<open>The state of the process table when the test starts, as \<^verbatim>\<open>processes::init\<close> leaves it.\<close>

definition test_start :: "kernel \<Rightarrow> bool" where
  "test_start k \<longleftrightarrow> proc_inv k \<and> t_taken (k_table k) = True # True # replicate 1022 False \<and> stat k 1 \<in> {PR_CURR, PR_RUNNABLE} \<and>
     pq_size (ready_queue k) \<le> 80 \<and> 3000000 < slack (k_heap k)"

inductive sched_reach :: "junk \<Rightarrow> addr \<Rightarrow> addr \<Rightarrow> addr \<Rightarrow> addr \<Rightarrow> sched_phase \<times> kernel \<Rightarrow> bool"
  for junk initret smallf one two where
  start: "test_start k \<Longrightarrow> sched_reach junk initret smallf one two (Spawn 0, k)"
| step: "sched_reach junk initret smallf one two st \<Longrightarrow> sched_test junk initret smallf one two st st' \<Longrightarrow>
    sched_reach junk initret smallf one two st'"

section \<open>The calculations\<close>

lemma longCalculation_loop_value: "longCalculation_loop n acc + 1 = (acc + 1) * 2 ^ n"
proof (induction n arbitrary: acc)
  case (Suc n)
  from Suc.IH [of "acc + (acc + 1)"] show ?case by (simp add: algebra_simps)
qed simp

lemma longCalculation_value: "longCalculation n = 2 ^ (unat n + 1) - 1"
  using longCalculation_loop_value [of "unat n" 1] by (simp add: longCalculation_def eq_diff_eq)

section \<open>The invariant of the test\<close>

fun created :: "sched_phase \<Rightarrow> nat" where
  "created (Spawn i) = i"
| "created SpawnWait = 30"
| "created CreateOne = 30"
| "created CreateTwo = 31"
| "created _ = 32"

fun gone :: "sched_phase \<Rightarrow> nat set" where
  "gone (Spawn i) = {}"
| "gone SpawnWait = {}"
| "gone TestDone = {2..<34}"
| "gone _ = {2..<32}"

fun phase_ok :: "sched_phase \<Rightarrow> bool" where
  "phase_ok (Spawn i) = (i \<le> 30)"
| "phase_ok _ = True"

definition dead :: "kernel \<Rightarrow> nat set" where
  "dead k = {j. j < 1024 \<and> stat k j = PR_DEAD}"

definition test_inv :: "nat \<Rightarrow> sched_phase \<Rightarrow> kernel \<Rightarrow> bool" where
  "test_inv S ph k \<longleftrightarrow> proc_inv k \<and> phase_ok ph \<and> created ph \<le> 32 \<and> stat k 1 \<in> {PR_CURR, PR_RUNNABLE} \<and>
     t_taken (k_table k) = replicate (2 + created ph) True @ replicate (1022 - created ph) False \<and>
     (\<forall>j \<in> {2..<2 + created ph}. stat k j \<in> {PR_CURR, PR_RUNNABLE, PR_DEAD}) \<and> gone ph \<subseteq> dead k \<and>
     pq_size (ready_queue k) \<le> 80 \<and> S \<le> slack (k_heap k) + 45000 * (created ph + card (dead k))"

text \<open>The threads of the test and the boot thread have the same priority; the null process, which has a lower one, never runs.\<close>

definition prio_inv :: "sched_phase \<Rightarrow> kernel \<Rightarrow> bool" where
  "prio_inv ph k \<longleftrightarrow> pe_prio (procs k ! 0) < 10 \<and> (\<forall>j \<in> {1..<2 + created ph}. pe_prio (procs k ! j) = 10) \<and> 1 \<le> k_curr k"

lemma test_inv_na:
  assumes "test_inv S ph k" "2 + created ph \<le> j" "j < 1024"
  shows "stat k j = PR_NA"
proof -
  have "sched_inv k" "t_taken (k_table k) = replicate (2 + created ph) True @ replicate (1022 - created ph) False"
    using assms(1) by (auto simp: test_inv_def proc_inv_def)
  with assms(2,3) show ?thesis by (auto simp: sched_inv_def nth_append)
qed

lemma test_inv_dead:
  assumes "test_inv S ph k"
  shows "dead k \<subseteq> {2..<2 + created ph}" "card (dead k) \<le> created ph"
proof -
  have "stat k j \<noteq> PR_DEAD" if "j < 2" for j
  proof -
    have "j = 0 \<or> j = 1" using that by auto
    then show ?thesis using assms by (auto simp: test_inv_def proc_inv_def)
  qed
  moreover have "stat k j \<noteq> PR_DEAD" if "2 + created ph \<le> j" "j < 1024" for j using test_inv_na [OF assms that] by simp
  ultimately show sub: "dead k \<subseteq> {2..<2 + created ph}" unfolding dead_def by (auto simp: not_less) (meson not_less)+
  show "card (dead k) \<le> created ph" using card_mono [OF _ sub] by simp
qed

lemma test_inv_runnable:
  assumes "test_inv S ph k"
  shows "runnable k \<subseteq> {..<2 + created ph}" "card (runnable k) \<le> 34"
proof -
  show sub: "runnable k \<subseteq> {..<2 + created ph}"
    using test_inv_na [OF assms] by (auto simp: runnable_def) (metis not_less proc_status.distinct(13))
  have "created ph \<le> 32" using assms by (simp add: test_inv_def)
  with card_mono [OF _ sub] show "card (runnable k) \<le> 34" by simp
qed

lemma erase_room_34: "n \<le> 34 \<Longrightarrow> erase_room n \<le> 45000"
proof -
  assume "n \<le> 34"
  then have "erase_room n \<le> erase_room 34" unfolding erase_room_def by (intro add_mono mult_mono) auto
  then show ?thesis by (simp add: erase_room_def)
qed

lemma test_inv_slack:
  assumes "test_inv S ph k" "3000000 < S"
  shows "120000 < slack (k_heap k)"
proof -
  have "created ph + card (dead k) \<le> 64" using assms(1) test_inv_dead(2) [OF assms(1)] by (simp add: test_inv_def)
  then have "45000 * (created ph + card (dead k)) \<le> 45000 * 64" by (rule mult_le_mono2)
  with assms show ?thesis by (simp add: test_inv_def)
qed

text \<open>A tick of the timer.\<close>

lemma test_inv_frame:
  assumes inv: "test_inv S ph k" and f: "same_frame k k'" and s: "sched_inv k'"
  shows "test_inv S ph k'"
proof -
  have st: "stat k' j = stat k j \<or> {stat k j, stat k' j} \<subseteq> {PR_CURR, PR_RUNNABLE}" if "j < 1024" for j
    by (rule same_frame_stat [OF f that])
  have "dead k' = dead k" using st by (auto simp: dead_def) (metis insert_subset insertE proc_status.distinct(5,11) singletonD)+
  moreover have "proc_inv k'" using proc_inv_frame [OF _ f s] inv by (simp add: test_inv_def)
  moreover have "stat k' j \<in> {PR_CURR, PR_RUNNABLE, PR_DEAD}" if "stat k j \<in> {PR_CURR, PR_RUNNABLE, PR_DEAD}" "j < 1024" for j
    using st [of j] that by auto
  moreover have "stat k' 1 \<in> {PR_CURR, PR_RUNNABLE}" using st [of 1] inv by (auto simp: test_inv_def)
  ultimately show ?thesis using inv f by (auto simp: test_inv_def same_frame_def)
qed

lemma test_inv_tick:
  assumes "test_inv S ph k"
  shows "\<exists>k'. timerObserver junk sp k = Inr k' \<and> test_inv S ph k'"
proof -
  let ?k = "k\<lparr>timerFired := timerFired k + 1\<rparr>"
  have "proc_inv ?k" using assms sched_inv_cong [of ?k k] by (simp add: test_inv_def proc_inv_def stacks_ok_def)
  then have inv: "test_inv S ph ?k" using assms by (simp add: test_inv_def dead_def)
  then obtain c where "k_curr ?k = int c" "sched_inv ?k" by (auto simp: test_inv_def proc_inv_def sched_inv_def)
  with resched_current [of ?k c junk sp] test_inv_frame [OF inv] show ?thesis unfolding timerObserver_def by auto
qed

text \<open>A thread that returns is dead from then on.\<close>

lemma test_inv_return:
  assumes inv: "test_inv S ph k" and S: "3000000 < S" and c: "1 < k_curr k"
  shows "\<exists>k'. userret junk sp k = Inr (k', PROC_OK) \<and> test_inv S ph k' \<and> dead k' = insert (nat (k_curr k)) (dead k)"
proof -
  have p: "sched_inv k" "stacks_ok k" "stat k 0 = PR_CURR \<or> stat k 0 = PR_RUNNABLE" using inv by (auto simp: test_inv_def proc_inv_def)
  then obtain i where i: "k_curr k = int i" "i < 1024" "stat k i = PR_CURR" by (auto simp: sched_inv_def)
  have i2: "1 < i" using c i(1) by simp
  have val: "valid_status (stat k i)" by (simp add: i(3) valid_status_def)
  have room: "erase_room (card (runnable k)) < slack (k_heap k)"
    using erase_room_34 [OF test_inv_runnable(2) [OF inv]] test_inv_slack [OF inv S] by simp
  have "stat k 0 \<noteq> PR_CURR" using p(1) i i2 by (auto simp: sched_inv_def)
  then have "0 \<in> runnable k" using p(3) by (simp add: runnable_def)
  then have ne: "k_curr k = int i \<longrightarrow> runnable k \<noteq> {}" by auto
  have stk: "others (k_heap k) (ready_queue k) (pe_stackmem (procs k ! i)) \<noteq> None" using p(2) i i2 val by (auto simp: stacks_ok_def)
  from kill_ok [OF p(1) i(2) val room stk ne, of junk sp] obtain k' where k': "kill junk sp k (int i) = Inr (k', PROC_OK)"
    "stat k' i = PR_DEAD" "t_taken (k_table k') = t_taken (k_table k)"
    "pq_size (ready_queue k') \<le> max (pq_size (ready_queue k)) (10 + 2 * int (card (runnable k)))"
    "slack (k_heap k) \<le> slack (k_heap k') + erase_room (card (runnable k))"
    and fr: "\<forall>j < 1024. j \<noteq> i \<longrightarrow> stat k' j = stat k j \<or> {stat k j, stat k' j} \<subseteq> {PR_CURR, PR_RUNNABLE}" by blast
  have "proc_inv k'" using kill_inv [of k i junk sp] inv room i i2 k'(1) by (auto simp: test_inv_def)
  moreover have "j \<in> dead k' \<longleftrightarrow> j \<in> insert i (dead k)" for j
    using fr [rule_format, of j] k'(2) i(2) by (cases "j = i") (auto simp: dead_def)
  then have d: "dead k' = insert i (dead k)" by blast
  then have "card (dead k') = Suc (card (dead k))" using i(3) by (subst d) (simp add: dead_def)
  moreover have "stat k' j \<in> {PR_CURR, PR_RUNNABLE, PR_DEAD}" if "stat k j \<in> {PR_CURR, PR_RUNNABLE, PR_DEAD}" "j < 1024" for j
    using fr that k'(2) by (cases "j = i") auto
  moreover have "stat k' 1 \<in> {PR_CURR, PR_RUNNABLE}" using fr [rule_format, of 1] i2 inv by (auto simp: test_inv_def)
  moreover have "created ph \<le> 32" using inv by (simp add: test_inv_def)
  ultimately have "test_inv S ph k'"
    using inv k'(3-5) d erase_room_34 [OF test_inv_runnable(2) [OF inv]] test_inv_runnable(2) [OF inv] by (auto simp: test_inv_def)
  then show ?thesis using k'(1) i(1) d by (simp add: userret_def getpid_def)
qed

text \<open>Creating one more thread.\<close>

lemma test_inv_create:
  assumes inv: "test_inv S ph k" and S: "3000000 < S" and c: "created ph < 32" and sz: "sz = 4 * PAGE_SIZE \<or> sz = 8 * PAGE_SIZE"
    and ph': "created ph' = Suc (created ph)" "gone ph' \<subseteq> gone ph" "phase_ok ph'" and clr: "stack_clear k sz (length args)"
  shows "\<exists>k' pid. kthread_create junk initret sp k code sz 10 PR_RUNNABLE False args = Inr (k', pid) \<and> test_inv S ph' k' \<and>
    k_curr k' = k_curr k \<and> dead k' = dead k \<and> (prio_inv ph k \<longrightarrow> prio_inv ph' k')"
proof -
  let ?n = "2 + created ph"
  have p: "proc_inv k" "stat k 0 = PR_CURR \<or> stat k 0 = PR_RUNNABLE" using inv by (auto simp: test_inv_def proc_inv_def)
  have tk: "t_taken (k_table k) = replicate ?n True @ replicate (1024 - ?n) False" using inv by (simp add: test_inv_def)
  have u: "MINSTACK \<le> sz" "unat sz \<le> 32768" using sz by (auto simp: MINSTACK_def PAGE_SIZE_def)
  have ps: "pq_size (ready_queue k) \<le> 80" using inv by (simp add: test_inv_def)
  then have cr: "create_room k sz \<le> 34112" using u(2) by (simp add: create_room_def)
  then have room: "create_room k sz < slack (k_heap k)" using test_inv_slack [OF inv S] by simp
  have n: "?n < 1024" using c by simp
  from create_next [OF p(1) tk n u(1) room clr, of junk initret sp code 10] obtain k' where
    k': "kthread_create junk initret sp k code sz 10 PR_RUNNABLE False args = Inr (k', int ?n)" "proc_inv k'"
      "t_taken (k_table k') = replicate (Suc ?n) True @ replicate (1024 - Suc ?n) False"
      "stat k' ?n = PR_RUNNABLE" "\<forall>j < 1024. j \<noteq> ?n \<longrightarrow> procs k' ! j = procs k ! j"
      "slack (k_heap k) \<le> slack (k_heap k') + create_room k sz"
      "pq_size (ready_queue k') \<le> max (pq_size (ready_queue k)) (2 * int (card (runnable k)))"
      and pr: "pe_prio (procs k' ! ?n) = 10" "k_curr k' = k_curr k" by blast
  have "prio_inv ph' k'" if "prio_inv ph k"
    using that pr k'(5) n by (auto simp: prio_inv_def ph'(1) less_Suc_eq)
  moreover have t: "t_taken (k_table k') = replicate (2 + created ph') True @ replicate (1022 - created ph') False" by (simp add: k'(3) ph'(1))
  have "stat k ?n = PR_NA" using test_inv_na [OF inv _ n] by simp
  then have "j \<in> dead k' \<longleftrightarrow> j \<in> dead k" for j using k'(4,5) by (cases "j = ?n") (auto simp: dead_def)
  then have d: "dead k' = dead k" by blast
  have "pq_size (ready_queue k') \<le> 80" using k'(7) ps test_inv_runnable(2) [OF inv] by simp
  moreover have "stat k' j \<in> {PR_CURR, PR_RUNNABLE, PR_DEAD}" if "j \<in> {2..<2 + created ph'}" for j
    using that k'(4,5) inv c by (cases "j = ?n") (auto simp: test_inv_def ph'(1))
  moreover have "stat k' 1 \<in> {PR_CURR, PR_RUNNABLE}" using k'(5) inv by (auto simp: test_inv_def)
  moreover have "S \<le> slack (k_heap k') + 45000 * (created ph' + card (dead k'))"
    using inv k'(6) cr by (simp add: test_inv_def d ph'(1))
  ultimately have "test_inv S ph' k'" "prio_inv ph k \<longrightarrow> prio_inv ph' k'" using k'(2) t c inv ph'(2,3) unfolding test_inv_def d by (auto simp: ph'(1))
  with k'(1) d pr(2) show ?thesis by blast
qed

text \<open>With the boot thread current, a ready list of one entry holds the null process only.\<close>

lemma size_one:
  assumes inv: "test_inv S ph k" and c: "k_curr k = 1" and one: "readylist_size k = 1"
  shows "{2..<2 + created ph} \<subseteq> dead k"
proof
  fix j assume j: "j \<in> {2..<2 + created ph}"
  have p: "sched_inv k" "stat k 0 = PR_CURR \<or> stat k 0 = PR_RUNNABLE" using inv by (auto simp: test_inv_def proc_inv_def)
  have cur: "stat k i = PR_CURR \<longleftrightarrow> i = 1" if "i < 1024" for i using p(1) c that by (auto simp: sched_inv_def)
  have "pq_count (ready_queue k) = int (card (runnable k))"
    using p(1) pq_mset_size [of "ready_queue k"] by (simp add: sched_inv_def queued_def pq_state_def)
  then have "card (runnable k) = 1" using one by (simp add: readylist_size_def pq_length_def)
  moreover have "0 \<in> runnable k" using p(2) cur [of 0] by (auto simp: runnable_def)
  ultimately have "runnable k = {0}" by (auto simp: card_1_singleton_iff)
  moreover have j4: "j < 1024" "created ph \<le> 32" using j inv by (auto simp: test_inv_def)
  ultimately have "j \<notin> runnable k" using j by auto
  then have "stat k j \<noteq> PR_RUNNABLE" using j4(1) by (simp add: runnable_def)
  with inv j cur [OF j4(1)] show "j \<in> dead k" using j4(1) by (auto simp: test_inv_def dead_def)
qed

lemma dead_calls:
  assumes "proc_inv k" "j \<in> dead k"
  shows "suspend junk k (int j) = Inr (k, PROC_NEX)" "ready junk k (int j) = Inr (k, PROC_NEX)"
proof -
  have "length (procs k) = 1024" using assms(1) by (simp add: proc_inv_def sched_inv_def queued_def)
  with assms(2) have "isvalid k (int j) = Inr False" by (simp add: isvalid_ok dead_def valid_status_def)
  then show "suspend junk k (int j) = Inr (k, PROC_NEX)" "ready junk k (int j) = Inr (k, PROC_NEX)"
    by (simp_all add: suspend_def ready_def)
qed

lemma test_inv_phase:
  assumes "test_inv S ph k" "created ph' = created ph" "gone ph' \<subseteq> dead k" "phase_ok ph'"
  shows "test_inv S ph' k"
  using assms by (simp add: test_inv_def)

lemma test_inv_unspared:
  assumes inv: "test_inv S ph k" and S: "3000000 < S" and sp: "\<not> spared ph k"
  shows "sched_main junk initret smallf one two ph k = Inl OutOfBounds"
proof -
  have ps: "pq_size (ready_queue k) \<le> 80" using inv by (simp add: test_inv_def)
  have "heap_inv (k_heap k)" using inv by (simp add: test_inv_def proc_inv_def sched_inv_def queued_def pq_state_def)
  have c: "kthread_create junk initret NULL k code sz 10 PR_RUNNABLE False args = Inl OutOfBounds"
    if sz: "sz = 4 * PAGE_SIZE \<or> sz = 8 * PAGE_SIZE" and "\<not> stack_clear k sz (length args)" for code sz args
  proof -
    have "MINSTACK \<le> sz" "unat sz \<le> 32768" using sz by (auto simp: MINSTACK_def PAGE_SIZE_def)
    moreover from this have "create_room k sz < slack (k_heap k)" using ps test_inv_slack [OF inv S] by (simp add: create_room_def)
    ultimately show ?thesis using kthread_create_caught \<open>heap_inv (k_heap k)\<close> that(2) by blast
  qed
  show ?thesis using sp c [of "4 * PAGE_SIZE" "[x, x, x]" for x] c [of "8 * PAGE_SIZE" "[34, 56, 67]"] c [of "8 * PAGE_SIZE" "[89, 435, 3434, 23]"]
    by (cases ph) (auto simp: spared_def spawnLots_def create_one_def create_two_def eval_nat_numeral split: if_splits)
qed

lemma test_inv_main:
  assumes inv: "test_inv S ph k" and S: "3000000 < S" and c: "k_curr k = 1" and sp: "spared ph k"
  shows "\<exists>ph' k'. sched_main junk initret smallf one two ph k = Inr (ph', k') \<and> test_inv S ph' k' \<and>
    k_curr k' = k_curr k \<and> dead k' = dead k \<and> (prio_inv ph k \<longrightarrow> prio_inv ph' k')"
proof -
  have pv: "proc_inv k" and g: "gone ph \<subseteq> dead k" using inv by (auto simp: test_inv_def)
  have c23: "suspend junk k 2 = Inr (k, PROC_NEX)" "ready junk k 2 = Inr (k, PROC_NEX)" "ready junk k 3 = Inr (k, PROC_NEX)" if "{2..<32} \<subseteq> dead k"
  proof -
    have "2 \<in> dead k" "3 \<in> dead k" using that by (auto simp: subset_iff)
    with dead_calls [OF pv, of 2] dead_calls [OF pv, of 3] show "suspend junk k 2 = Inr (k, PROC_NEX)" "ready junk k 2 = Inr (k, PROC_NEX)" "ready junk k 3 = Inr (k, PROC_NEX)" by simp_all
  qed
  show ?thesis
  proof (cases ph)
    case (Spawn i)
    show ?thesis
    proof (cases "i < 30")
      case True
      with test_inv_create [OF inv S, of "4 * PAGE_SIZE" "Spawn (Suc i)" "[word_of_nat i, word_of_nat i, word_of_nat i]" junk initret NULL smallf] Spawn sp
      show ?thesis by (auto simp: spawnLots_def spared_def eval_nat_numeral)
    next
      case False
      then have "i = 30" using inv Spawn by (simp add: test_inv_def)
      with test_inv_phase [OF inv, of SpawnWait] Spawn show ?thesis by (simp add: spawnLots_def prio_inv_def)
    qed
  next
    case SpawnWait
    with size_one [OF inv c] test_inv_phase [OF inv, of CreateOne] inv show ?thesis by (auto simp: spawn_wait_def Let_def prio_inv_def)
  next
    case CreateOne
    with test_inv_create [OF inv S, of "8 * PAGE_SIZE" CreateTwo "[34, 56, 67]" junk initret NULL one] sp show ?thesis by (auto simp: create_one_def spared_def eval_nat_numeral)
  next
    case CreateTwo
    with test_inv_create [OF inv S, of "8 * PAGE_SIZE" "MainCalc 0 False" "[89, 435, 3434, 23]" junk initret NULL two] sp show ?thesis by (auto simp: create_two_def spared_def eval_nat_numeral)
  next
    case (MainCalc n s)
    with test_inv_phase [OF inv, of "mainProc_calc n s"] g show ?thesis by (auto simp: mainProc_calc_def Let_def prio_inv_def)
  next
    case (MainTwo n s)
    with test_inv_phase [OF inv, of "MainThree n True"] test_inv_phase [OF inv, of "MainThree n False"] g c23 show ?thesis
      by (auto simp: mainProc_two_def prio_inv_def)
  next
    case (MainThree n s)
    with test_inv_phase [OF inv, of "MainSize n s"] g c23 show ?thesis by (auto simp: mainProc_three_def prio_inv_def)
  next
    case (MainSize n s)
    with test_inv_phase [OF inv, of "MainCalc n s"] test_inv_phase [OF inv, of TestDone] g size_one [OF inv c] show ?thesis
      by (auto simp: mainProc_size_def prio_inv_def)
  next
    case TestDone
    with inv show ?thesis by auto
  qed
qed

lemma sched_test_inv:
  assumes "sched_test junk initret smallf one two (ph, k) (ph', k')" "test_inv S ph k" "3000000 < S"
  shows "test_inv S ph' k'"
  using assms(1)
proof (cases rule: sched_test.cases)
  case (tick sp)
  with test_inv_tick [OF assms(2), of junk sp] show ?thesis by auto
next
  case main
  then have "spared ph k" using test_inv_unspared [OF assms(2,3), of junk initret smallf one two] by fastforce
  with main test_inv_main [OF assms(2,3), of junk initret smallf one two] show ?thesis by auto
next
  case (return sp r)
  with test_inv_return [OF assms(2,3), of junk sp] show ?thesis by auto
qed

lemma sched_reach_inv: "sched_reach junk initret smallf one two st \<Longrightarrow> \<exists>S. 3000000 < S \<and> test_inv S (fst st) (snd st)"
proof (induction rule: sched_reach.induct)
  case (start k)
  then have "test_inv (slack (k_heap k)) (Spawn 0) k" by (auto simp: test_start_def test_inv_def numeral_2_eq_2)
  then show ?case using start by (auto simp: test_start_def)
next
  case (step st st')
  then show ?case using sched_test_inv [of junk initret smallf one two "fst st" "snd st" "fst st'" "snd st'"] by (cases st; cases st') auto
qed

section \<open>Properties\<close>

text \<open>
  C15. What the scheduler self test checks holds. However the timer ticks and the returns of the threads interleave with it, in every state
  the test reaches the invariants of the processes hold, a tick is served, a thread that returns ends with \<^verbatim>\<open>PROC_OK\<close>, and the boot
  thread's next statement returns, but for one case: it creates a thread whose initial stack, misplaced as C40 shows, would overwrite
  a header of the heap, the process table or the ready list (\<open>spared\<close>). It never reaches the endless loop behind ``we should not have been able to resume
  dead process''. The pids 2 and 3 it tries to suspend and resume belong to dead threads of the first half of the test, so all
  these calls answer \<^verbatim>\<open>PROC_NEX\<close> and change nothing; when the test is over, every thread it created is dead.
\<close>

theorem sched_test_safe:
  assumes "sched_reach junk initret smallf one two (ph, k)"
  shows "proc_inv k \<and> (\<exists>k'. timerObserver junk sp k = Inr k') \<and>
    (1 < k_curr k \<longrightarrow> (\<exists>k'. userret junk sp k = Inr (k', PROC_OK))) \<and>
    (k_curr k = 1 \<longrightarrow> (if spared ph k then \<exists>ph' k'. sched_main junk initret smallf one two ph k = Inr (ph', k')
       else sched_main junk initret smallf one two ph k = Inl OutOfBounds)) \<and>
    (\<forall>c s. ph \<in> {MainTwo c s, MainThree c s} \<longrightarrow>
       suspend junk k 2 = Inr (k, PROC_NEX) \<and> ready junk k 2 = Inr (k, PROC_NEX) \<and> ready junk k 3 = Inr (k, PROC_NEX)) \<and>
    (ph = TestDone \<longrightarrow> (\<forall>j \<in> {2..<34}. stat k j = PR_DEAD))"
proof -
  from sched_reach_inv [OF assms] obtain S where S: "3000000 < S" "test_inv S ph k" by auto
  then have inv: "proc_inv k" "gone ph \<subseteq> dead k" by (auto simp: test_inv_def)
  have "suspend junk k 2 = Inr (k, PROC_NEX) \<and> ready junk k 2 = Inr (k, PROC_NEX) \<and> ready junk k 3 = Inr (k, PROC_NEX)"
    if "ph \<in> {MainTwo c s, MainThree c s}" for c s
  proof -
    have "2 \<in> dead k" "3 \<in> dead k" using that inv(2) by (auto simp: subset_iff)
    with dead_calls [OF inv(1), of 2] dead_calls [OF inv(1), of 3] show ?thesis by simp
  qed
  moreover have "stat k j = PR_DEAD" if "ph = TestDone" "j \<in> {2..<34}" for j
  proof -
    have "j \<in> dead k" using inv(2) that by auto
    then show ?thesis by (simp add: dead_def)
  qed
  moreover have "if spared ph k then \<exists>ph' k'. sched_main junk initret smallf one two ph k = Inr (ph', k')
       else sched_main junk initret smallf one two ph k = Inl OutOfBounds" if "k_curr k = 1"
    using test_inv_main [OF S(2,1) that, of junk initret smallf one two] test_inv_unspared [OF S(2,1), of junk initret smallf one two] by auto
  moreover note test_inv_tick [OF S(2), of junk sp]
  moreover have "1 < k_curr k \<longrightarrow> (\<exists>k'. userret junk sp k = Inr (k', PROC_OK))" using test_inv_return [OF S(2,1), of junk sp] by blast
  ultimately show ?thesis using inv(1) by blast
qed

lemma booted_test_start:
  obtains k where "processes_init no_kv 0 7 9 kernel0 = Inr k" "test_start k" "k_curr k = 1" "pe_prio (procs k ! 0) = 0"
    "pe_prio (procs k ! 1) = 10" "tail_ok k 4152196" "spared (Spawn 0) k"
proof -
  obtain k where k: "processes_init no_kv 0 7 9 kernel0 = Inr k" "proc_inv k" "k_curr k = 1" "runnable k = {0}" "pe_prio (procs k ! 0) = 0"
    "pe_prio (procs k ! 1) = 10" "t_taken (k_table k) = True # True # replicate 1022 False" "tail_ok k 4152196" "pq_size (ready_queue k) = 5"
    "4000000 < slack (k_heap k)" by (rule kernel_booted)
  have "stat k 1 = PR_CURR" using k(2,3) by (auto simp: proc_inv_def sched_inv_def)
  then have "test_start k" using k by (simp add: test_start_def)
  moreover have "spared (Spawn 0) k" using tail_clear(1) [OF k(8)] by (simp add: spared_def PAGE_SIZE_def)
  ultimately show ?thesis using that k by blast
qed

theorem sched_test_safe_witness:
  "\<exists>k k1 k2. processes_init no_kv 0 7 9 kernel0 = Inr k \<and>
     sched_main no_kv 7 100 200 300 (Spawn 0) k = Inr (Spawn 1, k1) \<and> timerObserver no_kv 55 k1 = Inr k2"
proof -
  obtain k where k: "processes_init no_kv 0 7 9 kernel0 = Inr k" "test_start k" "k_curr k = 1" "spared (Spawn 0) k" by (rule booted_test_start)
  have r: "sched_reach no_kv 7 100 200 300 (Spawn 0, k)" using k(2) by (rule sched_reach.start)
  from sched_test_safe [OF r, of 55] k(3,4) obtain ph1 k1 where m: "sched_main no_kv 7 100 200 300 (Spawn 0) k = Inr (ph1, k1)" by auto
  then have "ph1 = Spawn 1" by (auto simp: spawnLots_def rbind_Inr_iff)
  with m k(3) have "sched_reach no_kv 7 100 200 300 (Spawn 1, k1)" by (intro sched_reach.step [OF r] sched_test.main) auto
  from sched_test_safe [OF this, of 55] k(1) m \<open>ph1 = Spawn 1\<close> show ?thesis by blast
qed

text \<open>
  The threads of the scheduler test return: \<^verbatim>\<open>longCalculation(n)\<close> computes \<open>2 ^ (n + 1) - 1\<close> in 64 bits, with the wrap-around all ones
  for the arguments used, and the three thread functions return after 21, 5 and 6 of these calculations.
\<close>

theorem sched_threads_return:
  "longCalculation n = 2 ^ (unat n + 1) - 1 \<and> procedureOne 0 = replicate 21 (- 1) \<and> procedureTwo 0 = replicate 5 (- 1) \<and>
   small_function 0 = replicate 6 (- 1)"
proof (intro conjI)
  have z: "(2 :: u64) ^ n - 1 = - 1" if "64 \<le> n" for n using that by (simp add: exp_eq_zero_iff)
  have big: "longCalculation 262144 = - 1" "longCalculation 256 = - 1"
    unfolding longCalculation_value by (rule z, simp)+
  show "procedureOne 0 = replicate 21 (- 1)" "procedureTwo 0 = replicate 5 (- 1)" "small_function 0 = replicate 6 (- 1)"
    by (simp_all add: procedureOne.simps procedureTwo.simps small_function.simps big numeral_eq_Suc)
qed (rule longCalculation_value)

end
