(* ===== verification/Scheduler_Progress.thy ===== *)
theory Scheduler_Progress
  imports Scheduler_Tester
begin

text \<open>
  The scheduler test comes to an end, although the ready list does not keep the order of equal priorities. A thread function is a finite
  computation: \<open>w j\<close> is the number of further ticks that can find thread \<open>j\<close> running before it has returned. Each
  tick either finds the boot thread running and hands over to a thread of the test, or uses up one of these numbers, so
  that only a bounded number of ticks come before every thread has returned; then the waiting loops of the boot thread end.
\<close>

section \<open>Runs of the test\<close>

definition living :: "sched_phase \<Rightarrow> kernel \<Rightarrow> nat set" where
  "living ph k = {2..<2 + created ph} - dead k"

text \<open>
  The steps of \<open>sched_test\<close> with the work of the threads, from the state behind \<^verbatim>\<open>processes::init\<close>; the counter is the number of
  ticks that came while a thread of the test was alive.
\<close>

inductive sched_run :: "junk \<Rightarrow> addr \<Rightarrow> addr \<Rightarrow> addr \<Rightarrow> addr \<Rightarrow> nat \<Rightarrow> nat \<Rightarrow> sched_phase \<Rightarrow> kernel \<Rightarrow> (nat \<Rightarrow> nat) \<Rightarrow> bool"
  for junk initret smallf one two W where
  start: "test_start k \<Longrightarrow> k_curr k = 1 \<Longrightarrow> pe_prio (procs k ! 0) = 0 \<Longrightarrow> pe_prio (procs k ! 1) = 10 \<Longrightarrow> \<forall>j. w j \<le> W \<Longrightarrow>
    sched_run junk initret smallf one two W 0 (Spawn 0) k w"
| tick: "sched_run junk initret smallf one two W n ph k w \<Longrightarrow> timerObserver junk sp k = Inr k' \<Longrightarrow>
    (1 < k_curr k \<longrightarrow> w (nat (k_curr k)) = Suc v) \<Longrightarrow> w' = (if 1 < k_curr k then w(nat (k_curr k) := v) else w) \<Longrightarrow>
    sched_run junk initret smallf one two W (if living ph k = {} then n else Suc n) ph k' w'"
| main: "sched_run junk initret smallf one two W n ph k w \<Longrightarrow> k_curr k = 1 \<Longrightarrow>
    sched_main junk initret smallf one two ph k = Inr (ph', k') \<Longrightarrow> sched_run junk initret smallf one two W n ph' k' w"
| return: "sched_run junk initret smallf one two W n ph k w \<Longrightarrow> 1 < k_curr k \<Longrightarrow> userret junk sp k = Inr (k', r) \<Longrightarrow>
    sched_run junk initret smallf one two W n ph k' w"

section \<open>Who runs next\<close>

lemma boot_ready:
  assumes "test_inv S ph k" "k_curr k = int c"
  shows "1 \<in> insert c (runnable k)" "c < 1024" "\<forall>j < 1024. stat k j = PR_CURR \<longleftrightarrow> j = c" "sched_inv k"
proof -
  show s: "sched_inv k" using assms(1) by (simp add: test_inv_def proc_inv_def)
  then show c: "c < 1024" "\<forall>j < 1024. stat k j = PR_CURR \<longleftrightarrow> j = c" using assms(2) by (auto simp: sched_inv_def)
  show "1 \<in> insert c (runnable k)" using assms(1) c(2) by (auto simp: test_inv_def runnable_def)
qed

lemma current_alive:
  assumes "test_inv S ph k" "k_curr k = int c" "1 < c"
  shows "c \<in> living ph k"
proof -
  note b = boot_ready [OF assms(1,2)]
  have "stat k c = PR_CURR" using b by simp
  moreover from this have "c < 2 + created ph" using test_inv_na [OF assms(1), of c] b(2) by (cases "c < 2 + created ph") auto
  ultimately show ?thesis using assms(3) by (simp add: living_def dead_def)
qed

lemma prio_of:
  assumes "prio_inv ph k" "j \<in> runnable k \<or> k_curr k = int j" "test_inv S ph k"
  shows "pe_prio (procs k ! j) = (if j = 0 then pe_prio (procs k ! 0) else 10)"
proof -
  have "j < 2 + created ph"
  proof (cases "j \<in> runnable k")
    case True
    then show ?thesis using test_inv_runnable(1) [OF assms(3)] by auto
  next
    case False
    then have c: "k_curr k = int j" using assms(2) by simp
    show ?thesis
    proof (cases "1 < j")
      case True
      from current_alive [OF assms(3) c True] show ?thesis by (simp add: living_def)
    qed simp
  qed
  then show ?thesis using assms(1) by (auto simp: prio_inv_def)
qed

text \<open>A tick: the null process is never chosen, and the boot thread hands over to a living thread.\<close>

lemma progress_tick:
  assumes inv: "test_inv S ph k" and pr: "prio_inv ph k" and tick: "timerObserver junk sp k = Inr k'"
  shows "test_inv S ph k' \<and> prio_inv ph k' \<and> dead k' = dead k \<and> (k_curr k = 1 \<and> living ph k \<noteq> {} \<longrightarrow> 1 < k_curr k')"
proof -
  let ?k = "k\<lparr>timerFired := timerFired k + 1\<rparr>"
  from inv obtain c where c: "k_curr k = int c" by (auto simp: test_inv_def proc_inv_def sched_inv_def)
  note b = boot_ready [OF inv c]
  have c1: "1 \<le> c" using pr c by (simp add: prio_inv_def)
  have s: "sched_inv ?k" "k_curr ?k = int c" using b(4) sched_inv_cong [of ?k k] c by simp_all
  have rk: "runnable ?k = runnable k" by (simp add: runnable_def)
  have pc: "pe_prio (procs k ! c) = 10" using prio_of [OF pr _ inv, of c] c c1 by simp
  from resched_current [OF s, of junk sp] tick obtain r: "sched_inv k'" "same_frame ?k k'"
    "if \<forall>i \<in> runnable k. pe_prio (procs k ! i) < 10 then k_curr k' = int c
     else \<exists>n \<in> runnable k. k_curr k' = int n \<and> (\<forall>i \<in> insert c (runnable k). pe_prio (procs k ! i) \<le> pe_prio (procs k ! n))"
    unfolding timerObserver_def rk by (auto simp: pc split: if_splits)
  have t: "test_inv S ph k'" using test_inv_tick [OF inv, of junk sp] tick by auto
  have f: "\<forall>i < 1024. pe_prio (procs k' ! i) = pe_prio (procs k ! i)" "stat k' j = stat k j \<or> {stat k j, stat k' j} \<subseteq> {PR_CURR, PR_RUNNABLE}" if "j < 1024" for j
    using r(2) same_frame_stat [OF r(2) that] by (simp_all add: same_frame_def)
  have d: "dead k' = dead k" using f(2) by (auto simp: dead_def) (metis insert_subset insertE proc_status.distinct(5,11) singletonD)+
  have nn: "1 \<le> n \<and> n \<noteq> c" if n: "n \<in> runnable k" "\<forall>i \<in> insert c (runnable k). pe_prio (procs k ! i) \<le> pe_prio (procs k ! n)" for n
  proof -
    have "10 \<le> pe_prio (procs k ! n)" using n(2) pc by auto
    moreover have "pe_prio (procs k ! 0) < 10" using pr by (simp add: prio_inv_def)
    ultimately have "n \<noteq> 0" by (intro notI) simp
    moreover have "n \<noteq> c" using n(1) b(2,3) by (auto simp: runnable_def)
    ultimately show ?thesis by simp
  qed
  have "1 \<le> k_curr k'" using r(3) c1 nn by (auto split: if_splits)
  moreover have "created ph \<le> 32" using inv by (simp add: test_inv_def)
  ultimately have p: "prio_inv ph k'" using pr f(1) [of 0] by (simp add: prio_inv_def)
  have "1 < k_curr k'" if k1: "k_curr k = 1" and l: "living ph k \<noteq> {}"
  proof -
    have cc: "c = 1" using k1 c by simp
    from l obtain j where j: "j \<in> {2..<2 + created ph}" "j \<notin> dead k" unfolding living_def by blast
    have j4: "j < 1024" using j(1) \<open>created ph \<le> 32\<close> by simp
    then have "stat k j \<in> {PR_CURR, PR_RUNNABLE}" using inv j by (auto simp: test_inv_def dead_def)
    then have jr: "j \<in> runnable k" using b(3) cc j j4 by (auto simp: runnable_def)
    have "\<not> (\<forall>i \<in> runnable k. pe_prio (procs k ! i) < 10)" using jr prio_of [OF pr _ inv, of j] j(1) by force
    from r(3) [unfolded if_not_P [OF this]] obtain n where "n \<in> runnable k" "k_curr k' = int n"
      "\<forall>i \<in> insert c (runnable k). pe_prio (procs k ! i) \<le> pe_prio (procs k ! n)" by blast
    with nn [of n] cc show ?thesis by simp
  qed
  with t p d show ?thesis by blast
qed

text \<open>A return: the next process is again not the null process.\<close>

lemma kill_current_next:
  assumes inv: "sched_inv k" and i: "i < 1024" "k_curr k = int i" and room: "erase_room (card (runnable k)) < slack (k_heap k)"
    and stk: "others (k_heap k) (ready_queue k) (pe_stackmem (procs k ! i)) \<noteq> None" and ne: "runnable k \<noteq> {}"
  shows "\<exists>k' n. kill junk sp k (int i) = Inr (k', PROC_OK) \<and> n \<in> runnable k \<and> k_curr k' = int n \<and>
    (\<forall>j \<in> runnable k. pe_prio (procs k ! j) \<le> pe_prio (procs k ! n)) \<and> (\<forall>j < 1024. pe_prio (procs k' ! j) = pe_prio (procs k ! j))"
proof -
  have q: "queued k (runnable k)" and st: "stat k i = PR_CURR" using inv i by (auto simp: sched_inv_def)
  then have len: "length (procs k) = 1024" and ir: "i \<notin> runnable k" by (auto simp: queued_def runnable_def)
  have v: "valid_status (stat k i)" "i \<in> runnable k \<longleftrightarrow> stat k i = PR_RUNNABLE" using ir by (simp_all add: st valid_status_def)
  from kill_release [OF q i(1) v room stk, of junk sp] obtain k4 where k4:
    "kill junk sp k (int i) = rbind (resched junk sp k4) (\<lambda>k2. Inr (k2, PROC_OK))" "queued k4 (runnable k)"
    "procs k4 = (procs k)[i := (procs k ! i)\<lparr>pe_status := PR_DEAD, pe_stackmem := NULL\<rparr>]" "k_curr k4 = k_curr k" using ir by auto
  have "stat k4 i = PR_DEAD" using i(1) len by (simp add: k4(3))
  with resched_orphan [OF k4(2) i(1) ir _ _ _ ne, of junk sp] k4(4) i(2) obtain n k' where
    k': "resched junk sp k4 = Inr k'" "n \<in> runnable k" "\<forall>j \<in> runnable k. pe_prio (procs k4 ! j) \<le> pe_prio (procs k4 ! n)" "k_curr k' = int n"
      "procs k' = (procs k4)[n := (procs k4 ! n)\<lparr>pe_status := PR_CURR\<rparr>, i := (procs k4 ! i)\<lparr>pe_sp := sp\<rparr>]" by auto
  have p4: "pe_prio (procs k4 ! j) = pe_prio (procs k ! j)" if "j < 1024" for j using that len by (cases "j = i") (simp_all add: k4(3))
  have lt: "j < 1024" if "j \<in> runnable k" for j using that by (simp add: runnable_def)
  have "pe_prio (procs k' ! j) = pe_prio (procs k ! j)" if "j < 1024" for j
    using that len lt [OF k'(2)] i(1) p4 [OF that] k4(2) by (auto simp: k'(5) nth_list_update queued_def)
  then show ?thesis using k4(1) k'(1,2,3,4) p4 lt by (intro exI [of _ k'] exI [of _ n]) auto
qed

lemma progress_return:
  assumes inv: "test_inv S ph k" and S: "3000000 < S" and pr: "prio_inv ph k" and c: "1 < k_curr k" and u: "userret junk sp k = Inr (k', r)"
  shows "test_inv S ph k' \<and> prio_inv ph k' \<and> dead k' = insert (nat (k_curr k)) (dead k)"
proof -
  from test_inv_return [OF inv S c, of junk sp] u have t: "test_inv S ph k'" "dead k' = insert (nat (k_curr k)) (dead k)" by auto
  from inv obtain i where i: "k_curr k = int i" by (auto simp: test_inv_def proc_inv_def sched_inv_def)
  note b = boot_ready [OF inv i]
  have "stacks_ok k" using inv by (simp add: test_inv_def proc_inv_def)
  moreover have "valid_status (stat k i)" using b(2,3) by (simp add: valid_status_def)
  ultimately have stk: "others (k_heap k) (ready_queue k) (pe_stackmem (procs k ! i)) \<noteq> None" using b(2) c i by (auto simp: stacks_ok_def)
  have one: "1 \<in> runnable k" using b(1) c i by auto
  have room: "erase_room (card (runnable k)) < slack (k_heap k)"
    using erase_room_34 [OF test_inv_runnable(2) [OF inv]] test_inv_slack [OF inv S] by simp
  from kill_current_next [OF b(4,2) i room stk, of junk sp] one u i obtain n where
    n: "n \<in> runnable k" "k_curr k' = int n" "\<forall>j \<in> runnable k. pe_prio (procs k ! j) \<le> pe_prio (procs k ! n)" "\<forall>j < 1024. pe_prio (procs k' ! j) = pe_prio (procs k ! j)"
    by (auto simp: userret_def getpid_def)
  have "10 \<le> pe_prio (procs k ! n)" using n(3) one prio_of [OF pr _ inv, of 1] by force
  moreover have "pe_prio (procs k ! 0) < 10" using pr by (simp add: prio_inv_def)
  ultimately have "n \<noteq> 0" by (intro notI) simp
  moreover have "created ph \<le> 32" using inv by (simp add: test_inv_def)
  ultimately have "prio_inv ph k'" using pr n(2,4) by (simp add: prio_inv_def)
  with t show ?thesis by blast
qed

section \<open>The bound\<close>

text \<open>What a state can still spend.\<close>

definition potential :: "kernel \<Rightarrow> (nat \<Rightarrow> nat) \<Rightarrow> nat" where
  "potential k w = (\<Sum>j \<in> {2..<34} - dead k. 2 * w j + 1) + (if k_curr k = 1 then 1 else 0)"

lemma potential_return:
  assumes "dead k' = insert c (dead k)" "c \<in> {2..<34} - dead k" "k_curr k \<noteq> 1"
  shows "potential k' w \<le> potential k w"
proof -
  have "{2..<34} - dead k' = ({2..<34} - dead k) - {c}" using assms(1) by auto
  then have "(\<Sum>j \<in> {2..<34} - dead k. 2 * w j + 1) = (2 * w c + 1) + (\<Sum>j \<in> {2..<34} - dead k'. 2 * w j + 1)"
    using sum.remove [OF _ assms(2), of "\<lambda>j. 2 * w j + 1"] by simp
  then show ?thesis using assms(3) by (simp add: potential_def)
qed

lemma potential_work:
  assumes "dead k' = dead k" "c \<in> {2..<34} - dead k" "k_curr k \<noteq> 1" "w c = Suc v"
  shows "Suc (potential k' (w(c := v))) \<le> potential k w"
proof -
  have "(\<Sum>j \<in> {2..<34} - dead k. 2 * (w(c := v)) j + 1) + 2 = (\<Sum>j \<in> {2..<34} - dead k. 2 * w j + 1)"
    using sum.remove [OF _ assms(2), of "\<lambda>j. 2 * w j + 1"] sum.remove [OF _ assms(2), of "\<lambda>j. 2 * (w(c := v)) j + 1"] assms(4) by simp
  then show ?thesis using assms(1,3) by (simp add: potential_def)
qed

lemma potential_start: "\<forall>j. w j \<le> W \<Longrightarrow> potential k w \<le> 32 * (2 * W + 1) + 1"
proof -
  assume w: "\<forall>j. w j \<le> W"
  have "(\<Sum>j \<in> {2..<34} - dead k. 2 * w j + 1) \<le> of_nat (card ({2..<34} - dead k)) * (2 * W + 1)"
    using w by (intro sum_bounded_above) simp
  also have "\<dots> \<le> 32 * (2 * W + 1)" using card_mono [of "{2..<34}" "{2..<34} - dead k"] by (intro mult_right_mono) simp_all
  finally show ?thesis by (simp add: potential_def)
qed

lemma sched_run_inv:
  "sched_run junk initret smallf one two W n ph k w \<Longrightarrow>
    \<exists>S. 3000000 < S \<and> test_inv S ph k \<and> prio_inv ph k \<and> n + potential k w \<le> 32 * (2 * W + 1) + 1"
proof (induction rule: sched_run.induct)
  case (start k w)
  then have "test_inv (slack (k_heap k)) (Spawn 0) k" by (auto simp: test_start_def test_inv_def numeral_2_eq_2)
  moreover have "prio_inv (Spawn 0) k" using start by (auto simp: prio_inv_def numeral_2_eq_2 less_Suc_eq)
  ultimately show ?case using start potential_start [of w W k] by (auto simp: test_start_def)
next
  case (tick n ph k w sp k' v w')
  then obtain S where S: "3000000 < S" "test_inv S ph k" "prio_inv ph k" "n + potential k w \<le> 32 * (2 * W + 1) + 1" by blast
  note p = progress_tick [OF S(2,3) tick.hyps(2)]
  have "(if living ph k = {} then n else Suc n) + potential k' w' \<le> n + potential k w"
  proof (cases "1 < k_curr k")
    case True
    from S(2) obtain c where c: "k_curr k = int c" by (auto simp: test_inv_def proc_inv_def sched_inv_def)
    have "c \<in> living ph k" using current_alive [OF S(2) c] True c by simp
    then have "c \<in> {2..<34} - dead k" using S(2) by (auto simp: living_def test_inv_def)
    from potential_work [OF _ this, of k' w v] p tick.hyps(3,4) True c show ?thesis by simp
  next
    case False
    then have "k_curr k = 1" "w' = w" using S(3) tick.hyps(4) by (simp_all add: prio_inv_def)
    then show ?thesis using p by (auto simp: potential_def)
  qed
  with S p show ?case by (intro exI [of _ S]) auto
next
  case (main n ph k w ph' k')
  then obtain S where S: "3000000 < S" "test_inv S ph k" "prio_inv ph k" "n + potential k w \<le> 32 * (2 * W + 1) + 1" by blast
  have "spared ph k" using test_inv_unspared [OF S(2,1), of junk initret smallf one two] main.hyps(3) by fastforce
  from test_inv_main [OF S(2,1) main.hyps(2) this, of junk initret smallf one two] main.hyps(3) have
    "test_inv S ph' k'" "k_curr k' = k_curr k" "dead k' = dead k" "prio_inv ph k \<longrightarrow> prio_inv ph' k'" by auto
  with S show ?case by (intro exI [of _ S]) (simp add: potential_def)
next
  case (return n ph k w sp k' r)
  then obtain S where S: "3000000 < S" "test_inv S ph k" "prio_inv ph k" "n + potential k w \<le> 32 * (2 * W + 1) + 1" by blast
  note p = progress_return [OF S(2,1,3) return.hyps(2,3)]
  from S(2) obtain c where c: "k_curr k = int c" by (auto simp: test_inv_def proc_inv_def sched_inv_def)
  have "c \<in> living ph k" using current_alive [OF S(2) c] return.hyps(2) c by simp
  then have "c \<in> {2..<34} - dead k" using S(2) by (auto simp: living_def test_inv_def)
  from potential_return [OF _ this, of k' w] p c return.hyps(2) have "potential k' w \<le> potential k w" by simp
  with S p show ?case by (intro exI [of _ S]) auto
qed

lemma only_null_waits:
  assumes inv: "test_inv S ph k" and c1: "k_curr k = 1" and l: "living ph k = {}"
  shows "readylist_size k = 1"
proof -
  have c: "k_curr k = int 1" using c1 by simp
  note b = boot_ready [OF inv c]
  have "stat k 0 \<noteq> PR_CURR" using b(3) by simp
  moreover have "stat k 0 = PR_CURR \<or> stat k 0 = PR_RUNNABLE" using inv by (auto simp: test_inv_def proc_inv_def)
  ultimately have "0 \<in> runnable k" by (simp add: runnable_def)
  moreover have "j = 0" if j: "j \<in> runnable k" for j
  proof (rule ccontr)
    assume "j \<noteq> 0"
    moreover have "j \<noteq> 1" using j b(3) by (auto simp: runnable_def)
    ultimately have "j \<in> {2..<2 + created ph}" using test_inv_runnable(1) [OF inv] j by auto
    moreover have "j \<notin> dead k" using j by (simp add: runnable_def dead_def)
    ultimately show False using l unfolding living_def by blast
  qed
  ultimately have "runnable k = {0}" by auto
  moreover have "pq_count (ready_queue k) = int (card (runnable k))"
    using b(4) pq_mset_size [of "ready_queue k"] by (simp add: sched_inv_def queued_def pq_state_def)
  ultimately show "readylist_size k = 1" by (simp add: readylist_size_def pq_length_def)
qed

lemma nobody_living:
  assumes inv: "test_inv S ph k" and pr: "prio_inv ph k" and l: "living ph k = {}"
  shows "k_curr k = 1" "readylist_size k = 1"
proof -
  from inv obtain c where c: "k_curr k = int c" by (auto simp: test_inv_def proc_inv_def sched_inv_def)
  have "c = 1" using current_alive [OF inv c] l pr c by (cases "1 < c") (auto simp: prio_inv_def)
  then show "k_curr k = 1" using c by simp
  with only_null_waits [OF inv _ l] show "readylist_size k = 1" .
qed

section \<open>The way of the boot thread\<close>

text \<open>
  How many statements are left to the end of the test; the checks of the two waiting loops go back or stay while a thread of the test is alive.
\<close>

fun sched_left :: "sched_phase \<Rightarrow> nat" where
  "sched_left (Spawn i) = 9 + (30 - i)"
| "sched_left SpawnWait = 7"
| "sched_left CreateOne = 6"
| "sched_left CreateTwo = 5"
| "sched_left (MainCalc c s) = 4"
| "sched_left (MainTwo c s) = 3"
| "sched_left (MainThree c s) = 2"
| "sched_left (MainSize c s) = 1"
| "sched_left TestDone = 0"

fun waiting :: "sched_phase \<Rightarrow> kernel \<Rightarrow> bool" where
  "waiting SpawnWait k = (living SpawnWait k \<noteq> {})"
| "waiting (MainSize c s) k = (living (MainSize c s) k \<noteq> {})"
| "waiting ph k = False"

lemma sched_main_advances:
  assumes inv: "test_inv S ph k" and c: "k_curr k = 1" and s: "sched_main junk initret smallf one two ph k = Inr (ph', k')"
    and ph: "ph \<noteq> TestDone" "\<not> waiting ph k"
  shows "sched_left ph' < sched_left ph"
proof (cases ph)
  case (Spawn i)
  then have "i \<le> 30" using inv by (simp add: test_inv_def)
  with s Spawn show ?thesis by (auto simp: spawnLots_def rbind_Inr_iff split: if_splits)
next
  case SpawnWait
  with only_null_waits [OF inv c] s ph(2) show ?thesis by (auto simp: spawn_wait_def Let_def split: if_splits)
next
  case (MainSize n b)
  with only_null_waits [OF inv c] s ph(2) show ?thesis by (auto simp: mainProc_size_def split: if_splits)
next
  case (MainCalc n b)
  with s show ?thesis by (auto simp: mainProc_calc_def Let_def)
next
  case (MainTwo n b)
  with s show ?thesis by (auto simp: mainProc_two_def rbind_Inr_iff split: if_splits)
next
  case (MainThree n b)
  with s show ?thesis by (auto simp: mainProc_three_def rbind_Inr_iff split: if_splits)
qed (use s ph in \<open>auto simp: create_one_def create_two_def rbind_Inr_iff\<close>)

section \<open>The property\<close>

text \<open>
  C16. The scheduler self test comes to an end. Let no thread of the test be interrupted by more than \<open>W\<close> ticks before it returns. Then, whatever the
  order of ticks, returns and statements of the boot thread, at most \<open>32 * (2 * W + 1) + 1\<close> ticks come while a thread of the
  test is alive: as long as one is, a tick that finds the boot thread running hands over to one of them. When none is alive, the boot
  thread is running and its waiting loops end with the next check. The boot thread's statements return; the run ends early only where a new thread's
  initial stack would overwrite a header of the heap, the process table or the ready list (\<open>spared\<close>, C15).
\<close>

theorem sched_test_ends:
  assumes "sched_run junk initret smallf one two W n ph k w"
  shows "n \<le> 32 * (2 * W + 1) + 1 \<and>
    (k_curr k = 1 \<longrightarrow> (if spared ph k then \<exists>ph' k'. sched_main junk initret smallf one two ph k = Inr (ph', k')
       else sched_main junk initret smallf one two ph k = Inl OutOfBounds)) \<and>
    (living ph k \<noteq> {} \<and> k_curr k = 1 \<longrightarrow> (\<exists>k'. timerObserver junk sp k = Inr k' \<and> 1 < k_curr k')) \<and>
    (living ph k = {} \<longrightarrow> k_curr k = 1 \<and> (ph = SpawnWait \<longrightarrow> sched_main junk initret smallf one two ph k = Inr (CreateOne, k)) \<and>
       (\<forall>c s. ph = MainSize c s \<longrightarrow> sched_main junk initret smallf one two ph k = Inr (TestDone, k)))"
proof -
  from sched_run_inv [OF assms] obtain S where
    S: "3000000 < S" "test_inv S ph k" "prio_inv ph k" "n + potential k w \<le> 32 * (2 * W + 1) + 1" by blast
  obtain k' where "timerObserver junk sp k = Inr k'" using test_inv_tick [OF S(2), of junk sp] by blast
  moreover have "if spared ph k then \<exists>ph' k'. sched_main junk initret smallf one two ph k = Inr (ph', k')
       else sched_main junk initret smallf one two ph k = Inl OutOfBounds" if "k_curr k = 1"
    using test_inv_main [OF S(2,1) that, of junk initret smallf one two] test_inv_unspared [OF S(2,1), of junk initret smallf one two] by auto
  ultimately show ?thesis using progress_tick [OF S(2,3)] S nobody_living [OF S(2,3)]
    by (auto simp: spawn_wait_def mainProc_size_def Let_def)
qed

theorem sched_test_ends_witness:
  "\<exists>k k1 k2. processes_init no_kv 0 7 9 kernel0 = Inr k \<and>
     sched_main no_kv 7 100 200 300 (Spawn 0) k = Inr (Spawn 1, k1) \<and> timerObserver no_kv 55 k1 = Inr k2 \<and> 1 < k_curr k2"
proof -
  obtain k where k: "processes_init no_kv 0 7 9 kernel0 = Inr k" "test_start k" "k_curr k = 1" "spared (Spawn 0) k"
    and p: "pe_prio (procs k ! 0) = 0" "pe_prio (procs k ! 1) = 10" by (rule booted_test_start)
  have r: "sched_run no_kv 7 100 200 300 5 0 (Spawn 0) k (\<lambda>_. 5)" using k(2,3) p by (intro sched_run.start) simp_all
  from sched_run_inv [OF r] obtain S where S: "3000000 < S" "test_inv S (Spawn 0) k" by blast
  from test_inv_main [OF S(2,1) k(3,4), of no_kv 7 100 200 300] obtain ph1 k1 where
    m: "sched_main no_kv 7 100 200 300 (Spawn 0) k = Inr (ph1, k1)" "k_curr k1 = 1" "dead k1 = dead k" using k(3) by auto
  then have ph1: "ph1 = Spawn 1" by (auto simp: spawnLots_def rbind_Inr_iff)
  have "dead k1 = {}" using test_inv_dead(1) [OF S(2)] m(3) by simp
  then have l: "living (Spawn 1) k1 \<noteq> {}" by (simp add: living_def)
  have "sched_run no_kv 7 100 200 300 5 0 (Spawn 1) k1 (\<lambda>_. 5)" using sched_run.main [OF r k(3)] m(1) ph1 by simp
  from sched_test_ends [OF this, of 55] l m(1,2) ph1 k(1) show ?thesis by blast
qed

end
