(* ===== verification/Kernel_Main.thy ===== *)
theory Kernel_Main
  imports Interrupt_Stubs Memory_Tester Container_Tester Scheduler_Progress
begin

text \<open>
  What the boot thread does behind \<^verbatim>\<open>init\<close>: \<^verbatim>\<open>kernel_main\<close> of \<^verbatim>\<open>src/src/kernel/kernel/kernel.cpp\<close> raises a software interrupt and runs the
  self tests of \<^verbatim>\<open>kernel/tests/TestCenter.cpp\<close> with their messages. Interrupts come between any two of its statements; the boot
  thread goes on when it is the current process. The memory test and each container test count as one statement.
\<close>

section \<open>The statements of the boot thread\<close>

text \<open>
  What the linker and the hardware choose: the time stamp counter, the bytes of headers and memory, the content of fresh arrays and nodes, the
  addresses of the thread functions, and the processor of the boot thread with the compiled handler of software interrupts.
\<close>

record test_env =
  te_ts :: tsc
  te_enc :: bmem
  te_bytes :: bmem
  te_junk :: "nat \<Rightarrow> (u32, u32) key_val"
  te_nodes :: "int nodes"
  te_pairs :: "(32 word, int) pairs"
  te_small :: addr
  te_one :: addr
  te_two :: addr
  te_zext :: bool
  te_cc :: "icpu \<Rightarrow> icpu"
  te_ra :: addr
  te_ri :: addr
  te_rk :: addr
  te_cpu :: icpu

datatype main_phase = FireLog | FireInt | FireReturned | TestsLog | MemLog | MemTest | ContLog nat | HeapTest nat | QueueTest | MapTest
  | SchedLog | SpawnLog | Sched sched_phase | FinishedLog | LoopLog | Halted

text \<open>The call \<^verbatim>\<open>interrupt(int_no)\<close> with argument and return address on the stack.\<close>

definition fire_interrupt :: "env \<Rightarrow> test_env \<Rightarrow> u32 \<Rightarrow> machine \<Rightarrow> machine result" where
  "fire_interrupt e te int_no m =
     rbind (interrupt (te_zext te) (isr_report e) (te_cc te) (te_ra te) (te_ri te) (m_desc m) (push (te_rk te) (push int_no (te_cpu te)), m))
       (\<lambda>(_, m'). Inr m')"

definition set_heap :: "block \<Rightarrow> machine \<Rightarrow> machine" where
  "set_heap h m = m\<lparr>m_kernel := (m_kernel m)\<lparr>k_heap := h\<rparr>\<rparr>"

definition run_memory_test :: "test_env \<Rightarrow> machine \<Rightarrow> (nat \<times> machine) result" where
  "run_memory_test te m =
     rbind (memory_test (te_ts te) (te_enc te) (MemoryTester_new (k_heap (m_kernel m)) (te_bytes te) 0)) (\<lambda>st.
     Inr (mt_calls st, set_heap (mt_heap st) m))"

definition run_heap_test :: "env \<Rightarrow> test_env \<Rightarrow> nat \<Rightarrow> machine \<Rightarrow> machine result" where
  "run_heap_test e te p m =
     rbind (MaxHeapTester_run (te_ts te) (te_junk te) (e_junk e) p (k_heap (m_kernel m))) (\<lambda>(h, _).
     log_msg e ''MaxHeap test okay'' [] (set_heap h m))"

definition run_queue_test :: "env \<Rightarrow> test_env \<Rightarrow> machine \<Rightarrow> machine result" where
  "run_queue_test e te m =
     rbind (QueueTester_run (k_heap (m_kernel m)) (te_nodes te) (te_pairs te)) (\<lambda>(h, _).
     log_msg e ''Queue test okay'' [] (set_heap h m))"

definition run_map_test :: "env \<Rightarrow> test_env \<Rightarrow> machine \<Rightarrow> machine result" where
  "run_map_test e te m =
     rbind (insertEraseTest (k_heap (m_kernel m)) (te_pairs te)) (\<lambda>(h, _).
     log_msg e ''UnorderedMap test okay'' [] (set_heap h m))"

text \<open>A statement of the scheduler test with its messages.\<close>

definition on_kernel :: "(kernel \<Rightarrow> (sched_phase \<times> kernel) result) \<Rightarrow> machine \<Rightarrow> (sched_phase \<times> machine) result" where
  "on_kernel f m = rbind (f (m_kernel m)) (\<lambda>(ph, k). Inr (ph, m\<lparr>m_kernel := k\<rparr>))"

definition run_sched_test :: "env \<Rightarrow> test_env \<Rightarrow> sched_phase \<Rightarrow> machine \<Rightarrow> (main_phase \<times> machine) result" where
  "run_sched_test e te ph m =
     (let step = on_kernel (sched_main (e_junk e) (e_userret e) (te_small te) (te_one te) (te_two te) ph)
      in case ph of
           CreateOne \<Rightarrow> rbind (log_msg e ''Simple scheduler test...'' [] m) (\<lambda>m1. rbind (step m1) (\<lambda>(ph', m'). Inr (Sched ph', m')))
         | CreateTwo \<Rightarrow> rbind (step m) (\<lambda>(ph', m1).
             rbind (log_msg e ''After creating 2 processes in SchedulerTester'' [] m1) (\<lambda>m'. Inr (Sched ph', m')))
         | TestDone \<Rightarrow> rbind (log_msg e ''Scheduler test done.'' [] m) (\<lambda>m'. Inr (FinishedLog, m'))
         | _ \<Rightarrow> rbind (step m) (\<lambda>(ph', m'). Inr (Sched ph', m')))"

definition spawn_text :: string where
  "spawn_text = '' threads of small_function(int a, int b, int c)''"

text \<open>\<^verbatim>\<open>TestCenter::run\<close>; the last line is for the statements of \<^verbatim>\<open>kernel_main\<close> itself.\<close>

fun testcenter_step :: "env \<Rightarrow> test_env \<Rightarrow> main_phase \<Rightarrow> machine \<Rightarrow> (main_phase \<times> machine) result" where
  "testcenter_step e te MemLog m = rbind (log_msg e ''Running memory tests...'' [] m) (\<lambda>m'. Inr (MemTest, m'))"
| "testcenter_step e te MemTest m = rbind (run_memory_test te m) (\<lambda>(p, m'). Inr (ContLog p, m'))"
| "testcenter_step e te (ContLog p) m = rbind (log_msg e ''Running container tests...'' [] m) (\<lambda>m'. Inr (HeapTest p, m'))"
| "testcenter_step e te (HeapTest p) m = rbind (run_heap_test e te p m) (\<lambda>m'. Inr (QueueTest, m'))"
| "testcenter_step e te QueueTest m = rbind (run_queue_test e te m) (\<lambda>m'. Inr (MapTest, m'))"
| "testcenter_step e te MapTest m = rbind (run_map_test e te m) (\<lambda>m'. Inr (SchedLog, m'))"
| "testcenter_step e te SchedLog m = rbind (log_msg e ''Scheduler tester running...'' [] m) (\<lambda>m'. Inr (SpawnLog, m'))"
| "testcenter_step e te SpawnLog m = rbind (log_msg e (''Spawning '' @ ''%d'' @ spawn_text) [30] m) (\<lambda>m'. Inr (Sched (Spawn 0), m'))"
| "testcenter_step e te (Sched ph) m = run_sched_test e te ph m"
| "testcenter_step e te ph m = Inr (ph, m)"

fun main_step :: "env \<Rightarrow> test_env \<Rightarrow> main_phase \<Rightarrow> machine \<Rightarrow> (main_phase \<times> machine) result" where
  "main_step e te FireLog m = rbind (log_msg e (''Interrupt will fire now with int no: '' @ ''%d'') [28] m) (\<lambda>m'. Inr (FireInt, m'))"
| "main_step e te FireInt m = rbind (fire_interrupt e te 28 m) (\<lambda>m'. Inr (FireReturned, m'))"
| "main_step e te FireReturned m = rbind (log_msg e ''Returned from interrupt!'' [] m) (\<lambda>m'. Inr (TestsLog, m'))"
| "main_step e te TestsLog m = rbind (log_msg e ''Running tests..'' [] m) (\<lambda>m'. Inr (MemLog, m'))"
| "main_step e te FinishedLog m = rbind (log_msg e ''Finished running tests.'' [] m) (\<lambda>m'. Inr (LoopLog, m'))"
| "main_step e te LoopLog m = rbind (log_msg e ''System will go into infinite loop now.'' [] m) (\<lambda>m'. Inr (Halted, m'))"
| "main_step e te Halted m = Inr (Halted, m)"
| "main_step e te ph m = testcenter_step e te ph m"

text \<open>Everything that can happen from the start on.\<close>

inductive main_reach :: "env \<Rightarrow> test_env \<Rightarrow> main_phase \<Rightarrow> machine \<Rightarrow> bool" for e te where
  start: "loaded e m0 \<Longrightarrow> kernel_init e m0 = Inr m \<Longrightarrow> main_reach e te FireLog m"
| irq: "main_reach e te ph m \<Longrightarrow> 32 \<le> unat n \<Longrightarrow> unat n < 48 \<Longrightarrow> serve_irq e sp n m = Inr m' \<Longrightarrow> main_reach e te ph m'"
| main: "main_reach e te ph m \<Longrightarrow> k_curr (m_kernel m) = 1 \<Longrightarrow> main_step e te ph m = Inr (ph', m') \<Longrightarrow> main_reach e te ph' m'"
| return: "main_reach e te ph m \<Longrightarrow> 1 < k_curr (m_kernel m) \<Longrightarrow> userret (e_junk e) sp (m_kernel m) = Inr (k, r) \<Longrightarrow>
    main_reach e te ph (after_call k m)"

section \<open>Messages with a number\<close>

lemma log_num:
  assumes "con_inv (m_con m)" "plain (bytes t)" "plain (bytes r @ [0x0A])"
  shows "\<exists>c. log_msg e (t @ ''%d'' @ r) [v] m = Inr (m\<lparr>m_con := c\<rparr>) \<and> wrote (m_con m) (bytes ''INFO '' @ bytes t @ digits (unat v) @ bytes r @ [0x0A]) c"
proof -
  have f: "bytes (t @ ''%d'' @ r) @ [0x0A, 0] = pieces [(bytes t, v)] (bytes r @ [0x0A]) @ [0]" by (simp add: bytes_def of_char_def)
  from kprintf_pieces [OF assms(1), of "[(bytes t, v)]" "bytes r @ [0x0A]" "e_stk e" "e_strs e" INFO True] assms(2,3)
  show ?thesis unfolding log_msg_def f by (auto simp: klog_def level_name_def)
qed

section \<open>The invariant of the boot thread\<close>

text \<open>Clients of the heap leave the processes alone as long as they release only their own blocks.\<close>

lemma proc_inv_heap:
  assumes inv: "proc_inv k" and h: "heap_inv h" "\<forall>a. live (k_heap k) a \<noteq> None \<longrightarrow> live h a \<noteq> None"
  shows "proc_inv (k\<lparr>k_heap := h\<rparr>)"
proof -
  let ?k = "k\<lparr>k_heap := h\<rparr>"
  have r: "runnable ?k = runnable k" "entry_kv ?k = entry_kv k" by (auto simp: runnable_def entry_kv_def)
  have "queued k (runnable k)" using inv by (simp add: proc_inv_def sched_inv_def)
  then have "queued ?k (runnable ?k)" using h unfolding queued_def r by (simp add: pq_state_def)
  then have s: "sched_inv ?k" using inv by (simp add: proc_inv_def sched_inv_def)
  have o: "others h q a \<noteq> None" if "others (k_heap k) q a \<noteq> None" for q :: pq and a
    using that h(2) by (auto simp: others_def split: if_splits)
  have "stacks_ok k" using inv by (simp add: proc_inv_def)
  then have "stacks_ok ?k" using o by (simp add: stacks_ok_def)
  with s inv show ?thesis by (simp add: proc_inv_def)
qed

lemma test_inv_room:
  assumes "test_inv S (Spawn 0) k"
  shows "dead k = {}" "S \<le> slack (k_heap k)" "heap_inv (k_heap k)"
proof -
  show d: "dead k = {}" using test_inv_dead(1) [OF assms] by simp
  show "S \<le> slack (k_heap k)" "heap_inv (k_heap k)"
    using assms by (simp_all add: test_inv_def d proc_inv_def sched_inv_def queued_def pq_state_def)
qed

lemma test_inv_set_heap:
  assumes inv: "test_inv S (Spawn 0) k" and h: "heap_inv h" "\<forall>a s. live (k_heap k) a = Some s \<longrightarrow> live h a = Some s"
    and room: "slack (k_heap k) \<le> slack h + B" "S' + B \<le> S"
  shows "test_inv S' (Spawn 0) (k\<lparr>k_heap := h\<rparr>)"
proof -
  have "proc_inv (k\<lparr>k_heap := h\<rparr>)" using inv h by (intro proc_inv_heap) (auto simp: test_inv_def)
  moreover have "dead (k\<lparr>k_heap := h\<rparr>) = {}" using test_inv_room(1) [OF inv] by (simp add: dead_def)
  moreover have "S' \<le> slack h" using room test_inv_room(2) [OF inv] by linarith
  ultimately show ?thesis using inv by (simp add: test_inv_def)
qed

lemma test_inv_less: "test_inv S ph k \<Longrightarrow> S' \<le> S \<Longrightarrow> test_inv S' ph k"
  by (simp add: test_inv_def)

fun sched_of :: "main_phase \<Rightarrow> sched_phase" where
  "sched_of (Sched ph) = ph"
| "sched_of FinishedLog = TestDone"
| "sched_of LoopLog = TestDone"
| "sched_of Halted = TestDone"
| "sched_of _ = Spawn 0"

text \<open>The bytes of the heap the boot thread can count on.\<close>

fun need :: "main_phase \<Rightarrow> nat" where
  "need (ContLog p) = 150000000"
| "need (HeapTest p) = 150000000"
| "need QueueTest = 140000000"
| "need MapTest = 130000000"
| "need SchedLog = 120000000"
| "need SpawnLog = 120000000"
| "need (Sched ph) = 120000000"
| "need FinishedLog = 120000000"
| "need LoopLog = 120000000"
| "need Halted = 120000000"
| "need _ = 200000000"

definition main_inv :: "env \<Rightarrow> main_phase \<Rightarrow> machine \<Rightarrow> bool" where
  "main_inv e ph m \<longleftrightarrow> machine_inv m \<and> cpu_ready e (m_desc m) \<and> test_inv (need ph) (sched_of ph) (m_kernel m)"

definition te_ok :: "test_env \<Rightarrow> bool" where
  "te_ok te \<longleftrightarrow> c_handler (te_cc te)"

text \<open>Messages keep the invariant.\<close>

lemma main_log:
  assumes inv: "main_inv e ph m" and ph: "sched_of ph' = sched_of ph" "need ph' \<le> need ph"
    and msg: "0 \<notin> set (bytes msg)" "0x25 \<notin> set (bytes msg)"
  shows "\<exists>m'. log_msg e msg [] m = Inr m' \<and> main_inv e ph' m' \<and> m_kernel m' = m_kernel m"
proof -
  have "con_inv (m_con m)" using inv by (simp add: main_inv_def machine_inv_def)
  from log_plain [OF this msg, of e] inv ph show ?thesis by (auto simp: main_inv_def machine_inv_def intro: test_inv_less)
qed

lemma main_log_num:
  assumes inv: "main_inv e ph m" and ph: "sched_of ph' = sched_of ph" "need ph' \<le> need ph"
    and msg: "plain (bytes t)" "plain (bytes r @ [0x0A])"
  shows "\<exists>m'. log_msg e (t @ ''%d'' @ r) [v] m = Inr m' \<and> main_inv e ph' m'"
proof -
  have "con_inv (m_con m)" using inv by (simp add: main_inv_def machine_inv_def)
  from log_num [OF this msg, of e v] inv ph show ?thesis by (auto simp: main_inv_def machine_inv_def wrote_def intro: test_inv_less)
qed

lemma main_set_heap:
  assumes inv: "main_inv e ph m" and ph: "sched_of ph = Spawn 0" "sched_of ph' = Spawn 0"
    and h: "heap_inv h" "\<forall>a s. live (k_heap (m_kernel m)) a = Some s \<longrightarrow> live h a = Some s"
    and room: "slack (k_heap (m_kernel m)) \<le> slack h + B" "need ph' + B \<le> need ph"
  shows "main_inv e ph' (set_heap h m)"
proof -
  have "test_inv (need ph) (Spawn 0) (m_kernel m)" using inv ph by (simp add: main_inv_def)
  from test_inv_set_heap [OF this h room] have t: "test_inv (need ph') (Spawn 0) ((m_kernel m)\<lparr>k_heap := h\<rparr>)" .
  then have "proc_inv ((m_kernel m)\<lparr>k_heap := h\<rparr>)" by (simp add: test_inv_def)
  with t inv ph show ?thesis by (simp add: main_inv_def machine_inv_def set_heap_def)
qed

section \<open>Every statement returns\<close>

lemma main_heap:
  assumes "main_inv e ph m" "sched_of ph = Spawn 0"
  shows "heap_inv (k_heap (m_kernel m))" "need ph \<le> slack (k_heap (m_kernel m))"
  using assms test_inv_room [of "need ph" "m_kernel m"] by (simp_all add: main_inv_def)

lemma fire_interrupt_ok:
  assumes "main_inv e FireInt m" "te_ok te"
  shows "\<exists>m'. fire_interrupt e te 28 m = Inr m' \<and> main_inv e FireReturned m'"
proof -
  let ?s = "push (te_rk te) (push 28 (te_cpu te))"
  from assms have i: "machine_inv m" "cpu_ready e (m_desc m)" "c_handler (te_cc te)" by (simp_all add: main_inv_def te_ok_def)
  from interrupt_reports_number [OF i, of "te_zext te" "te_ra te" "te_ri te" ?s] obtain s' c where
    c: "interrupt (te_zext te) (isr_report e) (te_cc te) (te_ra te) (te_ri te) (m_desc m) (?s, m) = Inr (s', m\<lparr>m_con := c\<rparr>)"
      "machine_inv (m\<lparr>m_con := c\<rparr>)" by blast
  with assms(1) show ?thesis by (simp add: fire_interrupt_def main_inv_def)
qed

lemma run_memory_test_ok:
  assumes "main_inv e MemTest m"
  shows "(\<exists>p m'. run_memory_test te m = Inr (p, m') \<and> main_inv e (ContLog p) m') \<or> (run_memory_test te m = Inl Hang \<and> \<not> fair (te_ts te) 100)"
proof -
  let ?h = "k_heap (m_kernel m)"
  have h: "heap_inv ?h" "45000460 < slack ?h" using main_heap [OF assms(1)] by simp_all
  note ok = memory_test_ok [OF h, of "te_ts te" "te_enc te" "te_bytes te" 0]
  show ?thesis
  proof (cases "memory_test (te_ts te) (te_enc te) (MemoryTester_new ?h (te_bytes te) 0)")
    case (Inr st)
    with ok have st: "mt_inv (live ?h) (te_bytes te) st" "slack ?h \<le> slack (mt_heap st) + 45000000" by auto
    from st(1) have "heap_inv (mt_heap st)" "\<forall>a s. live ?h a = Some s \<longrightarrow> live (mt_heap st) a = Some s" unfolding mt_inv_def by blast+
    from main_set_heap [OF assms(1) _ _ this st(2), of "ContLog (mt_calls st)"] Inr show ?thesis by (simp add: run_memory_test_def)
  qed (use ok in \<open>auto simp: run_memory_test_def\<close>)
qed

lemma test_then_log:
  assumes inv: "main_inv e ph m" and ph: "sched_of ph = Spawn 0" "sched_of ph' = Spawn 0" "need ph' + B \<le> need ph"
    and h: "heap_inv h" "live h = live (k_heap (m_kernel m))" "slack (k_heap (m_kernel m)) \<le> slack h + B"
    and msg: "0 \<notin> set (bytes msg)" "0x25 \<notin> set (bytes msg)"
  shows "\<exists>m'. log_msg e msg [] (set_heap h m) = Inr m' \<and> main_inv e ph' m'"
proof -
  have "main_inv e ph' (set_heap h m)" using main_set_heap [OF inv ph(1,2) h(1) _ h(3) ph(3)] h(2) by simp
  from main_log [OF this refl order_refl msg] show ?thesis by blast
qed

lemma container_phases_ok:
  "main_inv e (HeapTest p) m \<Longrightarrow> \<exists>m'. run_heap_test e te p m = Inr m' \<and> main_inv e QueueTest m'"
  "main_inv e QueueTest m \<Longrightarrow> \<exists>m'. run_queue_test e te m = Inr m' \<and> main_inv e MapTest m'"
  "main_inv e MapTest m \<Longrightarrow> \<exists>m'. run_map_test e te m = Inr m' \<and> main_inv e SchedLog m'"
proof goal_cases
  case 1
  from main_heap [OF 1] have "heap_inv (k_heap (m_kernel m))" "2600000 < slack (k_heap (m_kernel m))" by simp_all
  from MaxHeapTester_run_ok [OF this, of "te_ts te" "te_junk te" "e_junk e" p] obtain h q where
    h: "MaxHeapTester_run (te_ts te) (te_junk te) (e_junk e) p (k_heap (m_kernel m)) = Inr (h, q)" "heap_inv h"
      "live h = live (k_heap (m_kernel m))" "slack (k_heap (m_kernel m)) \<le> slack h + 2530000" by (auto simp: yields_iff)
  from test_then_log [OF 1 _ _ _ h(2-4), of QueueTest "''MaxHeap test okay''"] h(1) show ?case
    by (auto simp: run_heap_test_def bytes_plain)
next
  case 2
  from main_heap [OF 2] have "heap_inv (k_heap (m_kernel m))" "1000 < slack (k_heap (m_kernel m))" by simp_all
  from QueueTester_run_ok [OF this, of "te_nodes te" "te_pairs te"] obtain h q where
    h: "QueueTester_run (k_heap (m_kernel m)) (te_nodes te) (te_pairs te) = Inr (h, q)" "heap_inv h"
      "live h = live (k_heap (m_kernel m))" "slack (k_heap (m_kernel m)) \<le> slack h + 800" by (auto simp: yields_iff)
  from test_then_log [OF 2 _ _ _ h(2-4), of MapTest "''Queue test okay''"] h(1) show ?case
    by (auto simp: run_queue_test_def bytes_plain)
next
  case 3
  from main_heap [OF 3] have "heap_inv (k_heap (m_kernel m))" "300 < slack (k_heap (m_kernel m))" by simp_all
  from insertEraseTest_ok [OF this, of "te_pairs te"] obtain h q where
    h: "insertEraseTest (k_heap (m_kernel m)) (te_pairs te) = Inr (h, q)" "heap_inv h"
      "live h = live (k_heap (m_kernel m))" "slack (k_heap (m_kernel m)) \<le> slack h + 300" by (auto simp: yields_iff)
  from test_then_log [OF 3 _ _ _ h(2-4), of SchedLog "''UnorderedMap test okay''"] h(1) show ?case
    by (auto simp: run_map_test_def bytes_plain)
qed

lemma sched_step_ok:
  assumes inv: "main_inv e (Sched ph) m" and c: "k_curr (m_kernel m) = 1"
  shows "if spared ph (m_kernel m)
    then \<exists>ph' m'. on_kernel (sched_main (e_junk e) (e_userret e) small one two ph) m = Inr (ph', m') \<and> main_inv e (Sched ph') m' \<and>
      (ph \<noteq> TestDone \<and> \<not> waiting ph (m_kernel m) \<longrightarrow> sched_left ph' < sched_left ph)
    else on_kernel (sched_main (e_junk e) (e_userret e) small one two ph) m = Inl OutOfBounds"
proof -
  have t: "test_inv 120000000 ph (m_kernel m)" using inv by (simp add: main_inv_def)
  show ?thesis
  proof (cases "spared ph (m_kernel m)")
    case True
    from test_inv_main [OF t _ c True, of "e_junk e" "e_userret e" small one two] obtain ph' k' where
      k': "sched_main (e_junk e) (e_userret e) small one two ph (m_kernel m) = Inr (ph', k')" "test_inv 120000000 ph' k'" by auto
    then have "proc_inv k'" by (simp add: test_inv_def)
    with k' inv True sched_main_advances [OF t c k'(1)] show ?thesis by (simp add: on_kernel_def main_inv_def machine_inv_def)
  next
    case False
    with test_inv_unspared [OF t _ False, of "e_junk e" "e_userret e" small one two] show ?thesis by (simp add: on_kernel_def)
  qed
qed

text \<open>How many statements are left to the final loop.\<close>

fun statements_left :: "main_phase \<Rightarrow> nat" where
  "statements_left FireLog = 55"
| "statements_left FireInt = 54"
| "statements_left FireReturned = 53"
| "statements_left TestsLog = 52"
| "statements_left MemLog = 51"
| "statements_left MemTest = 50"
| "statements_left (ContLog p) = 49"
| "statements_left (HeapTest p) = 48"
| "statements_left QueueTest = 47"
| "statements_left MapTest = 46"
| "statements_left SchedLog = 45"
| "statements_left SpawnLog = 44"
| "statements_left (Sched ph) = 3 + sched_left ph"
| "statements_left FinishedLog = 2"
| "statements_left LoopLog = 1"
| "statements_left Halted = 0"

lemma run_sched_test_ok:
  assumes inv: "main_inv e (Sched ph) m" and c: "k_curr (m_kernel m) = 1"
  shows "if spared ph (m_kernel m)
    then \<exists>ph' m'. run_sched_test e te ph m = Inr (ph', m') \<and> main_inv e ph' m' \<and>
      (\<not> waiting ph (m_kernel m) \<longrightarrow> statements_left ph' < 3 + sched_left ph)
    else run_sched_test e te ph m = Inl OutOfBounds"
proof -
  note step = sched_step_ok [OF inv c, of "te_small te" "te_one te" "te_two te"]
  show ?thesis
  proof (cases ph)
    case CreateOne
    from main_log [OF inv refl order_refl, of "''Simple scheduler test...''"] obtain m1 where
      m1: "log_msg e ''Simple scheduler test...'' [] m = Inr m1" "main_inv e (Sched ph) m1" "m_kernel m1 = m_kernel m" by (auto simp: bytes_plain)
    with sched_step_ok [OF m1(2), of "te_small te" "te_one te" "te_two te"] c show ?thesis
      by (cases "spared ph (m_kernel m)") (auto simp: run_sched_test_def CreateOne)
  next
    case CreateTwo
    show ?thesis
    proof (cases "spared ph (m_kernel m)")
      case True
      with step obtain ph' m1 where m1: "on_kernel (sched_main (e_junk e) (e_userret e) (te_small te) (te_one te) (te_two te) ph) m = Inr (ph', m1)"
        "main_inv e (Sched ph') m1" "sched_left ph' < sched_left ph" by (auto simp: CreateTwo)
      from main_log [OF m1(2) refl order_refl, of "''After creating 2 processes in SchedulerTester''"] m1(1,3) True show ?thesis
        by (auto simp: run_sched_test_def CreateTwo bytes_plain)
    next
      case False
      with step show ?thesis by (simp add: run_sched_test_def CreateTwo)
    qed
  next
    case TestDone
    have "spared TestDone k" for k by (simp add: spared_def)
    with main_log [OF inv, of FinishedLog "''Scheduler test done.''"] show ?thesis by (auto simp: run_sched_test_def TestDone bytes_plain)
  qed (use step in \<open>cases "spared ph (m_kernel m)"; auto simp: run_sched_test_def\<close>)+
qed

text \<open>
  The statement that comes next returns and brings the boot thread nearer to its final loop, with three exceptions: a waiting loop while a
  thread of the test is alive, the memory test on a clock that gets stuck, and a thread whose initial stack hits data of the kernel.
\<close>

definition step_safe :: "env \<Rightarrow> test_env \<Rightarrow> main_phase \<Rightarrow> machine \<Rightarrow> (main_phase \<times> machine) result \<Rightarrow> bool" where
  "step_safe e te ph m r \<longleftrightarrow> (case r of
       Inr (ph', m') \<Rightarrow> main_inv e ph' m' \<and>
         (ph \<noteq> Halted \<and> \<not> (\<exists>s. ph = Sched s \<and> waiting s (m_kernel m)) \<longrightarrow> statements_left ph' < statements_left ph)
     | Inl f \<Rightarrow> (ph = MemTest \<and> f = Hang \<and> \<not> fair (te_ts te) 100) \<or> (\<exists>s. ph = Sched s \<and> f = OutOfBounds \<and> \<not> spared s (m_kernel m)))"

lemma step_safe_Inr: "r = Inr (ph', m') \<Longrightarrow> main_inv e ph' m' \<Longrightarrow> statements_left ph' < statements_left ph \<Longrightarrow> step_safe e te ph m r"
  by (simp add: step_safe_def)

lemma main_step_ok:
  assumes inv: "main_inv e ph m" and te: "te_ok te" and c: "k_curr (m_kernel m) = 1"
  shows "step_safe e te ph m (main_step e te ph m)"
proof -
  have plain: "step_safe e te ph m (main_step e te ph m)"
    if "\<exists>m'. main_step e te ph m = Inr (ph', m') \<and> main_inv e ph' m'" "statements_left ph' < statements_left ph" for ph'
    using that step_safe_Inr by blast
  show ?thesis
  proof (cases ph)
    case FireLog
    with inv have "main_inv e FireLog m" by simp
    from main_log_num [OF this, of FireInt "''Interrupt will fire now with int no: ''" "[]" 28] FireLog show ?thesis
      by (intro plain [of FireInt]) (auto simp: bytes_plain plain_def)
  next
    case FireInt
    with fire_interrupt_ok [of e m te] inv te show ?thesis by (intro plain [of FireReturned]) auto
  next
    case FireReturned
    with main_log [of e FireReturned m TestsLog "''Returned from interrupt!''"] inv show ?thesis by (intro plain [of TestsLog]) (auto simp: bytes_plain)
  next
    case TestsLog
    with main_log [of e TestsLog m MemLog "''Running tests..''"] inv show ?thesis by (intro plain [of MemLog]) (auto simp: bytes_plain)
  next
    case MemLog
    with main_log [of e MemLog m MemTest "''Running memory tests...''"] inv show ?thesis by (intro plain [of MemTest]) (auto simp: bytes_plain)
  next
    case MemTest
    with run_memory_test_ok [of e m te] inv show ?thesis by (auto simp: step_safe_def)
  next
    case (ContLog p)
    with main_log [of e "ContLog p" m "HeapTest p" "''Running container tests...''"] inv show ?thesis by (intro plain [of "HeapTest p"]) (auto simp: bytes_plain)
  next
    case (HeapTest p)
    with container_phases_ok(1) [of e p m te] inv show ?thesis by (intro plain [of QueueTest]) auto
  next
    case QueueTest
    with container_phases_ok(2) [of e m te] inv show ?thesis by (intro plain [of MapTest]) auto
  next
    case MapTest
    with container_phases_ok(3) [of e m te] inv show ?thesis by (intro plain [of SchedLog]) auto
  next
    case SchedLog
    with main_log [of e SchedLog m SpawnLog "''Scheduler tester running...''"] inv show ?thesis by (intro plain [of SpawnLog]) (auto simp: bytes_plain)
  next
    case SpawnLog
    with inv have "main_inv e SpawnLog m" by simp
    from main_log_num [OF this, of "Sched (Spawn 0)" "''Spawning ''" spawn_text 30] SpawnLog show ?thesis
      by (intro plain [of "Sched (Spawn 0)"]) (auto simp: bytes_plain spawn_text_def plain_def)
  next
    case (Sched s)
    with run_sched_test_ok [of e s m te] inv c show ?thesis by (cases "spared s (m_kernel m)") (auto simp: step_safe_def)
  next
    case FinishedLog
    with main_log [of e FinishedLog m LoopLog "''Finished running tests.''"] inv show ?thesis by (intro plain [of LoopLog]) (auto simp: bytes_plain)
  next
    case LoopLog
    with main_log [of e LoopLog m Halted "''System will go into infinite loop now.''"] inv show ?thesis by (intro plain [of Halted]) (auto simp: bytes_plain)
  next
    case Halted
    with inv show ?thesis by (simp add: step_safe_def)
  qed
qed

text \<open>An interrupt reaches the processes only as a tick.\<close>

lemma serve_irq_kernel:
  assumes inv: "machine_inv m" and n: "32 \<le> unat n" "unat n < 48" and r: "serve_irq e sp n m = Inr m'"
  shows "m_kernel m' = m_kernel m \<or> timerObserver (e_junk e) sp (m_kernel m) = Inr (m_kernel m')"
proof -
  let ?m = "send out_m (acks_before n) m"
  have len: "length (m_irq m) = 16" and i: "machine_inv ?m" and k: "m_kernel ?m = m_kernel m"
    using inv by (simp_all add: machine_inv_def send_out_m)
  show ?thesis
  proof (cases "on_line (m_irq m) n")
    case None
    with r irq_handler_eq [OF len n, of "call_irq e sp" out_m m] show ?thesis by (auto simp: serve_irq_def send_out_m)
  next
    case (Some f)
    from call_irq_ok [OF i, of e sp f n] obtain m1 where m1: "call_irq e sp f n ?m = Inr m1"
      "m_kernel m1 = m_kernel m \<or> timerObserver (e_junk e) sp (m_kernel m) = Inr (m_kernel m1)" by (cases f) (auto simp: k)
    with r irq_handler_eq [OF len n, of "call_irq e sp" out_m m] Some show ?thesis by (auto simp: serve_irq_def send_out_m)
  qed
qed

lemma main_inv_irq:
  assumes inv: "main_inv e ph m" and n: "32 \<le> unat n" "unat n < 48"
  shows "\<exists>m'. serve_irq e sp n m = Inr m' \<and> main_inv e ph m'"
proof -
  have i: "machine_inv m" "test_inv (need ph) (sched_of ph) (m_kernel m)" using inv by (auto simp: main_inv_def)
  from serve_irq_ok [OF i(1) n, of e sp] obtain m' where m': "serve_irq e sp n m = Inr m'" "machine_inv m'" "m_desc m' = m_desc m" by blast
  from serve_irq_kernel [OF i(1) n m'(1)] test_inv_tick [OF i(2), of "e_junk e" sp] i(2)
  have "test_inv (need ph) (sched_of ph) (m_kernel m')" by auto
  with m' inv show ?thesis by (simp add: main_inv_def)
qed

lemma main_inv_return:
  assumes inv: "main_inv e ph m" and c: "1 < k_curr (m_kernel m)"
  shows "\<exists>k. userret (e_junk e) sp (m_kernel m) = Inr (k, PROC_OK) \<and> main_inv e ph (after_call k m)"
proof -
  have "test_inv (need ph) (sched_of ph) (m_kernel m)" "3000000 < need ph" using inv by (auto simp: main_inv_def) (cases ph; simp)
  from test_inv_return [OF this c, of "e_junk e" sp] obtain k where k: "userret (e_junk e) sp (m_kernel m) = Inr (k, PROC_OK)"
    "test_inv (need ph) (sched_of ph) k" by blast
  then have "proc_inv k" by (simp add: test_inv_def)
  with k inv show ?thesis by (auto simp: main_inv_def machine_inv_def after_call_def)
qed

lemma main_inv_start:
  assumes "loaded e m0"
  shows "\<exists>m. kernel_init e m0 = Inr m \<and> main_inv e FireLog m \<and> k_curr (m_kernel m) = 1"
proof -
  from kernel_init_ok [OF assms] obtain m h where m: "kernel_init e m0 = Inr m" "machine_inv m" "cpu_ready e (m_desc m)" "k_curr (m_kernel m) = 1"
    "slack h = 2 ^ 28 - 16" "fresh_table h (m_kernel m)" by blast
  let ?k = "m_kernel m"
  have p: "proc_inv ?k" using m(2) by (simp add: machine_inv_def)
  then have "stat ?k 1 = PR_CURR" using m(4) by (auto simp: proc_inv_def sched_inv_def)
  moreover have "200000000 \<le> slack (k_heap ?k)" using m(5,6) by (simp add: fresh_table_def boot_room_def)
  ultimately have "test_inv 200000000 (Spawn 0) ?k" using p m(6) by (simp add: test_inv_def fresh_table_def numeral_2_eq_2)
  with m show ?thesis by (simp add: main_inv_def)
qed

lemma main_reach_inv:
  assumes "main_reach e te ph m" "te_ok te"
  shows "main_inv e ph m"
  using assms(1)
proof (induction rule: main_reach.induct)
  case (start m0 m)
  with main_inv_start [of e m0] show ?case by auto
next
  case (irq ph m n sp m')
  with main_inv_irq [of e ph m n sp] show ?case by auto
next
  case (main ph m ph' m')
  with main_step_ok [of e ph m te] assms(2) show ?case by (auto simp: step_safe_def)
next
  case (return ph m sp k r)
  with main_inv_return [of e ph m sp] show ?case by auto
qed

section \<open>Properties\<close>

text \<open>
  C3. From the entry of \<^verbatim>\<open>kernel_main\<close> on: in every state the started kernel reaches, however hardware
  interrupts and the returns of threads interleave with the statements of the boot thread, the invariants of screen, processes,
  heap and timer hold, an interrupt of any line is served, and a thread that returns ends. When it is the boot thread's turn, its next
  statement (the software interrupt, the memory test, each container test, each statement of the scheduler test, each message)
  returns and brings it nearer to its final loop, which is 55 statements away at first. There are three exceptions. The check of a waiting loop of the scheduler
  test does not lead on while a thread of the test is alive; C16 bounds how long that can be. The memory test does not end if the clock
  never again shows some remainder modulo 100 (C13). Where the misplaced initial stack of a new test thread would overwrite a header
  of the heap, the process table or the ready list (C40), the model stops. In the final loop all test threads are dead.
\<close>

theorem kernel_main_safe:
  assumes "main_reach e te ph m" "c_handler (te_cc te)"
  shows "machine_inv m \<and> cpu_ready e (m_desc m) \<and>
    (\<forall>n sp. 32 \<le> unat n \<and> unat n < 48 \<longrightarrow> (\<exists>m'. serve_irq e sp n m = Inr m')) \<and>
    (1 < k_curr (m_kernel m) \<longrightarrow> (\<exists>k. userret (e_junk e) sp (m_kernel m) = Inr (k, PROC_OK))) \<and>
    (k_curr (m_kernel m) = 1 \<longrightarrow>
       (case main_step e te ph m of
          Inr (ph', m') \<Rightarrow> ph = Halted \<or> (\<exists>s. ph = Sched s \<and> waiting s (m_kernel m)) \<or> statements_left ph' < statements_left ph
        | Inl f \<Rightarrow> (ph = MemTest \<and> f = Hang \<and> \<not> fair (te_ts te) 100) \<or>
            (\<exists>s. ph = Sched s \<and> f = OutOfBounds \<and> \<not> spared s (m_kernel m)))) \<and>
    (ph = Halted \<longrightarrow> (\<forall>j \<in> {2..<34}. stat (m_kernel m) j = PR_DEAD))"
proof -
  have te: "te_ok te" using assms(2) by (simp add: te_ok_def)
  note inv = main_reach_inv [OF assms(1) te]
  have "stat (m_kernel m) j = PR_DEAD" if "ph = Halted" "j \<in> {2..<34}" for j
  proof -
    have "{2..<34} \<subseteq> dead (m_kernel m)" using inv that(1) by (simp add: main_inv_def test_inv_def)
    then show ?thesis using that(2) unfolding dead_def by blast
  qed
  moreover have "case main_step e te ph m of
          Inr (ph', m') \<Rightarrow> ph = Halted \<or> (\<exists>s. ph = Sched s \<and> waiting s (m_kernel m)) \<or> statements_left ph' < statements_left ph
        | Inl f \<Rightarrow> (ph = MemTest \<and> f = Hang \<and> \<not> fair (te_ts te) 100) \<or> (\<exists>s. ph = Sched s \<and> f = OutOfBounds \<and> \<not> spared s (m_kernel m))"
    if "k_curr (m_kernel m) = 1"
    using main_step_ok [OF inv te that] unfolding step_safe_def by (auto split: sum.splits)
  ultimately show ?thesis using inv main_inv_irq [OF inv] main_inv_return [OF inv, of sp] unfolding main_inv_def by blast
qed

definition te0 :: test_env where
  "te0 = \<lparr>te_ts = steady, te_enc = (\<lambda>_. 1), te_bytes = (\<lambda>_. 0), te_junk = (\<lambda>_. \<lparr>key = 0, val = 0\<rparr>), te_nodes = no_nodes,
     te_pairs = (\<lambda>_. \<lparr>nvalue = make_pair 0 0, nnext = NULL\<rparr>), te_small = 0xC0107000, te_one = 0xC0107100, te_two = 0xC0107200,
     te_zext = True, te_cc = handler_code, te_ra = 0xC0104444, te_ri = 0xC0104500, te_rk = 0xC0104600, te_cpu = icpu0\<rparr>"

theorem kernel_main_safe_witness:
  "\<exists>m m1 ph' m'. kernel_init env0 machine0 = Inr m \<and> main_step env0 te0 FireLog m = Inr (ph', m1) \<and> statements_left ph' < 55 \<and>
     serve_irq env0 0 33 m = Inr m'"
proof -
  obtain m where m: "kernel_init env0 machine0 = Inr m" "k_curr (m_kernel m) = 1" using main_inv_start [OF machine0_loaded] by blast
  have r: "main_reach env0 te0 FireLog m" by (rule main_reach.start [OF machine0_loaded m(1)])
  have "c_handler (te_cc te0)" using handler_code_ok by (simp add: te0_def)
  note safe = kernel_main_safe [OF r this, of 0]
  then have s: "case main_step env0 te0 FireLog m of Inr (ph', m') \<Rightarrow> statements_left ph' < 55 | Inl f \<Rightarrow> False"
    using m(2) by (auto simp del: main_step.simps split: sum.splits)
  then obtain ph' m1 where "main_step env0 te0 FireLog m = Inr (ph', m1)" "statements_left ph' < 55"
    by (auto simp del: main_step.simps split: sum.splits)
  moreover have "32 \<le> unat (33 :: u32) \<and> unat (33 :: u32) < 48" by simp
  ultimately show ?thesis using m(1) safe by blast
qed

end
