(* ===== verification/Starvation.thy ===== *)
theory Starvation
  imports Process_Spec
begin

text \<open>
  What the ready list does to processes of equal priority. A binary heap does not keep equal keys in the order of their
  insertion, so \<^verbatim>\<open>resched\<close> does not go round: this theory follows the array of the ready list through timer ticks.
\<close>

section \<open>The ready list after a call\<close>

lemma resched_queue:
  assumes r: "resched junk sp k = Inr k'" and c: "k_curr k = int c" "stat k c = PR_CURR" "c < length (procs k)"
    and hp: "readyCount (k_table k) \<noteq> 0" "highestReadyPrio (k_table k) = Inr p" "pe_prio (procs k ! c) \<le> p"
    and d: "pq_dequeue (ready_queue k) = Inr (e, q1)" and n: "val e = int n" "n < length (procs k)" "n \<noteq> c"
  shows "k_curr k' = int n \<and> pq_insert junk (k_heap k) q1 (entry_kv k c) = Inr (k_heap k', ready_queue k')"
proof -
  obtain im i where di: "intr_disable (k_intr k) = (im, i)" by fastforce
  have "pe_status (procs k ! c) = PR_CURR" using c(2) .
  with r c hp d n di show ?thesis
    by (auto simp: resched_def resched_switch_def Let_def procent_ok upd_proc_ok scheduleNextTask_def rl_pop_def rl_insert_def set_table_def
        entry_kv_def rbind_Inr_iff nth_list_update cong: if_cong)
qed

text \<open>One turn of an array of three equal keys and one smaller one.\<close>

lemma dequeue_turn:
  assumes "pq_mem q = A # B # S # N # rest" "pq_count q = 4" "key S \<le> key B" "key N < key B"
  shows "pq_dequeue q = Inr (A, q\<lparr>pq_mem := B # N # S # N # rest, pq_count := 3\<rparr>)"
  using assms by (simp add: pq_dequeue_def rd_def wr_def sink.simps children_def)

lemma insert_turn:
  assumes "pq_mem q = B # N # S # X # rest" "pq_count q = 3" "pq_size q \<noteq> 3" "key N < key C" "key C \<le> key B"
  shows "pq_insert junk h q C = Inr (h, q\<lparr>pq_mem := B # C # S # N # rest, pq_count := 4\<rparr>)"
proof -
  have par: "parent 3 = 1" "parent 1 = 0" by (simp_all add: parent_def pq_odd_def signed_divide_int_def signed_modulo_int_def)
  have "\<not> key C \<le> key N" using assms(4) by simp
  then show ?thesis using assms(1-3,5) by (simp add: pq_insert_def rd_def wr_def swim.simps par)
qed

section \<open>A ring of three\<close>

text \<open>
  \<open>c\<close> runs, the array of the ready list holds \<open>a\<close>, \<open>b\<close>, \<open>s\<close> and \<open>n\<close> in this order; all but \<open>n\<close> have priority \<open>P\<close>.
\<close>

definition ring :: "int \<Rightarrow> nat \<Rightarrow> nat \<Rightarrow> kernel \<Rightarrow> nat \<Rightarrow> nat \<Rightarrow> nat \<Rightarrow> bool" where
  "ring P s n k c a b \<longleftrightarrow> proc_inv k \<and> k_curr k = int c \<and> pq_count (ready_queue k) = 4 \<and>
     (\<exists>rest. pq_mem (ready_queue k) = entry_kv k a # entry_kv k b # entry_kv k s # entry_kv k n # rest) \<and>
     {a, b, s, n} \<subseteq> {..<1024} \<and> s \<notin> {a, b, c} \<and>
     (\<forall>i \<in> {a, b, c, s}. pe_prio (procs k ! i) = P) \<and> pe_prio (procs k ! n) < P"

lemma ring_runnable:
  assumes "ring P s n k c a b"
  shows "{a, b, s, n} \<subseteq> runnable k" "sched_inv k"
proof -
  show inv: "sched_inv k" using assms by (simp add: ring_def proc_inv_def)
  then have q: "queued k (runnable k)" by (simp add: sched_inv_def)
  have m: "pq_mset (ready_queue k) = image_mset (entry_kv k) (mset_set (runnable k))" using q by (simp add: queued_def)
  have "pq_mset (ready_queue k) = {#entry_kv k a, entry_kv k b, entry_kv k s, entry_kv k n#}"
    using assms by (auto simp: ring_def pq_mset_def numeral_eq_Suc)
  then have "entry_kv k i \<in># pq_mset (ready_queue k)" if "i \<in> {a, b, s, n}" for i using that by auto
  then have "\<exists>j \<in> runnable k. entry_kv k i = entry_kv k j" if "i \<in> {a, b, s, n}" for i
    using that entry_kv_mem [of "runnable k" "entry_kv k i" k] by (simp add: m)
  then show "{a, b, s, n} \<subseteq> runnable k" by (fastforce simp: entry_kv_def)
qed

lemma ring_tick:
  assumes ring: "ring P s n k c a b"
  shows "\<exists>k'. timerObserver junk sp k = Inr k' \<and> ring P s n k' a b c"
proof -
  let ?k = "k\<lparr>timerFired := timerFired k + 1\<rparr>"
  have inv: "proc_inv ?k" using ring sched_inv_cong [of ?k k] by (simp add: ring_def proc_inv_def stacks_ok_def)
  note run = ring_runnable [OF ring]
  have ekv: "entry_kv ?k = entry_kv k" by (auto simp: entry_kv_def)
  have len: "length (procs ?k) = 1024" using run(2) by (simp add: sched_inv_def queued_def)
  have c: "k_curr ?k = int c" "stat ?k c = PR_CURR" "c < 1024" using ring run(2) by (auto simp: ring_def sched_inv_def)
  obtain rest where m: "pq_mem (ready_queue ?k) = entry_kv k a # entry_kv k b # entry_kv k s # entry_kv k n # rest"
    and cnt: "pq_count (ready_queue ?k) = 4" using ring by (auto simp: ring_def)
  have pr: "pe_prio (procs k ! i) = P" if "i \<in> {a, b, c, s}" for i using ring that by (auto simp: ring_def)
  have prn: "pe_prio (procs k ! n) < P" and bnd: "a < 1024" "b < 1024" using ring by (auto simp: ring_def)
  have ac: "a \<noteq> c" using run c by (auto simp: runnable_def)
  define q1 where "q1 = (ready_queue ?k)\<lparr>pq_mem := entry_kv k b # entry_kv k n # entry_kv k s # entry_kv k n # rest, pq_count := 3\<rparr>"
  have d: "pq_dequeue (ready_queue ?k) = Inr (entry_kv k a, q1)"
    unfolding q1_def by (rule dequeue_turn [OF m cnt]) (simp_all add: entry_kv_def pr prn)
  have sz: "pq_size (ready_queue ?k) \<ge> 4" using run(2) cnt by (simp add: sched_inv_def queued_def pq_state_def pq_inv_def)
  have hp: "readyCount (k_table ?k) \<noteq> 0" "highestReadyPrio (k_table ?k) = Inr P"
    using run(2) cnt m bnd len pr by (simp_all add: readyCount_def sched_inv_def queued_def highestReadyPrio_def rl_peek_def pq_top_def rd_def entry_kv_def)
  from inv obtain k' where k': "resched junk sp ?k = Inr k'" "sched_inv k'" "same_frame ?k k'"
    using resched_current [OF _ c(1), of junk sp] by (auto simp: proc_inv_def)
  have "pe_prio (procs ?k ! c) \<le> P" "val (entry_kv k a) = int a" using pr by (simp_all add: entry_kv_def)
  from resched_queue [OF k'(1) c(1,2) _ hp this(1) d this(2)] c(3) len bnd ac have
    r: "k_curr k' = int a" "pq_insert junk (k_heap k) q1 (entry_kv k c) = Inr (k_heap k', ready_queue k')" by (auto simp: ekv)
  have "pq_insert junk (k_heap k) q1 (entry_kv k c) =
      Inr (k_heap k, q1\<lparr>pq_mem := entry_kv k b # entry_kv k c # entry_kv k s # entry_kv k n # rest, pq_count := 4\<rparr>)"
    using sz by (intro insert_turn) (simp_all add: q1_def entry_kv_def pr prn)
  with r(2) have rq: "ready_queue k' = q1\<lparr>pq_mem := entry_kv k b # entry_kv k c # entry_kv k s # entry_kv k n # rest, pq_count := 4\<rparr>" by simp
  have "entry_kv k' i = entry_kv k i" if "i < 1024" for i using k'(3) that by (simp add: same_frame_def entry_kv_def)
  moreover have "pe_prio (procs k' ! i) = pe_prio (procs k ! i)" if "i < 1024" for i using k'(3) that by (simp add: same_frame_def)
  moreover have "proc_inv k'" using proc_inv_frame [OF inv k'(3,2)] .
  ultimately have "ring P s n k' a b c"
    using ring r(1) rq c(3) by (auto simp: ring_def)
  then show ?thesis using k'(1) by (auto simp: timerObserver_def)
qed

text \<open>Timer ticks one after the other; the list holds the stack pointers the context switches store.\<close>

fun ticks :: "junk \<Rightarrow> addr list \<Rightarrow> kernel \<Rightarrow> kernel result" where
  "ticks junk [] k = Inr k"
| "ticks junk (sp # sps) k = rbind (timerObserver junk sp k) (ticks junk sps)"

lemma ring_ticks:
  "ring P s n k c a b \<Longrightarrow> \<exists>k' c' a' b'. ticks junk sps k = Inr k' \<and> ring P s n k' c' a' b' \<and> [c', a', b'] = rotate (length sps) [c, a, b]"
proof (induction sps arbitrary: k c a b)
  case (Cons sp sps)
  from ring_tick [OF Cons.prems, of junk sp] obtain k1 where k1: "timerObserver junk sp k = Inr k1" "ring P s n k1 a b c" by blast
  have "rotate (length (sp # sps)) [c, a, b] = rotate (length sps) [a, b, c]" by (simp add: rotate1_rotate_swap)
  with Cons.IH [OF k1(2)] k1(1) show ?case by auto
qed auto

section \<open>From boot to the ring\<close>

lemma table_insert_queue:
  assumes "table_insert junk h t e = Inr (h', t', int n)" "pe_status e = PR_RUNNABLE"
  shows "pq_insert junk h (rl_queue (t_ready t)) \<lparr>key = pe_prio e, val = int n\<rparr> = Inr (h', rl_queue (t_ready t'))"
  using assms by (auto simp: table_insert_def rl_insert_def Let_def rbind_Inr_iff split: if_splits)

lemma create_queue:
  assumes "kthread_create junk initret sp k code sz prio PR_RUNNABLE False args = Inr (k', int n)"
  shows "\<exists>h. pq_insert junk h (ready_queue k) \<lparr>key = prio, val = int n\<rparr> = Inr (k_heap k', ready_queue k')"
proof -
  from assms obtain h e where "table_insert junk h (k_table k) e = Inr (k_heap k', k_table k', int n)" "pe_status e = PR_RUNNABLE" "pe_prio e = prio"
    by (rule kthread_create_insert)
  with table_insert_queue [of junk h "k_table k" e "k_heap k'" "k_table k'" n] show ?thesis by auto
qed

lemma table_insert_grows:
  assumes "table_insert junk h t e = Inr (h', t', i)" "0 \<le> pq_size (rl_queue (t_ready t))"
  shows "pq_size (rl_queue (t_ready t)) \<le> pq_size (rl_queue (t_ready t'))"
  using assms pq_grows [of junk h "rl_queue (t_ready t)"]
  by (auto simp: table_insert_def rl_insert_def Let_def rbind_Inr_iff split: if_splits)

lemma create_grows:
  assumes "kthread_create junk initret sp k code sz prio st False args = Inr (k', pid)" "0 \<le> pq_size (ready_queue k)"
  shows "pq_size (ready_queue k) \<le> pq_size (ready_queue k')"
proof -
  from assms(1) obtain h e where "table_insert junk h (k_table k) e = Inr (k_heap k', k_table k', pid)"
    by (rule kthread_create_insert)
  from table_insert_grows [OF this] assms(2) show ?thesis by simp
qed

lemma init_queue_size:
  assumes "processes_init junk 0 initret nullproc k0 = Inr k"
  shows "5 \<le> pq_size (ready_queue k)"
proof -
  from assms obtain h h1 p t k2 pid h3 t3 where t: "ProcEntryTable_new junk 0 h = Inr (h1, t)"
    and s: "kthread_create junk initret NULL (k0\<lparr>k_curr := 1, k_heap := h1, k_ptable := p, k_table := t\<rparr>) nullproc MINSTACK 0 PR_RUNNABLE False [] = Inr (k2, pid)"
      "table_insert junk (k_heap k2) (k_table k2) (ProcEntry_ctor NULL NULL NULL 10 PR_CURR) = Inr (h3, t3, 1)" "k_table k = t3"
    by (auto simp: processes_init_def Let_def rbind_Inr_iff split: if_splits)
  from t have "pq_size (rl_queue (t_ready t)) = 5"
    by (auto simp: ProcEntryTable_new_def pq_new_default_def pq_new_def rbind_Inr_iff)
  with create_grows [OF s(1)] have "5 \<le> pq_size (ready_queue k2)" by simp
  with table_insert_grows [OF s(2)] s(3) show ?thesis by simp
qed

text \<open>The insertions that lead to the array of the ring.\<close>

lemma insert_first:
  assumes "pq_mem q = N # X # rest" "pq_count q = 1" "pq_size q \<noteq> 1" "key N < key A"
  shows "pq_insert junk h q A = Inr (h, q\<lparr>pq_mem := A # N # rest, pq_count := 2\<rparr>)"
proof -
  have par: "parent 1 = 0" by (simp add: parent_def pq_odd_def signed_divide_int_def signed_modulo_int_def)
  have "\<not> key A \<le> key N" using assms(4) by simp
  then show ?thesis using assms(1-3) by (simp add: pq_insert_def rd_def wr_def swim.simps par)
qed

lemma insert_second:
  assumes "pq_mem q = A # N # X # rest" "pq_count q = 2" "pq_size q \<noteq> 2" "key S \<le> key A"
  shows "pq_insert junk h q S = Inr (h, q\<lparr>pq_mem := A # N # S # rest, pq_count := 3\<rparr>)"
proof -
  have par: "parent 2 = 0" by (simp add: parent_def pq_odd_def signed_divide_int_def signed_modulo_int_def)
  show ?thesis using assms by (simp add: pq_insert_def rd_def wr_def swim.simps par)
qed

lemma first_thread:
  assumes room: "heap_inv (k_heap k0)" "100000 < slack (k_heap k0)" and init: "processes_init junk 0 initret nullproc k0 = Inr k1"
    and c2: "kthread_create junk initret NULL k1 f MINSTACK 10 PR_RUNNABLE False args = Inr (k2, p2)"
  shows "p2 = 2 \<and> proc_inv k2 \<and> k_curr k2 = 1 \<and> t_taken (k_table k2) = replicate 3 True @ replicate (1024 - 3) False \<and>
    pe_prio (procs k2 ! 0) = 0 \<and> pe_prio (procs k2 ! 1) = 10 \<and> pe_prio (procs k2 ! 2) = 10 \<and> 40000 < slack (k_heap k2) \<and>
    pq_size (ready_queue k2) = 5 \<and> pq_count (ready_queue k2) = 2 \<and>
    (\<exists>x2 x3 x4. pq_mem (ready_queue k2) = [\<lparr>key = 10, val = 2\<rparr>, \<lparr>key = 0, val = 0\<rparr>, x2, x3, x4])"
proof -
  have "boot_room < slack (k_heap k0)" using room(2) by (simp add: boot_room_def)
  from processes_init_cases [OF room(1) this, of junk initret nullproc] init have
    k1: "sched_inv k1" "stacks_ok k1" "k_curr k1 = 1" "runnable k1 = {0}" "pe_prio (procs k1 ! 0) = 0" "pe_prio (procs k1 ! 1) = 10"
      "t_taken (k_table k1) = True # True # replicate 1022 False" "pq_size (ready_queue k1) \<le> 5" "slack (k_heap k0) \<le> slack (k_heap k1) + boot_room" by auto
  have "0 \<in> runnable k1" by (simp add: k1(4))
  then have i1: "proc_inv k1" using k1(1,2) by (auto simp: proc_inv_def runnable_def)
  have t1: "t_taken (k_table k1) = replicate 2 True @ replicate (1024 - 2) False" by (simp add: k1(7) numeral_2_eq_2)
  have cr: "create_room k1 MINSTACK \<le> 16600" using k1(8) by (simp add: create_room_def MINSTACK_def)
  have s1: "57000 < slack (k_heap k1)" using k1(9) room(2) by (simp add: boot_room_def)
  then have r1: "create_room k1 MINSTACK < slack (k_heap k1)" using cr by simp
  from create_next [OF i1 t1 _ order_refl r1 kthread_create_clear [OF c2 order_refl], of junk initret NULL f 10] c2 have
    k2: "p2 = 2" "proc_inv k2" "t_taken (k_table k2) = replicate (Suc 2) True @ replicate (1024 - Suc 2) False" "pe_prio (procs k2 ! 2) = 10"
      "k_curr k2 = k_curr k1" "\<forall>j < 1024. j \<noteq> 2 \<longrightarrow> procs k2 ! j = procs k1 ! j" "slack (k_heap k1) \<le> slack (k_heap k2) + create_room k1 MINSTACK" by auto
  let ?q = "ready_queue k1" and ?E = "\<lparr>key = 10 :: int, val = 2 :: int\<rparr>" and ?N = "\<lparr>key = 0 :: int, val = 0 :: int\<rparr>"
  have sz: "pq_size ?q = 5" using init_queue_size [OF init] k1(8) by simp
  have ms: "pq_mset ?q = {#?N#}" and inv: "pq_inv ?q"
    using k1(1,4,5) by (auto simp: sched_inv_def queued_def pq_state_def entry_kv_def)
  have cnt: "pq_count ?q = 1" using pq_mset_size [OF inv] ms by simp
  have "length (pq_mem ?q) = 5" using inv sz by (simp add: pq_inv_def)
  then obtain x0 x1 x2 x3 x4 where mem: "pq_mem ?q = [x0, x1, x2, x3, x4]" by (auto simp: numeral_eq_Suc length_Suc_conv)
  have m1: "pq_mem ?q = [?N, x1, x2, x3, x4]" using ms cnt mem by (simp add: pq_mset_def)
  from create_queue [of junk initret NULL k1 f MINSTACK 10 args k2 2] c2 k2(1) insert_first [OF m1 cnt] sz
  have "ready_queue k2 = ?q\<lparr>pq_mem := [?E, ?N, x2, x3, x4], pq_count := 2\<rparr>" by auto
  moreover have "40000 < slack (k_heap k2)" using k2(7) cr s1 by simp
  ultimately show ?thesis using k2 k1(3,5,6) sz by (simp add: numeral_3_eq_3 numeral_2_eq_2)
qed

lemma ring_of_three:
  assumes room: "heap_inv (k_heap k0)" "100000 < slack (k_heap k0)" and init: "processes_init junk 0 initret nullproc k0 = Inr k1"
    and c2: "kthread_create junk initret NULL k1 f MINSTACK 10 PR_RUNNABLE False args = Inr (k2, p2)"
    and c3: "kthread_create junk initret NULL k2 f MINSTACK 10 PR_RUNNABLE False args = Inr (k3, p3)"
    and c4: "kthread_create junk initret NULL k3 f MINSTACK 10 PR_RUNNABLE False args = Inr (k4, p4)"
  shows "p2 = 2 \<and> p3 = 3 \<and> p4 = 4 \<and> ring 10 3 0 k4 1 2 4"
proof -
  let ?E = "\<lambda>i. \<lparr>key = 10 :: int, val = int i\<rparr>" and ?N = "\<lparr>key = 0 :: int, val = 0 :: int\<rparr>"
  from first_thread [OF room init c2] obtain x2 x3 x4 where
    k2: "p2 = 2" "proc_inv k2" "k_curr k2 = 1" "t_taken (k_table k2) = replicate 3 True @ replicate (1024 - 3) False"
      "pe_prio (procs k2 ! 0) = 0" "pe_prio (procs k2 ! 1) = 10" "pe_prio (procs k2 ! 2) = 10" "40000 < slack (k_heap k2)"
    and q2: "pq_size (ready_queue k2) = 5" "pq_count (ready_queue k2) = 2" "pq_mem (ready_queue k2) = [?E 2, ?N, x2, x3, x4]" by auto
  have cr: "create_room k MINSTACK = 16448 + 16 * nat (pq_size (ready_queue k))" for k by (simp add: create_room_def MINSTACK_def)
  have r2: "create_room k2 MINSTACK < slack (k_heap k2)" using k2(8) by (simp add: cr q2)
  from create_next [OF k2(2,4) _ order_refl r2 kthread_create_clear [OF c3 order_refl], of junk initret NULL f 10] c3 have
    k3: "p3 = 3" "proc_inv k3" "t_taken (k_table k3) = replicate (Suc 3) True @ replicate (1024 - Suc 3) False" "pe_prio (procs k3 ! 3) = 10"
      "k_curr k3 = k_curr k2" "\<forall>j < 1024. j \<noteq> 3 \<longrightarrow> procs k3 ! j = procs k2 ! j" "slack (k_heap k2) \<le> slack (k_heap k3) + create_room k2 MINSTACK"
    by (auto simp: numeral_eq_Suc)
  from create_queue [of junk initret NULL k2 f MINSTACK 10 args k3 3] c3 k3(1) insert_second [OF q2(3,2), of "?E 3" junk] q2(1)
  have q3: "ready_queue k3 = (ready_queue k2)\<lparr>pq_mem := [?E 2, ?N, ?E 3, x3, x4], pq_count := 3\<rparr>" by auto
  have r3: "create_room k3 MINSTACK < slack (k_heap k3)" using k3(7) k2(8) by (simp add: cr q2(1) q3)
  from create_next [OF k3(2,3) _ order_refl r3 kthread_create_clear [OF c4 order_refl], of junk initret NULL f 10] c4 have
    k4: "p4 = 4" "proc_inv k4" "pe_prio (procs k4 ! 4) = 10" "k_curr k4 = k_curr k3" "\<forall>j < 1024. j \<noteq> 4 \<longrightarrow> procs k4 ! j = procs k3 ! j"
    by (auto simp: numeral_eq_Suc)
  from create_queue [of junk initret NULL k3 f MINSTACK 10 args k4 4] c4 k4(1) insert_turn [of "ready_queue k3" "?E 2" ?N "?E 3" x3 "[x4]" "?E 4"] q2(1)
  have q4: "ready_queue k4 = (ready_queue k2)\<lparr>pq_mem := [?E 2, ?E 4, ?E 3, ?N, x4], pq_count := 4\<rparr>" by (auto simp: q3)
  have pr: "pe_prio (procs k4 ! 0) = 0" "pe_prio (procs k4 ! 1) = 10" "pe_prio (procs k4 ! 2) = 10" "pe_prio (procs k4 ! 3) = 10"
    using k4(5) k3(4,6) k2(5-7) by simp_all
  then have "entry_kv k4 0 = ?N" "entry_kv k4 2 = ?E 2" "entry_kv k4 3 = ?E 3" "entry_kv k4 4 = ?E 4" using k4(3) by (simp_all add: entry_kv_def)
  then have "ring 10 3 0 k4 1 2 4" unfolding ring_def using k4(2-4) k3(5) k2(3) pr q4 by auto
  with k2(1) k3(1) k4(1) show ?thesis by simp
qed

section \<open>The property\<close>

text \<open>
  C18. Threads of equal priority starve. Three threads of the boot thread's priority are created in a freshly booted kernel and get the pids
  2, 3 and 4. With every tick of the timer the processor goes on from the boot thread (pid 1) to pid 2, from pid 2 to pid 4 and from pid 4
  back to the boot thread: after \<open>n\<close> ticks entry \<open>n mod 3\<close> of \<open>[1, 2, 4]\<close> runs. Pid 3 has the same priority, is
  runnable all the time and never gets the processor, because the array of the ready list puts it in the same cell after every turn.
\<close>

theorem equal_priority_starves:
  assumes "heap_inv (k_heap k0)" "100000 < slack (k_heap k0)" "processes_init junk 0 initret nullproc k0 = Inr k1"
    "kthread_create junk initret NULL k1 f MINSTACK 10 PR_RUNNABLE False args = Inr (k2, p2)"
    "kthread_create junk initret NULL k2 f MINSTACK 10 PR_RUNNABLE False args = Inr (k3, p3)"
    "kthread_create junk initret NULL k3 f MINSTACK 10 PR_RUNNABLE False args = Inr (k4, p4)"
  shows "p2 = 2 \<and> p3 = 3 \<and> p4 = 4 \<and> (\<exists>k. ticks junk sps k4 = Inr k \<and> k_curr k = [1, 2, 4] ! (length sps mod 3) \<and> stat k 3 = PR_RUNNABLE \<and>
    pe_prio (procs k ! 3) = 10 \<and> (\<forall>i \<in> runnable k. pe_prio (procs k ! i) \<le> 10) \<and> {1, 2, 4} \<subseteq> insert (nat (k_curr k)) (runnable k))"
proof -
  from ring_of_three [OF assms] have r: "p2 = 2 \<and> p3 = 3 \<and> p4 = 4" "ring 10 3 0 k4 1 2 4" by auto
  from ring_ticks [OF r(2), of junk sps] obtain k c a b where k: "ticks junk sps k4 = Inr k" "ring 10 3 0 k c a b"
    "[c, a, b] = rotate (length sps) [1, 2, 4]" by blast
  have "c = hd (rotate (length sps) [1, 2, 4])" unfolding k(3) [symmetric] by simp
  then have c: "c = [1, 2, 4] ! (length sps mod 3)" by (simp add: hd_rotate_conv_nth)
  have "length sps mod 3 \<in> {0, 1, 2}" by auto
  then have "k_curr k = [1, 2, 4] ! (length sps mod 3)" using k(2) c by (auto simp: ring_def)
  moreover have "set [c, a, b] = {1, 2, 4}" unfolding k(3) by (simp only: set_rotate) auto
  then have "{1, 2, 4} \<subseteq> insert (nat (k_curr k)) (runnable k)" using ring_runnable(1) [OF k(2)] k(2) by (auto simp: ring_def)
  moreover have "3 \<in> runnable k" using ring_runnable(1) [OF k(2)] by simp
  then have "stat k 3 = PR_RUNNABLE" by (simp add: runnable_def)
  moreover have "pe_prio (procs k ! i) \<le> 10" if "i \<in> runnable k" for i
  proof -
    have q: "queued k (runnable k)" using ring_runnable(2) [OF k(2)] by (simp add: sched_inv_def)
    then have "entry_kv k i \<in># pq_mset (ready_queue k)" using that by (simp add: queued_def)
    moreover have "pq_mset (ready_queue k) = {#entry_kv k a, entry_kv k b, entry_kv k 3, entry_kv k 0#}"
      using k(2) by (auto simp: ring_def pq_mset_def numeral_eq_Suc)
    ultimately have "i \<in> {a, b, 3, 0}" by (auto simp: entry_kv_def)
    then show ?thesis using k(2) by (auto simp: ring_def)
  qed
  moreover have "pe_prio (procs k ! 3) = 10" using k(2) by (simp add: ring_def)
  ultimately show ?thesis using r(1) k(1) by blast
qed

lemma create_more:
  assumes "proc_inv k" "t_taken (k_table k) = replicate n True @ replicate (1024 - n) False" "n < 1000"
    "pq_size (ready_queue k) = 5" "100000 < slack (k_heap k)" "tail_ok k N" "100000 < N" "card (runnable k) < 5"
  obtains k' where "kthread_create no_kv 7 NULL k 77 MINSTACK 10 PR_RUNNABLE False [] = Inr (k', int n)" "proc_inv k'"
    "t_taken (k_table k') = replicate (Suc n) True @ replicate (1024 - Suc n) False" "pq_size (ready_queue k') = 5"
    "slack (k_heap k) \<le> slack (k_heap k') + 20000" "tail_ok k' (N - 16400)" "card (runnable k') \<le> Suc (card (runnable k))"
proof -
  have cr: "create_room k MINSTACK \<le> 20000" using assms(4) by (simp add: create_room_def MINSTACK_def)
  then have room: "create_room k MINSTACK < slack (k_heap k)" using assms(5) by simp
  have clr: "stack_clear k MINSTACK (length ([] :: u32 list))" by (rule tail_clear(1) [OF assms(6)]) (use assms(7) in \<open>simp_all add: MINSTACK_def\<close>)
  have n: "n < 1024" using assms(3) by simp
  from create_next [OF assms(1,2) n order_refl room clr, of no_kv 7 NULL 77 10] obtain k' where
    k': "kthread_create no_kv 7 NULL k 77 MINSTACK 10 PR_RUNNABLE False [] = Inr (k', int n)" "proc_inv k'"
      "t_taken (k_table k') = replicate (Suc n) True @ replicate (1024 - Suc n) False" "\<forall>j < 1024. j \<noteq> n \<longrightarrow> procs k' ! j = procs k ! j"
      "slack (k_heap k) \<le> slack (k_heap k') + create_room k MINSTACK" by blast
  have "pq_count (ready_queue k) = int (card (runnable k))"
    using assms(1) pq_mset_size [of "ready_queue k"] by (simp add: proc_inv_def sched_inv_def queued_def pq_state_def)
  then have ne: "PR_RUNNABLE = PR_RUNNABLE \<longrightarrow> pq_count (ready_queue k) \<noteq> pq_size (ready_queue k)" using assms(4,8) by simp
  have "4 * unat MINSTACK + 100 \<le> N" using assms(7) by (simp add: MINSTACK_def)
  note t = create_tail [OF k'(1) assms(6) order_refl this ne]
  have "runnable k' \<subseteq> insert n (runnable k)" using k'(4) by (auto simp: runnable_def)
  then have "card (runnable k') \<le> card (insert n (runnable k))" by (intro card_mono) simp_all
  then have "card (runnable k') \<le> Suc (card (runnable k))" by (simp add: card_insert_if split: if_splits)
  moreover have "tail_ok k' (N - 16400)" using t(1) by (simp add: MINSTACK_def)
  ultimately show ?thesis using that k' t(2) cr assms(4) by simp
qed

theorem equal_priority_starves_witness:
  "\<exists>k1 k2 k3 k4 k. processes_init no_kv 0 7 9 kernel0 = Inr k1 \<and>
    kthread_create no_kv 7 NULL k1 77 MINSTACK 10 PR_RUNNABLE False [] = Inr (k2, 2) \<and>
    kthread_create no_kv 7 NULL k2 77 MINSTACK 10 PR_RUNNABLE False [] = Inr (k3, 3) \<and>
    kthread_create no_kv 7 NULL k3 77 MINSTACK 10 PR_RUNNABLE False [] = Inr (k4, 4) \<and>
    ticks no_kv [1, 2, 3, 4, 5, 6, 7] k4 = Inr k \<and> k_curr k = 2 \<and> stat k 3 = PR_RUNNABLE"
proof -
  obtain k1 where k1: "processes_init no_kv 0 7 9 kernel0 = Inr k1" "proc_inv k1" "runnable k1 = {0}"
    "t_taken (k_table k1) = True # True # replicate 1022 False" "tail_ok k1 4152196" "4000000 < slack (k_heap k1)" "pq_size (ready_queue k1) = 5"
    by (rule kernel_booted)
  have h: "heap_inv (k_heap kernel0)" "100000 < slack (k_heap kernel0)" using kernel0_room roomy_heap_inv(2) by (simp_all add: kernel0_def)
  have t1: "t_taken (k_table k1) = replicate 2 True @ replicate (1024 - 2) False" by (simp add: k1(4) numeral_2_eq_2)
  obtain k2 where k2: "kthread_create no_kv 7 NULL k1 77 MINSTACK 10 PR_RUNNABLE False [] = Inr (k2, int 2)" "proc_inv k2"
    "t_taken (k_table k2) = replicate (Suc 2) True @ replicate (1024 - Suc 2) False" "pq_size (ready_queue k2) = 5"
    "slack (k_heap k1) \<le> slack (k_heap k2) + 20000" "tail_ok k2 (4152196 - 16400)" "card (runnable k2) \<le> Suc (card (runnable k1))"
    by (rule create_more [OF k1(2) t1 _ k1(7) _ k1(5)]) (use k1(3,6) in auto)
  have c2: "card (runnable k2) \<le> 2" using k2(7) by (simp add: k1(3))
  obtain k3 where k3: "kthread_create no_kv 7 NULL k2 77 MINSTACK 10 PR_RUNNABLE False [] = Inr (k3, int (Suc 2))" "proc_inv k3"
    "t_taken (k_table k3) = replicate (Suc (Suc 2)) True @ replicate (1024 - Suc (Suc 2)) False" "pq_size (ready_queue k3) = 5"
    "slack (k_heap k2) \<le> slack (k_heap k3) + 20000" "tail_ok k3 (4152196 - 16400 - 16400)" "card (runnable k3) \<le> Suc (card (runnable k2))"
    by (rule create_more [OF k2(2,3) _ k2(4) _ k2(6)]) (use k1(6) k2(5) c2 in auto)
  obtain k4 where k4: "kthread_create no_kv 7 NULL k3 77 MINSTACK 10 PR_RUNNABLE False [] = Inr (k4, int (Suc (Suc 2)))"
    by (rule create_more [OF k3(2,3) _ k3(4) _ k3(6)]) (use k1(6) k2(5) k3(5,7) c2 in auto)
  from equal_priority_starves [OF h k1(1) k2(1) k3(1) k4, of "[1, 2, 3, 4, 5, 6, 7]"] obtain k where
    k: "ticks no_kv [1, 2, 3, 4, 5, 6, 7] k4 = Inr k" "k_curr k = [1, 2, 4] ! (length [1, 2, 3, 4, 5, 6, 7 :: addr] mod 3)" "stat k 3 = PR_RUNNABLE" by blast
  have "k_curr k = 2" by (simp add: k(2))
  moreover have "int 2 = 2" "int (Suc 2) = 3" "int (Suc (Suc 2)) = 4" by simp_all
  ultimately show ?thesis using k1(1) k2(1) k3(1) k4 k(1,3) by metis
qed

end
