(* ===== verification/Preemption.thy ===== *)
theory Preemption
  imports Starvation
begin

text \<open>
  What a timer tick inside a call can do. \<^verbatim>\<open>ready\<close>, \<^verbatim>\<open>suspend\<close>, \<^verbatim>\<open>kill\<close> and \<^verbatim>\<open>kthread_create\<close> change the ready list without disabling
  interrupts, and the scheduler changes it too. This theory cuts \<^verbatim>\<open>ready\<close> (\<^verbatim>\<open>proc.cpp\<close>) between two statements of
  \<^verbatim>\<open>priority_queue::insert\<close> (\<^verbatim>\<open>queue.h\<close>) and lets a tick and the end of another thread happen there.
\<close>

section \<open>A call in two halves\<close>

text \<open>\<^verbatim>\<open>insert\<close> behind \<^verbatim>\<open>int currpos = _count\<close>.\<close>

definition pq_insert_from :: "('k::linorder, 'v) priority_queue \<Rightarrow> int \<Rightarrow> ('k, 'v) key_val \<Rightarrow> ('k, 'v) priority_queue result" where
  "pq_insert_from q currpos elem =
     rbind (wr (pq_mem q) (pq_count q) elem) (\<lambda>m1.
     rbind (swim m1 currpos) (\<lambda>m2. Inr (q\<lparr>pq_mem := m2, pq_count := pq_count q + 1\<rparr>)))"

text \<open>The rest of \<^verbatim>\<open>ready\<close> from there on.\<close>

definition ready_from :: "int \<Rightarrow> kernel \<Rightarrow> int \<Rightarrow> (kernel \<times> int) result" where
  "ready_from currpos k pid =
     rbind (procent k pid) (\<lambda>p.
     rbind (pq_insert_from (rl_queue (t_ready (k_table k))) currpos \<lparr>key = pe_prio p, val = pid\<rparr>) (\<lambda>q.
     Inr (set_table (\<lambda>t. t\<lparr>t_ready := \<lparr>rl_queue = q, rl_count = rl_count (t_ready t) + 1\<rparr>\<rparr>) k, PROC_OK)))"

text \<open>Without anything in between the halves are the call.\<close>

lemma ready_halves:
  assumes "isvalid k pid = Inr True" "procent k pid = Inr p" "pe_status p \<noteq> PR_RUNNABLE" "pq_count (ready_queue k) \<noteq> pq_size (ready_queue k)"
  shows "ready junk k pid = ready_from (pq_count (ready_queue k)) k pid"
  using assms by (simp add: ready_def ready_from_def rl_insert_def pq_insert_def pq_insert_from_def set_table_def rbind_def Let_def split: sum.splits)

section \<open>The calls in between\<close>

lemma dequeue_two:
  assumes "pq_mem q = A # N # rest" "pq_count q = 2"
  shows "pq_dequeue q = Inr (A, q\<lparr>pq_mem := N # N # rest, pq_count := 1\<rparr>)"
  using assms by (simp add: pq_dequeue_def rd_def wr_def sink.simps children_def)

text \<open>A thread that returns hands over to the first of the ready list.\<close>

lemma userret_queue:
  assumes c: "k_curr k = int c" "stat k c = PR_CURR" "c < length (procs k)"
    and d: "pq_dequeue (ready_queue k) = Inr (e, q1)" and n: "val e = int n" "n < length (procs k)" "n \<noteq> c"
  shows "\<exists>k'. userret junk sp k = Inr (k', PROC_OK) \<and> k_curr k' = int n \<and> ready_queue k' = q1 \<and>
    length (procs k') = length (procs k) \<and> (\<forall>i. i \<noteq> c \<and> i \<noteq> n \<longrightarrow> procs k' ! i = procs k ! i)"
proof -
  obtain im i where di: "intr_disable (k_intr k) = (im, i)" by fastforce
  have "pe_status (procs k ! c) = PR_CURR" using c(2) .
  with c d n di show ?thesis
    by (simp add: userret_def getpid_def kill_def isvalid_ok procent_ok valid_status_def suspend_def upd_proc_ok pe_release_def
        resched_def resched_switch_def scheduleNextTask_def rl_pop_def Let_def set_table_def PROC_OK_def nth_list_update)
qed

section \<open>The race\<close>

text \<open>
  The boot thread runs, thread 2 and the null process are on the ready list, thread 3 is suspended; \<open>X\<close> is whatever the array holds
  behind them.
\<close>

definition racing :: "int \<Rightarrow> kernel \<Rightarrow> (int, int) key_val \<Rightarrow> bool" where
  "racing P k X \<longleftrightarrow> proc_inv k \<and> k_curr k = 1 \<and> stat k 3 = PR_SUSPENDED \<and> pq_count (ready_queue k) = 2 \<and>
     (\<exists>rest. pq_mem (ready_queue k) = entry_kv k 2 # entry_kv k 0 # X # rest) \<and>
     (\<forall>i \<in> {1, 2, 3}. pe_prio (procs k ! i) = P) \<and> pe_prio (procs k ! 0) < P"

lemma race_tick:
  assumes race: "racing P k X"
  shows "\<exists>k1 rest. timerObserver junk sp k = Inr k1 \<and> sched_inv k1 \<and> k_curr k1 = 2 \<and> pq_count (ready_queue k1) = 2 \<and>
    pq_mem (ready_queue k1) = entry_kv k 1 # entry_kv k 0 # X # rest \<and> same_frame k k1"
proof -
  let ?k = "k\<lparr>timerFired := timerFired k + 1\<rparr>"
  have inv: "sched_inv ?k" using race sched_inv_cong [of ?k k] by (simp add: racing_def proc_inv_def)
  have len: "length (procs ?k) = 1024" using inv by (simp add: sched_inv_def queued_def)
  have c: "k_curr ?k = int 1" "stat ?k 1 = PR_CURR" "1 < length (procs ?k)" using race inv len by (auto simp: racing_def sched_inv_def)
  obtain rest where m: "pq_mem (ready_queue ?k) = entry_kv k 2 # entry_kv k 0 # X # rest" "pq_count (ready_queue ?k) = 2"
    using race by (auto simp: racing_def)
  have pr: "pe_prio (procs k ! 1) = P" "pe_prio (procs k ! 2) = P" "pe_prio (procs k ! 0) < P" using race by (auto simp: racing_def)
  have sz: "pq_size (ready_queue ?k) \<noteq> 1" using inv m(2) by (simp add: sched_inv_def queued_def pq_state_def pq_inv_def)
  have hp: "readyCount (k_table ?k) \<noteq> 0" "highestReadyPrio (k_table ?k) = Inr P"
    using inv m len pr by (simp_all add: readyCount_def sched_inv_def queued_def highestReadyPrio_def rl_peek_def pq_top_def rd_def entry_kv_def)
  from resched_current [OF inv c(1), of junk sp] obtain k1 where k1: "resched junk sp ?k = Inr k1" "sched_inv k1" "same_frame ?k k1" by auto
  let ?q = "(ready_queue ?k)\<lparr>pq_mem := entry_kv k 0 # entry_kv k 0 # X # rest, pq_count := 1\<rparr>"
  note d = dequeue_two [OF m]
  have "val (entry_kv k 2) = int 2" "(2::nat) \<noteq> 1" "pe_prio (procs ?k ! 1) \<le> P" "2 < length (procs ?k)" using pr len by (simp_all add: entry_kv_def)
  from resched_queue [OF k1(1) c hp this(3) d this(1,4,2)] have
    r: "k_curr k1 = 2" "pq_insert junk (k_heap ?k) ?q (entry_kv ?k 1) = Inr (k_heap k1, ready_queue k1)" by simp_all
  have "entry_kv ?k 1 = entry_kv k 1" by (simp add: entry_kv_def)
  with r(2) insert_first [of ?q "entry_kv k 0" "entry_kv k 0" "X # rest" "entry_kv k 1" junk "k_heap ?k"] sz pr
  have "ready_queue k1 = ?q\<lparr>pq_mem := entry_kv k 1 # entry_kv k 0 # X # rest, pq_count := 2\<rparr>" by (simp add: entry_kv_def)
  moreover have "same_frame k k1" using k1(3) by (simp add: same_frame_def)
  ultimately show ?thesis using k1(1,2) r(1) by (simp add: timerObserver_def)
qed

text \<open>The second half with a position that is out of date: it moves the cell behind the list.\<close>

lemma insert_stale:
  assumes "pq_mem q = N # Y # X # rest" "pq_count q = 1"
  shows "pq_insert_from q 2 E = Inr (q\<lparr>pq_mem := (if key N \<ge> key X then N # E # X # rest else X # E # N # rest), pq_count := 2\<rparr>)"
proof -
  have par: "parent 2 = 0" by (simp add: parent_def pq_odd_def signed_divide_int_def signed_modulo_int_def)
  show ?thesis using assms by (auto simp: pq_insert_from_def rd_def wr_def swim.simps par)
qed

section \<open>The property\<close>

text \<open>
  C24. \<^verbatim>\<open>ready\<close> must not be preempted. Between the statement of \<^verbatim>\<open>priority_queue::insert\<close> that reads the count and the one that
  stores the new element a tick hands over to thread 2, thread 2 returns from its function, and the boot thread continues. Then the
  element is stored at the new end of the array, but the cell at the old end is moved up. The ready list is broken afterwards: either
  its first entry is what the memory behind the list happened to hold and the null process is lost, or the thread just made ready
  lies behind the null process of lower priority.
\<close>

theorem ready_preempted_breaks_list:
  assumes "racing P k X"
  shows "\<exists>k1 k2 k3. timerObserver junk sp k = Inr k1 \<and> userret junk sp' k1 = Inr (k2, PROC_OK) \<and> k_curr k2 = 1 \<and>
    ready_from (pq_count (ready_queue k)) k2 3 = Inr (k3, PROC_OK) \<and> \<not> queued k3 {0, 3} \<and>
    take 2 (pq_mem (ready_queue k3)) = [if pe_prio (procs k ! 0) \<ge> key X then entry_kv k 0 else X, entry_kv k 3]"
proof -
  from race_tick [OF assms, of junk sp] obtain k1 rest where k1: "timerObserver junk sp k = Inr k1" "sched_inv k1" "k_curr k1 = 2"
    "pq_count (ready_queue k1) = 2" "pq_mem (ready_queue k1) = entry_kv k 1 # entry_kv k 0 # X # rest" "same_frame k k1" by blast
  have len: "length (procs k1) = 1024" using k1(2) by (simp add: sched_inv_def queued_def)
  have c: "k_curr k1 = int 2" "stat k1 2 = PR_CURR" "2 < length (procs k1)" using k1(2,3) len by (auto simp: sched_inv_def)
  have "val (entry_kv k 1) = int 1" "1 < length (procs k1)" "(1::nat) \<noteq> 2" using len by (simp_all add: entry_kv_def)
  from userret_queue [OF c dequeue_two [OF k1(5,4)] this, of junk sp'] obtain k2 where
    k2: "userret junk sp' k1 = Inr (k2, PROC_OK)" "k_curr k2 = 1" "length (procs k2) = 1024"
      "ready_queue k2 = (ready_queue k1)\<lparr>pq_mem := entry_kv k 0 # entry_kv k 0 # X # rest, pq_count := 1\<rparr>"
      "\<forall>i. i \<noteq> 2 \<and> i \<noteq> 1 \<longrightarrow> procs k2 ! i = procs k1 ! i" using len by auto
  have pr: "pe_prio (procs k2 ! 0) = pe_prio (procs k ! 0)" "pe_prio (procs k2 ! 3) = pe_prio (procs k ! 3)"
    using k1(6) k2(5) by (simp_all add: same_frame_def)
  have P: "pe_prio (procs k ! 3) = P" "pe_prio (procs k ! 0) < P" using assms by (auto simp: racing_def)
  let ?m = "if pe_prio (procs k ! 0) \<ge> key X then entry_kv k 0 # entry_kv k 3 # X # rest else X # entry_kv k 3 # entry_kv k 0 # rest"
  let ?q = "(ready_queue k1)\<lparr>pq_mem := ?m, pq_count := 2\<rparr>"
  define k3 where "k3 = set_table (\<lambda>t. t\<lparr>t_ready := \<lparr>rl_queue = ?q, rl_count = rl_count (t_ready t) + 1\<rparr>\<rparr>) k2"
  have e3: "\<lparr>key = pe_prio (procs k ! 3), val = 3\<rparr> = entry_kv k 3" by (simp add: entry_kv_def)
  have "pq_insert_from (ready_queue k2) 2 (entry_kv k 3) = Inr ?q"
    using insert_stale [of "ready_queue k2" "entry_kv k 0" "entry_kv k 0" X rest "entry_kv k 3"] by (simp add: k2(4)) (simp add: entry_kv_def)
  moreover have "procent k2 3 = Inr (procs k2 ! 3)" using procent_ok [of 3 k2] k2(3) by simp
  moreover have "pq_count (ready_queue k) = 2" using assms by (simp add: racing_def)
  ultimately have r: "ready_from (pq_count (ready_queue k)) k2 3 = Inr (k3, PROC_OK)"
    by (simp only: ready_from_def k3_def pr(2) e3 rbind_simps)
  have q3: "ready_queue k3 = ?q" and e: "entry_kv k3 0 = entry_kv k 0" "entry_kv k3 3 = entry_kv k 3"
    using pr by (simp_all add: k3_def set_table_def entry_kv_def)
  have "\<not> queued k3 {0, 3}"
  proof
    assume q: "queued k3 {0, 3}"
    then have "pq_mset (ready_queue k3) = {#entry_kv k 0, entry_kv k 3#}" by (simp add: queued_def e)
    moreover have "pq_mset (ready_queue k3) = mset (take 2 ?m)" by (simp add: q3 pq_mset_def)
    ultimately have "pe_prio (procs k ! 0) \<ge> key X" by (auto simp: entry_kv_def numeral_2_eq_2 split: if_splits)
    then have "pq_mem (ready_queue k3) = entry_kv k 0 # entry_kv k 3 # X # rest" by (simp add: q3)
    moreover have "pq_inv (ready_queue k3)" "pq_count (ready_queue k3) = 2" using q by (simp_all add: queued_def pq_state_def q3)
    ultimately have "is_heap (entry_kv k 0 # entry_kv k 3 # X # rest) 2" by (simp add: pq_inv_def)
    then have "key (entry_kv k 3) \<le> key (entry_kv k 0)" unfolding is_heap_def by (elim allE [of _ 1]) (simp add: par_def)
    then show False using P by (simp add: entry_kv_def)
  qed
  then show ?thesis using k1(1) k2(1,2) r q3 by (intro exI [of _ k1] exI [of _ k2] exI [of _ k3]) (auto simp: numeral_2_eq_2)
qed

lemma create_suspended_queue:
  assumes "kthread_create junk initret sp k code sz prio PR_SUSPENDED False args = Inr (k', pid)"
  shows "ready_queue k' = ready_queue k"
proof -
  from assms obtain h e where "table_insert junk h (k_table k) e = Inr (k_heap k', k_table k', pid)" "pe_status e = PR_SUSPENDED"
    by (rule kthread_create_insert)
  then show ?thesis by (auto simp: table_insert_def Let_def split: if_splits dest!: arg_cong [where f = "\<lambda>t. rl_queue (t_ready t)"])
qed

theorem ready_preempted_breaks_list_witness:
  "\<exists>k X k1 k2 k3. racing 10 k X \<and> timerObserver no_kv 5 k = Inr k1 \<and> userret no_kv 6 k1 = Inr (k2, PROC_OK) \<and>
     ready_from 2 k2 3 = Inr (k3, PROC_OK) \<and> \<not> queued k3 {0, 3}"
proof -
  obtain k1 where k1: "processes_init no_kv 0 7 9 kernel0 = Inr k1" "proc_inv k1" "runnable k1 = {0}"
    "t_taken (k_table k1) = True # True # replicate 1022 False" "tail_ok k1 4152196" "4000000 < slack (k_heap k1)" "pq_size (ready_queue k1) = 5"
    by (rule kernel_booted)
  have h: "heap_inv (k_heap kernel0)" "100000 < slack (k_heap kernel0)" using kernel0_room roomy_heap_inv(2) by (simp_all add: kernel0_def)
  have t1: "t_taken (k_table k1) = replicate 2 True @ replicate (1024 - 2) False" by (simp add: k1(4) numeral_2_eq_2)
  obtain k2 where c2: "kthread_create no_kv 7 NULL k1 77 MINSTACK 10 PR_RUNNABLE False [] = Inr (k2, int 2)" "tail_ok k2 (4152196 - 16400)"
    by (rule create_more [OF k1(2) t1 _ k1(7) _ k1(5)]) (use k1(3,6) in auto)
  from first_thread [OF h k1(1) c2(1)] obtain x2 x3 x4 where
    k2: "proc_inv k2" "k_curr k2 = 1" "t_taken (k_table k2) = replicate 3 True @ replicate (1024 - 3) False"
      "pe_prio (procs k2 ! 0) = 0" "pe_prio (procs k2 ! 1) = 10" "pe_prio (procs k2 ! 2) = 10" "40000 < slack (k_heap k2)"
    and q2: "pq_size (ready_queue k2) = 5" "pq_count (ready_queue k2) = 2"
      "pq_mem (ready_queue k2) = [\<lparr>key = 10, val = 2\<rparr>, \<lparr>key = 0, val = 0\<rparr>, x2, x3, x4]" by auto
  have i: "sched_inv k2" "stacks_ok k2" "\<not> (\<forall>b \<in> set (t_taken (k_table k2)). b)" using k2(1,3) by (auto simp: proc_inv_def)
  have "create_room k2 MINSTACK < slack (k_heap k2)" using k2(7) q2(1) by (simp add: create_room_def MINSTACK_def)
  moreover have "stack_clear k2 MINSTACK (length ([] :: u32 list))" by (rule tail_clear(1) [OF c2(2)]) (simp_all add: MINSTACK_def)
  ultimately obtain k3 j where
    k3: "kthread_create no_kv 7 NULL k2 77 MINSTACK 10 PR_SUSPENDED False [] = Inr (k3, int j)" "j = free_slot (t_taken (k_table k2)) 0"
      "sched_inv k3" "stacks_ok k3" "stat k3 j = PR_SUSPENDED" "pe_prio (procs k3 ! j) = 10" "k_curr k3 = k_curr k2"
      "\<forall>i < 1024. i \<noteq> j \<longrightarrow> procs k3 ! i = procs k2 ! i"
    using kthread_create_ok [OF i _ order_refl, of PR_SUSPENDED "[]" no_kv 7 NULL 77 10] by blast
  have j: "j = 3" unfolding k3(2) k2(3) by (simp only: free_slot_prefix)
  have pr: "pe_prio (procs k3 ! 0) = 0" "pe_prio (procs k3 ! 1) = 10" "pe_prio (procs k3 ! 2) = 10" "pe_prio (procs k3 ! 3) = 10"
    using k3(6,8) k2(4-6) by (simp_all add: j)
  have "proc_inv k3" using k3(3,4,8) k2(1) by (simp add: proc_inv_def j)
  then have r: "racing 10 k3 x2"
    using create_suspended_queue [OF k3(1)] k3(5,7) k2(2) q2(2,3) pr by (simp add: racing_def j entry_kv_def)
  then have "pq_count (ready_queue k3) = 2" by (simp add: racing_def)
  with ready_preempted_breaks_list [OF r, of no_kv 5 6] r show ?thesis by metis
qed

end
