(* ===== verification/Prototype.thy ===== *)
theory Prototype
  imports Memory_Tester
begin

text \<open>
  The hosted prototype of the kernel heap, \<^verbatim>\<open>src/src/scratch/alloc.h\<close> with its driver \<^verbatim>\<open>mem.cpp\<close>. It runs as a program of
  a host, so its word size is that of the host: the definitions are polymorphic in it. On a 32-bit host they compute what the
  kernel's allocator computes. \<^verbatim>\<open>malloc\<close> and \<^verbatim>\<open>rand\<close> of the host are parameters; trace output is left out. The
  classes \<^verbatim>\<open>Foo\<close> and \<^verbatim>\<open>Boo\<close> of the file are in \<open>Test_Objects\<close>.
\<close>

section \<open>The allocator\<close>

record 'w pheader =
  ph_size :: 'w
  ph_prev :: 'w
  ph_next :: 'w
  ph_taken :: bool

type_synonym 'w pmem = "'w \<Rightarrow> 'w pheader"

record 'w pblock =
  pb_start :: 'w
  pb_chunckList :: 'w
  pb_blockSize :: 'w
  pb_mem :: "'w pmem"

text \<open>Three words and a padded \<^verbatim>\<open>bool\<close>: 16 bytes on a 32-bit host, 32 on a 64-bit host.\<close>

definition p_sizeof_Header :: "'a::len word" where
  "p_sizeof_Header = word_of_nat (4 * (LENGTH('a) div 8))"

fun p_jump :: "'a::len word pmem \<Rightarrow> 'a word \<Rightarrow> nat \<Rightarrow> 'a word" where
  "p_jump m cur 0 = cur"
| "p_jump m cur (Suc steps) = (if cur = 0 then cur else p_jump m (cur + p_sizeof_Header + ph_size (m cur)) steps)"

definition p_putHeader :: "'a::len word pmem \<Rightarrow> 'a word \<Rightarrow> 'a word pheader \<Rightarrow> 'a word pmem" where
  "p_putHeader m a h = m(a := h)"

definition p_Block :: "'a::len word pmem \<Rightarrow> 'a word pblock" where
  "p_Block m = \<lparr>pb_start = 0, pb_chunckList = 0, pb_blockSize = 0, pb_mem = m\<rparr>"

definition p_Block_ctor :: "'a::len word pmem \<Rightarrow> 'a word \<Rightarrow> 'a word \<Rightarrow> 'a word pblock" where
  "p_Block_ctor m a sz = \<lparr>pb_start = a, pb_chunckList = a, pb_blockSize = sz,
     pb_mem = p_putHeader m a \<lparr>ph_size = sz - p_sizeof_Header, ph_prev = 0, ph_next = 0, ph_taken = False\<rparr>\<rparr>"

definition p_block_init :: "'a::len word pblock \<Rightarrow> 'a word \<Rightarrow> 'a word \<Rightarrow> 'a word pblock" where
  "p_block_init b a sz = b\<lparr>pb_start := a, pb_chunckList := a, pb_blockSize := sz,
     pb_mem := p_putHeader (pb_mem b) a \<lparr>ph_size = sz - p_sizeof_Header, ph_prev = 0, ph_next = 0, ph_taken = False\<rparr>\<rparr>"

text \<open>The walk; \<open>None\<close> is a cycle.\<close>

partial_function (option) p_find_chunk :: "'a::len word pmem \<Rightarrow> 'a word \<Rightarrow> 'a word \<Rightarrow> 'a word \<Rightarrow> ('a word \<times> 'a word) option" where
  "p_find_chunk m numBytes prv chunk =
     (if (chunk \<noteq> 0 \<and> ph_taken (m chunk)) \<or> (chunk \<noteq> 0 \<and> ph_size (m chunk) < numBytes)
      then p_find_chunk m numBytes chunk (ph_next (m chunk))
      else Some (prv, chunk))"

text \<open>\<^verbatim>\<open>int secondSize = ...\<close>: the value passes through a 32-bit \<^verbatim>\<open>int\<close> on its way to a \<^verbatim>\<open>size_t\<close>.\<close>

definition through_int :: "'a::len word \<Rightarrow> 'a word" where
  "through_int x = scast (ucast x :: 32 word)"

definition p_split_chunk :: "'a::len word pmem \<Rightarrow> 'a word \<Rightarrow> 'a word \<Rightarrow> 'a word \<Rightarrow> 'a word pmem" where
  "p_split_chunk m prv first numBytes =
     (let second = first + p_sizeof_Header + numBytes;
          secondSize = through_int (ph_size (m first) - numBytes - p_sizeof_Header);
          m1 = m(second := \<lparr>ph_size = secondSize, ph_prev = first, ph_next = ph_next (m first), ph_taken = False\<rparr>);
          third = ph_next (m1 first);
          m2 = (if third \<noteq> 0 then m1(third := (m1 third)\<lparr>ph_prev := second\<rparr>) else m1)
      in m2(first := \<lparr>ph_size = numBytes, ph_prev = prv, ph_next = second, ph_taken = True\<rparr>))"

definition p_take_chunk :: "'a::len word pmem \<Rightarrow> 'a word \<Rightarrow> 'a word \<Rightarrow> 'a word \<Rightarrow> 'a word pmem" where
  "p_take_chunk m prv first numBytes =
     (let minChunkSize = 8
      in if p_sizeof_Header + minChunkSize < ph_size (m first) - numBytes
         then p_split_chunk m prv first numBytes
         else m(first := \<lparr>ph_size = ph_size (m first), ph_prev = prv, ph_next = p_jump m first 1, ph_taken = True\<rparr>))"

definition p_allocate :: "'a::len word pblock \<Rightarrow> 'a word \<Rightarrow> ('a word pblock \<times> 'a word) result" where
  "p_allocate b numBytes =
     (case p_find_chunk (pb_mem b) numBytes 0 (pb_chunckList b) of
        None \<Rightarrow> Inl Hang
      | Some (prv, chunk) \<Rightarrow>
          if chunk = 0 then Inr (b, 0)
          else Inr (b\<lparr>pb_mem := p_take_chunk (pb_mem b) prv chunk numBytes\<rparr>, chunk + p_sizeof_Header))"

definition p_isFree :: "'a::len word pmem \<Rightarrow> 'a word \<Rightarrow> bool" where
  "p_isFree m h = (h \<noteq> 0 \<and> \<not> ph_taken (m h))"

definition p_merge :: "'a::len word pmem \<Rightarrow> 'a word \<Rightarrow> 'a word \<Rightarrow> 'a word pmem \<times> 'a word" where
  "p_merge m first second =
     (let m1 = m(first := (m first)\<lparr>ph_size := ph_size (m first) + (p_sizeof_Header + ph_size (m second))\<rparr>);
          m2 = m1(first := (m1 first)\<lparr>ph_next := ph_next (m1 second)\<rparr>);
          third = ph_next (m2 second);
          m3 = (if third \<noteq> 0 then m2(third := (m2 third)\<lparr>ph_prev := first\<rparr>) else m2)
      in (m3, first))"

definition p_free :: "'a::len word pblock \<Rightarrow> 'a word \<Rightarrow> 'a word pblock" where
  "p_free b a =
     (let header = a - p_sizeof_Header;
          m = pb_mem b;
          m0 = m(header := (m header)\<lparr>ph_taken := False\<rparr>);
          nextFree = p_isFree m0 (ph_next (m0 header));
          prevFree = p_isFree m0 (ph_prev (m0 header))
      in if nextFree \<or> prevFree then
           (let (m1, h1) = (if nextFree then p_merge m0 header (ph_next (m0 header)) else (m0, header));
                (m2, h2) = (if prevFree then p_merge m1 (ph_prev (m1 h1)) h1 else (m1, h1))
            in b\<lparr>pb_mem := m2\<rparr>)
         else b\<lparr>pb_mem := m0\<rparr>)"

text \<open>
  \<open>addr\<close> is what \<^verbatim>\<open>malloc\<close> of the host returned. The macro \<^verbatim>\<open>PAGE_SIZE\<close> has no parentheses: \<^verbatim>\<open>numOfPages*PAGE_SIZE\<close> is
  \<^verbatim>\<open>(numOfPages*1) << 12\<close>.
\<close>

definition p_heap_init :: "'a::len word pblock \<Rightarrow> 'a word \<Rightarrow> 'a word \<Rightarrow> 'a word pblock result" where
  "p_heap_init b addr numOfPages =
     (if addr = 0 then Inl NullAccess else Inr (p_block_init b addr (push_bit 12 (numOfPages * 1))))"

definition p_heap_allocate :: "'a::len word pblock \<Rightarrow> 'a word \<Rightarrow> ('a word pblock \<times> 'a word) result" where
  "p_heap_allocate heap bytes = p_allocate heap bytes"

definition p_heap_free :: "'a::len word pblock \<Rightarrow> 'a word \<Rightarrow> 'a word pblock" where
  "p_heap_free heap addr = p_free heap addr"

definition p_kmalloc :: "'a::len word pblock \<Rightarrow> 'a word \<Rightarrow> ('a word pblock \<times> 'a word) result" where
  "p_kmalloc heap bytes = p_heap_allocate heap bytes"

definition p_kfree :: "'a::len word pblock \<Rightarrow> 'a word \<Rightarrow> 'a word pblock" where
  "p_kfree heap addr = p_heap_free heap addr"

lemma p_kmalloc_block: "p_kmalloc heap bytes = p_allocate heap bytes"
  by (simp add: p_kmalloc_def p_heap_allocate_def)

lemma p_kfree_block: "p_kfree heap addr = p_free heap addr"
  by (simp add: p_kfree_def p_heap_free_def)

definition p_init :: "'a::len word pblock \<Rightarrow> 'a word \<Rightarrow> 'a word pblock result" where
  "p_init b addr = p_heap_init b addr (push_bit 16 1)"

section \<open>Its test\<close>

text \<open>
  \<open>r p\<close> is what the \<open>p\<close>-th call of \<^verbatim>\<open>rand\<close> returns: an \<^verbatim>\<open>int\<close> from 0 to \<^verbatim>\<open>RAND_MAX\<close>, which is at most \<open>2 ^ 31 - 1\<close>. \<^verbatim>\<open>srand\<close> only
  chooses the sequence.
\<close>

type_synonym host_rand = "nat \<Rightarrow> 31 word"

record 'w ptester =
  pt_heap :: "'w pblock"
  pt_calls :: nat
  pt_allocs :: "'w list"
  pt_allocCount :: int
  pt_iters :: int

definition p_SIZE :: nat where "p_SIZE = 100"

definition p_MemoryTester :: "'a::len word pblock \<Rightarrow> nat \<Rightarrow> 'a word ptester" where
  "p_MemoryTester b calls = \<lparr>pt_heap = b, pt_calls = calls, pt_allocs = replicate p_SIZE 0, pt_allocCount = 0, pt_iters = 0\<rparr>"

fun p_store_first :: "'a::len word \<Rightarrow> 'a word list \<Rightarrow> 'a word list" where
  "p_store_first p [] = []"
| "p_store_first p (x # xs) = (if x = 0 then p # xs else x # p_store_first p xs)"

fun p_test_allocate :: "host_rand \<Rightarrow> nat \<Rightarrow> int \<Rightarrow> int \<Rightarrow> 'a::len word ptester \<Rightarrow> 'a word ptester result" where
  "p_test_allocate r 0 minSize maxSize st = Inr st"
| "p_test_allocate r (Suc cnt) minSize maxSize st =
     (let diff = maxSize - minSize
      in if pt_allocCount st \<ge> int p_SIZE then Inr st
         else if diff = 0 then Inl DivByZero
         else let numBytes = minSize + uint (r (pt_calls st)) smod diff; st1 = st\<lparr>pt_calls := pt_calls st + 1\<rparr>
              in rbind (p_kmalloc (pt_heap st1) (word_of_int numBytes)) (\<lambda>(h, p).
                 if p = 0 then Inl Hang
                 else p_test_allocate r cnt minSize maxSize
                        (st1\<lparr>pt_heap := h, pt_allocCount := pt_allocCount st1 + 1, pt_allocs := p_store_first p (pt_allocs st1)\<rparr>)))"

partial_function (option) p_pick_slot :: "host_rand \<Rightarrow> 'a::len word list \<Rightarrow> nat \<Rightarrow> ((int \<times> nat) result) option" where
  "p_pick_slot r slots calls =
     (let idx = uint (r calls) smod int p_SIZE
      in case rd slots idx of
           Inl e \<Rightarrow> Some (Inl e)
         | Inr p \<Rightarrow> if p \<noteq> 0 then Some (Inr (idx, calls + 1)) else p_pick_slot r slots (calls + 1))"

fun p_ffree :: "host_rand \<Rightarrow> nat \<Rightarrow> 'a::len word ptester \<Rightarrow> 'a word ptester result" where
  "p_ffree r 0 st = Inr st"
| "p_ffree r (Suc cnt) st =
     (if pt_allocCount st = 0 then Inr st
      else rbind (case p_pick_slot r (pt_allocs st) (pt_calls st) of None \<Rightarrow> Inl Hang | Some x \<Rightarrow> x) (\<lambda>(idx, calls).
           rbind (rd (pt_allocs st) idx) (\<lambda>p.
           let h = p_kfree (pt_heap st) p
           in rbind (wr (pt_allocs st) idx 0) (\<lambda>as.
              p_ffree r cnt (st\<lparr>pt_calls := calls, pt_heap := h, pt_allocs := as, pt_allocCount := pt_allocCount st - 1\<rparr>)))))"

definition p_round :: "host_rand \<Rightarrow> 'a::len word ptester \<Rightarrow> 'a word ptester result" where
  "p_round r st =
     (let likelihood = uint (r (pt_calls st)) smod 10 + 1;
          st1 = st\<lparr>pt_calls := pt_calls st + 1, pt_iters := pt_iters st + 1\<rparr>
      in if likelihood > 4 then p_test_allocate r 1 3 34 st1 else p_ffree r 1 st1)"

fun p_rounds :: "host_rand \<Rightarrow> nat \<Rightarrow> 'a::len word ptester \<Rightarrow> 'a word ptester result" where
  "p_rounds r 0 st = Inr st"
| "p_rounds r (Suc n) st = rbind (p_round r st) (p_rounds r n)"

definition p_test :: "host_rand \<Rightarrow> 'a::len word ptester \<Rightarrow> 'a word ptester result" where
  "p_test r st = p_rounds r 1000 st"

text \<open>\<^verbatim>\<open>main\<close> of \<^verbatim>\<open>mem.cpp\<close>, with the heap object as it is before \<^verbatim>\<open>init\<close>.\<close>

definition p_main :: "host_rand \<Rightarrow> 'a::len word pblock \<Rightarrow> 'a word \<Rightarrow> 'a word ptester result" where
  "p_main r heap addr = rbind (p_init heap addr) (\<lambda>heap. p_test r (p_MemoryTester heap 0))"

section \<open>On a 32-bit host\<close>

text \<open>The kernel's view of the prototype's memory.\<close>

definition kheader :: "32 word pheader \<Rightarrow> header" where
  "kheader h = \<lparr>hsize = ph_size h, hprev = ph_prev h, hnext = ph_next h, htaken = ph_taken h\<rparr>"

definition kblock :: "32 word pblock \<Rightarrow> block" where
  "kblock b = \<lparr>b_start = pb_start b, b_chunckList = pb_chunckList b, b_blockSize = pb_blockSize b, b_mem = kheader \<circ> pb_mem b\<rparr>"

named_theorems proto_simps \<open>reading the prototype as the kernel's allocator\<close>

lemma kheader_simps [proto_simps]:
  "hsize (kheader h) = ph_size h" "hprev (kheader h) = ph_prev h" "hnext (kheader h) = ph_next h" "htaken (kheader h) = ph_taken h"
  by (simp_all add: kheader_def)

lemma kheader_upd [proto_simps]:
  "kheader \<circ> (m(a := h)) = (kheader \<circ> m)(a := kheader h)"
  "kheader \<lparr>ph_size = sz, ph_prev = p, ph_next = n, ph_taken = t\<rparr> = \<lparr>hsize = sz, hprev = p, hnext = n, htaken = t\<rparr>"
  "kheader (h\<lparr>ph_size := sz\<rparr>) = (kheader h)\<lparr>hsize := sz\<rparr>" "kheader (h\<lparr>ph_prev := p\<rparr>) = (kheader h)\<lparr>hprev := p\<rparr>"
  "kheader (h\<lparr>ph_next := n\<rparr>) = (kheader h)\<lparr>hnext := n\<rparr>" "kheader (h\<lparr>ph_taken := t\<rparr>) = (kheader h)\<lparr>htaken := t\<rparr>"
  by (auto simp: kheader_def fun_eq_iff)

lemma kblock_simps [proto_simps]:
  "b_mem (kblock b) = kheader \<circ> pb_mem b" "b_chunckList (kblock b) = pb_chunckList b"
  "kblock (b\<lparr>pb_mem := m\<rparr>) = (kblock b)\<lparr>b_mem := kheader \<circ> m\<rparr>"
  by (simp_all add: kblock_def)

lemma p_sizeof_32 [proto_simps]: "(p_sizeof_Header :: 32 word) = sizeof_Header"
  by (simp add: p_sizeof_Header_def sizeof_Header_def)

lemma through_int_32 [proto_simps]: "through_int (x :: 32 word) = x"
  by (simp add: through_int_def)

lemma p_jump_eq: "p_jump m cur n = jump (kheader \<circ> m) cur n"
  by (induction n arbitrary: cur) (simp_all add: proto_simps)

lemma p_split_eq: "kheader \<circ> p_split_chunk m prv first n = split_chunk (kheader \<circ> m) prv first n"
  by (simp add: p_split_chunk_def split_chunk_def Let_def proto_simps)

lemma p_take_eq: "kheader \<circ> p_take_chunk m prv first n = take_chunk (kheader \<circ> m) prv first n"
  by (simp add: p_take_chunk_def take_chunk_def minChunkSize_def proto_simps p_split_eq p_jump_eq Let_def del: p_jump.simps jump.simps)

lemma p_merge_eq: "map_prod ((\<circ>) kheader) id (p_merge m first second) = merge (kheader \<circ> m) first second"
  by (simp add: p_merge_def merge_def Let_def proto_simps)

lemma p_isFree_eq: "p_isFree m h = isFree (kheader \<circ> m) h"
  by (simp add: p_isFree_def isFree_def proto_simps)

lemma p_find_imp: "p_find_chunk m n prv c = Some y \<Longrightarrow> find_chunk (kheader \<circ> m) n prv c = Some y"
proof (rule p_find_chunk.raw_induct [of "\<lambda>m n prv c y. find_chunk (kheader \<circ> m) n prv c = Some y"], goal_cases)
  case (1 f m n prv c y)
  then show ?case by (subst find_chunk.simps) (auto simp: proto_simps split: if_splits)
qed

lemma find_imp_p: "find_chunk (kheader \<circ> m) n prv c = Some y \<Longrightarrow> p_find_chunk m n prv c = Some y"
proof -
  assume "find_chunk (kheader \<circ> m) n prv c = Some y"
  then have "\<forall>m'. kheader \<circ> m = kheader \<circ> m' \<longrightarrow> p_find_chunk m' n prv c = Some y"
  proof (rule find_chunk.raw_induct [of "\<lambda>hm n prv c y. \<forall>m'. hm = kheader \<circ> m' \<longrightarrow> p_find_chunk m' n prv c = Some y", rotated], goal_cases)
    case (1 f hm n prv c y)
    show ?case
    proof (intro allI impI)
      fix m' assume e: "hm = kheader \<circ> m'"
      have "f hm n' prv' c' = Some y' \<Longrightarrow> p_find_chunk m' n' prv' c' = Some y'" for n' prv' c' y' using 1(1) e by blast
      with 1(2) show "p_find_chunk m' n prv c = Some y"
        unfolding e by (subst p_find_chunk.simps) (auto simp: proto_simps split: if_splits)
    qed
  qed
  then show ?thesis by blast
qed

lemma p_find_eq: "p_find_chunk m n prv c = find_chunk (kheader \<circ> m) n prv c"
  using p_find_imp [of m n prv c] find_imp_p [of m n prv c]
  by (cases "p_find_chunk m n prv c"; cases "find_chunk (kheader \<circ> m) n prv c") auto

lemma p_kmalloc_eq: "map_sum id (map_prod kblock id) (p_kmalloc b n) = kmalloc (kblock b) n"
  by (auto simp: p_kmalloc_block kmalloc_eq p_allocate_def block_allocate_def p_find_eq p_take_eq proto_simps split: option.splits)

lemma p_merge_cases:
  obtains m' h' where "p_merge m a b = (m', h')" "merge (kheader \<circ> m) a b = (kheader \<circ> m', h')"
  using p_merge_eq [of m a b] by (cases "p_merge m a b") auto

lemma p_kfree_eq: "kblock (p_kfree b a) = kfree (kblock b) a"
proof -
  define m0 where "m0 = (pb_mem b)(a - sizeof_Header := (pb_mem b (a - sizeof_Header))\<lparr>ph_taken := False\<rparr>)"
  let ?nf = "p_isFree m0 (ph_next (m0 (a - sizeof_Header)))" and ?pf = "p_isFree m0 (ph_prev (m0 (a - sizeof_Header)))"
  obtain m1 h1 where 1: "(if ?nf then p_merge m0 (a - sizeof_Header) (ph_next (m0 (a - sizeof_Header))) else (m0, a - sizeof_Header)) = (m1, h1)"
    "(if ?nf then merge (kheader \<circ> m0) (a - sizeof_Header) (ph_next (m0 (a - sizeof_Header))) else (kheader \<circ> m0, a - sizeof_Header)) = (kheader \<circ> m1, h1)"
    by (rule p_merge_cases [of m0 "a - sizeof_Header" "ph_next (m0 (a - sizeof_Header))"]) (cases ?nf, auto)
  obtain m2 h2 where 2: "(if ?pf then p_merge m1 (ph_prev (m1 h1)) h1 else (m1, h1)) = (m2, h2)"
    "(if ?pf then merge (kheader \<circ> m1) (ph_prev (m1 h1)) h1 else (kheader \<circ> m1, h1)) = (kheader \<circ> m2, h2)"
    by (rule p_merge_cases [of m1 "ph_prev (m1 h1)" h1]) (cases ?pf, auto)
  have m0: "(kheader \<circ> pb_mem b)(a - sizeof_Header := ((kheader \<circ> pb_mem b) (a - sizeof_Header))\<lparr>htaken := False\<rparr>) = kheader \<circ> m0"
    by (simp add: m0_def proto_simps)
  have links: "hnext ((kheader \<circ> m) x) = ph_next (m x)" "hprev ((kheader \<circ> m) x) = ph_prev (m x)" for m x by (simp_all add: proto_simps)
  have "p_kfree b a = (if ?nf \<or> ?pf then b\<lparr>pb_mem := m2\<rparr> else b\<lparr>pb_mem := m0\<rparr>)"
    unfolding p_kfree_block p_free_def p_sizeof_32 Let_def m0_def [symmetric] 1(1) by (simp add: 2(1))
  moreover have "kfree (kblock b) a = (if ?nf \<or> ?pf then (kblock b)\<lparr>b_mem := kheader \<circ> m2\<rparr> else (kblock b)\<lparr>b_mem := kheader \<circ> m0\<rparr>)"
    unfolding kfree_eq block_free_def Let_def kblock_simps(1) m0 links p_isFree_eq [symmetric] 1(2) prod.case 2(2) ..
  ultimately show ?thesis by (simp add: proto_simps)
qed

lemma p_init_eq: "pages \<noteq> 0 \<Longrightarrow> map_sum id kblock (p_init b pages) = Inr (memory_init (kblock b) pages)"
  by (simp add: p_init_def p_heap_init_def p_block_init_def memory_init_def heap_init_def block_init_def NUM_PAGES_HEAP_def PAGE_SIZE_def
      kblock_def putHeader_def p_putHeader_def proto_simps push_bit_eq_mult)

text \<open>The test of the kernel, whose clock shows what \<^verbatim>\<open>rand\<close> returns, and the test of the prototype go through the same states.\<close>

definition host_tsc :: "host_rand \<Rightarrow> tsc" where
  "host_tsc r p = (ucast (r p), 0)"

lemma stamp_host [simp]: "stamp (host_tsc r) p = unat (r p)"
  by (simp add: stamp_def host_tsc_def unsigned_ucast_eq take_bit_nat_eq_self less_trans [OF unsigned_less])

definition tester_sim :: "32 word ptester \<Rightarrow> mem_tester \<Rightarrow> bool" where
  "tester_sim pt st \<longleftrightarrow> mt_heap st = kblock (pt_heap pt) \<and> mt_calls st = pt_calls pt \<and> mt_allocs st = pt_allocs pt \<and> mt_allocCount st = pt_allocCount pt"

lemma p_store_first_eq: "p_store_first p xs = store_first p xs"
  by (induction xs) auto

lemma smod_nat: "0 < n \<Longrightarrow> uint (w :: 31 word) smod int n = int (unat w mod n)"
  by (cases "w = 0") (auto simp: signed_modulo_int_def zmod_int)

lemma p_kmalloc_cases:
  assumes "kmalloc (kblock b) n = Inr (h, p)"
  obtains b' where "p_kmalloc b n = Inr (b', p)" "kblock b' = h"
  using assms p_kmalloc_eq [of b n] by (cases "p_kmalloc b n") auto

lemma sim_allocate:
  assumes "tester_sim pt st" "mt_allocate (host_tsc r) enc 1 3 34 st = Inr st'"
  shows "\<exists>pt'. p_test_allocate r 1 3 34 pt = Inr pt' \<and> tester_sim pt' st'"
proof (cases "mt_allocCount st \<ge> int SIZE")
  case True
  with assms show ?thesis by (auto simp: tester_sim_def p_SIZE_def SIZE_def)
next
  case False
  have "(0::nat) < 31" "(31::nat) \<le> 2 ^ 32" by simp_all
  from rand_at_value [OF this, of "host_tsc r" "mt_calls st"] obtain w where
    w: "rand_at (host_tsc r) (mt_calls st) 31 = Inr w" "unat w = unat (r (mt_calls st)) mod 31" by auto
  have "word_of_int (3 + uint (r (pt_calls pt)) smod 31) = 3 + w"
    using smod_nat [of 31 "r (pt_calls pt)"] word32_eq_of_nat [OF w(2)] assms(1) by (simp add: tester_sim_def)
  moreover from assms(2) w(1) False obtain h p where k: "kmalloc (mt_heap st) (3 + w) = Inr (h, p)" "p \<noteq> NULL"
    and st': "st' = st\<lparr>mt_calls := mt_calls st + 1, mt_heap := h, mt_bytes := header_writes enc (mt_heap st) h (mt_bytes st),
      mt_allocCount := mt_allocCount st + 1, mt_allocs := store_first p (mt_allocs st)\<rparr>"
    by (auto simp: One_nat_def mt_rand_def mt_kmalloc_def Let_def rbind_Inr_iff split: if_splits)
  moreover obtain b' where "p_kmalloc (pt_heap pt) (3 + w) = Inr (b', p)" "kblock b' = h"
    using k(1) assms(1) by (auto simp: tester_sim_def elim: p_kmalloc_cases)
  ultimately show ?thesis using False assms(1)
    by (auto simp: One_nat_def Let_def tester_sim_def p_SIZE_def SIZE_def p_store_first_eq)
qed

lemma rand_at_100: "\<exists>w. rand_at (host_tsc r) p 100 = Inr w \<and> uint w = uint (r p) smod 100"
proof -
  have "(0::nat) < 100" "(100::nat) \<le> 2 ^ 32" by simp_all
  from rand_at_value [OF this, of "host_tsc r" p] obtain w where w: "rand_at (host_tsc r) p 100 = Inr w" "unat w = unat (r p) mod 100" by auto
  have "uint w = int (unat w)" by simp
  also have "\<dots> = int (unat (r p) mod 100)" by (simp only: w(2))
  also have "\<dots> = uint (r p) smod 100" using smod_nat [of 100 "r p"] by simp
  finally show ?thesis using w(1) by blast
qed

lemma p_pick_slot_eq: "pick_slot (host_tsc r) slots calls = Some y \<Longrightarrow> p_pick_slot r slots calls = Some y"
proof -
  assume "pick_slot (host_tsc r) slots calls = Some y"
  then have "\<forall>r'. host_tsc r = host_tsc r' \<longrightarrow> p_pick_slot r' slots calls = Some y"
  proof (rule pick_slot.raw_induct [of "\<lambda>ts slots calls y. \<forall>r. ts = host_tsc r \<longrightarrow> p_pick_slot r slots calls = Some y", rotated], goal_cases)
    case (1 f ts slots calls y)
    show ?case
    proof (intro allI impI)
      fix r' assume e: "ts = host_tsc r'"
      have "f ts slots' calls' = Some y' \<Longrightarrow> p_pick_slot r' slots' calls' = Some y'" for slots' calls' y' using 1(1) e by blast
      with 1(2) rand_at_100 [of r' calls] show "p_pick_slot r' slots calls = Some y"
        unfolding e by (subst p_pick_slot.simps) (auto simp: p_SIZE_def Let_def split: sum.splits if_splits)
    qed
  qed
  then show ?thesis by blast
qed

lemma sim_free:
  assumes sim: "tester_sim pt st" and f: "mt_free (host_tsc r) enc 1 st = Inr st'"
  shows "\<exists>pt'. p_ffree r 1 pt = Inr pt' \<and> tester_sim pt' st'"
proof (cases "mt_allocCount st = 0")
  case True
  with assms show ?thesis by (auto simp: tester_sim_def One_nat_def)
next
  case False
  with f obtain idx calls p as where i: "pick_slot (host_tsc r) (mt_allocs st) (mt_calls st) = Some (Inr (idx, calls))"
    "rd (mt_allocs st) idx = Inr p" "wr (mt_allocs st) idx NULL = Inr as"
    "st' = (mt_kfree enc p (st\<lparr>mt_calls := calls\<rparr>))\<lparr>mt_allocs := as, mt_allocCount := mt_allocCount st - 1\<rparr>"
    by (auto simp: One_nat_def mt_kfree_def Let_def rbind_Inr_iff split: option.splits)
  with p_pick_slot_eq [OF i(1)] False sim show ?thesis
    by (auto simp: One_nat_def tester_sim_def mt_kfree_def p_kfree_eq Let_def)
qed

lemma p_round_ok:
  assumes sim: "tester_sim pt st" and inv: "mt_inv L bm0 st" and room: "58 < slack (mt_heap st)" and f: "fair (host_tsc r) 100"
  shows "\<exists>pt' st'. p_round r pt = Inr pt' \<and> tester_sim pt' st' \<and> mt_inv L bm0 st' \<and> slack (mt_heap st) \<le> slack (mt_heap st') + 49"
proof -
  let ?pt = "pt\<lparr>pt_calls := pt_calls pt + 1, pt_iters := pt_iters pt + 1\<rparr>" and ?st = "st\<lparr>mt_calls := mt_calls st + 1\<rparr>"
  have sim': "tester_sim ?pt ?st" using sim by (simp add: tester_sim_def)
  have inv': "mt_inv L bm0 ?st" by (rule mt_inv_frame [OF inv]) simp_all
  show ?thesis
  proof (cases "uint (r (pt_calls pt)) smod 10 + 1 > 4")
    case True
    from mt_allocate_ok [OF inv', of 1 "host_tsc r" undefined] room obtain st' where
      "mt_allocate (host_tsc r) undefined 1 3 34 ?st = Inr st'" "mt_inv L bm0 st'" "slack (mt_heap st) \<le> slack (mt_heap st') + 49"
      by (auto simp del: mt_allocate.simps)
    moreover from sim_allocate [OF sim' this(1)] obtain pt' where "p_test_allocate r 1 3 34 ?pt = Inr pt'" "tester_sim pt' st'" by blast
    ultimately show ?thesis using True by (intro exI [of _ pt'] exI [of _ st']) (simp add: p_round_def del: p_test_allocate.simps)
  next
    case False
    from mt_free_one [OF inv', of "host_tsc r" undefined] f obtain st' where
      "mt_free (host_tsc r) undefined 1 ?st = Inr st'" "mt_inv L bm0 st'" "slack (mt_heap st) \<le> slack (mt_heap st')" by (auto simp del: mt_free.simps)
    moreover from sim_free [OF sim' this(1)] obtain pt' where "p_ffree r 1 ?pt = Inr pt'" "tester_sim pt' st'" by blast
    ultimately show ?thesis using False by (intro exI [of _ pt'] exI [of _ st']) (simp add: p_round_def del: p_ffree.simps)
  qed
qed

lemma p_rounds_ok:
  assumes "fair (host_tsc r) 100"
  shows "tester_sim pt st \<Longrightarrow> mt_inv L bm0 st \<Longrightarrow> 49 * n + 9 < slack (mt_heap st) \<Longrightarrow>
    \<exists>pt' st'. p_rounds r n pt = Inr pt' \<and> tester_sim pt' st' \<and> mt_inv L bm0 st'"
proof (induction n arbitrary: pt st)
  case (Suc n)
  then have "58 < slack (mt_heap st)" by simp
  from p_round_ok [OF Suc.prems(1,2) this assms] obtain pt1 st1 where
    1: "p_round r pt = Inr pt1" "tester_sim pt1 st1" "mt_inv L bm0 st1" "slack (mt_heap st) \<le> slack (mt_heap st1) + 49" by blast
  with Suc.IH [OF 1(2,3)] Suc.prems(3) show ?case by auto
qed auto

section \<open>Properties\<close>

text \<open>
  C17. On a 32-bit host the prototype is the kernel's heap: its initialisation, allocation and release compute exactly what
  the kernel's compute on the same memory, except that it writes through the null pointer when \<^verbatim>\<open>malloc\<close> fails.
\<close>

theorem prototype_is_kernel_heap:
  "map_sum id (map_prod kblock id) (p_kmalloc b n) = kmalloc (kblock b) n \<and> kblock (p_kfree b a) = kfree (kblock b) a \<and>
   map_sum id kblock (p_init b addr) = (if addr = NULL then Inl NullAccess else Inr (memory_init (kblock b) addr))"
  using p_kmalloc_eq p_kfree_eq p_init_eq [of addr b] by (auto simp: p_init_def p_heap_init_def)

text \<open>
  The test program of the prototype passes on a 32-bit host: wherever \<^verbatim>\<open>malloc\<close> places the 256 MB, for every sequence of random
  numbers that hits each of the hundred slots again and again, its thousand rounds end, no allocation fails and no access
  goes wrong; at the end exactly the pointers it holds are allocated blocks.
\<close>

theorem prototype_test_passes:
  assumes "0 < unat addr" "unat addr + 2 ^ 28 < 2 ^ 32" "fair (host_tsc r) 100"
  shows "\<exists>st. p_main r b addr = Inr st \<and> heap_inv (kblock (pt_heap st)) \<and>
    (\<forall>p \<in> set (pt_allocs st). p \<noteq> NULL \<longrightarrow> live (kblock (pt_heap st)) p \<noteq> None)"
proof -
  let ?h = "memory_init (kblock b) addr"
  have rel: "heap_rel ?h [(2 ^ 28 - 16, False)]"
    using block_init_rel [of addr "2 ^ 28" "kblock b"] assms by (simp add: memory_init_def heap_init_def heap_size)
  then have h: "heap_inv ?h" "slack ?h = 2 ^ 28 - 16" using slack_rel [OF rel] by (auto simp: heap_inv_iff slack_of_def)
  have "addr \<noteq> NULL" using assms(1) by auto
  from p_init_eq [OF this, of b] obtain b' where b': "p_init b addr = Inr b'" "kblock b' = ?h" by (cases "p_init b addr") auto
  let ?st = "MemoryTester_new ?h (\<lambda>_. 0) 0"
  have "tester_sim (p_MemoryTester b' 0) ?st" using b'(2) by (simp add: tester_sim_def p_MemoryTester_def MemoryTester_new_def p_SIZE_def SIZE_def)
  from p_rounds_ok [OF assms(3) this mt_inv_new [OF h(1)], of 1000] h(2) obtain pt' st' where
    e: "p_rounds r 1000 (p_MemoryTester b' 0) = Inr pt'" "tester_sim pt' st'" "mt_inv (live ?h) (\<lambda>_. 0) st'"
    by (auto simp: MemoryTester_new_def simp del: p_rounds.simps)
  have "heap_inv (mt_heap st')" "\<forall>p \<in> set (mt_allocs st'). p \<noteq> NULL \<longrightarrow> live (mt_heap st') p \<noteq> None"
    using e(3) unfolding mt_inv_def mt_blocks_def by auto
  with e(1,2) b'(1) show ?thesis by (auto simp: p_main_def p_test_def tester_sim_def)
qed

text \<open>A host whose random numbers count upwards.\<close>

definition counting :: host_rand where
  "counting p = word_of_nat p"

lemma counting_fair: "fair (host_tsc counting) 100"
  unfolding fair_def
proof (intro allI impI)
  fix p i :: nat assume i: "i < 100"
  define q where "q = 2 ^ 31 * (100 * p) + i"
  have "i < 2 ^ 31" using i by simp
  then have "q mod 2 ^ 31 = i" unfolding q_def by (simp only: mod_mult_self4 mod_less)
  then have "unat (counting q) = i" by (simp add: counting_def unat_of_nat)
  moreover have "p \<le> q" by (simp add: q_def)
  ultimately show "\<exists>q \<ge> p. stamp (host_tsc counting) q mod 100 = i" using i by (intro exI [of _ q]) simp
qed

theorem prototype_test_passes_witness:
  "\<exists>st. p_main counting (p_Block (\<lambda>_. undefined)) 0x8000000 = Inr st \<and> heap_inv (kblock (pt_heap st))"
  using prototype_test_passes [of "0x8000000" counting "p_Block (\<lambda>_. undefined)"] counting_fair by auto

text \<open>
  On a 64-bit host the detour of the remaining size through an \<^verbatim>\<open>int\<close> is harmless below 2 GB and damages it above: splitting a chunk of
  3 GB leaves a second chunk of almost \<open>2 ^ 64\<close> bytes.
\<close>

lemma through_int_small:
  assumes "unat (x :: 'a::len word) < 2 ^ 31"
  shows "through_int x = x"
proof -
  have u: "unat (ucast x :: u32) = unat x" using assms by (simp add: unsigned_ucast_eq take_bit_nat_eq_self)
  with assms have "sint (ucast x :: u32) = int (unat x)" by (simp add: sint_u32_small)
  then show ?thesis by (simp add: through_int_def scast_eq)
qed

lemma prototype_truncates: "through_int (0xC0000000 :: 64 word) = 0xFFFFFFFFC0000000"
  by (simp add: through_int_def)

end
