(* ===== verification/Boot_Entry.thy ===== *)
theory Boot_Entry
  imports Context_Switch
begin

unbundle bit_operations_syntax

text \<open>
  The entry of the kernel: \<^verbatim>\<open>_start\<close> and \<^verbatim>\<open>tlb_flush\<close> of \<^verbatim>\<open>src/src/kernel/arch/i386/boot.s\<close>, one model instruction per machine
  instruction. It runs on physical addresses, fills the first eight page tables and the page directory, turns paging on and jumps
  to the upper gigabyte; from then on every instruction is fetched and every word stored through the page tables. The file ends
  behind the last instruction of \<^verbatim>\<open>tlb_flush\<close>, which has no \<^verbatim>\<open>ret\<close>: the model ends there too, with the instruction pointer
  behind that instruction, where the linker puts the next object (\<^verbatim>\<open>tty.o\<close> in \<^verbatim>\<open>make.config\<close>). The two instructions that would
  follow the call, \<open>enter_kernel\<close>, are modelled on their own. The addresses of the page directory (\<open>dir\<close>), of the
  page tables (\<open>bpt\<close>), of the label 4 (\<open>L4\<close>) and of the stack are the linker's choice.
\<close>

section \<open>The multiboot header\<close>

definition MB_ALIGN :: u32 where "MB_ALIGN = push_bit 0 1"
definition MB_MEMINFO :: u32 where "MB_MEMINFO = push_bit 1 1"
definition MB_FLAGS :: u32 where "MB_FLAGS = MB_ALIGN OR MB_MEMINFO"
definition MB_MAGIC :: u32 where "MB_MAGIC = 0x1BADB002"
definition MB_CHECKSUM :: u32 where "MB_CHECKSUM = - (MB_MAGIC + MB_FLAGS)"

definition multiboot_header :: "u32 list" where
  "multiboot_header = [MB_MAGIC, MB_FLAGS, MB_CHECKSUM]"

section \<open>The instructions\<close>

record bcpu = cpu +
  cr0 :: u32
  cr3 :: u32

lemma sint_next_page:
  assumes "sint (w :: u32) < 0x02000000"
  shows "sint (w + 4096) = sint w + 4096"
proof -
  have "- (2 ^ 31) \<le> sint w" using sint_ge [of w] by simp
  with assms have "signed_take_bit 31 (sint w + 4096) = sint w + 4096" by (intro signed_take_bit_int_eq_self) simp_all
  then show ?thesis by (simp add: sint_word_ariths)
qed

text \<open>
  The loop between the labels 1 and 3. \<^verbatim>\<open>loop\<close> counts \<^verbatim>\<open>ecx\<close> down and jumps back while it is not 0; \<^verbatim>\<open>jge\<close> compares signed numbers.
\<close>

function map_pages :: "bcpu \<Rightarrow> bcpu" where
  "map_pages s =
     (if sint (esi s) \<ge> 0x02000000 then s
      else let s1 = s\<lparr>edx := esi s\<rparr>;
               s2 = s1\<lparr>edx := edx s1 OR 0x003\<rparr>;
               s3 = s2\<lparr>mem := (mem s2)(edi s2 := edx s2)\<rparr>;
               s4 = s3\<lparr>esi := esi s3 + 4096\<rparr>;
               s5 = s4\<lparr>edi := edi s4 + 4\<rparr>;
               s6 = s5\<lparr>ecx := ecx s5 - 1\<rparr>
           in if ecx s6 \<noteq> 0 then map_pages s6 else s6)"
  by pat_completeness auto

termination
proof (relation "measure (\<lambda>s. nat (0x02000000 - sint (esi s)))", goal_cases)
  case (2 s s1 s2 s3 s4 s5 s6)
  then have "sint (esi s6) = sint (esi s) + 4096" using sint_next_page [of "esi s"] by simp
  with 2(1) show ?case by simp
qed simp

declare map_pages.simps [simp del]

text \<open>The page directory: entries 0 to 7 and 768 to 775 lead to the eight page tables.\<close>

definition store_pde :: "addr \<Rightarrow> addr \<Rightarrow> nat \<Rightarrow> nat \<Rightarrow> bcpu \<Rightarrow> bcpu" where
  "store_pde dir bpt e t s = s\<lparr>mem := (mem s)(dir - 0xC0000000 + 4 * word_of_nat e := bpt + 0x001000 * word_of_nat t - 0xC0000000 + 0x003)\<rparr>"

definition fill_directory :: "addr \<Rightarrow> addr \<Rightarrow> bcpu \<Rightarrow> bcpu" where
  "fill_directory dir bpt s = fold (\<lambda>t. store_pde dir bpt (768 + t) t) [0..<8] (fold (\<lambda>t. store_pde dir bpt t t) [0..<8] s)"

definition enable_paging :: "addr \<Rightarrow> bcpu \<Rightarrow> bcpu" where
  "enable_paging dir s =
     (let s1 = s\<lparr>ecx := dir - 0xC0000000\<rparr>;
          s2 = s1\<lparr>cr3 := ecx s1\<rparr>;
          s3 = s2\<lparr>ecx := cr0 s2\<rparr>;
          s4 = s3\<lparr>ecx := ecx s3 OR 0x80010000\<rparr>
      in s4\<lparr>cr0 := ecx s4\<rparr>)"

text \<open>How the processor translates an address: two levels, bit 0 of an entry says that it is present.\<close>

definition frame_addr :: "u32 \<Rightarrow> u32" where
  "frame_addr e = push_bit 12 (drop_bit 12 e)"

definition translate :: "bcpu \<Rightarrow> addr \<Rightarrow> addr option" where
  "translate s va =
     (let pde = mem s (frame_addr (cr3 s) + 4 * drop_bit 22 va)
      in if \<not> bit pde 0 then None
         else let pte = mem s (frame_addr pde + 4 * take_bit 10 (drop_bit 12 va))
              in if \<not> bit pte 0 then None else Some (frame_addr pte + take_bit 12 va))"

text \<open>
  An instruction of \<open>n\<close> bytes behind the point where paging is on. Its bytes are at the address the linker script gives the text in
  physical memory; an instruction fetch that does not lead there is a fault.
\<close>

definition load_addr :: "addr \<Rightarrow> addr" where
  "load_addr va = (if va < 0xC0000000 then va else va - 0xC0000000)"

definition fetch :: "bcpu \<Rightarrow> addr \<Rightarrow> nat \<Rightarrow> bool" where
  "fetch s va n \<longleftrightarrow> list_all (\<lambda>i. translate s (va + word_of_nat i) = Some (load_addr va + word_of_nat i)) [0..<n]"

definition instr :: "nat \<Rightarrow> (bcpu \<Rightarrow> bcpu result) \<Rightarrow> bcpu \<Rightarrow> bcpu result" where
  "instr n f s = (if fetch s (eip s) n then f (s\<lparr>eip := eip s + word_of_nat n\<rparr>) else Inl OutOfBounds)"

definition call_near :: "addr \<Rightarrow> bcpu \<Rightarrow> bcpu result" where
  "call_near target s = instr 5 (\<lambda>s. case translate s (esp s - 4) of
     None \<Rightarrow> Inl OutOfBounds
   | Some p \<Rightarrow> Inr (s\<lparr>esp := esp s - 4, mem := (mem s)(p := eip s), eip := target\<rparr>)) s"

text \<open>The absolute jump to the upper gigabyte: \<^verbatim>\<open>lea 4f, %ecx\<close> has six bytes and \<^verbatim>\<open>jmp *%ecx\<close> two.\<close>

definition jump_high :: "addr \<Rightarrow> bcpu \<Rightarrow> bcpu result" where
  "jump_high L4 s = rbind (instr 6 (\<lambda>s. Inr (s\<lparr>ecx := L4\<rparr>)) s) (\<lambda>s. instr 2 (\<lambda>s. Inr (s\<lparr>eip := ecx s\<rparr>)) s)"

text \<open>Both instructions have three bytes; there is no third one.\<close>

definition tlb_flush :: "bcpu \<Rightarrow> bcpu result" where
  "tlb_flush s = rbind (instr 3 (\<lambda>s. Inr (s\<lparr>ecx := cr3 s\<rparr>)) s) (\<lambda>s. instr 3 (\<lambda>s. Inr (s\<lparr>cr3 := ecx s\<rparr>)) s)"

text \<open>
  From the first instruction to the end of \<^verbatim>\<open>tlb_flush\<close>. Between label 4 and \<^verbatim>\<open>tlb_flush\<close> are 19 bytes: \<^verbatim>\<open>call\<close>, \<^verbatim>\<open>mov\<close> and
  \<^verbatim>\<open>call\<close> of five bytes, \<^verbatim>\<open>cli\<close>, \<^verbatim>\<open>hlt\<close> and a short \<^verbatim>\<open>jmp\<close>.
\<close>

definition boot_start :: "addr \<Rightarrow> addr \<Rightarrow> addr \<Rightarrow> bcpu \<Rightarrow> bcpu result" where
  "boot_start dir bpt L4 s =
     (let s1 = s\<lparr>edi := bpt - 0xC0000000\<rparr>;
          s2 = s1\<lparr>esi := 0\<rparr>;
          s3 = map_pages s2;
          s4 = fill_directory dir bpt s3;
          s5 = enable_paging dir s4
      in rbind (jump_high L4 (s5\<lparr>eip := L4 - 0xC0000000 - 8\<rparr>)) (\<lambda>s6. rbind (call_near (L4 + 19) s6) tlb_flush))"

definition enter_kernel :: "addr \<Rightarrow> addr \<Rightarrow> bcpu \<Rightarrow> bcpu result" where
  "enter_kernel stack_top kmain s = rbind (instr 5 (\<lambda>s. Inr (s\<lparr>esp := stack_top\<rparr>)) s) (call_near kmain)"

text \<open>The boot loader accepts the header: its words add up to 0.\<close>

lemma multiboot_checksum: "sum_list multiboot_header = 0"
  by (simp add: multiboot_header_def MB_CHECKSUM_def)

section \<open>The page tables\<close>

text \<open>How many pages the loop maps: all 8192, unless \<^verbatim>\<open>ecx\<close> runs out.\<close>

definition mapped :: "u32 \<Rightarrow> nat" where
  "mapped c = (if c = 0 then 8192 else min 8192 (unat c))"

definition iters :: "nat \<Rightarrow> u32 \<Rightarrow> nat" where
  "iters i c = (if c = 0 then 8192 - i else min (8192 - i) (unat c))"

lemma map_pages_regs: "esp (map_pages s) = esp s \<and> cr0 (map_pages s) = cr0 s \<and> cr3 (map_pages s) = cr3 s"
proof (induction s rule: map_pages.induct)
  case (1 s)
  then show ?case by (subst (1 2 3) map_pages.simps) (simp add: Let_def)
qed

lemma sint_small:
  assumes "n < 2 ^ 31"
  shows "sint (word_of_nat n :: u32) = int n"
proof -
  have "signed_take_bit 31 (int n) = int n" using assms by (intro signed_take_bit_int_eq_self) simp_all
  then show ?thesis by (simp add: signed_of_nat)
qed

lemma map_pages_mem:
  assumes "i \<le> 8192" "esi s = word_of_nat (4096 * i)" "edi s = base + 4 * word_of_nat i"
  shows "(\<forall>j < 8192. mem (map_pages s) (base + 4 * word_of_nat j) =
      (if i \<le> j \<and> j < i + iters i (ecx s) then word_of_nat (4096 * j) OR 3 else mem s (base + 4 * word_of_nat j))) \<and>
    (\<forall>x. (\<forall>j < 8192. x \<noteq> base + 4 * word_of_nat j) \<longrightarrow> mem (map_pages s) x = mem s x)"
  using assms
proof (induction "8192 - i" arbitrary: i s)
  case 0
  then have "i = 8192" "sint (esi s) = 33554432" using sint_small [of "4096 * 8192"] by simp_all
  then have "map_pages s = s" by (simp add: map_pages.simps)
  with \<open>i = 8192\<close> show ?case by (simp add: iters_def)
next
  case (Suc n)
  then have i: "i < 8192" by simp
  then have e: "sint (esi s) = int (4096 * i)" using Suc.prems(2) sint_small [of "4096 * i"] by simp
  let ?s = "s\<lparr>edx := esi s OR 3, mem := (mem s)(edi s := esi s OR 3), esi := esi s + 4096, edi := edi s + 4, ecx := ecx s - 1\<rparr>"
  have step: "map_pages s = (if ecx s - 1 \<noteq> 0 then map_pages ?s else ?s)"
    using e i by (subst map_pages.simps) (simp add: Let_def)
  have other: "base + 4 * word_of_nat j \<noteq> base + 4 * word_of_nat i" if "j \<noteq> i" "j < 8192" for j
    using that i word4_inject [of j i] by simp
  have n: "n = 8192 - Suc i" "Suc i \<le> 8192" using Suc.hyps(2) i by simp_all
  have s: "esi ?s = word_of_nat (4096 * Suc i)" "edi ?s = base + 4 * word_of_nat (Suc i)" using Suc.prems(2,3) by (simp_all add: algebra_simps)
  show ?case
  proof (cases "ecx s = 1")
    case True
    then show ?thesis using i other Suc.prems(2,3) by (auto simp: step iters_def le_less_Suc_eq)
  next
    case False
    have it: "iters i (ecx s) = Suc (iters (Suc i) (ecx s - 1))"
    proof (cases "ecx s = 0")
      case True
      then have "unat (ecx s - 1) = 2 ^ 32 - 1" by (simp add: unsigned_minus_1_eq_mask mask_eq_exp_minus_1)
      then have "ecx s - 1 \<noteq> 0" "iters (Suc i) (ecx s - 1) = 8192 - Suc i" by (auto simp: iters_def True)
      with True i show ?thesis by (simp add: iters_def)
    next
      case z: False
      have "unat (ecx s) \<noteq> 0" "unat (ecx s) \<noteq> 1" using z False word_unat_eq_iff [of "ecx s" 0] word_unat_eq_iff [of "ecx s" 1] by simp_all
      then have "unat (ecx s - 1) = unat (ecx s) - 1" "1 < unat (ecx s)" using unat_minus_one [OF z] by simp_all
      moreover have "ecx s - 1 \<noteq> 0" using False by simp
      ultimately show ?thesis using z i by (simp add: iters_def)
    qed
    have "ecx s - 1 \<noteq> 0" using False by simp
    then show ?thesis using Suc.hyps(1) [OF n(1) n(2) s] other i Suc.prems(2,3) unfolding step it by (auto simp: le_less_Suc_eq not_le Suc_le_eq)
  qed
qed

section \<open>The translation\<close>

lemma drop_bit_word32:
  assumes "n < 2 ^ 32"
  shows "drop_bit k (word_of_nat n :: u32) = word_of_nat (n div 2 ^ k)"
proof -
  have "unat (drop_bit k (word_of_nat n :: u32)) = drop_bit k n"
    using assms by (simp add: unsigned_drop_bit_eq unsigned_of_nat take_bit_nat_eq_self)
  then have "unat (drop_bit k (word_of_nat n :: u32)) = n div 2 ^ k" by (simp only: drop_bit_eq_div)
  moreover have "unat (word_of_nat (n div 2 ^ k) :: u32) = n div 2 ^ k"
    using le_less_trans [OF div_le_dividend assms] by (rule unat_word32_of_nat)
  ultimately show ?thesis by (simp only: word_unat_eq_iff)
qed

lemma take_bit_word32:
  assumes "n < 2 ^ 32"
  shows "take_bit k (word_of_nat n :: u32) = word_of_nat (n mod 2 ^ k)"
proof -
  have "unat (take_bit k (word_of_nat n :: u32)) = take_bit k n"
    using assms by (simp add: unsigned_take_bit_eq unsigned_of_nat take_bit_nat_eq_self)
  then have "unat (take_bit k (word_of_nat n :: u32)) = n mod 2 ^ k" by (simp only: take_bit_eq_mod)
  moreover have "unat (word_of_nat (n mod 2 ^ k) :: u32) = n mod 2 ^ k"
    using le_less_trans [OF mod_less_eq_dividend assms] by (rule unat_word32_of_nat)
  ultimately show ?thesis by (simp only: word_unat_eq_iff)
qed

lemma frame_addr_word32: "n < 2 ^ 32 \<Longrightarrow> frame_addr (word_of_nat n) = word_of_nat (4096 * (n div 4096))"
  using drop_bit_word32 [of n 12] by (simp add: frame_addr_def push_bit_eq_mult)

lemma frame_entry:
  assumes "x < 2 ^ 20"
  shows "frame_addr (word_of_nat (4096 * x + 3)) = word_of_nat (4096 * x)"
proof -
  have "4096 * x + 3 < 2 ^ 32" "(4096 * x + 3) div 4096 = x" using assms by simp_all
  with frame_addr_word32 [of "4096 * x + 3"] show ?thesis by (simp only:)
qed

lemma present_word32: "bit (word_of_nat n :: u32) 0 = odd n"
  by (simp add: bit_simps bit_0)

lemma entry_or: "(word_of_nat (4096 * j) :: u32) OR 3 = word_of_nat (4096 * j + 3)"
proof -
  have m: "(3 :: u32) = mask 2" by (simp add: mask_eq_exp_minus_1)
  have p: "(word_of_nat (4096 * j) :: u32) = push_bit 12 (word_of_nat j)" by (simp add: push_bit_eq_mult)
  have "(word_of_nat (4096 * j) :: u32) + 3 = word_of_nat (4096 * j) OR 3"
    unfolding m p by (rule disjunctive_add) (auto simp: bit_simps)
  then show ?thesis by simp
qed

text \<open>The layout the linker gives: aligned tables and directory in the first 32 MB, apart from each other.\<close>

definition boot_layout :: "addr \<Rightarrow> addr \<Rightarrow> nat \<Rightarrow> nat \<Rightarrow> bool" where
  "boot_layout dir bpt d b \<longleftrightarrow> dir = 0xC0000000 + word_of_nat (4096 * d) \<and> bpt = 0xC0000000 + word_of_nat (4096 * b) \<and>
     d < 8192 \<and> b + 8 \<le> 8192 \<and> d \<notin> {b..<b + 8}"

lemma fill_steps:
  assumes "boot_layout dir bpt d b" "n \<le> 8" "h + 8 \<le> 1024"
  shows "\<exists>M. fold (\<lambda>t. store_pde dir bpt (h + t) t) [0..<n] s = s\<lparr>mem := M\<rparr> \<and>
    (\<forall>e < 1024. M (word_of_nat (4096 * d + 4 * e)) =
      (if h \<le> e \<and> e < h + n then word_of_nat (4096 * (b + (e - h)) + 3) else mem s (word_of_nat (4096 * d + 4 * e)))) \<and>
    (\<forall>x. (\<forall>e < 1024. x \<noteq> word_of_nat (4096 * d + 4 * e)) \<longrightarrow> M x = mem s x)"
  using assms(2)
proof (induction n)
  case 0
  show ?case by (intro exI [of _ "mem s"]) auto
next
  case (Suc n)
  then obtain M where M: "fold (\<lambda>t. store_pde dir bpt (h + t) t) [0..<n] s = s\<lparr>mem := M\<rparr>"
    "\<forall>e < 1024. M (word_of_nat (4096 * d + 4 * e)) =
      (if h \<le> e \<and> e < h + n then word_of_nat (4096 * (b + (e - h)) + 3) else mem s (word_of_nat (4096 * d + 4 * e)))"
    "\<forall>x. (\<forall>e < 1024. x \<noteq> word_of_nat (4096 * d + 4 * e)) \<longrightarrow> M x = mem s x" by auto
  let ?a = "\<lambda>e. word_of_nat (4096 * d + 4 * e) :: u32"
  let ?M = "M(?a (h + n) := word_of_nat (4096 * (b + n) + 3))"
  have d: "d < 8192" using assms(1) by (simp add: boot_layout_def)
  have a: "dir - 0xC0000000 + 4 * word_of_nat e = ?a e" for e using assms(1) by (simp add: boot_layout_def)
  have v: "bpt + 0x001000 * word_of_nat t - 0xC0000000 + 0x003 = word_of_nat (4096 * (b + t) + 3)" for t
    using assms(1) by (simp add: boot_layout_def algebra_simps)
  have inj: "?a e = ?a e' \<longleftrightarrow> e = e'" if "e < 1024" "e' < 1024" for e e'
    using that d word32_of_nat_eq_iff [of "4096 * d + 4 * e" "4096 * d + 4 * e'"] by simp
  have hn: "h + n < 1024" using Suc.prems assms(3) by simp
  have "fold (\<lambda>t. store_pde dir bpt (h + t) t) [0..<Suc n] s = s\<lparr>mem := ?M\<rparr>"
    by (simp only: upt_Suc_append [OF le0] fold_append comp_apply M(1) fold_simps store_pde_def a v) simp
  moreover have "?M (?a e) = (if h \<le> e \<and> e < h + Suc n then word_of_nat (4096 * (b + (e - h)) + 3) else mem s (?a e))" if "e < 1024" for e
    using M(2) that inj [OF that hn] by (cases "e = h + n") auto
  moreover have "?M x = mem s x" if "\<forall>e < 1024. x \<noteq> ?a e" for x using M(3) that hn by auto
  ultimately show ?case by blast
qed

lemma fill_directory_mem:
  assumes "boot_layout dir bpt d b"
  shows "\<exists>M. fill_directory dir bpt s = s\<lparr>mem := M\<rparr> \<and>
    (\<forall>t < 8. M (word_of_nat (4096 * d + 4 * t)) = word_of_nat (4096 * (b + t) + 3) \<and>
       M (word_of_nat (4096 * d + 4 * (768 + t))) = word_of_nat (4096 * (b + t) + 3)) \<and>
    (\<forall>x. (\<forall>e < 1024. x \<noteq> word_of_nat (4096 * d + 4 * e)) \<longrightarrow> M x = mem s x)"
proof -
  from fill_steps [OF assms, of 8 0 s] obtain M where M: "fold (\<lambda>t. store_pde dir bpt (0 + t) t) [0..<8] s = s\<lparr>mem := M\<rparr>"
    "\<forall>e < 1024. M (word_of_nat (4096 * d + 4 * e)) =
      (if 0 \<le> e \<and> e < 0 + 8 then word_of_nat (4096 * (b + (e - 0)) + 3) else mem s (word_of_nat (4096 * d + 4 * e)))"
    "\<forall>x. (\<forall>e < 1024. x \<noteq> word_of_nat (4096 * d + 4 * e)) \<longrightarrow> M x = mem s x" by auto
  from fill_steps [OF assms, of 8 768 "s\<lparr>mem := M\<rparr>"] obtain M' where M': "fold (\<lambda>t. store_pde dir bpt (768 + t) t) [0..<8] (s\<lparr>mem := M\<rparr>) = s\<lparr>mem := M'\<rparr>"
    "\<forall>e < 1024. M' (word_of_nat (4096 * d + 4 * e)) =
      (if 768 \<le> e \<and> e < 768 + 8 then word_of_nat (4096 * (b + (e - 768)) + 3) else M (word_of_nat (4096 * d + 4 * e)))"
    "\<forall>x. (\<forall>e < 1024. x \<noteq> word_of_nat (4096 * d + 4 * e)) \<longrightarrow> M' x = M x" by auto
  have "fill_directory dir bpt s = s\<lparr>mem := M'\<rparr>" using M(1) M'(1) by (simp add: fill_directory_def del: upt_rec_numeral)
  moreover have "M' (word_of_nat (4096 * d + 4 * t)) = word_of_nat (4096 * (b + t) + 3) \<and>
       M' (word_of_nat (4096 * d + 4 * (768 + t))) = word_of_nat (4096 * (b + t) + 3)" if "t < 8" for t
    using M'(2) [rule_format, of t] M'(2) [rule_format, of "768 + t"] M(2) [rule_format, of t] that by simp
  ultimately show ?thesis using M(3) M'(3) by (intro exI [of _ M']) simp
qed

text \<open>What the tables have to hold for the first \<open>N\<close> pages to be mapped.\<close>

definition boot_tables :: "nat \<Rightarrow> nat \<Rightarrow> nat \<Rightarrow> bcpu \<Rightarrow> bool" where
  "boot_tables d b N s \<longleftrightarrow> cr3 s = word_of_nat (4096 * d) \<and>
     (\<forall>t < 8. \<forall>h \<in> {0, 768}. mem s (word_of_nat (4096 * d + 4 * (h + t))) = word_of_nat (4096 * (b + t) + 3)) \<and>
     (\<forall>j < 8192. mem s (word_of_nat (4096 * b + 4 * j)) = (if j < N then word_of_nat (4096 * j + 3) else 0))"

lemma twelve: "(2 :: nat) ^ 12 = 4096"
  by simp

lemma boot_tables_translate:
  assumes t: "boot_tables d b N s" and l: "d < 8192" "b + 8 \<le> 8192" and i: "i < 8192" "off < 4096" and h: "h \<in> {0, 768 :: nat}"
  shows "translate s (word_of_nat (4096 * (1024 * h + i) + off)) = (if i < N then Some (word_of_nat (4096 * i + off)) else None)"
proof -
  let ?n = "4096 * (1024 * h + i) + off"
  have n: "?n < 2 ^ 32" using h i by auto
  have dir: "drop_bit 22 (word_of_nat ?n :: u32) = word_of_nat (h + i div 1024)"
  proof -
    have "?n div 2 ^ 22 = (1024 * h + i) div 1024" using i(2) by (simp add: div_mult2_eq [of _ 4096 1024, simplified])
    also have "\<dots> = h + i div 1024" by simp
    finally show ?thesis using drop_bit_word32 [OF n, of 22] by simp
  qed
  have "(4096 * x + off) div 4096 = x" "(4096 * x + off) mod 4096 = off" for x using i(2) by simp_all
  then have "?n div 2 ^ 12 = 1024 * h + i" "?n mod 2 ^ 12 = off" unfolding twelve by blast+
  then have d12: "drop_bit 12 (word_of_nat ?n :: u32) = word_of_nat (1024 * h + i)" "take_bit 12 (word_of_nat ?n :: u32) = word_of_nat off"
    using drop_bit_word32 [OF n, of 12] take_bit_word32 [OF n, of 12] by simp_all
  have "1024 * h + i < 2 ^ 32" using h i by auto
  from take_bit_word32 [OF this, of 10] have t10: "take_bit 10 (word_of_nat (1024 * h + i) :: u32) = word_of_nat (i mod 1024)" by simp
  have q: "i div 1024 < 8" using i by simp
  have pde: "mem s (frame_addr (cr3 s) + 4 * word_of_nat (h + i div 1024)) = word_of_nat (4096 * (b + i div 1024) + 3)"
  proof -
    have "frame_addr (cr3 s) + 4 * word_of_nat (h + i div 1024) = word_of_nat (4096 * d + 4 * (h + i div 1024))"
      using t l frame_addr_word32 [of "4096 * d"] by (simp add: boot_tables_def)
    then show ?thesis using t q h unfolding boot_tables_def by (simp only:)
  qed
  have "4096 * (b + x) + 4 * y = 4096 * b + 4 * i" if "1024 * x + y = i" for x y using that by auto
  note e = this [OF mult_div_mod_eq [of 1024 i]]
  have f: "frame_addr (word_of_nat (4096 * (b + i div 1024) + 3)) = word_of_nat (4096 * (b + i div 1024))"
    by (rule frame_entry) (use q l in simp)
  have pte: "mem s (frame_addr (word_of_nat (4096 * (b + i div 1024) + 3)) + 4 * word_of_nat (i mod 1024)) =
      (if i < N then word_of_nat (4096 * i + 3) else 0)"
  proof -
    have "frame_addr (word_of_nat (4096 * (b + i div 1024) + 3)) + 4 * word_of_nat (i mod 1024) = word_of_nat (4096 * b + 4 * i)"
      unfolding f e [symmetric] by simp
    then show ?thesis using t i unfolding boot_tables_def by (simp only:)
  qed
  have g: "frame_addr (word_of_nat (4096 * i + 3)) + word_of_nat off = word_of_nat (4096 * i + off)"
    using frame_addr_word32 [of "4096 * i + 3"] i by simp
  have p: "bit (word_of_nat (4096 * x + 3) :: u32) 0" for x using present_word32 [of "4096 * x + 3"] by simp
  show ?thesis unfolding translate_def Let_def dir pde d12 t10 pte using p [of "b + i div 1024"] p [of i] g
    by (cases "i < N") (simp_all del: of_nat_add of_nat_mult distrib_left_numeral)
qed

text \<open>The same for any byte of the first 32 MB, in the lower (\<open>h = 0\<close>) and the upper view (\<open>h = 768\<close>).\<close>

lemma boot_tables_byte:
  assumes t: "boot_tables d b N s" "d < 8192" "b + 8 \<le> 8192" and a: "a < 33554432" and h: "h \<in> {0, 768 :: nat}"
  shows "translate s (word_of_nat (4194304 * h + a)) = (if a < 4096 * N then Some (word_of_nat a) else None)"
proof -
  have "4194304 * h + 4096 * (a div 4096) + a mod 4096 = 4194304 * h + a" by simp
  then have "4096 * (1024 * h + a div 4096) + a mod 4096 = 4194304 * h + a" by (simp only: distrib_left)
  moreover have "a div 4096 < 8192" "a mod 4096 < 4096" using a by simp_all
  moreover have "a div 4096 < N \<longleftrightarrow> a < 4096 * N" by (simp add: div_less_iff_less_mult mult.commute)
  moreover have "4096 * (a div 4096) + a mod 4096 = a" by simp
  ultimately show ?thesis using boot_tables_translate [OF t, of "a div 4096" "a mod 4096" h] h by metis
qed

lemma fetch_boot:
  assumes t: "boot_tables d b N s" "d < 8192" "b + 8 \<le> 8192" and c: "c + n \<le> 33554432" "0 < n" and h: "h \<in> {0, 768 :: nat}"
  shows "fetch s (word_of_nat (4194304 * h + c)) n \<longleftrightarrow> c + n \<le> 4096 * N"
proof -
  have l: "load_addr (word_of_nat (4194304 * h + c)) = word_of_nat c"
  proof -
    have "unat (word_of_nat (4194304 * h + c) :: u32) = 4194304 * h + c" using c h by (intro unat_word32_of_nat) auto
    then have "word_of_nat (4194304 * h + c) < (0xC0000000 :: u32) \<longleftrightarrow> h = 0" using c h by (auto simp: word_less_nat_alt)
    then show ?thesis using h by (auto simp: load_addr_def)
  qed
  have "translate s (word_of_nat (4194304 * h + c) + word_of_nat i) = Some (word_of_nat c + word_of_nat i) \<longleftrightarrow> c + i < 4096 * N" if "i < n" for i
  proof -
    have "word_of_nat (4194304 * h + c) + word_of_nat i = (word_of_nat (4194304 * h + (c + i)) :: u32)"
      "word_of_nat c + word_of_nat i = (word_of_nat (c + i) :: u32)" by simp_all
    moreover have "c + i < 33554432" using c that by simp
    ultimately show ?thesis using boot_tables_byte [OF t, of "c + i" h] h by (simp del: of_nat_add of_nat_mult)
  qed
  then have "fetch s (word_of_nat (4194304 * h + c)) n \<longleftrightarrow> (\<forall>i < n. c + i < 4096 * N)"
    unfolding fetch_def l by (auto simp: list_all_iff simp del: of_nat_add of_nat_mult)
  also have "\<dots> \<longleftrightarrow> c + n \<le> 4096 * N"
  proof
    assume all: "\<forall>i < n. c + i < 4096 * N"
    from c(2) obtain m where "n = Suc m" using gr0_conv_Suc by blast
    with all show "c + n \<le> 4096 * N" by (auto dest: spec [of _ m])
  qed auto
  finally show ?thesis .
qed

text \<open>The translation depends on the memory and \<^verbatim>\<open>cr3\<close> only, and not on words outside the tables.\<close>

lemma translate_cong: "mem s = mem s' \<Longrightarrow> cr3 s = cr3 s' \<Longrightarrow> translate s = translate s'"
  by (rule ext) (simp add: translate_def Let_def)

lemma boot_tables_cong: "mem s = mem s' \<Longrightarrow> cr3 s = cr3 s' \<Longrightarrow> boot_tables d b N s = boot_tables d b N s'"
  by (simp add: boot_tables_def)

lemma instr_boot:
  assumes "boot_tables d b N s" "d < 8192" "b + 8 \<le> 8192" "c + n \<le> 33554432" "0 < n" "h \<in> {0, 768 :: nat}" "eip s = word_of_nat (4194304 * h + c)"
  shows "instr n f s = (if c + n \<le> 4096 * N then f (s\<lparr>eip := word_of_nat (4194304 * h + (c + n))\<rparr>) else Inl OutOfBounds)"
  using fetch_boot [OF assms(1-6)] assms(7) by (simp add: instr_def add.assoc)

section \<open>Properties\<close>

text \<open>
  The state in which the boot loader enters: the tables are in zeroed memory, and the word below its stack pointer, at \<open>a\<close>, is an
  aligned one in the first 32 MB that is in none of them.
\<close>

definition boot_state :: "nat \<Rightarrow> nat \<Rightarrow> nat \<Rightarrow> bcpu \<Rightarrow> bool" where
  "boot_state d b a s \<longleftrightarrow> (\<forall>j < 8192. mem s (word_of_nat (4096 * b + 4 * j)) = 0) \<and>
     esp s - 4 = word_of_nat a \<and> a < 33554432 \<and> 4 dvd a \<and> a div 4096 \<noteq> d \<and> a div 4096 \<notin> {b..<b + 8}"

text \<open>The linker's choice of label 4: room for the two instructions of the jump before it and for \<^verbatim>\<open>tlb_flush\<close> behind it.\<close>

definition label_4 :: "addr \<Rightarrow> nat \<Rightarrow> bool" where
  "label_4 L4 c \<longleftrightarrow> L4 = 0xC0000000 + word_of_nat c \<and> 8 \<le> c \<and> c + 25 \<le> 33554432"

lemma mapped_le: "mapped c \<le> 8192"
  by (simp add: mapped_def)

lemma boot_tables_built:
  assumes l: "boot_layout dir bpt d b" and z: "\<forall>j < 8192. mem s (word_of_nat (4096 * b + 4 * j)) = 0"
  shows "boot_tables d b (mapped (ecx s)) (enable_paging dir (fill_directory dir bpt (map_pages (s\<lparr>edi := bpt - 0xC0000000, esi := 0\<rparr>))))"
    (is "boot_tables d b _ ?s5")
proof -
  let ?P = "word_of_nat (4096 * b) :: u32"
  let ?s2 = "s\<lparr>edi := bpt - 0xC0000000, esi := 0\<rparr>"
  have edi: "edi ?s2 = ?P + 4 * word_of_nat 0" using l by (simp add: boot_layout_def)
  have p: "?P + 4 * word_of_nat j = word_of_nat (4096 * b + 4 * j)" for j by simp
  from map_pages_mem [of 0 ?s2 ?P] edi have
    m: "\<forall>j < 8192. mem (map_pages ?s2) (word_of_nat (4096 * b + 4 * j)) = (if j < mapped (ecx s) then word_of_nat (4096 * j + 3) else 0)"
    using z by (simp only: p entry_or) (simp add: iters_def mapped_def)
  from fill_directory_mem [OF l, of "map_pages ?s2"] obtain M where M: "fill_directory dir bpt (map_pages ?s2) = (map_pages ?s2)\<lparr>mem := M\<rparr>"
    "\<forall>t < 8. M (word_of_nat (4096 * d + 4 * t)) = word_of_nat (4096 * (b + t) + 3) \<and>
       M (word_of_nat (4096 * d + 4 * (768 + t))) = word_of_nat (4096 * (b + t) + 3)"
    "\<forall>x. (\<forall>e < 1024. x \<noteq> word_of_nat (4096 * d + 4 * e)) \<longrightarrow> M x = mem (map_pages ?s2) x" by blast
  have "word_of_nat (4096 * b + 4 * j) \<noteq> (word_of_nat (4096 * d + 4 * e) :: u32)" if "j < 8192" "e < 1024" for j e
  proof -
    have "4096 * b + 4 * j \<noteq> 4096 * d + 4 * e" "4096 * b + 4 * j < 2 ^ 32" "4096 * d + 4 * e < 2 ^ 32" using l that by (auto simp: boot_layout_def)
    then show ?thesis using word32_of_nat_eq_iff by blast
  qed
  with M(3) m have "\<forall>j < 8192. M (word_of_nat (4096 * b + 4 * j)) = (if j < mapped (ecx s) then word_of_nat (4096 * j + 3) else 0)" by metis
  moreover have "mem ?s5 = M" by (simp add: enable_paging_def M(1))
  moreover have "cr3 ?s5 = word_of_nat (4096 * d)" using l by (simp add: enable_paging_def boot_layout_def)
  ultimately show ?thesis using M(2) unfolding boot_tables_def by auto
qed

lemma boot_tables_store:
  assumes t: "boot_tables d b N s" and l: "d < 8192" "b + 8 \<le> 8192" and a: "a < 33554432" "a div 4096 \<noteq> d" "a div 4096 \<notin> {b..<b + 8}"
  shows "boot_tables d b N (s\<lparr>mem := (mem s)(word_of_nat a := v)\<rparr>)"
proof -
  have q: "4096 * (a div 4096) + a mod 4096 = a" "a mod 4096 < 4096" by simp_all
  have "word_of_nat (4096 * d + 4 * e) \<noteq> (word_of_nat a :: u32)" if "e < 1024" for e
  proof -
    have "4096 * d + 4 * e \<noteq> a" using that a(2) q by auto
    then show ?thesis using word32_of_nat_eq_iff [of "4096 * d + 4 * e" a] a(1) l(1) that by auto
  qed
  moreover have "word_of_nat (4096 * b + 4 * j) \<noteq> (word_of_nat a :: u32)" if "j < 8192" for j
  proof -
    have "(4096 * b + 4 * j) div 4096 = b + j div 1024" by simp
    moreover have "j div 1024 < 8" using that by simp
    ultimately have "4096 * b + 4 * j \<noteq> a" using a(3) by auto
    then show ?thesis using word32_of_nat_eq_iff [of "4096 * b + 4 * j" a] a(1) l(2) that by auto
  qed
  ultimately show ?thesis using t unfolding boot_tables_def by (auto simp del: of_nat_add of_nat_mult distrib_left_numeral)
qed

lemma call_near_boot:
  assumes t: "boot_tables d b N s" "d < 8192" "b + 8 \<le> 8192" and c: "c + 5 \<le> 33554432" "eip s = word_of_nat (4194304 * 768 + c)"
    and a: "esp s - 4 = word_of_nat (4194304 * h + a)" "a < 33554432" and h: "h \<in> {0, 768 :: nat}"
  shows "call_near tg s = (if c + 5 \<le> 4096 * N \<and> a < 4096 * N
    then Inr (s\<lparr>esp := esp s - 4, mem := (mem s)(word_of_nat a := word_of_nat (4194304 * 768 + (c + 5))), eip := tg\<rparr>) else Inl OutOfBounds)"
proof -
  have "translate (s\<lparr>eip := x\<rparr>) (esp s - 4) = (if a < 4096 * N then Some (word_of_nat a) else None)" for x
    using boot_tables_byte [OF t a(2) h] translate_cong [of "s\<lparr>eip := x\<rparr>" s] by (simp add: a(1))
  then show ?thesis unfolding call_near_def using instr_boot [OF t c(1) _ _ c(2)] by simp
qed

text \<open>
  C30. \<^verbatim>\<open>_start\<close> maps the first \<open>N\<close> pages of physical memory both at address 0 and at \<^verbatim>\<open>0xC0000000\<close>, the others of the first 32 MB
  not at all, turns paging and write protection on, jumps to the upper gigabyte and calls \<^verbatim>\<open>tlb_flush\<close>, exactly if the code (up to the end of \<^verbatim>\<open>tlb_flush\<close>, at
  \<open>c + 25\<close> in physical memory) and the word at \<open>a\<close> below the boot loader's stack pointer lie in the \<open>N\<close> pages; otherwise
  it faults. \<open>N\<close> is 8192, as intended, only if the boot loader happens to leave 0 or at
  least 8192 in \<^verbatim>\<open>ecx\<close>: the loop ends with the instruction \<^verbatim>\<open>loop\<close>, which counts \<^verbatim>\<open>ecx\<close> down, and nothing sets \<^verbatim>\<open>ecx\<close> before. Behind the
  last instruction of \<^verbatim>\<open>tlb_flush\<close> the return address is still on the boot loader's stack and the processor goes on with the
  bytes that follow, not with the caller: there is no \<^verbatim>\<open>ret\<close>.
\<close>

theorem boot_start_maps:
  assumes l: "boot_layout dir bpt d b" and st: "boot_state d b a s" and c: "label_4 L4 c" and N: "N = mapped (ecx s)"
  shows "if c + 25 \<le> 4096 * N \<and> a < 4096 * N
    then \<exists>s'. boot_start dir bpt L4 s = Inr s' \<and> eip s' = L4 + 25 \<and> esp s' = esp s - 4 \<and> mem s' (word_of_nat a) = L4 + 5 \<and>
      bit (cr0 s') 31 \<and> bit (cr0 s') 16 \<and> cr3 s' = dir - 0xC0000000 \<and>
      (\<forall>x < 33554432. translate s' (word_of_nat x) = (if x < 4096 * N then Some (word_of_nat x) else None) \<and>
         translate s' (0xC0000000 + word_of_nat x) = (if x < 4096 * N then Some (word_of_nat x) else None))
    else boot_start dir bpt L4 s = Inl OutOfBounds"
proof -
  define s5 where "s5 = enable_paging dir (fill_directory dir bpt (map_pages (s\<lparr>edi := bpt - 0xC0000000, esi := 0\<rparr>)))"
  have b: "d < 8192" "b + 8 \<le> 8192" using l by (auto simp: boot_layout_def)
  have t: "boot_tables d b N s5" using boot_tables_built [OF l] st by (simp add: s5_def boot_state_def N)
  have r5: "esp s5 = esp s" "bit (cr0 s5) 31" "bit (cr0 s5) 16" "cr3 s5 = dir - 0xC0000000"
  proof -
    obtain M where "fill_directory dir bpt (map_pages (s\<lparr>edi := bpt - 0xC0000000, esi := 0\<rparr>)) = (map_pages (s\<lparr>edi := bpt - 0xC0000000, esi := 0\<rparr>))\<lparr>mem := M\<rparr>"
      using fill_directory_mem [OF l] by blast
    then show "esp s5 = esp s" "bit (cr0 s5) 31" "bit (cr0 s5) 16" "cr3 s5 = dir - 0xC0000000"
      by (simp_all add: s5_def enable_paging_def map_pages_regs bit_simps)
  qed
  from st have a: "esp s - 4 = word_of_nat a" "a < 33554432" "a div 4096 \<noteq> d" "a div 4096 \<notin> {b..<b + 8}" by (simp_all add: boot_state_def)
  let ?hi = "\<lambda>x. word_of_nat (4194304 * 768 + x) :: u32"
  have L: "L4 = ?hi c" "8 \<le> c" "c + 25 \<le> 33554432" using c by (simp_all add: label_4_def)
  let ?s6 = "\<lambda>x. s5\<lparr>eip := x, ecx := L4\<rparr>"
  let ?s7 = "\<lambda>x. s5\<lparr>ecx := L4, esp := esp s - 4, mem := (mem s5)(word_of_nat a := ?hi (c + 5)), eip := x\<rparr>"
  let ?s8 = "\<lambda>x. ?s7 x\<lparr>ecx := cr3 s5\<rparr>"
  have t6: "boot_tables d b N (s5\<lparr>eip := x\<rparr>)" "boot_tables d b N (?s6 x)" for x
    using t boot_tables_cong [of "s5\<lparr>eip := x\<rparr>" s5] boot_tables_cong [of "?s6 x" s5] by simp_all
  have t7: "boot_tables d b N (?s7 x)" "boot_tables d b N (?s8 x)" for x
    using boot_tables_store [OF t b a(2-4)] boot_tables_cong [of "?s7 x" "s5\<lparr>mem := (mem s5)(word_of_nat a := ?hi (c + 5))\<rparr>"]
      boot_tables_cong [of "?s8 x" "s5\<lparr>mem := (mem s5)(word_of_nat a := ?hi (c + 5))\<rparr>"] by simp_all
  have lo: "L4 - 0xC0000000 - 8 = word_of_nat (4194304 * 0 + (c - 8))" using L(2) by (simp add: L(1) of_nat_diff)
  have jump: "jump_high L4 (s5\<lparr>eip := L4 - 0xC0000000 - 8\<rparr>) = (if c \<le> 4096 * N then Inr (?s6 L4) else Inl OutOfBounds)"
  proof -
    have c: "c - 8 + 6 = c - 2" "c - 2 + 2 = c" "c - 2 \<le> 33554432" "c \<le> 33554432" "c - 8 + 6 \<le> 33554432" "c - 2 + 2 \<le> 33554432" using L(2,3) by simp_all
    note i = instr_boot [OF t6(1) b c(5), where h = 0, unfolded c(1)] instr_boot [OF t6(2) b c(6), where h = 0, unfolded c(2)]
    have "c \<le> 4096 * N \<Longrightarrow> c - 2 \<le> 4096 * N" by simp
    then show ?thesis unfolding jump_high_def lo by (auto simp: i simp del: of_nat_add of_nat_mult of_nat_diff)
  qed
  have a6: "esp (?s6 L4) - 4 = word_of_nat (4194304 * 0 + a)" by (simp add: r5(1) a(1))
  have call: "call_near (L4 + 19) (?s6 L4) = (if c + 5 \<le> 4096 * N \<and> a < 4096 * N then Inr (?s7 (?hi (c + 19))) else Inl OutOfBounds)"
  proof -
    have c: "c + 5 \<le> 33554432" using L(3) by simp
    have g: "L4 + 19 = ?hi (c + 19)" by (simp add: L(1))
    have e: "eip (?s6 L4) = ?hi c" by (simp add: L(1))
    show ?thesis unfolding g using call_near_boot [OF t6(2) b c e a6 a(2), of "?hi (c + 19)"] by (simp add: r5(1) del: of_nat_add of_nat_mult)
  qed
  have flush: "tlb_flush (?s7 (?hi (c + 19))) = (if c + 25 \<le> 4096 * N then Inr (?s8 (?hi (c + 25))) else Inl OutOfBounds)"
  proof -
    have c: "c + 19 + 3 = c + 22" "c + 22 + 3 = c + 25" "c + 19 + 3 \<le> 33554432" "c + 22 + 3 \<le> 33554432" using L(3) by simp_all
    have i1: "instr 3 (\<lambda>s. Inr (s\<lparr>ecx := cr3 s\<rparr>)) (?s7 (?hi (c + 19))) = (if c + 22 \<le> 4096 * N then Inr (?s8 (?hi (c + 22))) else Inl OutOfBounds)"
      using instr_boot [OF t7(1) [of "?hi (c + 19)"] b c(3), of 768 "\<lambda>s. Inr (s\<lparr>ecx := cr3 s\<rparr>)"] by simp
    have i2: "instr 3 (\<lambda>s. Inr (s\<lparr>cr3 := ecx s\<rparr>)) (?s8 (?hi (c + 22))) = (if c + 25 \<le> 4096 * N then Inr (?s8 (?hi (c + 25))) else Inl OutOfBounds)"
      using instr_boot [OF t7(2) [of "?hi (c + 22)"] b c(4), of 768 "\<lambda>s. Inr (s\<lparr>cr3 := ecx s\<rparr>)"] by simp
    have "c + 25 \<le> 4096 * N \<Longrightarrow> c + 22 \<le> 4096 * N" by simp
    then show ?thesis unfolding tlb_flush_def i1 by (simp only: i2 rbind_simps split: if_split) blast
  qed
  have run: "boot_start dir bpt L4 s = (if c + 25 \<le> 4096 * N \<and> a < 4096 * N then Inr (?s8 (?hi (c + 25))) else Inl OutOfBounds)"
  proof -
    have r: "boot_start dir bpt L4 s = rbind (jump_high L4 (s5\<lparr>eip := L4 - 0xC0000000 - 8\<rparr>)) (\<lambda>s6. rbind (call_near (L4 + 19) s6) tlb_flush)"
      by (simp add: boot_start_def Let_def s5_def)
    consider "4096 * N < c" | "c \<le> 4096 * N" "4096 * N < c + 5 \<or> 4096 * N \<le> a" | "c + 5 \<le> 4096 * N" "a < 4096 * N" by linarith
    then show ?thesis
    proof cases
      case 1
      then show ?thesis unfolding r jump by simp
    next
      case 2
      then have "\<not> (c + 5 \<le> 4096 * N \<and> a < 4096 * N)" "\<not> (c + 25 \<le> 4096 * N \<and> a < 4096 * N)" by auto
      with 2(1) show ?thesis unfolding r jump by (simp only: if_True if_False rbind_simps call)
    next
      case 3
      then have "c \<le> 4096 * N" by simp
      with 3 show ?thesis unfolding r jump by (simp only: if_True rbind_simps call flush simp_thms)
    qed
  qed
  have "translate (?s8 y) (word_of_nat x) = (if x < 4096 * N then Some (word_of_nat x) else None) \<and>
    translate (?s8 y) (0xC0000000 + word_of_nat x) = (if x < 4096 * N then Some (word_of_nat x) else None)" if "x < 33554432" for x y
    using boot_tables_byte [OF t7(2) b that, of 0] boot_tables_byte [OF t7(2) b that, of 768] by simp
  moreover have "?hi (c + 25) = L4 + 25" "?hi (c + 5) = L4 + 5" by (simp_all add: L(1))
  ultimately show ?thesis using r5 by (auto simp: run)
qed

text \<open>
  What the two instructions behind the call do if the code behind \<^verbatim>\<open>tlb_flush\<close> comes back to them with the tables as they are.
\<close>

lemma enter_kernel_entered:
  assumes t: "boot_tables d b N s" "d < 8192" "b + 8 \<le> 8192" and c: "label_4 L4 c" "eip s = L4 + 5" "c + 15 \<le> 4096 * N"
    and a: "stack_top - 4 = 0xC0000000 + word_of_nat a" "a < 33554432" "a < 4096 * N"
  shows "\<exists>s'. enter_kernel stack_top kmain s = Inr s' \<and> eip s' = kmain \<and> esp s' = stack_top - 4 \<and> mem s' (word_of_nat a) = L4 + 15"
proof -
  let ?hi = "\<lambda>x. word_of_nat (4194304 * 768 + x) :: u32"
  have L: "L4 = ?hi c" "c + 25 \<le> 33554432" using c by (simp_all add: label_4_def)
  let ?s1 = "s\<lparr>eip := ?hi (c + 10), esp := stack_top\<rparr>"
  have t1: "boot_tables d b N ?s1" using t(1) boot_tables_cong [of ?s1 s] by simp
  have n: "c + 5 + 5 = c + 10" "c + 5 + 5 \<le> 33554432" "c + 10 + 5 = c + 15" "c + 10 + 5 \<le> 33554432" using L(2) by simp_all
  have e: "eip s = ?hi (c + 5)" by (simp add: c(2) L(1))
  have "instr 5 (\<lambda>s. Inr (s\<lparr>esp := stack_top\<rparr>)) s = Inr ?s1"
    using instr_boot [OF t n(2), where h = 768, unfolded n(1)] e c(3) by (simp del: of_nat_add of_nat_mult)
  moreover have "esp ?s1 - 4 = word_of_nat (4194304 * 768 + a)" by (simp add: a(1))
  from call_near_boot [OF t1 t(2,3) n(4) _ this a(2), unfolded n(3)] have "call_near kmain ?s1 =
      Inr (?s1\<lparr>esp := stack_top - 4, mem := (mem s)(word_of_nat a := ?hi (c + 15)), eip := kmain\<rparr>)" using a(3) c(3)
    by (simp del: of_nat_add of_nat_mult)
  moreover have "?hi (c + 15) = L4 + 15" by (simp add: L(1))
  ultimately show ?thesis by (simp add: enter_kernel_def)
qed

definition bcpu0 :: "u32 \<Rightarrow> bcpu" where
  "bcpu0 c = \<lparr>eax = 0x2BADB002, ecx = c, edx = 0, ebx = 0x10000, esp = 0x7FF00, ebp = 0, esi = 0, edi = 0, eflags = 2, eip = 0x100000,
     mem = (\<lambda>_. 0), cr0 = 0x11, cr3 = 0\<rparr>"

text \<open>
  A boot loader that leaves 0 in \<^verbatim>\<open>ecx\<close>, and one that leaves 256 there: then the page at 1 MB, where the kernel is, is not mapped.
\<close>

theorem boot_start_maps_witness:
  "\<exists>s1. boot_start 0xC010A000 0xC010B000 0xC0100123 (bcpu0 0) = Inr s1 \<and> eip s1 = 0xC010013C \<and> translate s1 0xC0100123 = Some 0x100123 \<and>
     boot_start 0xC010A000 0xC010B000 0xC0100123 (bcpu0 256) = Inl OutOfBounds"
proof -
  have l: "boot_layout 0xC010A000 0xC010B000 266 267" by (simp add: boot_layout_def)
  have b: "boot_state 266 267 0x7FEFC (bcpu0 c)" for c by (simp add: boot_state_def bcpu0_def)
  have c: "label_4 0xC0100123 0x100123" by (simp add: label_4_def)
  obtain s1 where "boot_start 0xC010A000 0xC010B000 0xC0100123 (bcpu0 0) = Inr s1" "eip s1 = 0xC010013C"
    "\<forall>x < 33554432. translate s1 (0xC0000000 + word_of_nat x) = (if x < 33554432 then Some (word_of_nat x) else None)"
    using boot_start_maps [OF l b [of 0] c refl] by (auto simp: bcpu0_def mapped_def)
  moreover from this(3) have "translate s1 0xC0100123 = Some 0x100123" by (auto dest: spec [of _ "0x100123"])
  moreover have "boot_start 0xC010A000 0xC010B000 0xC0100123 (bcpu0 256) = Inl OutOfBounds"
    using boot_start_maps [OF l b [of 256] c refl] by (simp add: bcpu0_def mapped_def)
  ultimately show ?thesis by blast
qed

end
