(* ===== verification/Page_Tests.thy ===== *)
theory Page_Tests
  imports Paging_Spec Kernel_Utils
begin

text \<open>
  The tests of the page allocator at the end of \<^verbatim>\<open>src/src/kernel/arch/i386/paging.c\<close>: the stress test \<^verbatim>\<open>do_test\<close> and \<^verbatim>\<open>interactive_test\<close>, which
  nothing calls. The memory behind the pages is a function from addresses to bytes, and \<^verbatim>\<open>strcpy\<close> works on the bytes of an allocated
  region. The stress test does not notice that \<^verbatim>\<open>free_pages\<close> releases wrong pages: already its second round loses one.
\<close>

section \<open>Strings in pages\<close>

type_synonym page_mem = "addr \<Rightarrow> u8"

definition window :: "page_mem \<Rightarrow> addr \<Rightarrow> nat \<Rightarrow> u8 list" where
  "window pm a n = map (\<lambda>i. pm (a + word_of_nat i)) [0..<n]"

definition put_window :: "addr \<Rightarrow> u8 list \<Rightarrow> page_mem \<Rightarrow> page_mem" where
  "put_window a b pm = fold (\<lambda>i pm. pm(a + word_of_nat i := b ! i)) [0..<length b] pm"

text \<open>\<^verbatim>\<open>strcpy\<close> to a region of \<open>n\<close> bytes at the address \<open>a\<close>.\<close>

definition strcpy_to :: "nat \<Rightarrow> addr \<Rightarrow> u8 list \<Rightarrow> page_mem \<Rightarrow> page_mem result" where
  "strcpy_to n a src pm = rbind (strcpy (window pm a n) src) (\<lambda>b. Inr (put_window a b pm))"

section \<open>The stress test\<close>

record alloc_info =
  location :: addr
  num_of_pages :: u32

definition NUM_OF_MEMORIES :: nat where
  "NUM_OF_MEMORIES = 10"

definition stress_pages :: "int \<Rightarrow> int \<Rightarrow> nat \<Rightarrow> u32" where
  "stress_pages scaler iter j = word_of_int (1 + (iter mod 5) * (int j mod 3) * scaler)"

fun stress_allocs :: "int \<Rightarrow> int \<Rightarrow> nat list \<Rightarrow> paging \<times> page_mem \<Rightarrow> alloc_info list \<Rightarrow> ((paging \<times> page_mem) \<times> alloc_info list) result" where
  "stress_allocs scaler iter [] st mem_arr = Inr (st, mem_arr)"
| "stress_allocs scaler iter (j # js) (p, pm) mem_arr =
     (let pc = stress_pages scaler iter j
      in rbind (alloc_pages p pc) (\<lambda>(p', a).
         rbind (strcpy_to (4096 * unat pc) a (bytes ''Something comes here.'' @ [0]) pm) (\<lambda>pm'.
         stress_allocs scaler iter js (p', pm') (mem_arr[j := \<lparr>location = a, num_of_pages = pc\<rparr>]))))"

fun stress_frees :: "nat list \<Rightarrow> alloc_info list \<Rightarrow> paging \<Rightarrow> paging result" where
  "stress_frees [] mem_arr p = Inr p"
| "stress_frees (j # js) mem_arr p =
     rbind (free_pages p (location (mem_arr ! j)) (num_of_pages (mem_arr ! j))) (stress_frees js mem_arr)"

text \<open>The loop over \<^verbatim>\<open>iter\<close>; its body is one round.\<close>

fun stress_iters :: "int \<Rightarrow> int list \<Rightarrow> paging \<times> page_mem \<Rightarrow> alloc_info list \<Rightarrow> ((paging \<times> page_mem) \<times> alloc_info list) result" where
  "stress_iters scaler [] st mem_arr = Inr (st, mem_arr)"
| "stress_iters scaler (iter # iters) st mem_arr =
     rbind (stress_allocs scaler iter [0..<NUM_OF_MEMORIES] st mem_arr) (\<lambda>((p, pm), arr).
     rbind (stress_frees [0..<NUM_OF_MEMORIES] arr p) (\<lambda>p'.
     stress_iters scaler iters (p', pm) arr))"

partial_function (option) stress_loop :: "int \<Rightarrow> int \<Rightarrow> int \<Rightarrow> int \<Rightarrow> paging \<times> page_mem \<Rightarrow> alloc_info list \<Rightarrow> (paging \<times> page_mem) result option" where
  "stress_loop scaler scaler_max scaler_step iter_count st mem_arr =
     (if scaler < scaler_max then
        case stress_iters scaler [0..iter_count - 1] st mem_arr of
          Inl e \<Rightarrow> Some (Inl e)
        | Inr (st', arr) \<Rightarrow> stress_loop (scaler + scaler_step) scaler_max scaler_step iter_count st' arr
      else Some (Inr st))"

text \<open>A message; \<^verbatim>\<open>%s\<close> reads strings from the pages.\<close>

definition ilog :: "(nat \<Rightarrow> u8) \<Rightarrow> page_mem \<Rightarrow> string \<Rightarrow> u32 list \<Rightarrow> console \<Rightarrow> console result" where
  "ilog stk pm text args c = rbind (klog stk (\<lambda>a. window pm a 4096) INFO (bytes text @ [0x0A, 0]) args c) (\<lambda>(c', _). Inr c')"

definition do_test :: "(nat \<Rightarrow> u8) \<Rightarrow> alloc_info list \<Rightarrow> int \<Rightarrow> int \<Rightarrow> int \<Rightarrow> paging \<times> page_mem \<Rightarrow> console \<Rightarrow> ((paging \<times> page_mem) \<times> console) result" where
  "do_test stk mem_arr scaler_max scaler_step iter_count st c =
     (if scaler_step = 0 then Inl DivByZero
      else let n = word_of_int (scaler_max sdiv scaler_step * iter_count * int NUM_OF_MEMORIES)
      in rbind (ilog stk (snd st) ''Performing %d allocs and frees.'' [n] c) (\<lambda>c1.
         rbind (case stress_loop 1 scaler_max scaler_step iter_count st mem_arr of None \<Rightarrow> Inl Hang | Some r \<Rightarrow> r) (\<lambda>st'.
         rbind (ilog stk (snd st') ''Did %d allocations and frees!'' [n] c1) (\<lambda>c2. Inr (st', c2)))))"

definition stress_test_page_alloc :: "(nat \<Rightarrow> u8) \<Rightarrow> alloc_info list \<Rightarrow> paging \<times> page_mem \<Rightarrow> console \<Rightarrow> ((paging \<times> page_mem) \<times> console) result" where
  "stress_test_page_alloc stk mem_arr st c = do_test stk mem_arr 500 10 300 st c"

section \<open>The interactive test\<close>

definition page_diff :: "addr \<Rightarrow> addr \<Rightarrow> u32" where
  "page_diff a b = word_of_int (sint (a - b) sdiv 4096)"

text \<open>Up to the first release; the result has the addresses of the two regions.\<close>

definition interactive_first :: "(nat \<Rightarrow> u8) \<Rightarrow> u8 list \<Rightarrow> paging \<times> page_mem \<Rightarrow> console \<Rightarrow> ((paging \<times> page_mem) \<times> addr \<times> console) result" where
  "interactive_first stk buff = (\<lambda>(p, pm) c.
     rbind (alloc_pages p 5) (\<lambda>(p1, mem).
     rbind (ilog stk pm ''Allocated %d page(s) at: %d'' [5, mem] c) (\<lambda>c1.
     rbind (strcpy_to (4096 * 5) mem buff pm) (\<lambda>pm1.
     rbind (ilog stk pm1 ''Mem we allocated at: %d contains: %s'' [mem, mem] c1) (\<lambda>c2.
     rbind (alloc_pages p1 2) (\<lambda>(p2, mem_2).
     rbind (ilog stk pm1 ''Allocated 2 pages at: %d'' [mem_2] c2) (\<lambda>c3.
     rbind (strcpy_to (4096 * 2) mem_2 (window pm1 mem (4096 * 5)) pm1) (\<lambda>pm2.
     rbind (ilog stk pm2 ''mem_2 at: %d contains : %s'' [mem_2, mem_2] c3) (\<lambda>c4.
     rbind (ilog stk pm2 ''Diff mem2 and mem: %d which is %d pages'' [mem_2 - mem, page_diff mem_2 mem] c4) (\<lambda>c5.
     rbind (ilog stk pm2 ''Freeing %d pages at: %d'' [5, mem] c5) (\<lambda>c6.
     rbind (free_pages p2 mem 5) (\<lambda>p3. Inr ((p3, pm2), mem_2, c6)))))))))))))"

definition interactive_second :: "(nat \<Rightarrow> u8) \<Rightarrow> u8 list \<Rightarrow> paging \<times> page_mem \<Rightarrow> addr \<Rightarrow> console \<Rightarrow> ((paging \<times> page_mem) \<times> console) result" where
  "interactive_second stk buff = (\<lambda>(p, pm) mem_2 c.
     rbind (alloc_pages p 1017) (\<lambda>(p1, mem).
     rbind (ilog stk pm ''Allocated %d page(s) at: %d'' [1017, mem] c) (\<lambda>c1.
     rbind (strcpy_to (4096 * 1017) mem buff pm) (\<lambda>pm1.
     rbind (ilog stk pm1 ''Mem we allocated at: %d contains: %s'' [mem, mem] c1) (\<lambda>c2.
     rbind (ilog stk pm1 ''Diff mem and mem2: %d whic is %d pages'' [mem - mem_2, page_diff mem mem_2] c2) (\<lambda>c3.
     rbind (alloc_pages p1 (5 + 13)) (\<lambda>(p2, mem_3).
     rbind (strcpy_to (4096 * 18) mem_3 buff pm1) (\<lambda>pm2.
     rbind (ilog stk pm2 ''Allocated %d at: %d'' [5 + 13, mem_3] c3) (\<lambda>c4.
     rbind (ilog stk pm2 ''Mem we allocated at: %d contains: %s'' [mem_3, mem_3] c4) (\<lambda>c5.
     rbind (ilog stk pm2 ''Diff mem_3 and mem is %d pages'' [page_diff mem_3 mem] c5) (\<lambda>c6.
     rbind (ilog stk pm2 ''freeing %d at: %d'' [1017, mem] c6) (\<lambda>c7.
     rbind (free_pages p2 mem 1017) (\<lambda>p3.
     rbind (alloc_pages p3 7) (\<lambda>(p4, mem').
     rbind (ilog stk pm2 ''Allocated 7 page(s) at: %d'' [mem'] c7) (\<lambda>c8.
     rbind (ilog stk pm2 ''Diff mem and mem_2: %d'' [page_diff mem' mem_2] c8) (\<lambda>c9. Inr ((p4, pm2), c9)))))))))))))))))"

definition interactive_test :: "(nat \<Rightarrow> u8) \<Rightarrow> u8 list \<Rightarrow> paging \<times> page_mem \<Rightarrow> console \<Rightarrow> ((paging \<times> page_mem) \<times> console) result" where
  "interactive_test stk buff0 st c =
     rbind (strcpy buff0 (bytes ''Bodos has frame allocation now!'' @ [0])) (\<lambda>buff.
     rbind (interactive_first stk buff st c) (\<lambda>(st1, mem_2, c1). interactive_second stk buff st1 mem_2 c1))"

section \<open>Strings\<close>

lemma fold_put:
  fixes a :: addr
  assumes "n \<le> 2 ^ 32" "j < 2 ^ 32"
  shows "fold (\<lambda>i pm. pm(a + word_of_nat i := b ! i)) [0..<n] pm (a + word_of_nat j) = (if j < n then b ! j else pm (a + word_of_nat j))"
  using assms(1)
proof (induction n)
  case (Suc n)
  then have "(word_of_nat n :: u32) = word_of_nat j \<longleftrightarrow> n = j" using word32_of_nat_eq_iff [of n j] assms(2) by auto
  with Suc show ?case by (auto simp: less_Suc_eq)
qed simp

lemma window_put: "length b \<le> 2 ^ 32 \<Longrightarrow> m \<le> length b \<Longrightarrow> window (put_window a b pm) a m = take m b"
  by (rule nth_equalityI) (auto simp: window_def put_window_def fold_put)

text \<open>A string copied to a region can be read there.\<close>

lemma strcpy_to_ok:
  assumes src: "terminated src" "length (cstr src) < n" and n: "n \<le> 2 ^ 32"
  shows "\<exists>pm'. strcpy_to n a src pm = Inr pm' \<and>
    (\<forall>m. length (cstr src) < m \<and> m \<le> n \<longrightarrow> terminated (window pm' a m) \<and> cstr (window pm' a m) = cstr src)"
proof -
  let ?b = "cstr src @ 0 # drop (length (cstr src) + 1) (window pm a n)"
  have l: "length (window pm a n) = n" by (simp add: window_def)
  have c: "strcpy (window pm a n) src = Inr ?b" using src by (intro strcpy_ok) (simp_all add: l)
  have lb: "length ?b = n" using src l by simp
  obtain t where s: "src = cstr src @ 0 # t" "0 \<notin> set (cstr src)" using src(1) by (rule terminated_split)
  have "terminated (window (put_window a ?b pm) a m) \<and> cstr (window (put_window a ?b pm) a m) = cstr src" if "length (cstr src) < m \<and> m \<le> n" for m
  proof -
    have "window (put_window a ?b pm) a m = take m ?b" using that n lb by (intro window_put) simp_all
    also have "\<dots> = cstr src @ 0 # take (m - Suc (length (cstr src))) (drop (length (cstr src) + 1) (window pm a n))"
      using that by (simp add: take_Cons' diff_diff_left)
    finally show ?thesis using s(2) by (simp add: terminated_def)
  qed
  with c show ?thesis by (simp add: strcpy_to_def)
qed

section \<open>Messages\<close>

lemma ilog_ok:
  assumes c: "con_inv c" and z: "0 \<notin> set (bytes text)" and k: "kinds (bytes text @ [0x0A]) = ks" "list_all2 (fits (\<lambda>a. window pm a 4096)) ks args"
  shows "\<exists>c'. ilog stk pm text args c = Inr c' \<and> con_inv c'"
proof -
  have t: "terminated (bytes text @ [0x0A, 0])" "cstr (bytes text @ [0x0A, 0]) = bytes text @ [0x0A]"
    using cstr_append [of "bytes text @ [0x0A]" "[]"] z by (simp_all add: terminated_def)
  from render_kinds [of "\<lambda>a. window pm a 4096" "bytes text @ [0x0A]" args "first_cur stk True"] k obtain out where
    "render (\<lambda>a. window pm a 4096) (bytes text @ [0x0A]) args (first_cur stk True) = Some out" by auto
  with kprintf_level_ok [OF c t(1), where strs = "\<lambda>a. window pm a 4096" and args = args and stk = stk and app = True and lev = INFO] t(2)
  show ?thesis by (auto simp: ilog_def klog_def wrote_def)
qed

lemma message_kinds:
  "kinds (bytes ''Allocated %d page(s) at: %d'' @ [0x0A]) = [INT_t, INT_t]"
  "kinds (bytes ''Mem we allocated at: %d contains: %s'' @ [0x0A]) = [INT_t, STRING]"
  "kinds (bytes ''Allocated 2 pages at: %d'' @ [0x0A]) = [INT_t]"
  "kinds (bytes ''mem_2 at: %d contains : %s'' @ [0x0A]) = [INT_t, STRING]"
  "kinds (bytes ''Diff mem2 and mem: %d which is %d pages'' @ [0x0A]) = [INT_t, INT_t]"
  "kinds (bytes ''Freeing %d pages at: %d'' @ [0x0A]) = [INT_t, INT_t]"
  "kinds (bytes ''Diff mem and mem2: %d whic is %d pages'' @ [0x0A]) = [INT_t, INT_t]"
  "kinds (bytes ''Allocated %d at: %d'' @ [0x0A]) = [INT_t, INT_t]"
  "kinds (bytes ''Diff mem_3 and mem is %d pages'' @ [0x0A]) = [INT_t]"
  "kinds (bytes ''freeing %d at: %d'' @ [0x0A]) = [INT_t, INT_t]"
  "kinds (bytes ''Allocated 7 page(s) at: %d'' @ [0x0A]) = [INT_t]"
  "kinds (bytes ''Diff mem and mem_2: %d'' @ [0x0A]) = [INT_t]"
  by code_simp+

text \<open>The messages of the interactive test return.\<close>

lemma messages_ok:
  assumes "con_inv c"
  shows "\<exists>c'. ilog stk pm ''Allocated %d page(s) at: %d'' [u, v] c = Inr c' \<and> con_inv c'"
    "\<exists>c'. ilog stk pm ''Allocated 2 pages at: %d'' [u] c = Inr c' \<and> con_inv c'"
    "\<exists>c'. ilog stk pm ''Diff mem2 and mem: %d which is %d pages'' [u, v] c = Inr c' \<and> con_inv c'"
    "\<exists>c'. ilog stk pm ''Freeing %d pages at: %d'' [u, v] c = Inr c' \<and> con_inv c'"
    "\<exists>c'. ilog stk pm ''Diff mem and mem2: %d whic is %d pages'' [u, v] c = Inr c' \<and> con_inv c'"
    "\<exists>c'. ilog stk pm ''Allocated %d at: %d'' [u, v] c = Inr c' \<and> con_inv c'"
    "\<exists>c'. ilog stk pm ''Diff mem_3 and mem is %d pages'' [u] c = Inr c' \<and> con_inv c'"
    "\<exists>c'. ilog stk pm ''freeing %d at: %d'' [u, v] c = Inr c' \<and> con_inv c'"
    "\<exists>c'. ilog stk pm ''Allocated 7 page(s) at: %d'' [u] c = Inr c' \<and> con_inv c'"
    "\<exists>c'. ilog stk pm ''Diff mem and mem_2: %d'' [u] c = Inr c' \<and> con_inv c'"
  by (rule ilog_ok [OF assms], simp add: bytes_def of_char_def, rule message_kinds, simp)+

lemma string_messages_ok:
  assumes "con_inv c" "terminated (window pm v 4096)" "length (cstr (window pm v 4096)) < 128"
  shows "\<exists>c'. ilog stk pm ''Mem we allocated at: %d contains: %s'' [u, v] c = Inr c' \<and> con_inv c'"
    "\<exists>c'. ilog stk pm ''mem_2 at: %d contains : %s'' [u, v] c = Inr c' \<and> con_inv c'"
  by (rule ilog_ok [OF assms(1)], simp add: bytes_def of_char_def, rule message_kinds, simp add: assms)+

section \<open>Sets of taken pages\<close>

text \<open>The pages of the dynamic area that are taken, counted from its first page.\<close>

definition taken_is :: "nat set \<Rightarrow> paging \<Rightarrow> bool" where
  "taken_is T p \<longleftrightarrow> pages_inv (pdi p) \<and> (\<forall>i < 253952. taken_at (pdi p) (base_page + i) \<longleftrightarrow> i \<in> T)"

lemma area_size: "num_pages = base_page + 253952"
  by (simp add: num_pages_def base_page_def FIRST_PDE_def)

lemma page_addr_inj: "p < num_pages \<Longrightarrow> q < num_pages \<Longrightarrow> (word_of_nat (4096 * p) :: u32) = word_of_nat (4096 * q) \<Longrightarrow> p = q"
  using word32_of_nat_eq_iff [of "4096 * p" "4096 * q"] by (simp add: num_pages_def)

lemma base_div_mod: "i < 253952 \<Longrightarrow> (base_page + i) div 1024 = FIRST_PDE + i div 1024 \<and> (base_page + i) mod 1024 = i mod 1024"
proof -
  have b: "base_page + i = i + FIRST_PDE * 1024" by (simp add: base_page_def)
  show ?thesis unfolding b by (simp add: add.commute)
qed

lemma taken_is_nonfull:
  assumes t: "taken_is T p" and room: "\<forall>d < 248. \<exists>r < 1024. 1024 * d + r \<notin> T" and d: "FIRST_PDE \<le> d" "d < 1024"
  shows "pt_free (pdi p d) \<noteq> 0"
proof -
  have "d - FIRST_PDE < 248" using d by (simp add: FIRST_PDE_def)
  with room obtain r where r: "r < 1024" "1024 * (d - FIRST_PDE) + r \<notin> T" by blast
  let ?i = "1024 * (d - FIRST_PDE) + r"
  have i: "?i < 253952" using d r(1) by (simp add: FIRST_PDE_def)
  have "(base_page + ?i) div 1024 = d" "(base_page + ?i) mod 1024 = r" using base_div_mod [OF i] d r(1) by simp_all
  then have "\<not> pt_taken (pdi p d) r" using t i r(2) by (auto simp: taken_is_def taken_at_def)
  with free_count_take [of r "pt_taken (pdi p d)"] r(1) have "0 < free_count (pt_taken (pdi p d))" by simp
  with t d have "0 < unat (pt_free (pdi p d))" by (simp add: taken_is_def pages_inv_def)
  then show ?thesis by auto
qed

text \<open>First fit in terms of the set.\<close>

lemma alloc_at:
  assumes t: "taken_is T p" and room: "\<forall>d < 248. \<exists>r < 1024. 1024 * d + r \<notin> T" and n: "0 < unat n" "i + unat n \<le> 253952"
    and free: "{i..<i + unat n} \<inter> T = {}" and first: "\<And>q. q < i \<Longrightarrow> {q..<q + unat n} \<inter> T \<noteq> {}"
  shows "\<exists>p'. alloc_pages p n = Inr (p', word_of_nat (4096 * (base_page + i))) \<and> taken_is (T \<union> {i..<i + unat n}) p'"
proof -
  have tk: "taken_at (pdi p) k \<longleftrightarrow> k - base_page \<in> T" if "base_page \<le> k" "k < num_pages" for k
    using t that area_size unfolding taken_is_def by (metis le_add_diff_inverse nat_add_left_cancel_less)
  have "k - base_page \<notin> T" if "base_page + i \<le> k" "k < base_page + i + unat n" for k
  proof -
    have "k - base_page \<in> {i..<i + unat n}" using that by auto
    with free show ?thesis by blast
  qed
  then have "free_run (pdi p) (base_page + i) (unat n)" using n(2) tk area_size by (auto simp: free_run_def)
  moreover have "\<not> free_run (pdi p) q (unat n)" if q: "base_page \<le> q" "q < base_page + i" for q
  proof -
    have "q - base_page < i" using q by simp
    from first [OF this] obtain k where k: "q - base_page \<le> k" "k < q - base_page + unat n" "k \<in> T" by auto
    then have "q \<le> base_page + k" "base_page + k < q + unat n" "base_page + k < num_pages" using q n(2) area_size by simp_all
    then show ?thesis using tk [of "base_page + k"] k(3) by (auto simp: free_run_def)
  qed
  ultimately have r: "first_run (pdi p) (unat n) (base_page + i)" by (auto simp: first_run_def)
  have "\<forall>d. FIRST_PDE \<le> d \<and> d < 1024 \<longrightarrow> pt_free (pdi p d) \<noteq> 0" using taken_is_nonfull [OF t room] by blast
  from alloc_pages_first_run [OF n(1) r skips_ok_nonfull [OF this]] obtain p' where
    p': "alloc_pages p n = Inr (p', word_of_nat (4096 * (base_page + i)))" by blast
  from alloc_pages_sound [OF p' n(1)] obtain q where
    q: "(word_of_nat (4096 * (base_page + i)) :: u32) = word_of_nat (4096 * q)" "free_run (pdi p) q (unat n)"
      "\<forall>k. taken_at (pdi p') k \<longleftrightarrow> taken_at (pdi p) k \<or> q \<le> k \<and> k < q + unat n" "pages_inv (pdi p) \<longrightarrow> pages_inv (pdi p')" by blast
  have "base_page + i < num_pages" "q < num_pages" using n q(2) area_size by (auto simp: free_run_def)
  from page_addr_inj [OF this q(1)] p' q(3,4) t show ?thesis by (auto simp: taken_is_def)
qed

lemma freed_from_base: "i < 253952 \<Longrightarrow> freed_from (base_page + i) = base_page + 1024 * (i div 1024) + i mod 1024 mod 16"
  by (simp add: freed_from_def base_div_mod) (simp add: base_page_def)

text \<open>A run that starts in the first sixteen pages of a table comes back whole.\<close>

lemma free_at:
  assumes t: "taken_is T p" and n: "i + unat n \<le> 253952" "0 < unat n" "i mod 1024 < 16" and sub: "{i..<i + unat n} \<subseteq> T"
  shows "\<exists>p'. free_pages p (word_of_nat (4096 * (base_page + i))) n = Inr p' \<and> taken_is (T - {i..<i + unat n}) p'"
proof -
  let ?b = "base_page + i"
  have lt: "?b < num_pages" "?b + unat n \<le> num_pages" "i < 253952" using n area_size by simp_all
  have fr: "freed_from ?b = ?b" using freed_from_base [OF lt(3)] n(3) by simp
  from free_pages_run [of ?b n p] lt fr obtain p' where
    p': "free_pages p (word_of_nat (4096 * ?b)) n = Inr p'" "\<forall>k. taken_at (pdi p') k \<longleftrightarrow> taken_at (pdi p) k \<and> \<not> (?b \<le> k \<and> k < ?b + unat n)" by auto
  have "?b mod 1024 mod 16 = ?b mod 16" by (simp add: mod_mod_cancel)
  moreover have "?b mod 1024 = i mod 1024" using base_div_mod [OF lt(3)] by simp
  ultimately have "?b mod 16 = ?b mod 1024" using n(3) by simp
  then have "unmark_pages (pdi p) (unat n) (pde_of ?b) (pte_of ?b) = Inr (pdi p')"
    using p'(1) calc_offsets [OF lt(1)] by (auto simp: free_pages_def rbind_Inr_iff simp del: of_nat_mult of_nat_add)
  moreover have "taken_at (pdi p) k" if "?b \<le> k \<and> k < ?b + unat n" for k
  proof -
    have "k = base_page + (k - base_page)" "k - base_page < 253952" "k - base_page \<in> {i..<i + unat n}" using that n(1) by auto
    with t sub show ?thesis unfolding taken_is_def by (metis subsetD)
  qed
  ultimately have "pages_inv (pdi p')" using unmark_pages_inv [OF lt(2)] t unfolding taken_is_def by blast
  with p' t show ?thesis by (auto simp: taken_is_def)
qed

lemma taken_is_fresh: "taken_is {} (paging_init bpt kpt st)"
  using paging_init_fresh area_size by (auto simp: taken_is_def)

section \<open>The interactive test returns\<close>

lemma room_rule:
  assumes "0 \<notin> T \<or> 1023 \<notin> T" "T \<subseteq> {..<2000}"
  shows "\<forall>d < 248. \<exists>r < 1024. 1024 * d + r \<notin> (T :: nat set)"
proof (intro allI impI)
  fix d :: nat
  show "\<exists>r < 1024. 1024 * d + r \<notin> T"
  proof (cases "d = 0")
    case True
    with assms(1) show ?thesis by (auto intro: exI [of _ 0] exI [of _ 1023])
  next
    case False
    then have "1024 * d + 1023 \<notin> T" using assms(2) by auto
    then show ?thesis by (intro exI [of _ 1023]) simp
  qed
qed

lemma alloc_run:
  assumes "taken_is T p" "0 \<notin> T \<or> 1023 \<notin> T" "T \<subseteq> {..<2000}" "0 < unat n" "i + unat n \<le> 253952"
    "\<And>k. k \<in> T \<Longrightarrow> k < i \<or> i + unat n \<le> k" "\<And>q. q < i \<Longrightarrow> \<exists>k \<in> T. q \<le> k \<and> k < q + unat n" "T' = T \<union> {i..<i + unat n}"
  shows "\<exists>p'. alloc_pages p n = Inr (p', word_of_nat (4096 * (base_page + i))) \<and> taken_is T' p'"
  unfolding assms(8) using assms(1-5)
proof (intro alloc_at room_rule)
  show "{i..<i + unat n} \<inter> T = {}" using assms(6) by fastforce
  show "{q..<q + unat n} \<inter> T \<noteq> {}" if "q < i" for q using assms(7) [OF that] by auto
qed

text \<open>A string in a region of a page or more is read back by a message.\<close>

lemma copy_and_show:
  assumes c: "con_inv c" and b: "terminated buff" "length (cstr buff) < 128" and n: "4096 \<le> n" "n \<le> 2 ^ 32"
  shows "\<exists>pm'. strcpy_to n a buff pm = Inr pm' \<and> terminated (window pm' a n) \<and> length (cstr (window pm' a n)) < 128 \<and>
    (\<exists>c'. ilog stk pm' ''Mem we allocated at: %d contains: %s'' [a, a] c = Inr c' \<and> con_inv c') \<and>
    (\<exists>c'. ilog stk pm' ''mem_2 at: %d contains : %s'' [a, a] c = Inr c' \<and> con_inv c')"
proof -
  from strcpy_to_ok [OF b(1) _ n(2), of a pm] b(2) n(1) obtain pm' where
    pm': "strcpy_to n a buff pm = Inr pm'" "\<And>m. 128 \<le> m \<Longrightarrow> m \<le> n \<Longrightarrow> terminated (window pm' a m) \<and> cstr (window pm' a m) = cstr buff" by auto
  then have "terminated (window pm' a 4096)" "length (cstr (window pm' a 4096)) < 128" using n(1) b(2) by simp_all
  from string_messages_ok [OF c this] pm' n(1) b(2) show ?thesis by simp
qed

lemma interactive_first_ok:
  assumes p: "taken_is {} p" and c: "con_inv c" and b: "terminated buff" "length (cstr buff) < 128"
  shows "\<exists>p' pm' c'. interactive_first stk buff (p, pm) c = Inr ((p', pm'), word_of_nat (4096 * (base_page + 5)), c') \<and> taken_is {5..<7} p' \<and> con_inv c'"
proof -
  define m where "m = (word_of_nat (4096 * (base_page + 0)) :: addr)"
  define m2 where "m2 = (word_of_nat (4096 * (base_page + 5)) :: addr)"
  have "\<exists>p'. alloc_pages p 5 = Inr (p', m) \<and> taken_is {0..<5} p'" unfolding m_def by (rule alloc_run [OF p]) auto
  then obtain p1 where p1: "alloc_pages p 5 = Inr (p1, m)" "taken_is {0..<5} p1" by blast
  from messages_ok(1) [OF c] obtain c1 where c1: "ilog stk pm ''Allocated %d page(s) at: %d'' [5, m] c = Inr c1" "con_inv c1" by blast
  from copy_and_show [OF c1(2) b, of "4096 * 5" m pm stk] obtain pm1 c2 where
    pm1: "strcpy_to (4096 * 5) m buff pm = Inr pm1" "terminated (window pm1 m (4096 * 5))" "length (cstr (window pm1 m (4096 * 5))) < 128"
      "ilog stk pm1 ''Mem we allocated at: %d contains: %s'' [m, m] c1 = Inr c2" "con_inv c2" by auto
  have "\<exists>p'. alloc_pages p1 2 = Inr (p', m2) \<and> taken_is {0..<7} p'" unfolding m2_def
    by (rule alloc_run [OF p1(2)]) (auto intro: bexI [of _ "min _ 4"])
  then obtain p2 where p2: "alloc_pages p1 2 = Inr (p2, m2)" "taken_is {0..<7} p2" by blast
  from messages_ok(2) [OF pm1(5)] obtain c3 where c3: "ilog stk pm1 ''Allocated 2 pages at: %d'' [m2] c2 = Inr c3" "con_inv c3" by blast
  from copy_and_show [OF c3(2) pm1(2,3), of "4096 * 2" m2 pm1 stk] obtain pm2 c4 where
    pm2: "strcpy_to (4096 * 2) m2 (window pm1 m (4096 * 5)) pm1 = Inr pm2" "ilog stk pm2 ''mem_2 at: %d contains : %s'' [m2, m2] c3 = Inr c4" "con_inv c4" by auto
  from messages_ok(3) [OF pm2(3)] obtain c5 where
    c5: "ilog stk pm2 ''Diff mem2 and mem: %d which is %d pages'' [m2 - m, page_diff m2 m] c4 = Inr c5" "con_inv c5" by blast
  from messages_ok(4) [OF c5(2)] obtain c6 where c6: "ilog stk pm2 ''Freeing %d pages at: %d'' [5, m] c5 = Inr c6" "con_inv c6" by blast
  have "{0..<7} - {0..<0 + unat (5 :: u32)} = {5..<7}" by auto
  with free_at [OF p2(2), of 0 5] obtain p3 where p3: "free_pages p2 m 5 = Inr p3" "taken_is {5..<7} p3" by (auto simp: m_def)
  have "interactive_first stk buff (p, pm) c = Inr ((p3, pm2), m2, c6)"
    by (simp only: interactive_first_def prod.case rbind_simps p1(1) c1(1) pm1(1,4) p2(1) c3(1) pm2(1,2) c5(1) c6(1) p3(1))
  with c6(2) p3(2) show ?thesis unfolding m2_def by blast
qed

lemma interactive_second_ok:
  assumes p: "taken_is {5..<7} p" and c: "con_inv c" and b: "terminated buff" "length (cstr buff) < 128"
  shows "\<exists>p' pm' c'. interactive_second stk buff (p, pm) m2 c = Inr ((p', pm'), c') \<and> taken_is ({5..<14} \<union> {1024..<1042}) p' \<and> con_inv c'"
proof -
  define m where "m = (word_of_nat (4096 * (base_page + 7)) :: addr)"
  define m3 where "m3 = (word_of_nat (4096 * (base_page + 1024)) :: addr)"
  have "\<exists>p'. alloc_pages p 1017 = Inr (p', m) \<and> taken_is {5..<1024} p'" unfolding m_def
    by (rule alloc_run [OF p]) (auto intro: bexI [of _ 6])
  then obtain p1 where p1: "alloc_pages p 1017 = Inr (p1, m)" "taken_is {5..<1024} p1" by blast
  from messages_ok(1) [OF c] obtain c1 where c1: "ilog stk pm ''Allocated %d page(s) at: %d'' [1017, m] c = Inr c1" "con_inv c1" by blast
  from copy_and_show [OF c1(2) b, of "4096 * 1017" m pm stk] obtain pm1 c2 where
    pm1: "strcpy_to (4096 * 1017) m buff pm = Inr pm1" "ilog stk pm1 ''Mem we allocated at: %d contains: %s'' [m, m] c1 = Inr c2" "con_inv c2" by auto
  from messages_ok(5) [OF pm1(3)] obtain c3 where
    c3: "ilog stk pm1 ''Diff mem and mem2: %d whic is %d pages'' [m - m2, page_diff m m2] c2 = Inr c3" "con_inv c3" by blast
  have "\<exists>p'. alloc_pages p1 (5 + 13) = Inr (p', m3) \<and> taken_is {5..<1042} p'" unfolding m3_def
  proof (rule alloc_run [OF p1(2)])
    show "\<exists>k \<in> {5..<1024}. q \<le> k \<and> k < q + unat (5 + 13 :: u32)" if "q < 1024" for q
      using that by (intro bexI [of _ "max q 5"]) auto
  qed auto
  then obtain p2 where p2: "alloc_pages p1 (5 + 13) = Inr (p2, m3)" "taken_is {5..<1042} p2" by blast
  have n3: "(4096 :: nat) \<le> 4096 * 18" "(4096 * 18 :: nat) \<le> 2 ^ 32" by simp_all
  from strcpy_to_ok [OF b(1) _ n3(2), of m3 pm1] b(2) obtain pm2 where pm2: "strcpy_to (4096 * 18) m3 buff pm1 = Inr pm2" by auto
  from messages_ok(6) [OF c3(2)] obtain c4 where c4: "ilog stk pm2 ''Allocated %d at: %d'' [5 + 13, m3] c3 = Inr c4" "con_inv c4" by blast
  from copy_and_show [OF c4(2) b n3, of m3 pm1 stk] pm2 obtain c5 where
    c5: "ilog stk pm2 ''Mem we allocated at: %d contains: %s'' [m3, m3] c4 = Inr c5" "con_inv c5" by auto
  from messages_ok(7) [OF c5(2)] obtain c6 where c6: "ilog stk pm2 ''Diff mem_3 and mem is %d pages'' [page_diff m3 m] c5 = Inr c6" "con_inv c6" by blast
  from messages_ok(8) [OF c6(2)] obtain c7 where c7: "ilog stk pm2 ''freeing %d at: %d'' [1017, m] c6 = Inr c7" "con_inv c7" by blast
  have "{5..<1042} - {7..<7 + unat (1017 :: u32)} = {5..<7} \<union> {1024..<1042}" by auto
  with free_at [OF p2(2), of 7 1017] obtain p3 where p3: "free_pages p2 m 1017 = Inr p3" "taken_is ({5..<7} \<union> {1024..<1042}) p3" by (auto simp: m_def)
  have "\<exists>p'. alloc_pages p3 7 = Inr (p', m) \<and> taken_is ({5..<14} \<union> {1024..<1042}) p'" unfolding m_def
    by (rule alloc_run [OF p3(2)]) (auto intro: bexI [of _ 6])
  then obtain p4 where p4: "alloc_pages p3 7 = Inr (p4, m)" "taken_is ({5..<14} \<union> {1024..<1042}) p4" by blast
  from messages_ok(9) [OF c7(2)] obtain c8 where c8: "ilog stk pm2 ''Allocated 7 page(s) at: %d'' [m] c7 = Inr c8" "con_inv c8" by blast
  from messages_ok(10) [OF c8(2)] obtain c9 where c9: "ilog stk pm2 ''Diff mem and mem_2: %d'' [page_diff m m2] c8 = Inr c9" "con_inv c9" by blast
  have "interactive_second stk buff (p, pm) m2 c = Inr ((p4, pm2), c9)"
    by (simp only: interactive_second_def prod.case rbind_simps p1(1) c1(1) pm1(1,2) c3(1) p2(1) pm2 c4(1) c5(1) c6(1) c7(1) p3(1) p4(1) c8(1) c9(1))
  with p4(2) c9(2) show ?thesis by blast
qed

text \<open>
  The interactive test of the page allocator runs to its end on a freshly initialised allocator: every string it copies is found again where it
  was copied to, and afterwards the nine pages from number 5 on and the eighteen of the second table are taken, everything else is free.
\<close>

theorem interactive_test_runs:
  assumes c: "con_inv c" and b: "length buff0 = 256"
  shows "\<exists>p' pm' c'. interactive_test stk buff0 (paging_init bpt kpt st, pm) c = Inr ((p', pm'), c') \<and> con_inv c' \<and>
    taken_is ({5..<14} \<union> {1024..<1042}) p'"
proof -
  let ?t = "bytes ''Bodos has frame allocation now!''"
  have t: "0 \<notin> set ?t" "length ?t = 31" by (simp_all add: bytes_def of_char_def)
  let ?b = "?t @ 0 # drop 32 buff0"
  have s: "strcpy buff0 (?t @ [0]) = Inr ?b" using strcpy_ok [of "?t @ [0]" buff0] t b by (simp add: terminated_def)
  have b': "terminated ?b" "length (cstr ?b) < 128" using t by (simp_all add: terminated_def)
  from interactive_first_ok [OF taken_is_fresh c b', of stk bpt kpt st pm] obtain p1 pm1 m2 c1 where
    f: "interactive_first stk ?b (paging_init bpt kpt st, pm) c = Inr ((p1, pm1), m2, c1)" "taken_is {5..<7} p1" "con_inv c1" by blast
  from interactive_second_ok [OF f(2,3) b', of stk pm1 m2] show ?thesis
    unfolding interactive_test_def s rbind_simps f(1) prod.case by blast
qed

section \<open>A round of the stress test\<close>

lemma stress_text: "0 \<notin> set (bytes ''Something comes here.'')" "length (bytes ''Something comes here.'') = 21"
  by (simp_all add: bytes_def of_char_def)

lemma stress_copy:
  assumes "0 < unat n"
  shows "\<exists>pm'. strcpy_to (4096 * unat n) a (bytes ''Something comes here.'' @ [0]) pm = Inr pm'"
proof -
  let ?s = "bytes ''Something comes here.'' @ [0]"
  have "length (window pm a (4096 * unat n)) = 4096 * unat n" by (simp add: window_def)
  then have "strcpy (window pm a (4096 * unat n)) ?s = Inr (cstr ?s @ 0 # drop (length (cstr ?s) + 1) (window pm a (4096 * unat n)))"
    using assms stress_text by (intro strcpy_ok) (simp_all add: terminated_def)
  then show ?thesis by (simp add: strcpy_to_def)
qed

text \<open>The array after the allocations of a round, when the first \<open>u\<close> pages were taken before.\<close>

fun placed :: "int \<Rightarrow> int \<Rightarrow> nat list \<Rightarrow> nat \<Rightarrow> alloc_info list \<Rightarrow> alloc_info list" where
  "placed scaler iter [] u arr = arr"
| "placed scaler iter (j # js) u arr = placed scaler iter js (u + unat (stress_pages scaler iter j))
     (arr[j := \<lparr>location = word_of_nat (4096 * (base_page + u)), num_of_pages = stress_pages scaler iter j\<rparr>])"

lemma stress_allocs_ok:
  assumes "taken_is {..<u} p" "\<forall>j \<in> set js. 0 < unat (stress_pages scaler iter j)" "u + (\<Sum>j\<leftarrow>js. unat (stress_pages scaler iter j)) \<le> 1000"
  shows "\<exists>p' pm'. stress_allocs scaler iter js (p, pm) arr = Inr ((p', pm'), placed scaler iter js u arr) \<and>
    taken_is {..<u + (\<Sum>j\<leftarrow>js. unat (stress_pages scaler iter j))} p'"
  using assms
proof (induction js arbitrary: u p pm arr)
  case (Cons j js)
  let ?n = "stress_pages scaler iter j"
  have n: "0 < unat ?n" "u + unat ?n \<le> 1000" using Cons.prems(2,3) by simp_all
  have "\<exists>p'. alloc_pages p ?n = Inr (p', word_of_nat (4096 * (base_page + u))) \<and> taken_is {..<u + unat ?n} p'"
    using n by (intro alloc_run [OF Cons.prems(1)]) auto
  then obtain p1 where p1: "alloc_pages p ?n = Inr (p1, word_of_nat (4096 * (base_page + u)))" "taken_is {..<u + unat ?n} p1" by blast
  obtain pm1 where pm1: "strcpy_to (4096 * unat ?n) (word_of_nat (4096 * (base_page + u))) (bytes ''Something comes here.'' @ [0]) pm = Inr pm1"
    using stress_copy [OF n(1)] by blast
  from Cons.IH [OF p1(2)] Cons.prems(2,3) show ?case by (simp add: p1(1) pm1 Let_def add.assoc del: of_nat_mult of_nat_add distrib_left_numeral)
qed simp

lemma stress_frees_ok:
  assumes "\<forall>j \<in> set js. location (arr ! j) = word_of_nat (4096 * P j) \<and> P j < num_pages \<and> freed_from (P j) + unat (num_of_pages (arr ! j)) \<le> num_pages"
  shows "\<exists>p'. stress_frees js arr p = Inr p' \<and> (\<forall>k. taken_at (pdi p') k \<longleftrightarrow> taken_at (pdi p) k \<and>
    (\<forall>j \<in> set js. \<not> (freed_from (P j) \<le> k \<and> k < freed_from (P j) + unat (num_of_pages (arr ! j)))))"
  using assms
proof (induction js arbitrary: p)
  case (Cons j js)
  from free_pages_run [of "P j" "num_of_pages (arr ! j)" p] Cons.prems obtain p1 where
    p1: "free_pages p (location (arr ! j)) (num_of_pages (arr ! j)) = Inr p1"
      "\<forall>k. taken_at (pdi p1) k \<longleftrightarrow> taken_at (pdi p) k \<and> \<not> (freed_from (P j) \<le> k \<and> k < freed_from (P j) + unat (num_of_pages (arr ! j)))" by auto
  from Cons.IH [of p1] Cons.prems p1 show ?case by auto
qed simp

lemma length_placed [simp]: "length (placed s i js u arr) = length arr"
  by (induction js arbitrary: u arr) simp_all

lemma placed_other: "j \<notin> set js \<Longrightarrow> placed s i js u arr ! j = arr ! j"
  by (induction js arbitrary: u arr) simp_all

text \<open>A run is placed behind the runs before it.\<close>

lemma placed_nth:
  assumes "a \<le> j" "j < b" "b \<le> length arr"
  shows "placed s i [a..<b] u arr ! j =
    \<lparr>location = word_of_nat (4096 * (base_page + (u + (\<Sum>l\<leftarrow>[a..<j]. unat (stress_pages s i l))))), num_of_pages = stress_pages s i j\<rparr>"
  using assms
proof (induction "b - a" arbitrary: a u arr)
  case (Suc m)
  let ?e = "\<lparr>location = word_of_nat (4096 * (base_page + u)), num_of_pages = stress_pages s i a\<rparr>"
  have ab: "[a..<b] = a # [Suc a..<b]" using Suc.prems by (simp add: upt_conv_Cons)
  show ?case
  proof (cases "j = a")
    case True
    have "placed s i [Suc a..<b] v (arr[a := ?e]) ! a = ?e" for v
      using Suc.prems by (subst placed_other) (simp_all del: of_nat_mult of_nat_add distrib_left_numeral)
    then show ?thesis unfolding ab True by (simp del: of_nat_mult of_nat_add distrib_left_numeral)
  next
    case False
    then have "[a..<j] = a # [Suc a..<j]" using Suc.prems by (simp add: upt_conv_Cons)
    moreover have "m = b - Suc a" using Suc.hyps(2) by simp
    ultimately show ?thesis using Suc.hyps(1) [of "Suc a" "arr[a := ?e]" "u + unat (stress_pages s i a)"] Suc.prems False
      by (simp add: ab add.assoc del: of_nat_mult of_nat_add distrib_left_numeral)
  qed
qed simp

section \<open>The first two rounds\<close>

lemma stress_pages_0: "stress_pages s 0 j = 1"
  by (simp add: stress_pages_def)

lemma stress_pages_1:
  "stress_pages 1 1 0 = 1" "stress_pages 1 1 1 = 2" "stress_pages 1 1 (Suc 0) = 2" "stress_pages 1 1 2 = 3" "stress_pages 1 1 3 = 1" "stress_pages 1 1 4 = 2"
  "stress_pages 1 1 5 = 3" "stress_pages 1 1 6 = 1" "stress_pages 1 1 7 = 2" "stress_pages 1 1 8 = 3" "stress_pages 1 1 9 = 1"
  by (simp_all add: stress_pages_def)

text \<open>Where the runs of the second round start.\<close>

definition run_starts :: "nat list" where
  "run_starts = [0, 1, 3, 6, 7, 9, 12, 13, 15, 18]"

lemma upt_10: "[0..<10] = [0, 1, 2, 3, 4, 5, 6, 7, 8, 9]"
  by (simp add: upt_rec)

lemma round_1_sizes: "map (\<lambda>j. unat (stress_pages 1 1 j)) [0..<10] = [1, 2, 3, 1, 2, 3, 1, 2, 3, 1]"
  by (simp add: upt_10 stress_pages_1)

lemma round_1_starts:
  assumes "j < 10"
  shows "(\<Sum>l\<leftarrow>[0..<j]. unat (stress_pages 1 1 l)) = run_starts ! j"
proof -
  have "(\<Sum>l\<leftarrow>[0..<j]. unat (stress_pages 1 1 l)) = sum_list (take j [1, 2, 3, 1, 2, 3, 1, 2, 3, 1])"
    unfolding round_1_sizes [symmetric] take_map using assms by simp
  moreover have "list_all (\<lambda>j. sum_list (take j [1, 2, 3, 1, 2, 3, 1, 2, 3, 1]) = run_starts ! j) [0..<10]"
    by (simp add: upt_10 run_starts_def)
  ultimately show ?thesis using assms by (simp add: list_all_iff)
qed

lemma round_1_bounds:
  assumes "j < 10"
  shows "run_starts ! j \<le> 18" "0 < unat (stress_pages 1 1 j)" "unat (stress_pages 1 1 j) \<le> 3"
proof -
  have "list_all (\<lambda>j. run_starts ! j \<le> 18 \<and> 0 < unat (stress_pages 1 1 j) \<and> unat (stress_pages 1 1 j) \<le> 3) [0..<10]"
    by (simp add: upt_10 run_starts_def stress_pages_1)
  then show "run_starts ! j \<le> 18" "0 < unat (stress_pages 1 1 j)" "unat (stress_pages 1 1 j) \<le> 3" using assms by (simp_all add: list_all_iff)
qed

lemma round_1_freed: "(\<exists>j \<in> {0..<10}. run_starts ! j mod 16 \<le> k \<and> k < run_starts ! j mod 16 + unat (stress_pages 1 1 j)) \<longleftrightarrow> k < 18"
proof -
  have "(\<exists>j \<in> {0..<10}. Q j) \<longleftrightarrow> list_ex Q [0..<10]" for Q :: "nat \<Rightarrow> bool" by (auto simp: list_ex_iff)
  then show ?thesis by (simp add: upt_10 run_starts_def stress_pages_1) linarith
qed

text \<open>The first round allocates ten pages and releases them.\<close>

lemma stress_frees_ones:
  assumes "taken_is {a..<10} p" "a \<le> 10" "\<forall>j < 10. arr ! j = \<lparr>location = word_of_nat (4096 * (base_page + j)), num_of_pages = 1\<rparr>"
  shows "\<exists>p'. stress_frees [a..<10] arr p = Inr p' \<and> taken_is {} p'"
  using assms
proof (induction "10 - a" arbitrary: a p)
  case (Suc m)
  have a: "a < 10" "m = 10 - Suc a" using Suc.hyps(2) by simp_all
  have "{a..<10} - {a..<a + unat (1 :: u32)} = {Suc a..<10}" by auto
  with free_at [OF Suc.prems(1), of a 1] a(1) obtain p1 where p1: "free_pages p (word_of_nat (4096 * (base_page + a))) 1 = Inr p1" "taken_is {Suc a..<10} p1"
    by (auto simp del: of_nat_mult of_nat_add distrib_left_numeral)
  from Suc.hyps(1) [OF a(2) p1(2)] a(1) Suc.prems(3) show ?case by (simp add: upt_conv_Cons p1(1) del: of_nat_mult of_nat_add distrib_left_numeral)
qed simp

lemma round_0:
  assumes "taken_is {} p" "length arr = 10"
  shows "\<exists>p' pm' arr'. stress_iters s (0 # is) (p, pm) arr = stress_iters s is (p', pm') arr' \<and> taken_is {} p' \<and> length arr' = 10"
proof -
  let ?arr = "placed s 0 [0..<10] 0 arr"
  have P: "\<forall>j < 10. ?arr ! j = \<lparr>location = word_of_nat (4096 * (base_page + j)), num_of_pages = 1\<rparr>"
    using placed_nth [of 0 _ 10 arr s 0 0] assms(2) by (simp add: stress_pages_0 sum_list_triv del: of_nat_mult of_nat_add distrib_left_numeral)
  have "taken_is {..<0} p" using assms(1) by simp
  from stress_allocs_ok [OF this, of "[0..<10]" s 0 pm arr] obtain p1 pm' where
    p1: "stress_allocs s 0 [0..<10] (p, pm) arr = Inr ((p1, pm'), ?arr)" "taken_is {0..<10} p1"
    by (auto simp: stress_pages_0 sum_list_triv lessThan_atLeast0)
  from stress_frees_ones [OF p1(2) _ P] obtain p2 where "stress_frees [0..<10] ?arr p1 = Inr p2" "taken_is {} p2" by auto
  with p1(1) assms(2) show ?thesis by (intro exI [of _ p2] exI [of _ pm'] exI [of _ ?arr]) (simp add: NUM_OF_MEMORIES_def)
qed

lemma round_1_array:
  assumes "length arr = 10" "j < 10"
  shows "placed 1 1 [0..<10] 0 arr ! j = \<lparr>location = word_of_nat (4096 * (base_page + run_starts ! j)), num_of_pages = stress_pages 1 1 j\<rparr>"
    "base_page + run_starts ! j < num_pages" "freed_from (base_page + run_starts ! j) = base_page + run_starts ! j mod 16"
    "freed_from (base_page + run_starts ! j) + unat (stress_pages 1 1 j) \<le> num_pages"
proof -
  note r = round_1_bounds [OF assms(2)]
  show "placed 1 1 [0..<10] 0 arr ! j = \<lparr>location = word_of_nat (4096 * (base_page + run_starts ! j)), num_of_pages = stress_pages 1 1 j\<rparr>"
    using placed_nth [of 0 j 10 arr 1 1 0] round_1_starts [OF assms(2)] assms by simp
  show "base_page + run_starts ! j < num_pages" using r(1) area_size by simp
  show f: "freed_from (base_page + run_starts ! j) = base_page + run_starts ! j mod 16" using freed_from_base [of "run_starts ! j"] r(1) by simp
  have "run_starts ! j mod 16 < 16" by simp
  then show "freed_from (base_page + run_starts ! j) + unat (stress_pages 1 1 j) \<le> num_pages" using r(3) area_size unfolding f by linarith
qed

text \<open>
  The stress test does not notice that it loses pages. From a freshly initialised page allocator its first two rounds return, every run
  allocated is handed to \<^verbatim>\<open>free_pages\<close> with its own size, and yet the last page of the second round, number 18 of the table, stays taken: its
  release hits page 2, which is free already.
\<close>

theorem stress_test_loses_page:
  assumes "length arr = 10"
  shows "\<exists>p' pm' arr'. stress_iters 1 [0, 1] (paging_init bpt kpt st, pm) arr = Inr ((p', pm'), arr') \<and>
    (\<forall>i < 253952. taken_at (pdi p') (base_page + i) \<longleftrightarrow> i = 18)"
proof -
  from round_0 [OF taken_is_fresh assms, of 1 "[1]" bpt kpt st pm] obtain p pm0 arr0 where
    p: "stress_iters 1 [0, 1] (paging_init bpt kpt st, pm) arr = stress_iters 1 [1] (p, pm0) arr0" "taken_is {..<0} p" "length arr0 = 10" by auto
  let ?arr = "placed 1 1 [0..<10] 0 arr0"
  let ?P = "\<lambda>j. base_page + run_starts ! j"
  note r = round_1_array [OF p(3)]
  have sum: "(\<Sum>j\<leftarrow>[0..<10]. unat (stress_pages 1 1 j)) = 19" unfolding round_1_sizes by simp
  from stress_allocs_ok [OF p(2), of "[0..<10]" 1 1 pm0 arr0] round_1_bounds(2) obtain p1 pm' where
    p1: "stress_allocs 1 1 [0..<10] (p, pm0) arr0 = Inr ((p1, pm'), ?arr)" "taken_is {..<19} p1" unfolding sum by auto
  from stress_frees_ok [of "[0..<10]" ?arr ?P p1] r obtain p2 where p2: "stress_frees [0..<10] ?arr p1 = Inr p2"
    "\<forall>k. taken_at (pdi p2) k \<longleftrightarrow> taken_at (pdi p1) k \<and>
      (\<forall>j \<in> {0..<10}. \<not> (freed_from (?P j) \<le> k \<and> k < freed_from (?P j) + unat (stress_pages 1 1 j)))" by auto
  have "taken_at (pdi p2) (base_page + i) \<longleftrightarrow> i = 18" if "i < 253952" for i
  proof -
    have "(\<forall>j \<in> {0..<10}. \<not> (freed_from (?P j) \<le> base_page + i \<and> base_page + i < freed_from (?P j) + unat (stress_pages 1 1 j))) \<longleftrightarrow>
      \<not> (\<exists>j \<in> {0..<10}. run_starts ! j mod 16 \<le> i \<and> i < run_starts ! j mod 16 + unat (stress_pages 1 1 j))"
      using r(3) by auto
    then show ?thesis using p1(2) p2(2) that unfolding round_1_freed by (auto simp: taken_is_def)
  qed
  with p1(1) p2(1) show ?thesis unfolding p(1) by (auto simp: NUM_OF_MEMORIES_def)
qed

end
