(* ===== verification/Printers.thy ===== *)
theory Printers
  imports Kernel_Utils Prio_Queue_Spec Linked_Queue Process
begin

text \<open>
  The debugging output of the containers and of the process table: \<^verbatim>\<open>print\<close> of the classes of \<^verbatim>\<open>queue.h\<close> and \<^verbatim>\<open>proc.h\<close>, \<^verbatim>\<open>sortedPrint\<close> of
  \<^verbatim>\<open>tests/ContainerTester.h\<close> and \<^verbatim>\<open>generateRandomNumbers\<close> of \<^verbatim>\<open>tests/RandomTest.cpp\<close>. \<open>stk\<close> and \<open>strs\<close> are the parameters of
  \<^verbatim>\<open>kprintf\<close>: uninitialised stack and the strings in memory.
\<close>

section \<open>The functions\<close>

definition say :: "(nat \<Rightarrow> u8) \<Rightarrow> (addr \<Rightarrow> u8 list) \<Rightarrow> u8 list \<Rightarrow> u32 list \<Rightarrow> console \<Rightarrow> console result" where
  "say stk strs format args c = rbind (kprintf stk strs (format @ [0]) args c) (\<lambda>(c', _). Inr c')"

text \<open>\<^verbatim>\<open>priority_queue::print\<close> for 32-bit keys and values; an element takes eight bytes.\<close>

fun pq_print_items :: "(nat \<Rightarrow> u8) \<Rightarrow> (addr \<Rightarrow> u8 list) \<Rightarrow> (int, int) priority_queue \<Rightarrow> nat list \<Rightarrow> console \<Rightarrow> console result" where
  "pq_print_items stk strs q [] c = Inr c"
| "pq_print_items stk strs q (i # is) c =
     rbind (rd (pq_mem q) (int i)) (\<lambda>e.
     rbind (say stk strs (bytes ''k: %d v: %d [%d] '') [word_of_int (key e), word_of_int (val e), pq_ptr q + 8 * word_of_nat i] c)
       (pq_print_items stk strs q is))"

definition pq_print :: "(nat \<Rightarrow> u8) \<Rightarrow> (addr \<Rightarrow> u8 list) \<Rightarrow> (int, int) priority_queue \<Rightarrow> console \<Rightarrow> console result" where
  "pq_print stk strs q c =
     rbind (say stk strs (bytes ''Priority Queue content: '' @ [0x0A]) [] c) (\<lambda>c1.
     rbind (pq_print_items stk strs q [0..<nat (pq_count q)] c1) (say stk strs [0x0A] []))"

definition rl_print :: "(nat \<Rightarrow> u8) \<Rightarrow> (addr \<Rightarrow> u8 list) \<Rightarrow> ready_list \<Rightarrow> console \<Rightarrow> console result" where
  "rl_print stk strs rl = pq_print stk strs (rl_queue rl)"

definition printReadyList :: "(nat \<Rightarrow> u8) \<Rightarrow> (addr \<Rightarrow> u8 list) \<Rightarrow> proc_table \<Rightarrow> console \<Rightarrow> console result" where
  "printReadyList stk strs t = rl_print stk strs (t_ready t)"

text \<open>\<^verbatim>\<open>queue::print\<close>.\<close>

partial_function (option) queue_print_loop :: "(nat \<Rightarrow> u8) \<Rightarrow> (addr \<Rightarrow> u8 list) \<Rightarrow> int nodes \<Rightarrow> addr \<Rightarrow> console \<Rightarrow> (console result) option" where
  "queue_print_loop stk strs s nd c =
     (if nd \<noteq> NULL then
        case say stk strs (bytes ''Value at node: %d is: %d '') [nd, word_of_int (nvalue (s nd))] c of
          Inl e \<Rightarrow> Some (Inl e)
        | Inr c' \<Rightarrow> queue_print_loop stk strs s (nnext (s nd)) c'
      else Some (Inr c))"

definition queue_print :: "(nat \<Rightarrow> u8) \<Rightarrow> (addr \<Rightarrow> u8 list) \<Rightarrow> int nodes \<Rightarrow> lqueue \<Rightarrow> console \<Rightarrow> console result" where
  "queue_print stk strs s q c =
     rbind (say stk strs (bytes ''queue content:'' @ [0x0A]) [] c) (\<lambda>c1.
     rbind (case queue_print_loop stk strs s (q_head q) c1 of None \<Rightarrow> Inl Hang | Some r \<Rightarrow> r) (say stk strs [0x0A] []))"

fun status_number :: "proc_status \<Rightarrow> u32" where
  "status_number PR_CURR = 0"
| "status_number PR_RUNNABLE = 1"
| "status_number PR_SUSPENDED = 2"
| "status_number PR_DEAD = 3"
| "status_number PR_NA = 4"

definition pe_print :: "(nat \<Rightarrow> u8) \<Rightarrow> (addr \<Rightarrow> u8 list) \<Rightarrow> proc_entry \<Rightarrow> console \<Rightarrow> console result" where
  "pe_print stk strs e = say stk strs
     (bytes ''Procentry: _id: %d, _code: %d, _sp: %d, _stackmem: %d, _status: %d, _priority: %d'' @ [0x0A])
     [word_of_int (pe_id e), pe_code e, pe_sp e, pe_stackmem e, status_number (pe_status e), word_of_int (pe_prio e)]"

text \<open>\<^verbatim>\<open>sortedPrint\<close> takes the queue by reference and empties it.\<close>

fun sorted_items :: "(nat \<Rightarrow> u8) \<Rightarrow> (addr \<Rightarrow> u8 list) \<Rightarrow> nat \<Rightarrow> (u32, u32) priority_queue \<Rightarrow> console \<Rightarrow> ((u32, u32) priority_queue \<times> console) result" where
  "sorted_items stk strs 0 pq c = Inr (pq, c)"
| "sorted_items stk strs (Suc n) pq c =
     rbind (pq_dequeue pq) (\<lambda>(kv, pq').
     rbind (say stk strs (bytes ''%d '') [key kv] c) (sorted_items stk strs n pq'))"

definition sortedPrint :: "(nat \<Rightarrow> u8) \<Rightarrow> (addr \<Rightarrow> u8 list) \<Rightarrow> (u32, u32) priority_queue \<Rightarrow> console \<Rightarrow> ((u32, u32) priority_queue \<times> console) result" where
  "sortedPrint stk strs pq c =
     (let cnt = pq_length pq
      in rbind (say stk strs (bytes ''Priority Queue sorted: '' @ [0x0A]) [] c) (\<lambda>c1.
         rbind (sorted_items stk strs (nat cnt) pq c1) (\<lambda>(pq', c2).
         rbind (say stk strs [0x0A] [] c2) (\<lambda>c3. Inr (pq', c3)))))"

fun generateRandomNumbers :: "(nat \<Rightarrow> u8) \<Rightarrow> (addr \<Rightarrow> u8 list) \<Rightarrow> tsc \<Rightarrow> nat \<Rightarrow> nat \<Rightarrow> u64 \<Rightarrow> console \<Rightarrow> console result" where
  "generateRandomNumbers stk strs ts p 0 limit c = Inr c"
| "generateRandomNumbers stk strs ts p (Suc n) limit c =
     rbind (rand_at ts p limit) (\<lambda>r.
     rbind (say stk strs (bytes ''%d'' @ [0x0A]) [r] c) (generateRandomNumbers stk strs ts (p + 1) n limit))"

section \<open>What they type\<close>

lemma say_ok:
  assumes "con_inv c" "f = pieces ps e" "args = map snd ps" "\<forall>(t, v) \<in> set ps. plain t" "plain e"
  shows "\<exists>c'. say stk strs f args c = Inr c' \<and> wrote c (filled ps e) c'"
  using kprintf_pieces [OF assms(1,4,5), of stk strs INFO False] assms(2,3) by (auto simp: say_def kprintf_def)

lemma say_plain: "con_inv c \<Longrightarrow> plain e \<Longrightarrow> \<exists>c'. say stk strs e [] c = Inr c' \<and> wrote c e c'"
  using say_ok [of c e "[]" e "[]" stk strs] by simp

lemma wrote_inv: "wrote c out c' \<Longrightarrow> con_inv c'"
  by (simp add: wrote_def)

lemma wrote_nil [simp]: "con_inv c \<Longrightarrow> wrote c [] c"
  by (simp add: wrote_def)

text \<open>The text of an element.\<close>

definition item_text :: "(int, int) priority_queue \<Rightarrow> nat \<Rightarrow> u8 list" where
  "item_text q i = filled [(bytes ''k: '', word_of_int (key (pq_mem q ! i))), (bytes '' v: '', word_of_int (val (pq_mem q ! i))),
     (bytes '' ['', pq_ptr q + 8 * word_of_nat i)] (bytes ''] '')"

lemma pq_print_items_ok:
  assumes "\<forall>i \<in> set is. i < length (pq_mem q)"
  shows "con_inv c \<Longrightarrow> \<exists>c'. pq_print_items stk strs q is c = Inr c' \<and> wrote c (concat (map (item_text q) is)) c'"
  using assms
proof (induction "is" arbitrary: c)
  case (Cons i "is")
  let ?ps = "[(bytes ''k: '', word_of_int (key (pq_mem q ! i))), (bytes '' v: '', word_of_int (val (pq_mem q ! i))),
     (bytes '' ['', pq_ptr q + 8 * word_of_nat i)] :: (u8 list \<times> u32) list"
  have f: "bytes ''k: %d v: %d [%d] '' = pieces ?ps (bytes ''] '')" by (simp add: bytes_def of_char_def)
  from say_ok [OF Cons.prems(1) f refl, of stk strs] obtain c1 where
    c1: "say stk strs (bytes ''k: %d v: %d [%d] '') (map snd ?ps) c = Inr c1" "wrote c (item_text q i) c1"
    by (auto simp: plain_def item_text_def bytes_def of_char_def)
  from Cons.IH [OF wrote_inv [OF c1(2)]] Cons.prems(2) obtain c2 where
    c2: "pq_print_items stk strs q is c1 = Inr c2" "wrote c1 (concat (map (item_text q) is)) c2" by auto
  have "rd (pq_mem q) (int i) = Inr (pq_mem q ! i)" using Cons.prems(2) by (simp add: rd_nat)
  then show ?case using c1(1) c2(1) wrote_trans [OF c1(2) c2(2)] by simp
qed simp

lemma pq_print_ok:
  assumes "con_inv c" "pq_inv q"
  shows "\<exists>c'. pq_print stk strs q c = Inr c' \<and>
    wrote c (bytes ''Priority Queue content: '' @ [0x0A] @ concat (map (item_text q) [0..<nat (pq_count q)]) @ [0x0A]) c'"
proof -
  have p: "plain (bytes ''Priority Queue content: '' @ [0x0A])" "plain [0x0A]" by (simp_all add: plain_def bytes_def of_char_def)
  from say_plain [OF assms(1) p(1), of stk strs] obtain c1 where c1: "say stk strs (bytes ''Priority Queue content: '' @ [0x0A]) [] c = Inr c1"
    "wrote c (bytes ''Priority Queue content: '' @ [0x0A]) c1" by blast
  have "\<forall>i \<in> set [0..<nat (pq_count q)]. i < length (pq_mem q)" using assms(2) by (auto simp: pq_inv_def)
  from pq_print_items_ok [OF this wrote_inv [OF c1(2)], of stk strs] obtain c2 where
    c2: "pq_print_items stk strs q [0..<nat (pq_count q)] c1 = Inr c2" "wrote c1 (concat (map (item_text q) [0..<nat (pq_count q)])) c2" by blast
  from say_plain [OF wrote_inv [OF c2(2)] p(2), of stk strs] obtain c3 where c3: "say stk strs [0x0A] [] c2 = Inr c3" "wrote c2 [0x0A] c3" by blast
  have "wrote c (bytes ''Priority Queue content: '' @ [0x0A] @ concat (map (item_text q) [0..<nat (pq_count q)]) @ [0x0A]) c3"
    using wrote_trans [OF wrote_trans [OF c1(2) c2(2)] c3(2)] by simp
  then show ?thesis using c1(1) c2(1) c3(1) by (simp add: pq_print_def)
qed

text \<open>The ready list of a sound process table is printed like this as well.\<close>

lemma printReadyList_ok:
  assumes "con_inv c" "pq_inv (rl_queue (t_ready t))"
  shows "\<exists>c'. printReadyList stk strs t c = Inr c' \<and> con_inv c'"
  using pq_print_ok [OF assms, of stk strs] by (auto simp: printReadyList_def rl_print_def dest: wrote_inv)

definition node_text :: "int nodes \<Rightarrow> addr \<Rightarrow> u8 list" where
  "node_text s a = filled [(bytes ''Value at node: '', a), (bytes '' is: '', word_of_int (nvalue (s a)))] (bytes '' '')"

lemma queue_print_loop_ok:
  "lpath s p as \<Longrightarrow> con_inv c \<Longrightarrow> \<exists>c'. queue_print_loop stk strs s p c = Some (Inr c') \<and> wrote c (concat (map (node_text s) as)) c'"
proof (induction as arbitrary: p c)
  case Nil
  then show ?case by (subst queue_print_loop.simps) simp
next
  case (Cons a as)
  let ?ps = "[(bytes ''Value at node: '', a), (bytes '' is: '', word_of_int (nvalue (s a)))] :: (u8 list \<times> u32) list"
  have f: "bytes ''Value at node: %d is: %d '' = pieces ?ps (bytes '' '')" by (simp add: bytes_def of_char_def)
  from say_ok [OF Cons.prems(2) f refl, of stk strs] obtain c1 where
    c1: "say stk strs (bytes ''Value at node: %d is: %d '') (map snd ?ps) c = Inr c1" "wrote c (node_text s a) c1"
    by (auto simp: plain_def node_text_def bytes_def of_char_def)
  have p: "p = a" "p \<noteq> NULL" "lpath s (nnext (s p)) as" using Cons.prems(1) by auto
  from Cons.IH [OF p(3) wrote_inv [OF c1(2)]] obtain c2 where
    c2: "queue_print_loop stk strs s (nnext (s p)) c1 = Some (Inr c2)" "wrote c1 (concat (map (node_text s) as)) c2" by blast
  show ?case using c1(1) c2(1) wrote_trans [OF c1(2) c2(2)] p by (subst queue_print_loop.simps) simp
qed

lemma queue_print_ok:
  assumes "con_inv c" "queue_state sz h s q as"
  shows "\<exists>c'. queue_print stk strs s q c = Inr c' \<and> wrote c (bytes ''queue content:'' @ [0x0A] @ concat (map (node_text s) as) @ [0x0A]) c'"
proof -
  have p: "plain (bytes ''queue content:'' @ [0x0A])" "plain [0x0A]" by (simp_all add: plain_def bytes_def of_char_def)
  from say_plain [OF assms(1) p(1), of stk strs] obtain c1 where c1: "say stk strs (bytes ''queue content:'' @ [0x0A]) [] c = Inr c1"
    "wrote c (bytes ''queue content:'' @ [0x0A]) c1" by blast
  have "lpath s (q_head q) as" using assms(2) by (simp add: queue_state_def)
  from queue_print_loop_ok [OF this wrote_inv [OF c1(2)], of stk strs] obtain c2 where
    c2: "queue_print_loop stk strs s (q_head q) c1 = Some (Inr c2)" "wrote c1 (concat (map (node_text s) as)) c2" by blast
  from say_plain [OF wrote_inv [OF c2(2)] p(2), of stk strs] obtain c3 where c3: "say stk strs [0x0A] [] c2 = Inr c3" "wrote c2 [0x0A] c3" by blast
  have "wrote c (bytes ''queue content:'' @ [0x0A] @ concat (map (node_text s) as) @ [0x0A]) c3"
    using wrote_trans [OF wrote_trans [OF c1(2) c2(2)] c3(2)] by simp
  then show ?thesis using c1(1) c2(1) c3(1) by (simp add: queue_print_def)
qed

lemma pe_print_ok:
  assumes "con_inv c"
  shows "\<exists>c'. pe_print stk strs e c = Inr c' \<and> wrote c (filled [(bytes ''Procentry: _id: '', word_of_int (pe_id e)), (bytes '', _code: '', pe_code e),
     (bytes '', _sp: '', pe_sp e), (bytes '', _stackmem: '', pe_stackmem e), (bytes '', _status: '', status_number (pe_status e)),
     (bytes '', _priority: '', word_of_int (pe_prio e))] [0x0A]) c'"
  unfolding pe_print_def by (rule say_ok [OF assms]) (simp_all add: plain_def bytes_def of_char_def)

lemma generateRandomNumbers_ok:
  assumes "0 < lim" "lim \<le> 2 ^ 32"
  shows "con_inv c \<Longrightarrow> \<exists>rs c'. generateRandomNumbers stk strs ts p n (word_of_nat lim) c = Inr c' \<and> length rs = n \<and> (\<forall>r \<in> set rs. r < lim) \<and>
    wrote c (concat (map (\<lambda>r. digits r @ [0x0A]) rs)) c'"
proof (induction n arbitrary: p c)
  case (Suc n)
  from rand_at_value [OF assms, of ts p] obtain r where r: "rand_at ts p (word_of_nat lim) = Inr r" "unat r = stamp ts p mod lim" by blast
  have "bytes ''%d'' @ [0x0A] = pieces [([], r)] [0x0A]" "[r] = map snd [([] :: u8 list, r)]" by (simp_all add: bytes_def of_char_def)
  from say_ok [OF Suc.prems this, of stk strs] obtain c1 where
    c1: "say stk strs (bytes ''%d'' @ [0x0A]) [r] c = Inr c1" "wrote c (digits (unat r) @ [0x0A]) c1" by (auto simp: plain_def)
  from Suc.IH [OF wrote_inv [OF c1(2)], of "p + 1"] obtain rs c2 where
    c2: "generateRandomNumbers stk strs ts (p + 1) n (word_of_nat lim) c1 = Inr c2" "length rs = n" "\<forall>r \<in> set rs. r < lim"
      "wrote c1 (concat (map (\<lambda>r. digits r @ [0x0A]) rs)) c2" by blast
  have "unat r < lim" using r(2) assms(1) by simp
  then show ?case using r(1) c1(1) c2(1-3) wrote_trans [OF c1(2) c2(4)] by (intro exI [of _ "unat r # rs"] exI [of _ c2]) simp
qed (intro exI [of _ "[]"], simp)

lemma sorted_items_ok:
  "con_inv c \<Longrightarrow> pq_inv q \<Longrightarrow> pq_count q = int n \<Longrightarrow>
   \<exists>ks q' c'. sorted_items stk strs n q c = Inr (q', c') \<and> pq_count q' = 0 \<and> mset ks = image_mset key (pq_mset q) \<and> sorted (rev ks) \<and>
     wrote c (concat (map (\<lambda>k. digits (unat k) @ [0x20]) ks)) c'"
proof (induction n arbitrary: q c)
  case 0
  then show ?case by (intro exI [of _ "[]"]) (simp add: pq_mset_def)
next
  case (Suc n)
  have pos: "0 < pq_count q" using Suc.prems(3) by simp
  let ?e = "pq_mem q ! 0"
  from pq_dequeue_correct [OF Suc.prems(2) pos] obtain q1 where
    d: "pq_dequeue q = Inr (?e, q1)" "pq_inv q1" "pq_count q1 = pq_count q - 1" "pq_mset q1 = pq_mset q - {#?e#}" by blast
  have "bytes ''%d '' = pieces [([], key ?e)] [0x20]" "[key ?e] = map snd [([] :: u8 list, key ?e)]" by (simp_all add: bytes_def of_char_def)
  from say_ok [OF Suc.prems(1) this, of stk strs] obtain c1 where
    c1: "say stk strs (bytes ''%d '') [key ?e] c = Inr c1" "wrote c (digits (unat (key ?e)) @ [0x20]) c1" by (auto simp: plain_def)
  have "pq_count q1 = int n" using d(3) Suc.prems(3) by simp
  from Suc.IH [OF wrote_inv [OF c1(2)] d(2) this] obtain ks q' c' where
    ks: "sorted_items stk strs n q1 c1 = Inr (q', c')" "pq_count q' = 0" "mset ks = image_mset key (pq_mset q1)" "sorted (rev ks)"
      "wrote c1 (concat (map (\<lambda>k. digits (unat k) @ [0x20]) ks)) c'" by blast
  have mem: "?e \<in># pq_mset q" and max: "\<forall>x \<in># pq_mset q. key x \<le> key ?e" using pq_top_max [OF Suc.prems(2) pos] by auto
  have "mset (key ?e # ks) = image_mset key (pq_mset q)" using mem by (simp add: ks(3) d(4) image_mset_Diff)
  moreover have "sorted (rev (key ?e # ks))"
  proof -
    have "x \<le> key ?e" if "x \<in> set ks" for x
    proof -
      have "x \<in># image_mset key (pq_mset q1)" using that ks(3) by (metis set_mset_mset)
      then show ?thesis using max d(4) by (auto dest: in_diffD)
    qed
    then show ?thesis using ks(4) by (simp add: sorted_append)
  qed
  ultimately show ?case using d(1) c1(1) ks(1,2) wrote_trans [OF c1(2) ks(5)]
    by (intro exI [of _ "key ?e # ks"] exI [of _ q'] exI [of _ c']) simp
qed

section \<open>The property\<close>

text \<open>
  \<^verbatim>\<open>sortedPrint\<close> sorts: on a heap-ordered priority queue it types the keys of all elements, each as often as it occurs, in descending order, each
  followed by a blank, between its two lines, and leaves the queue empty.
\<close>

theorem sortedPrint_sorts:
  assumes "con_inv c" "pq_inv q"
  shows "\<exists>ks q' c'. sortedPrint stk strs q c = Inr (q', c') \<and> pq_count q' = 0 \<and> mset ks = image_mset key (pq_mset q) \<and> sorted (rev ks) \<and>
    wrote c (bytes ''Priority Queue sorted: '' @ [0x0A] @ concat (map (\<lambda>k. digits (unat k) @ [0x20]) ks) @ [0x0A]) c'"
proof -
  have p: "plain (bytes ''Priority Queue sorted: '' @ [0x0A])" "plain [0x0A]" by (simp_all add: plain_def bytes_def of_char_def)
  from say_plain [OF assms(1) p(1), of stk strs] obtain c1 where c1: "say stk strs (bytes ''Priority Queue sorted: '' @ [0x0A]) [] c = Inr c1"
    "wrote c (bytes ''Priority Queue sorted: '' @ [0x0A]) c1" by blast
  have "pq_count q = int (nat (pq_length q))" using assms(2) by (simp add: pq_inv_def pq_length_def)
  from sorted_items_ok [OF wrote_inv [OF c1(2)] assms(2) this] obtain ks q' c2 where
    c2: "sorted_items stk strs (nat (pq_length q)) q c1 = Inr (q', c2)" "pq_count q' = 0" "mset ks = image_mset key (pq_mset q)" "sorted (rev ks)"
      "wrote c1 (concat (map (\<lambda>k. digits (unat k) @ [0x20]) ks)) c2" by blast
  from say_plain [OF wrote_inv [OF c2(5)] p(2), of stk strs] obtain c3 where c3: "say stk strs [0x0A] [] c2 = Inr c3" "wrote c2 [0x0A] c3" by blast
  have "wrote c (bytes ''Priority Queue sorted: '' @ [0x0A] @ concat (map (\<lambda>k. digits (unat k) @ [0x20]) ks) @ [0x0A]) c3"
    using wrote_trans [OF wrote_trans [OF c1(2) c2(5)] c3(2)] by simp
  then show ?thesis using c1(1) c2(1-4) c3(1) by (auto simp: sortedPrint_def Let_def)
qed

theorem sortedPrint_sorts_witness:
  "\<exists>q' c'. sortedPrint (\<lambda>_. 0) (\<lambda>_. []) \<lparr>pq_ptr = 16, pq_mem = [\<lparr>key = 9, val = 1\<rparr>, \<lparr>key = 4, val = 2\<rparr>, \<lparr>key = 7, val = 3\<rparr>], pq_size = 3, pq_count = 3\<rparr>
     console0 = Inr (q', c') \<and> pq_count q' = 0"
proof -
  let ?q = "\<lparr>pq_ptr = 16, pq_mem = [\<lparr>key = 9, val = 1\<rparr>, \<lparr>key = 4, val = 2\<rparr>, \<lparr>key = 7, val = 3\<rparr>], pq_size = 3, pq_count = 3\<rparr> :: (u32, u32) priority_queue"
  have "is_heap (pq_mem ?q) 3"
    unfolding is_heap_def
  proof (intro allI impI)
    fix i :: nat assume "0 < i \<and> i < 3"
    then consider "i = 1" | "i = 2" by linarith
    then show "keyat (pq_mem ?q) i \<le> keyat (pq_mem ?q) (par i)" by cases (simp_all add: par_def)
  qed
  then have "pq_inv ?q" by (simp add: pq_inv_def)
  from sortedPrint_sorts [OF console0_inv this, of "\<lambda>_. 0" "\<lambda>_. []"] show ?thesis by blast
qed

end
