(* ===== verification/Test_Objects.thy ===== *)
theory Test_Objects
  imports Printers
begin

text \<open>
  The objects of the memory tests: \<^verbatim>\<open>Foo\<close>, \<^verbatim>\<open>Boo\<close>, \<^verbatim>\<open>Shape\<close> and \<^verbatim>\<open>Triangle\<close> of \<^verbatim>\<open>tests/MemoryTester.h\<close>, and \<^verbatim>\<open>Foo\<close> and \<^verbatim>\<open>Boo\<close> of the hosted
  prototype \<^verbatim>\<open>src/src/scratch/alloc.h\<close>, which print with \<^verbatim>\<open>printf\<close> of the host. A constructor starts from the memory of the object; its
  character arrays are buffers with checked accesses.
\<close>

section \<open>Foo and Boo\<close>

record foo =
  foo_i :: int
  foo_j :: int
  foo_c :: "u8 list"

record boo =
  boo_foo :: foo
  boo_f :: "u8 list"

definition FOO_PADDING :: nat where "FOO_PADDING = 8"
definition BOO_PADDING :: nat where "BOO_PADDING = 32"

definition Foo_new :: "foo \<Rightarrow> foo result" where
  "Foo_new o0 = (let o1 = o0\<lparr>foo_i := 0, foo_j := 0\<rparr> in rbind (memset (foo_c o1) 0x43 FOO_PADDING) (\<lambda>c. Inr (o1\<lparr>foo_c := c\<rparr>)))"

definition Foo_ctor :: "int \<Rightarrow> int \<Rightarrow> foo \<Rightarrow> foo result" where
  "Foo_ctor i j o0 = (let o1 = o0\<lparr>foo_i := i, foo_j := j\<rparr> in rbind (memset (foo_c o1) 0x43 FOO_PADDING) (\<lambda>c. Inr (o1\<lparr>foo_c := c\<rparr>)))"

definition Foo_destroy :: "foo \<Rightarrow> foo result" where
  "Foo_destroy o0 = (let o1 = o0\<lparr>foo_i := 253\<rparr>; o2 = o1\<lparr>foo_j := 254\<rparr> in rbind (memset (foo_c o2) 0x44 FOO_PADDING) (\<lambda>c. Inr (o2\<lparr>foo_c := c\<rparr>)))"

text \<open>A \<^verbatim>\<open>char\<close> is promoted to \<^verbatim>\<open>int\<close> when it is passed on.\<close>

fun print_chars :: "(nat \<Rightarrow> u8) \<Rightarrow> (addr \<Rightarrow> u8 list) \<Rightarrow> u8 list \<Rightarrow> nat list \<Rightarrow> console \<Rightarrow> console result" where
  "print_chars stk strs buf [] c = Inr c"
| "print_chars stk strs buf (i # is) c =
     rbind (rd buf (int i)) (\<lambda>ch. rbind (say stk strs (bytes ''%c'') [scast ch] c) (print_chars stk strs buf is))"

definition Foo_print :: "(nat \<Rightarrow> u8) \<Rightarrow> (addr \<Rightarrow> u8 list) \<Rightarrow> foo \<Rightarrow> console \<Rightarrow> console result" where
  "Foo_print stk strs f c =
     rbind (say stk strs (bytes ''%d'') [word_of_int (foo_i f)] c) (\<lambda>c1.
     rbind (say stk strs (bytes ''%d'') [word_of_int (foo_j f)] c1) (print_chars stk strs (foo_c f) [0..<FOO_PADDING]))"

text \<open>\<^verbatim>\<open>Boo()\<close> leaves its array alone; the destructor of the member runs behind the body of \<^verbatim>\<open>~Boo\<close>.\<close>

definition Boo_new :: "boo \<Rightarrow> boo result" where
  "Boo_new b = rbind (Foo_new (boo_foo b)) (\<lambda>f. Inr (b\<lparr>boo_foo := f\<rparr>))"

definition Boo_ctor :: "int \<Rightarrow> int \<Rightarrow> boo \<Rightarrow> boo result" where
  "Boo_ctor i j b = rbind (Foo_ctor i j (boo_foo b)) (\<lambda>f.
     rbind (memset (boo_f b) 0x45 BOO_PADDING) (\<lambda>m. Inr (b\<lparr>boo_foo := f, boo_f := m\<rparr>)))"

definition Boo_destroy :: "boo \<Rightarrow> boo result" where
  "Boo_destroy b = rbind (memset (boo_f b) 0x46 BOO_PADDING) (\<lambda>m. rbind (Foo_destroy (boo_foo b)) (\<lambda>f. Inr (b\<lparr>boo_foo := f, boo_f := m\<rparr>)))"

definition Boo_print :: "(nat \<Rightarrow> u8) \<Rightarrow> (addr \<Rightarrow> u8 list) \<Rightarrow> boo \<Rightarrow> console \<Rightarrow> console result" where
  "Boo_print stk strs b c =
     rbind (Foo_print stk strs (boo_foo b) c) (\<lambda>c1.
     rbind (print_chars stk strs (boo_f b) [0..<BOO_PADDING] c1) (say stk strs [0x0A] []))"

section \<open>Shapes\<close>

text \<open>The class of an object decides which \<^verbatim>\<open>print\<close> runs; the destructor of \<^verbatim>\<open>Triangle\<close> is followed by that of \<^verbatim>\<open>Shape\<close>.\<close>

datatype shape = Shape u32 | Triangle u32 u32

definition Triangle_new :: "u32 \<Rightarrow> shape" where
  "Triangle_new i = Triangle (i * 2) i"

fun Shape_print :: "(nat \<Rightarrow> u8) \<Rightarrow> (addr \<Rightarrow> u8 list) \<Rightarrow> shape \<Rightarrow> console \<Rightarrow> console result" where
  "Shape_print stk strs (Shape v) c = say stk strs (bytes ''Shape'' @ [0x0A]) [] c"
| "Shape_print stk strs (Triangle v t) c = say stk strs (bytes ''Triange: %d shape: %d'' @ [0x0A]) [t, v] c"

fun Shape_destroy :: "(nat \<Rightarrow> u8) \<Rightarrow> (addr \<Rightarrow> u8 list) \<Rightarrow> shape \<Rightarrow> console \<Rightarrow> console result" where
  "Shape_destroy stk strs (Shape v) c = say stk strs (bytes ''In destructor of Shape'' @ [0x0A]) [] c"
| "Shape_destroy stk strs (Triangle v t) c =
     rbind (say stk strs (bytes ''In destructor of Triangle'' @ [0x0A]) [] c) (say stk strs (bytes ''In destructor of Shape'' @ [0x0A]) [])"

section \<open>The objects of the prototype\<close>

text \<open>\<open>out\<close> is what the program has written; \<^verbatim>\<open>printf\<close> of the host prints a sign and the digit 0.\<close>

definition host_decimal :: "int \<Rightarrow> u8 list" where
  "host_decimal i = (if i < 0 then 0x2D # digits (nat (- i)) else if i = 0 then [0x30] else digits (nat i))"

fun p_print_chars :: "u8 list \<Rightarrow> nat list \<Rightarrow> u8 list \<Rightarrow> u8 list result" where
  "p_print_chars buf [] out = Inr out"
| "p_print_chars buf (i # is) out = rbind (rd buf (int i)) (\<lambda>ch. p_print_chars buf is (out @ [ch]))"

definition p_Foo_new :: "foo \<Rightarrow> foo result" where
  "p_Foo_new o0 = (let o1 = o0\<lparr>foo_i := 0, foo_j := 0\<rparr> in rbind (memset (foo_c o1) 0x43 FOO_PADDING) (\<lambda>c. Inr (o1\<lparr>foo_c := c\<rparr>)))"

definition p_Foo_ctor :: "int \<Rightarrow> int \<Rightarrow> foo \<Rightarrow> foo result" where
  "p_Foo_ctor i j o0 = (let o1 = o0\<lparr>foo_i := i, foo_j := j\<rparr> in rbind (memset (foo_c o1) 0x43 FOO_PADDING) (\<lambda>c. Inr (o1\<lparr>foo_c := c\<rparr>)))"

definition p_Foo_destroy :: "foo \<Rightarrow> foo result" where
  "p_Foo_destroy o0 = (let o1 = o0\<lparr>foo_i := 253\<rparr>; o2 = o1\<lparr>foo_j := 254\<rparr> in rbind (memset (foo_c o2) 0x44 FOO_PADDING) (\<lambda>c. Inr (o2\<lparr>foo_c := c\<rparr>)))"

definition p_Foo_print :: "foo \<Rightarrow> u8 list \<Rightarrow> u8 list result" where
  "p_Foo_print f out =
     (let out1 = out @ host_decimal (foo_i f); out2 = out1 @ host_decimal (foo_j f)
      in p_print_chars (foo_c f) [0..<FOO_PADDING] out2)"

definition p_Boo_new :: "boo \<Rightarrow> boo result" where
  "p_Boo_new b = rbind (p_Foo_new (boo_foo b)) (\<lambda>f. Inr (b\<lparr>boo_foo := f\<rparr>))"

definition p_Boo_ctor :: "int \<Rightarrow> int \<Rightarrow> boo \<Rightarrow> boo result" where
  "p_Boo_ctor i j b = rbind (p_Foo_ctor i j (boo_foo b)) (\<lambda>f.
     rbind (memset (boo_f b) 0x45 BOO_PADDING) (\<lambda>m. Inr (b\<lparr>boo_foo := f, boo_f := m\<rparr>)))"

definition p_Boo_destroy :: "boo \<Rightarrow> boo result" where
  "p_Boo_destroy b = rbind (memset (boo_f b) 0x46 BOO_PADDING) (\<lambda>m. rbind (p_Foo_destroy (boo_foo b)) (\<lambda>f. Inr (b\<lparr>boo_foo := f, boo_f := m\<rparr>)))"

definition p_Boo_print :: "boo \<Rightarrow> u8 list \<Rightarrow> u8 list result" where
  "p_Boo_print b out =
     rbind (p_Foo_print (boo_foo b) out) (\<lambda>out1.
     rbind (p_print_chars (boo_f b) [0..<BOO_PADDING] out1) (\<lambda>out2. Inr (out2 @ [0x0A])))"

section \<open>What is printed\<close>

definition boo_ok :: "boo \<Rightarrow> bool" where
  "boo_ok b \<longleftrightarrow> length (foo_c (boo_foo b)) = FOO_PADDING \<and> length (boo_f b) = BOO_PADDING"

lemma say_char:
  assumes "con_inv c" "ch \<noteq> 0"
  shows "\<exists>c'. say stk strs (bytes ''%c'') [scast ch] c = Inr c' \<and> wrote c [ch] c'"
proof -
  have f: "bytes ''%c'' = [0x25, 0x63]" by (simp add: bytes_def of_char_def)
  have u: "(ucast (scast ch :: u32) :: u8) = ch" by (rule bit_word_eqI) (simp add: bit_simps)
  have "render strs [0x25, 0x63] [scast ch] cur = Some [ch]" for cur
    using assms(2) by (subst render.simps) (simp add: isspace_def arg_text_def u, subst render.simps, simp)
  moreover have "terminated [0x25, 0x63, 0]" "cstr [0x25, 0x63, 0 :: u8] = [0x25, 0x63]" by (simp_all add: terminated_def cstr_def)
  ultimately show ?thesis
    using kprintf_level_ok [OF assms(1), where f = "[0x25, 0x63, 0]" and strs = strs and args = "[scast ch]" and stk = stk and app = False and lev = INFO]
    by (auto simp: say_def kprintf_def f)
qed

lemma print_chars_ok:
  assumes "\<forall>i \<in> set is. i < length buf \<and> buf ! i \<noteq> 0"
  shows "con_inv c \<Longrightarrow> \<exists>c'. print_chars stk strs buf is c = Inr c' \<and> wrote c (map ((!) buf) is) c'"
  using assms
proof (induction "is" arbitrary: c)
  case (Cons i "is")
  from say_char [OF Cons.prems(1), of "buf ! i" stk strs] Cons.prems(2) obtain c1 where
    c1: "say stk strs (bytes ''%c'') [scast (buf ! i)] c = Inr c1" "wrote c [buf ! i] c1" by auto
  from Cons.IH [OF wrote_inv [OF c1(2)]] Cons.prems(2) obtain c2 where
    c2: "print_chars stk strs buf is c1 = Inr c2" "wrote c1 (map ((!) buf) is) c2" by auto
  have "rd buf (int i) = Inr (buf ! i)" using Cons.prems(2) by (simp add: rd_nat)
  then show ?case using c1(1) c2(1) wrote_trans [OF c1(2) c2(2)] by simp
qed simp

lemma p_print_chars_ok: "\<forall>i \<in> set is. i < length buf \<Longrightarrow> p_print_chars buf is out = Inr (out @ map ((!) buf) is)"
  by (induction "is" arbitrary: out) (simp_all add: rd_nat)

lemma map_nth_all: "length xs = n \<Longrightarrow> map ((!) xs) [0..<n] = xs"
  by (metis map_nth)

lemma say_number: "con_inv c \<Longrightarrow> \<exists>c'. say stk strs (bytes ''%d'') [v] c = Inr c' \<and> wrote c (digits (unat v)) c'"
  using say_ok [of c "bytes ''%d''" "[([], v)]" "[]" "[v]" stk strs] by (simp add: bytes_def of_char_def plain_def)

text \<open>The kernel prints a number as the host does exactly from 1 on.\<close>

lemma host_decimal_positive:
  assumes "0 < i" "i < 2 ^ 31"
  shows "digits (unat (word_of_int i :: u32)) = host_decimal i"
  using assms by (simp add: host_decimal_def unsigned_of_int take_bit_int_eq_self)

lemma Boo_print_ok:
  assumes c: "con_inv c" and b: "boo_ok b" "0 \<notin> set (foo_c (boo_foo b))" "0 \<notin> set (boo_f b)"
  shows "\<exists>c'. Boo_print stk strs b c = Inr c' \<and>
    wrote c (digits (unat (word_of_int (foo_i (boo_foo b)) :: u32)) @ digits (unat (word_of_int (foo_j (boo_foo b)) :: u32)) @
      foo_c (boo_foo b) @ boo_f b @ [0x0A]) c'"
proof -
  let ?f = "boo_foo b"
  from say_number [OF c, of stk strs "word_of_int (foo_i ?f)"] obtain c1 where
    c1: "say stk strs (bytes ''%d'') [word_of_int (foo_i ?f)] c = Inr c1" "wrote c (digits (unat (word_of_int (foo_i ?f) :: u32))) c1" by blast
  from say_number [OF wrote_inv [OF c1(2)], of stk strs "word_of_int (foo_j ?f)"] obtain c2 where
    c2: "say stk strs (bytes ''%d'') [word_of_int (foo_j ?f)] c1 = Inr c2" "wrote c1 (digits (unat (word_of_int (foo_j ?f) :: u32))) c2" by blast
  have n: "\<forall>i \<in> set [0..<FOO_PADDING]. i < length (foo_c ?f) \<and> foo_c ?f ! i \<noteq> 0" "\<forall>i \<in> set [0..<BOO_PADDING]. i < length (boo_f b) \<and> boo_f b ! i \<noteq> 0"
    using b unfolding boo_ok_def by (metis atLeastLessThan_iff atLeastLessThan_upt nth_mem)+
  from print_chars_ok [OF n(1) wrote_inv [OF c2(2)], of stk strs] b(1) obtain c3 where
    c3: "print_chars stk strs (foo_c ?f) [0..<FOO_PADDING] c2 = Inr c3" "wrote c2 (foo_c ?f) c3" by (auto simp: boo_ok_def map_nth_all)
  from print_chars_ok [OF n(2) wrote_inv [OF c3(2)], of stk strs] b(1) obtain c4 where
    c4: "print_chars stk strs (boo_f b) [0..<BOO_PADDING] c3 = Inr c4" "wrote c3 (boo_f b) c4" by (auto simp: boo_ok_def map_nth_all)
  from say_plain [OF wrote_inv [OF c4(2)], of "[0x0A]" stk strs] obtain c5 where c5: "say stk strs [0x0A] [] c4 = Inr c5" "wrote c4 [0x0A] c5"
    by (auto simp: plain_def)
  from wrote_trans [OF wrote_trans [OF wrote_trans [OF wrote_trans [OF c1(2) c2(2)] c3(2)] c4(2)] c5(2)] show ?thesis
    by (simp add: Boo_print_def Foo_print_def c1(1) c2(1) c3(1) c4(1) c5(1))
qed

lemma p_Boo_print_ok:
  assumes "boo_ok b"
  shows "p_Boo_print b out = Inr (out @ host_decimal (foo_i (boo_foo b)) @ host_decimal (foo_j (boo_foo b)) @ foo_c (boo_foo b) @ boo_f b @ [0x0A])"
proof -
  have "p_print_chars (foo_c (boo_foo b)) [0..<FOO_PADDING] o1 = Inr (o1 @ foo_c (boo_foo b))"
    "p_print_chars (boo_f b) [0..<BOO_PADDING] o1 = Inr (o1 @ boo_f b)" for o1
    using assms by (subst p_print_chars_ok; simp add: boo_ok_def map_nth_all)+
  then show ?thesis by (simp add: p_Boo_print_def p_Foo_print_def Let_def)
qed

lemma Boo_ctor_ok:
  assumes "boo_ok b"
  shows "Boo_ctor i j b = Inr (b\<lparr>boo_foo := (boo_foo b)\<lparr>foo_i := i, foo_j := j, foo_c := replicate FOO_PADDING 0x43\<rparr>, boo_f := replicate BOO_PADDING 0x45\<rparr>)"
  using assms by (simp add: Boo_ctor_def Foo_ctor_def boo_ok_def memset_ok Let_def)

lemma Boo_destroy_ok:
  assumes "boo_ok b"
  shows "Boo_destroy b = Inr (b\<lparr>boo_foo := (boo_foo b)\<lparr>foo_i := 253, foo_j := 254, foo_c := replicate FOO_PADDING 0x44\<rparr>, boo_f := replicate BOO_PADDING 0x46\<rparr>)"
  using assms by (simp add: Boo_destroy_def Foo_destroy_def boo_ok_def memset_ok Let_def)

text \<open>
  The objects of the kernel and of the prototype print the same text when their numbers are positive: constructed with \<open>i\<close> and \<open>j\<close>, printed, destroyed and
  printed again, a \<^verbatim>\<open>Boo\<close> types in the kernel what it writes on the host. (For 0 the kernel types nothing, and for a
  negative number a large positive one.)
\<close>

theorem Boo_prints_as_on_host:
  assumes c: "con_inv c" and b: "boo_ok b" and ij: "0 < i" "i < 2 ^ 31" "0 < j" "j < 2 ^ 31"
  shows "\<exists>b1 b2 c1 c2 out1 out2. Boo_ctor i j b = Inr b1 \<and> Boo_print stk strs b1 c = Inr c1 \<and> Boo_destroy b1 = Inr b2 \<and> Boo_print stk strs b2 c1 = Inr c2 \<and>
    p_Boo_ctor i j b = Inr b1 \<and> p_Boo_print b1 [] = Inr out1 \<and> p_Boo_destroy b1 = Inr b2 \<and> p_Boo_print b2 out1 = Inr out2 \<and> wrote c out2 c2"
proof -
  define b1 where "b1 = b\<lparr>boo_foo := (boo_foo b)\<lparr>foo_i := i, foo_j := j, foo_c := replicate FOO_PADDING 0x43\<rparr>, boo_f := replicate BOO_PADDING 0x45\<rparr>"
  define b2 where "b2 = b1\<lparr>boo_foo := (boo_foo b1)\<lparr>foo_i := 253, foo_j := 254, foo_c := replicate FOO_PADDING 0x44\<rparr>, boo_f := replicate BOO_PADDING 0x46\<rparr>"
  have o1: "boo_ok b1" "boo_ok b2" by (simp_all add: b1_def b2_def boo_ok_def)
  have p: "p_Boo_ctor i j b = Boo_ctor i j b" "p_Boo_destroy b1 = Boo_destroy b1"
    by (simp_all add: p_Boo_ctor_def Boo_ctor_def p_Foo_ctor_def Foo_ctor_def p_Boo_destroy_def Boo_destroy_def p_Foo_destroy_def Foo_destroy_def)
  note h = host_decimal_positive [OF ij(1,2)] host_decimal_positive [OF ij(3,4)]
  have h': "host_decimal 253 = digits 253" "host_decimal 254 = digits 254" by (simp_all add: host_decimal_def)
  from Boo_print_ok [OF c o1(1), of stk strs] obtain c1 where
    c1: "Boo_print stk strs b1 c = Inr c1" "wrote c (host_decimal i @ host_decimal j @ foo_c (boo_foo b1) @ boo_f b1 @ [0x0A]) c1" by (auto simp: b1_def h)
  from Boo_print_ok [OF wrote_inv [OF c1(2)] o1(2), of stk strs] obtain c2 where
    c2: "Boo_print stk strs b2 c1 = Inr c2" "wrote c1 (host_decimal 253 @ host_decimal 254 @ foo_c (boo_foo b2) @ boo_f b2 @ [0x0A]) c2" by (auto simp: b2_def h')
  from wrote_trans [OF c1(2) c2(2)] c1(1) c2(1) Boo_ctor_ok [OF b, of i j] Boo_destroy_ok [OF o1(1)] show ?thesis
    by (simp add: p p_Boo_print_ok o1 b1_def [symmetric] b2_def [symmetric]) (simp add: b1_def b2_def)
qed

text \<open>\<^verbatim>\<open>delete\<close> of a \<^verbatim>\<open>Triangle\<close> through a pointer to \<^verbatim>\<open>Shape\<close> runs both destructors.\<close>

lemma Triangle_destroyed:
  assumes "con_inv c"
  shows "\<exists>c'. Shape_destroy stk strs (Triangle_new i) c = Inr c' \<and>
    wrote c (bytes ''In destructor of Triangle'' @ [0x0A] @ bytes ''In destructor of Shape'' @ [0x0A]) c'"
proof -
  have p: "plain (bytes ''In destructor of Triangle'' @ [0x0A])" "plain (bytes ''In destructor of Shape'' @ [0x0A])"
    by (simp_all add: plain_def bytes_def of_char_def)
  from say_plain [OF assms p(1), of stk strs] obtain c1 where c1: "say stk strs (bytes ''In destructor of Triangle'' @ [0x0A]) [] c = Inr c1"
    "wrote c (bytes ''In destructor of Triangle'' @ [0x0A]) c1" by blast
  from say_plain [OF wrote_inv [OF c1(2)] p(2), of stk strs] c1 wrote_trans [OF c1(2)] show ?thesis
    by (fastforce simp: Triangle_new_def)
qed

end
