(* ===== verification/Spec2Isabelle.thy ===== *)
theory Spec2Isabelle
  imports Heap_Spec Prio_Queue_Spec Linked_Queue Hash_Map Paging_Spec Context_Switch Process_Spec Kprintf Kernel_Utils Boot
    Heap_Bytes Kernel_Main Preemption Prototype Boot_Entry Page_Tests Test_Objects Scheduler_Progress
begin

text \<open>
  A verification library of \<^emph>\<open>bodos\<close>, a small kernel for the i386 (\<^verbatim>\<open>src/src/kernel\<close>, \<^verbatim>\<open>src/src/libc\<close>), and of
  the hosted prototype of its heap (\<^verbatim>\<open>src/src/scratch\<close>).

  \<^bold>\<open>The program.\<close> The boot loader enters \<^verbatim>\<open>_start\<close>, which turns paging on and calls \<^verbatim>\<open>kernel_main\<close>. That function
  initialises the terminal, the descriptor tables, the
  interrupt controllers and their handlers, paging, the heap, the process table and the scheduler, raises a software
  interrupt and runs the self tests. From the start of the scheduler on timer
  interrupts call the scheduler through the observers of the timer, keyboard interrupts type on the terminal, and
  threads create, suspend and kill each other. The heap takes its memory from the page allocator; the process table,
  its ready list (a priority queue), the thread stacks and the containers live in the heap; every message goes
  through \<^verbatim>\<open>kprintf\<close>, which uses the C library and the terminal.

  \<^bold>\<open>How it is modelled.\<close> Code that can fail returns a value of \<open>fault + 'a\<close> (\<open>Bodos_Prelude\<close>): \<open>Hang\<close> for a loop that does
  not end, \<open>OutOfBounds\<close> for an access outside an array or a buffer, \<open>NullAccess\<close>, \<open>UninitRead\<close>, \<open>DivByZero\<close> and
  \<open>MissingArg\<close>. Such a fault is undefined behaviour or a hang of the real code; the theorems say when it does
  not occur, and where it does. Words have the width of the C type, \<^verbatim>\<open>int\<close> is \<open>int\<close> where the code cannot overflow it. State is a record
  passed through the operations. Loops without a bound are \<open>partial_function (option)\<close>; the others are total
  functions with their termination measures, so no fuel is used anywhere. What is not code of the repository
  is a parameter: addresses the linker chooses, the content of uninitialised memory, what an input port returns, the stack
  pointer at an interrupt.

  \<^bold>\<open>The theories.\<close>
  \<^item> \<open>Allocator\<close>, \<open>Heap_Spec\<close>: \<^verbatim>\<open>kernel/mem/allocator.cpp\<close>, \<^verbatim>\<open>kmalloc.cpp\<close>. The headers of the chunks are a store at
    their addresses. \<^verbatim>\<open>kmalloc\<close> and \<^verbatim>\<open>kfree\<close> refine first fit and release with coalescing on a list of chunks;
    live blocks are disjoint; every reachable heap is well formed; \<^verbatim>\<open>kfree\<close> undoes \<^verbatim>\<open>kmalloc\<close>. The locale of an
    allocator states the interface the containers use.
  \<^item> \<open>Prio_Queue\<close>, \<open>Prio_Queue_Spec\<close>: the class \<^verbatim>\<open>priority_queue\<close> of \<^verbatim>\<open>containers/queue.h\<close>, a binary heap in a growable
    array; it implements a multiset with access to a maximal key, and \<^verbatim>\<open>is_correct\<close> decides the heap order.
  \<^item> \<open>Linked_Queue\<close>: the class \<^verbatim>\<open>queue\<close>, a linked list in the kernel heap: first in first out, removal by value and by
    index, no node is lost.
  \<^item> \<open>Hash_Map\<close>: \<^verbatim>\<open>unordered_map.h\<close>, \<^verbatim>\<open>hash.cpp\<close>, \<^verbatim>\<open>utils.h\<close>: a finite map; the integer hash is a bijection.
  \<^item> \<open>Paging\<close>, \<open>Paging_Spec\<close>: \<^verbatim>\<open>arch/i386/paging.c\<close>: the kernel tables map linearly, allocated pages are free and
    consecutive, the search finds the first run unless a full table follows a free page, and where it does not end or releases
    wrong pages.
  \<^item> \<open>Context_Switch\<close>: \<^verbatim>\<open>arch/i386/proc/stack.cpp\<close>, \<^verbatim>\<open>ctxswitch.s\<close>, \<^verbatim>\<open>interrupt_x86.s\<close> instruction by instruction: a thread that
    is switched away from and back to finds its registers and stack, a new thread starts in its function.
  \<^item> \<open>Process\<close>, \<open>Process_Spec\<close>: \<^verbatim>\<open>proc.h\<close>, \<^verbatim>\<open>proc.cpp\<close>, \<^verbatim>\<open>sched.cpp\<close>, \<^verbatim>\<open>proc_x86.cpp\<close>: the table, the ready list and the
    scheduler; the invariant of every reachable state (\<open>proc_step\<close>, \<open>proc_reach\<close>). \<open>Thread_Stacks\<close>: when the first frame of a new
    thread, which does not lie in the block allocated for it, spares what the kernel keeps in the heap.
  \<^item> \<open>Cstring\<close>: \<^verbatim>\<open>libc/string.c\<close>. \<open>Console\<close>, \<open>Console_Spec\<close>: \<^verbatim>\<open>tty.c\<close>, \<^verbatim>\<open>cursor.c\<close>, \<^verbatim>\<open>vga.h\<close>, \<^verbatim>\<open>serialport.c\<close>,
    \<^verbatim>\<open>keyboard.c\<close>, \<^verbatim>\<open>io.s\<close>: the terminal refines typing on a screen; the serial port sends everything if the line gets
    ready. \<open>Kprintf\<close>: \<^verbatim>\<open>kprintf.c\<close>: the output is the reference rendering of format and arguments.
  \<^item> \<open>Descriptors\<close>: \<^verbatim>\<open>gdt.c\<close>, \<^verbatim>\<open>idt.c\<close>: descriptors read back what was packed. \<open>Interrupts\<close>: \<^verbatim>\<open>irq.c\<close>, \<^verbatim>\<open>timer.cpp\<close>: routing,
    acknowledgement, observers. \<open>Kernel_Random\<close>: \<^verbatim>\<open>random.cpp\<close>, \<^verbatim>\<open>rdtsc.h\<close>. \<open>Kernel_Utils\<close>: \<^verbatim>\<open>debug.c\<close>, \<^verbatim>\<open>isr.c\<close>, the busy wait of the
    timer.
  \<^item> \<open>Boot\<close>: \<^verbatim>\<open>kernel.cpp\<close>, \<^verbatim>\<open>init.cpp\<close>: the states of the components side by side, the start, and the interrupts served
    afterwards; the theorems below are about this machine.
  \<^item> \<open>Boot_Entry\<close>: \<^verbatim>\<open>boot.s\<close> instruction by instruction up to the end of \<^verbatim>\<open>tlb_flush\<close>, where the missing \<^verbatim>\<open>ret\<close> lets the processor run
    into the next object: which pages are mapped then, and when the code itself and the boot loader's stack are among them. The two
    instructions behind the call, which enter \<^verbatim>\<open>kernel_main\<close>, are modelled apart.
  \<^item> \<open>Interrupt_Stubs\<close>: \<^verbatim>\<open>isr_irq.s\<close> and \<^verbatim>\<open>interrupt\<close> of \<^verbatim>\<open>interrupt_x86.s\<close>: an interrupt gives the C handler its number and the
    saved registers, and the interrupted code goes on with its registers and stack.
  \<^item> \<open>Heap_Bytes\<close>: the bytes behind the heap: what a client wrote into a live block is there after any allocations, releases and
    writes to other blocks.
  \<^item> The self tests. \<open>Memory_Tester\<close> and \<open>Container_Tester\<close>: \<^verbatim>\<open>tests/MemoryTester.h\<close>, \<^verbatim>\<open>tests/ContainerTester.h\<close>, which find no fault and end, the first
    one unless the time stamp counter never shows one of the residues it draws.
    \<open>Scheduler_Tester\<close>, \<open>Scheduler_Progress\<close>: \<^verbatim>\<open>tests/SchedulerTester.h\<close> with timer ticks between its statements: no
    fault but the one of a stack on kernel data, and without it the test ends. \<open>Page_Tests\<close>: the tests in \<^verbatim>\<open>paging.c\<close>. \<open>Test_Objects\<close>: the classes of the memory tests. \<open>Kernel_Main\<close>:
    \<^verbatim>\<open>kernel_main\<close> behind \<^verbatim>\<open>init\<close> and \<^verbatim>\<open>TestCenter.cpp\<close>, which run them on the machine of \<open>Boot\<close> with interrupts in between.
  \<^item> \<open>Printers\<close>: the debugging output of the containers and of the process table.
  \<^item> \<open>Starvation\<close>, \<open>Preemption\<close>: what the ready list does to threads of equal priority, and what a timer tick inside
    \<^verbatim>\<open>ready\<close> can do.
  \<^item> \<open>Prototype\<close>: \<^verbatim>\<open>scratch/alloc.h\<close>, \<^verbatim>\<open>scratch/mem.cpp\<close>: on a 32-bit host it computes what the heap of the kernel computes.

  \<^bold>\<open>Assumptions.\<close> Theorems that allocate ask for room in the heap (\<open>slack\<close>, the bytes of free chunks minus their
  headers): the code does not handle an exhausted heap, and taking the last chunk whole corrupts the list
  (\<open>kmalloc_last_chunk_escapes\<close>). The counter of the ready list is assumed to start at 0, which the constructor does
  not ensure. \<open>proc_step\<close> excludes \<^verbatim>\<open>ready\<close>, which can queue a process twice (\<open>ready_twice_duplicates\<close>), and killing
  the first two processes, which own no stack block or must always be able to run. Interrupts are served one at
  a time between the steps of threads, and a call into the kernel counts as one step; that \<^verbatim>\<open>resched\<close> disables
  and restores the interrupt mask is part of its theorem. The other calls do not mask interrupts, and \<open>Preemption\<close> shows what
  follows. In \<open>Kernel_Main\<close> the memory test and each container test count as one step. Compiled C code called from
  assembly (\<open>c_handler\<close>, \<open>switch_code\<close>) is assumed to keep the calling convention; how the processor delivers an
  interrupt and translates an address (\<open>deliver\<close>, \<open>translate\<close>) is its documented behaviour.

  \<^bold>\<open>Stacks and the heap.\<close> The initial stack of a thread lies three times its size behind its block (\<open>getstack_misplaced\<close>), so its
  frame can hit anything. \<open>kthread_create\<close> checks each of its words: a store outside the heap, into a header, the process table
  or the array of the ready list is the fault \<open>OutOfBounds\<close>, and no state behind it belongs to \<open>proc_reach\<close> or \<open>machine_reach\<close>.
  \<open>stack_clear\<close> says when there is none; the start of the kernel is free of it, and so are creations while all
  stacks are cut from the end of the heap. A frame in free memory or in another block is stored without a fault. Then the two overwrite each other in the program:
  the frame of the null process lies in free memory that later allocations use. The model does not show this, as the
  bytes of the heap in \<open>Heap_Bytes\<close> and the stack words of \<open>Process\<close> (\<open>k_mem\<close>) are separate, headers and tables are components of their own,
  and what running threads push on their stacks is part of \<open>Context_Switch\<close> and \<open>Interrupt_Stubs\<close> only, not of the steps
  of \<open>proc_reach\<close>. The theorems about reachable states hold as long as those pushes spare the data of the kernel.

  \<^bold>\<open>Not modelled.\<close> \<^verbatim>\<open>crti.s\<close>, \<^verbatim>\<open>crtn.s\<close>, the linker script and the build have no logic, and the addresses they fix are
  parameters. \<^verbatim>\<open>rand()\<close> without a limit has no return statement, nor has \<^verbatim>\<open>insert\<close> of the priority queue, whose result nobody
  reads. The endless loops behind \<^verbatim>\<open>kernel_main\<close> and in \<^verbatim>\<open>nullproc\<close> do
  nothing. The call of \<^verbatim>\<open>tlb_flush\<close> in \<^verbatim>\<open>paging_init\<close> is left out: the flush has no effect on the tables, but for the lack of a \<^verbatim>\<open>ret\<close> the
  call also runs the code the linker puts behind, which is that of \<^verbatim>\<open>tty.c\<close> and not modelled at this point. Products that overflow
  an \<^verbatim>\<open>int\<close> in \<^verbatim>\<open>virtual_addr\<close> wrap around. Messages of failed assertions
  before an endless loop are left out. One-line accessors of classes are the fields of the records. The observers and
  handlers called by an interrupt are those the kernel installs.
\<close>

section \<open>Properties of the whole kernel\<close>

text \<open>
  C2. Starting the kernel (\<^verbatim>\<open>init\<close> of \<^verbatim>\<open>kernel.cpp\<close>) from a freshly loaded image runs to its end without a fault: the
  segments are flat, the gates of the sixteen interrupt lines and of vector 0x80 lead to their routines, the timer and
  the keyboard have their handlers, the scheduler is the one observer of the timer, the heap lies in the
  pages the page allocator handed out, and the process table holds the boot thread (pid 1, running) and the
  null process (pid 0, ready).
\<close>

theorem kernel_init_correct:
  assumes "loaded e m"
  shows "\<exists>m'. kernel_init e m = Inr m' \<and> machine_inv m' \<and> cpu_ready e (m_desc m') \<and> k_curr (m_kernel m') = 1 \<and>
    runnable (m_kernel m') = {0} \<and> readyCount (k_table (m_kernel m')) = 1"
  using kernel_init_ok [OF assms] by blast

theorem kernel_init_correct_witness:
  "\<exists>m'. loaded env0 machine0 \<and> kernel_init env0 machine0 = Inr m' \<and> runnable (m_kernel m') = {0} \<and>
     gate_of (m_desc m') 33 = Some (0x08, 0xC0101110)"
proof -
  from kernel_init_correct [OF machine0_loaded] obtain m' where
    m': "kernel_init env0 machine0 = Inr m'" "cpu_ready env0 (m_desc m')" "runnable (m_kernel m') = {0}" by blast
  have "gate_of (m_desc m') (32 + 1) = Some (0x08, e_irq env0 1)" using m'(2) unfolding cpu_ready_def by (elim conjE allE [of _ 1]) simp
  with m' machine0_loaded show ?thesis by (auto simp: env0_def)
qed

text \<open>
  C1. In every state the started machine can reach by interrupts, process-management calls of its threads and terminal
  output, the invariants of the screen, the process table, the heap and the timer hold together, and interrupts of
  the sixteen lines, in any number and order, are served without a fault. A timer interrupt counts one tick, acknowledges the
  controller before it hands over to the scheduler, and reschedules exactly once: the only output to ports behind the acknowledgement are
  the writes by which \<^verbatim>\<open>resched\<close> masks the interrupts and restores the mask. The creation of a thread whose first
  frame would overwrite the process table, the ready list or a heap header is a fault, and so no step of \<open>machine_reach\<close>.
\<close>

theorem machine_reach_safe:
  assumes "machine_reach e m" "\<forall>n \<in> set ns. 32 \<le> unat n \<and> unat n < 48"
  shows "machine_inv m \<and> cpu_ready e (m_desc m) \<and> (\<exists>m'. serve_all (call_irq e sp) out_m m_irq ns m = Inr m' \<and> machine_inv m') \<and>
    (\<exists>m'. serve_irq e sp 32 m = Inr m' \<and> timer_ticks m' = timer_ticks m + 1 \<and>
       timerObserver (e_junk e) sp (m_kernel m) = Inr (m_kernel m') \<and> c_out (m_con m') = c_out (m_con m) @ (0x20, 0x20) # mask_writes (k_intr (m_kernel m')))"
proof -
  have i: "machine_inv m" "cpu_ready e (m_desc m)" using machine_reach_inv [OF assms(1)] by auto
  with ks.serve_all_keeps [of m "m_desc m" ns e sp] assms(2) serve_timer [OF i(1), of e sp] show ?thesis by blast
qed

theorem machine_reach_safe_witness:
  "\<exists>m m1 m2 m3. kernel_init env0 machine0 = Inr m \<and> serve_irq env0 0 33 m = Inr m1 \<and> serve_irq env0 0 32 m1 = Inr m2 \<and>
     timer_ticks m2 = timer_ticks m1 + 1 \<and> serve_all (call_irq env0 0) out_m m_irq [32, 33, 47, 32] m1 = Inr m3"
proof -
  obtain m where m: "kernel_init env0 machine0 = Inr m" "machine_inv m" using kernel_init_ok [OF machine0_loaded] by blast
  have r: "machine_reach env0 m" by (rule machine_reach.boot [OF machine0_loaded m(1)])
  have n: "32 \<le> unat (33 :: u32)" "unat (33 :: u32) < 48" by simp_all
  obtain m1 where m1: "serve_irq env0 0 33 m = Inr m1" using serve_irq_ok [OF m(2) n] by blast
  have r1: "machine_reach env0 m1" by (rule machine_reach.irq [OF r n m1])
  have "\<forall>n \<in> set [32, 33, 47, 32 :: u32]. 32 \<le> unat n \<and> unat n < 48" by simp
  from machine_reach_safe [OF r1 this, of 0] m(1) m1 show ?thesis by blast
qed

end
